(* ===== verification/Vow_Prelude.thy ===== *)
theory Vow_Prelude
  imports Main "HOL-Library.Word" "HOL-Library.Signed_Division"
begin

text \<open>
  Shared vocabulary of the development: the machine integers of the Rust program as words,
  the arithmetic operations of the Rust standard library that the program calls
  (\<open>checked_*\<close>, \<open>saturating_*\<close>, \<open>as\<close> casts, and the plain operators under
  \<^verbatim>\<open>overflow-checks = true\<close>), results of fallible code as sums, and little-endian byte
  encodings with their round-trip laws, stated once as the locale \<open>fixed_codec\<close>.
\<close>

named_theorems rust_arith \<comment> \<open>unsigned and signed readings of the integer operations\<close>
named_theorems res_simps \<comment> \<open>when does a fallible computation return \<open>Ok\<close>?\<close>

section \<open>Types\<close>

type_synonym u8 = "8 word"
type_synonym u32 = "32 word"
type_synonym u64 = "64 word"
type_synonym u128 = "128 word"
type_synonym i64 = "64 word" \<comment> \<open>read with \<open>sint\<close>\<close>
type_synonym i128 = "128 word" \<comment> \<open>read with \<open>sint\<close>\<close>
type_synonym byte = "8 word"

text \<open>A public key is an array of 32 bytes; the word is its little-endian value.\<close>

type_synonym pubkey = "256 word"

abbreviation default_pubkey :: pubkey where
  "default_pubkey \<equiv> 0"

section \<open>Results\<close>

abbreviation Ok :: "'a \<Rightarrow> 'e + 'a" where "Ok \<equiv> Inr"
abbreviation Err :: "'e \<Rightarrow> 'e + 'a" where "Err \<equiv> Inl"

text \<open>The operator \<open>?\<close>: stop at the first error, go on with the value otherwise.\<close>

definition and_then :: "'e + 'a \<Rightarrow> ('a \<Rightarrow> 'e + 'b) \<Rightarrow> 'e + 'b" where
  "and_then m f = (case m of Inl e \<Rightarrow> Inl e | Inr x \<Rightarrow> f x)"

text \<open>The macro \<open>require!\<close>: an early return when the condition fails.\<close>

definition require :: "bool \<Rightarrow> 'e \<Rightarrow> 'e + 'a \<Rightarrow> 'e + 'a" where
  "require c e k = (if c then k else Inl e)"

definition ok_or :: "'a option \<Rightarrow> 'e \<Rightarrow> 'e + 'a" where
  "ok_or m e = (case m of None \<Rightarrow> Inl e | Some x \<Rightarrow> Inr x)"

definition unwrap_or :: "'a option \<Rightarrow> 'a \<Rightarrow> 'a" where
  "unwrap_or m d = (case m of None \<Rightarrow> d | Some x \<Rightarrow> x)"

lemma and_then_simps [simp]:
  "and_then (Inr x) f = f x"
  "and_then (Inl e) f = Inl e"
  by (simp_all add: and_then_def)

lemma and_then_eq_Ok [res_simps]: "and_then m f = Inr y \<longleftrightarrow> (\<exists>x. m = Inr x \<and> f x = Inr y)"
  by (cases m) auto

lemma and_then_eq_Err: "and_then m f = Inl e \<longleftrightarrow> m = Inl e \<or> (\<exists>x. m = Inr x \<and> f x = Inl e)"
  by (cases m) auto

lemma require_simps [simp]:
  "require True e k = k"
  "require False e k = Inl e"
  by (simp_all add: require_def)

lemma require_eq_Ok [res_simps]: "require c e k = Inr y \<longleftrightarrow> c \<and> k = Inr y"
  by (simp add: require_def)

lemma ok_or_simps [simp]:
  "ok_or (Some x) e = Inr x"
  "ok_or None e = Inl e"
  by (simp_all add: ok_or_def)

lemma ok_or_eq_Ok [res_simps]: "ok_or m e = Inr x \<longleftrightarrow> m = Some x"
  by (cases m) auto

lemma unwrap_or_simps [simp]:
  "unwrap_or (Some x) d = x"
  "unwrap_or None d = d"
  by (simp_all add: unwrap_or_def)

lemma and_then_cong [fundef_cong]:
  "m = m' \<Longrightarrow> (\<And>x. m' = Inr x \<Longrightarrow> f x = f' x) \<Longrightarrow> and_then m f = and_then m' f'"
  by (cases m') auto

section \<open>Unsigned arithmetic\<close>

definition checked_add :: "'a::len word \<Rightarrow> 'a word \<Rightarrow> 'a word option" where
  "checked_add x y = (if unat x + unat y < 2 ^ LENGTH('a) then Some (x + y) else None)"

definition checked_sub :: "'a::len word \<Rightarrow> 'a word \<Rightarrow> 'a word option" where
  "checked_sub x y = (if y \<le> x then Some (x - y) else None)"

definition checked_mul :: "'a::len word \<Rightarrow> 'a word \<Rightarrow> 'a word option" where
  "checked_mul x y = (if unat x * unat y < 2 ^ LENGTH('a) then Some (x * y) else None)"

definition checked_div :: "'a::len word \<Rightarrow> 'a word \<Rightarrow> 'a word option" where
  "checked_div x y = (if y = 0 then None else Some (x div y))"

definition saturating_add :: "'a::len word \<Rightarrow> 'a word \<Rightarrow> 'a word" where
  "saturating_add x y = (if unat x + unat y < 2 ^ LENGTH('a) then x + y else - 1)"

definition saturating_sub :: "'a::len word \<Rightarrow> 'a word \<Rightarrow> 'a word" where
  "saturating_sub x y = (if y \<le> x then x - y else 0)"

lemma unat_less_pow: "unat (x :: 'a::len word) < 2 ^ LENGTH('a)"
  by (rule unsigned_less)

lemma unat_u64_bound: "unat (x :: u64) < 18446744073709551616"
  using unat_less_pow [of x] by simp

lemma unat_u128_bound: "unat (x :: u128) < 340282366920938463463374607431768211456"
  using unat_less_pow [of x] by simp

lemma unat_max_word: "unat (- 1 :: 'a::len word) = 2 ^ LENGTH('a) - 1"
  by (simp add: unat_eq_nat_uint unsigned_minus_1_eq_mask mask_eq_exp_minus_1
      nat_diff_distrib nat_power_eq)

lemma ex_unat: "k < 2 ^ LENGTH('a) \<Longrightarrow> \<exists>x :: 'a::len word. unat x = k"
  by (rule exI [of _ "word_of_nat k"]) (simp add: unat_of_nat)

lemma checked_add_eq_Some [rust_arith, res_simps]:
  "checked_add x y = Some z \<longleftrightarrow> unat z = unat x + unat y"
proof
  assume "checked_add x y = Some z"
  then show "unat z = unat x + unat y"
    by (auto simp: checked_add_def unat_add_lem [THEN iffD1] split: if_splits)
next
  assume eq: "unat z = unat x + unat y"
  with unat_less_pow [of z] have lt: "unat x + unat y < 2 ^ LENGTH('a)" by simp
  then have "z = x + y"
    using eq unat_add_lem [THEN iffD1, OF lt] by (metis word_unat_eq_iff)
  with lt show "checked_add x y = Some z"
    by (simp add: checked_add_def)
qed

lemma checked_mul_eq_Some [rust_arith, res_simps]:
  "checked_mul x y = Some z \<longleftrightarrow> unat z = unat x * unat y"
proof
  assume "checked_mul x y = Some z"
  then show "unat z = unat x * unat y"
    by (auto simp: checked_mul_def unat_mult_lem [THEN iffD1] split: if_splits)
next
  assume eq: "unat z = unat x * unat y"
  with unat_less_pow [of z] have lt: "unat x * unat y < 2 ^ LENGTH('a)" by simp
  then have "z = x * y"
    using eq unat_mult_lem [THEN iffD1, OF lt] by (metis word_unat_eq_iff)
  with lt show "checked_mul x y = Some z"
    by (simp add: checked_mul_def)
qed

lemma checked_sub_eq_Some [rust_arith, res_simps]:
  "checked_sub x y = Some z \<longleftrightarrow> unat x = unat z + unat y"
proof
  assume "checked_sub x y = Some z"
  then have le: "y \<le> x" and z: "z = x - y"
    by (auto simp: checked_sub_def split: if_splits)
  from le have "unat (x - y) = unat x - unat y" by (rule unat_sub)
  with le z show "unat x = unat z + unat y" by (simp add: word_le_nat_alt)
next
  assume eq: "unat x = unat z + unat y"
  then have le: "y \<le> x" by (simp add: word_le_nat_alt)
  then have "unat (x - y) = unat z" using eq by (simp add: unat_sub)
  then have "x - y = z" by (simp add: word_unat_eq_iff)
  with le show "checked_sub x y = Some z" by (simp add: checked_sub_def)
qed

lemma checked_div_eq_Some [rust_arith, res_simps]:
  "checked_div x y = Some z \<longleftrightarrow> y \<noteq> 0 \<and> unat z = unat x div unat y"
  by (auto simp: checked_div_def unat_div word_unat_eq_iff)

lemma unat_saturating_add [rust_arith]:
  "unat (saturating_add x y) = min (unat x + unat y) (2 ^ LENGTH('a) - 1)"
  for x y :: "'a::len word"
proof (cases "unat x + unat y < 2 ^ LENGTH('a)")
  case True
  then show ?thesis
    using unat_add_lem [THEN iffD1, OF True] by (simp add: saturating_add_def)
next
  case False
  then show ?thesis by (simp add: saturating_add_def unat_max_word)
qed

lemma le_saturating_add [simp]: "unat x \<le> unat (saturating_add x y)" for x :: "'a::len word"
proof -
  have "unat x \<le> 2 ^ LENGTH('a) - 1" using unat_less_pow [of x] by linarith
  then show ?thesis by (simp add: unat_saturating_add)
qed

lemma unat_saturating_sub [rust_arith]: "unat (saturating_sub x y) = unat x - unat y"
  by (auto simp: saturating_sub_def unat_sub word_le_nat_alt)

lemma unat_minus_le [rust_arith]: "y \<le> x \<Longrightarrow> unat (x - y) = unat x - unat y"
  by (rule unat_sub)

lemma unat_unwrap_checked_div [rust_arith]:
  "unat (unwrap_or (checked_div x y) 0) = unat x div unat y"
  by (simp add: checked_div_def unat_div)

lemma saturating_0 [simp]: "saturating_add x 0 = x" "saturating_sub x 0 = x"
  using unat_less_pow [of x] by (simp_all add: saturating_add_def saturating_sub_def)

section \<open>Casts\<close>

definition u64_as_u128 :: "u64 \<Rightarrow> u128" where
  "u64_as_u128 x = ucast x"

definition u128_as_u64 :: "u128 \<Rightarrow> u64" where
  "u128_as_u64 x = ucast x"

lemma unat_u64_as_u128 [simp, rust_arith]: "unat (u64_as_u128 x) = unat x"
  using unat_less_pow [of x]
  by (simp add: u64_as_u128_def unsigned_ucast_eq take_bit_nat_eq_self_iff)

lemma unat_u128_as_u64 [rust_arith]: "unat (u128_as_u64 x) = unat x mod 2 ^ 64"
  by (simp only: u128_as_u64_def unsigned_ucast_eq take_bit_eq_mod) simp

section \<open>Signed arithmetic\<close>

text \<open>
  A signed integer is the word of its two's complement. \<open>signed_of_int\<close> is the word of
  a mathematical integer where one exists, so that the checked operations read as the
  operation on integers followed by a range check.
\<close>

definition signed_of_int :: "int \<Rightarrow> 'a::len word option" where
  "signed_of_int r = (if sint (word_of_int r :: 'a word) = r then Some (word_of_int r) else None)"

definition signed_checked_add :: "'a::len word \<Rightarrow> 'a word \<Rightarrow> 'a word option" where
  "signed_checked_add x y = signed_of_int (sint x + sint y)"

definition signed_checked_sub :: "'a::len word \<Rightarrow> 'a word \<Rightarrow> 'a word option" where
  "signed_checked_sub x y = signed_of_int (sint x - sint y)"

definition signed_checked_mul :: "'a::len word \<Rightarrow> 'a word \<Rightarrow> 'a word option" where
  "signed_checked_mul x y = signed_of_int (sint x * sint y)"

text \<open>The nearest value of the signed range, the result of the saturating operations.\<close>

definition signed_clamp :: "int \<Rightarrow> 'a::len word" where
  "signed_clamp r =
     word_of_int (max (- (2 ^ (LENGTH('a) - 1))) (min (2 ^ (LENGTH('a) - 1) - 1) r))"

definition signed_saturating_add :: "'a::len word \<Rightarrow> 'a word \<Rightarrow> 'a word" where
  "signed_saturating_add x y = signed_clamp (sint x + sint y)"

definition signed_saturating_sub :: "'a::len word \<Rightarrow> 'a word \<Rightarrow> 'a word" where
  "signed_saturating_sub x y = signed_clamp (sint x - sint y)"

text \<open>Rust's signed division truncates towards zero, as \<open>sdiv\<close> on integers does.\<close>

definition signed_div :: "'a::len word \<Rightarrow> 'a word \<Rightarrow> 'a word" where
  "signed_div x y = word_of_int (sint x sdiv sint y)"

definition signed_max0 :: "i64 \<Rightarrow> i64" where
  "signed_max0 x = (if sint x < 0 then 0 else x)"

lemma sint_bounds:
  fixes x :: "'a::len word"
  shows "- (2 ^ (LENGTH('a) - 1)) \<le> sint x" and "sint x < 2 ^ (LENGTH('a) - 1)"
  using sint_greater_eq [of x] sint_less [of x] by simp_all

lemma sint_i64_bounds:
  fixes x :: i64
  shows "- 9223372036854775808 \<le> sint x" and "sint x < 9223372036854775808"
  using sint_bounds [of x] by simp_all

lemma sint_word_of_int_iff:
  "sint (word_of_int r :: 'a::len word) = r \<longleftrightarrow>
     - (2 ^ (LENGTH('a) - 1)) \<le> r \<and> r < 2 ^ (LENGTH('a) - 1)"
proof
  assume eq: "sint (word_of_int r :: 'a word) = r"
  show "- (2 ^ (LENGTH('a) - 1)) \<le> r \<and> r < 2 ^ (LENGTH('a) - 1)"
    using sint_bounds [of "word_of_int r :: 'a word"] unfolding eq by simp
next
  assume "- (2 ^ (LENGTH('a) - 1)) \<le> r \<and> r < 2 ^ (LENGTH('a) - 1)"
  then show "sint (word_of_int r :: 'a word) = r"
    by (simp add: sint_sbintrunc' signed_take_bit_int_eq_self)
qed

lemma signed_of_int_eq_Some:
  "signed_of_int r = Some (z :: 'a::len word) \<longleftrightarrow> sint z = r"
  by (auto simp: signed_of_int_def)

lemma signed_checked_eq_Some [rust_arith, res_simps]:
  "signed_checked_add x y = Some z \<longleftrightarrow> sint z = sint x + sint y"
  "signed_checked_sub x y = Some z \<longleftrightarrow> sint z = sint x - sint y"
  "signed_checked_mul x y = Some z \<longleftrightarrow> sint z = sint x * sint y"
  by (simp_all add: signed_checked_add_def signed_checked_sub_def signed_checked_mul_def
      signed_of_int_eq_Some)

lemma sint_signed_clamp:
  "sint (signed_clamp r :: 'a::len word) =
     max (- (2 ^ (LENGTH('a) - 1))) (min (2 ^ (LENGTH('a) - 1) - 1) r)"
  unfolding signed_clamp_def by (subst sint_word_of_int_iff) auto

lemma sint_small:
  fixes x :: "'a::len word"
  assumes "unat x < 2 ^ (LENGTH('a) - 1)"
  shows "sint x = int (unat x)"
proof -
  have x: "x = word_of_int (int (unat x))" by simp
  have "int (unat x) < 2 ^ (LENGTH('a) - 1)"
    using assms by (metis of_nat_less_iff of_nat_numeral of_nat_power)
  then have "sint (word_of_int (int (unat x)) :: 'a word) = int (unat x)"
    by (subst sint_word_of_int_iff) (auto intro: order.trans [of _ 0])
  with x show ?thesis by metis
qed

definition clamp_i64 :: "int \<Rightarrow> int" where
  "clamp_i64 x = max (- 9223372036854775808) (min 9223372036854775807 x)"

lemma clamp_i64_sint [simp]: "clamp_i64 (sint (x :: i64)) = sint x"
  using sint_i64_bounds [of x] by (simp add: clamp_i64_def)

lemma clamp_i64_0 [simp]: "clamp_i64 0 = 0"
  by (simp add: clamp_i64_def)

lemma sint_signed_saturating_add [rust_arith]:
  "sint (signed_saturating_add x y) = clamp_i64 (sint x + sint y)" for x y :: i64
  by (simp add: signed_saturating_add_def sint_signed_clamp clamp_i64_def)

lemma sint_signed_clamp_i64: "sint (signed_clamp r :: i64) = clamp_i64 r"
  by (simp add: sint_signed_clamp clamp_i64_def)

lemma sint_signed_saturating_sub [rust_arith]:
  "sint (signed_saturating_sub x y) = clamp_i64 (sint x - sint y)" for x y :: i64
  by (simp add: signed_saturating_sub_def sint_signed_clamp clamp_i64_def)

lemma sint_nonneg_unat:
  fixes x :: "'a::len word"
  assumes "0 \<le> sint x"
  shows "int (unat x) = sint x"
proof -
  have "uint x = uint (word_of_int (sint x) :: 'a word)" by simp
  also have "\<dots> = sint x mod 2 ^ LENGTH('a)" by (rule uint_word_of_int)
  also have "\<dots> = sint x"
    using assms sint_bounds (2) [of x]
    by (simp add: order.strict_trans2 [OF _ power_increasing [of "LENGTH('a) - 1" "LENGTH('a)" 2]])
  finally show ?thesis by simp
qed

lemma uint_nonneg: "0 \<le> sint x \<Longrightarrow> uint x = sint x"
  using sint_nonneg_unat [of x] by simp

lemma uint_div_2: "0 \<le> sint x \<Longrightarrow> uint (x div 2) = sint x div 2" for x :: i64
  using uint_nonneg [of x] by (simp add: uint_div_distrib)

lemma signed_max0_nonneg [rust_arith]: "int (unat (signed_max0 x)) = max 0 (sint x)"
  proof (cases "sint x < 0")
  case False
  then show ?thesis using sint_nonneg_unat [of x] by (simp add: signed_max0_def)
qed (simp add: signed_max0_def)

section \<open>Little-endian bytes\<close>

primrec le_bytes :: "nat \<Rightarrow> nat \<Rightarrow> byte list" where
  "le_bytes 0 x = []"
| "le_bytes (Suc n) x = word_of_nat x # le_bytes n (x div 256)"

fun le_value :: "byte list \<Rightarrow> nat" where
  "le_value [] = 0"
| "le_value (b # bs) = unat b + 256 * le_value bs"

lemma length_le_bytes [simp]: "length (le_bytes n x) = n"
  by (induction n arbitrary: x) auto

lemma le_value_le_bytes: "le_value (le_bytes n x) = x mod 256 ^ n"
proof (induction n arbitrary: x)
  case 0
  then show ?case by simp
next
  case (Suc n)
  have "le_value (le_bytes (Suc n) x) = x mod 256 + 256 * (x div 256 mod 256 ^ n)"
    by (simp add: Suc unat_of_nat)
  also have "\<dots> = x mod (256 * 256 ^ n)"
    by (simp add: mod_mult2_eq)
  finally show ?case by simp
qed

lemma le_value_less: "le_value bs < 256 ^ length bs"
proof (induction bs)
  case Nil
  then show ?case by simp
next
  case (Cons b bs)
  have "unat b < 256" using unat_less_pow [of b] by simp
  moreover from Cons have "256 * le_value bs + 256 \<le> 256 * 256 ^ length bs"
    by (metis Suc_leI mult_le_mono2 mult_Suc_right add.commute)
  ultimately show ?case by simp
qed

lemma le_bytes_le_value: "length bs = n \<Longrightarrow> le_bytes n (le_value bs) = bs"
proof (induction bs arbitrary: n)
  case Nil
  then show ?case by simp
next
  case (Cons b bs)
  have b: "unat b < 256" using unat_less_pow [of b] by simp
  then have "(unat b + 256 * le_value bs) div 256 = le_value bs" by simp
  moreover have "(word_of_nat (unat b + 256 * le_value bs) :: byte) = b"
    by (simp only: word_unat_eq_iff unat_of_nat) (use b in simp)
  ultimately show ?case using Cons by (cases n) auto
qed

text \<open>
  The interface of a fixed-width encoding: its length and its round trip. The clients are
  the account layouts (a field is read back at its offset) and the parsing of the stake
  pool account.
\<close>

locale fixed_codec =
  fixes enc :: "'a \<Rightarrow> byte list"
    and dec :: "byte list \<Rightarrow> 'a"
    and width :: nat
  assumes length_enc: "length (enc x) = width"
    and dec_enc: "dec (enc x) = x"
begin

lemma enc_eq_iff: "enc x = enc y \<longleftrightarrow> x = y"
  by (metis dec_enc)

lemma enc_append_eq_iff: "enc x @ r = enc y @ s \<longleftrightarrow> x = y \<and> r = s"
  by (simp add: length_enc enc_eq_iff)

lemma dec_slice: "length pre = i \<Longrightarrow> dec (take width (drop i (pre @ enc x @ post))) = x"
  by (simp add: length_enc dec_enc)

end

definition u64_to_le_bytes :: "u64 \<Rightarrow> byte list" where
  "u64_to_le_bytes x = le_bytes 8 (unat x)"

definition u64_from_le_bytes :: "byte list \<Rightarrow> u64" where
  "u64_from_le_bytes bs = word_of_nat (le_value bs)"

definition u32_to_le_bytes :: "u32 \<Rightarrow> byte list" where
  "u32_to_le_bytes x = le_bytes 4 (unat x)"

definition u32_from_le_bytes :: "byte list \<Rightarrow> u32" where
  "u32_from_le_bytes bs = word_of_nat (le_value bs)"

definition u128_to_le_bytes :: "u128 \<Rightarrow> byte list" where
  "u128_to_le_bytes x = le_bytes 16 (unat x)"

definition u128_from_le_bytes :: "byte list \<Rightarrow> u128" where
  "u128_from_le_bytes bs = word_of_nat (le_value bs)"

definition pubkey_bytes :: "pubkey \<Rightarrow> byte list" where
  "pubkey_bytes k = le_bytes 32 (unat k)"

definition pubkey_of_bytes :: "byte list \<Rightarrow> pubkey" where
  "pubkey_of_bytes bs = word_of_nat (le_value bs)"

lemma word_le_round_trip:
  fixes x :: "'a::len word"
  assumes "256 ^ n = (2 ^ LENGTH('a) :: nat)"
  shows "word_of_nat (le_value (le_bytes n (unat x))) = x"
  using unat_less_pow [of x] by (simp add: le_value_le_bytes assms)

interpretation u64_le: fixed_codec u64_to_le_bytes u64_from_le_bytes 8
  by unfold_locales
    (simp_all add: u64_to_le_bytes_def u64_from_le_bytes_def word_le_round_trip)

interpretation u32_le: fixed_codec u32_to_le_bytes u32_from_le_bytes 4
  by unfold_locales
    (simp_all add: u32_to_le_bytes_def u32_from_le_bytes_def word_le_round_trip)

interpretation u128_le: fixed_codec u128_to_le_bytes u128_from_le_bytes 16
  by unfold_locales
    (simp_all add: u128_to_le_bytes_def u128_from_le_bytes_def word_le_round_trip)

interpretation pubkey_le: fixed_codec pubkey_bytes pubkey_of_bytes 32
  by unfold_locales
    (simp_all add: pubkey_bytes_def pubkey_of_bytes_def word_le_round_trip)

lemmas length_codecs [simp] =
  u64_le.length_enc u32_le.length_enc u128_le.length_enc pubkey_le.length_enc

text \<open>A byte-range of an account's data, \<open>data[i..j]\<close> with the bounds already checked.\<close>

definition slice :: "nat \<Rightarrow> nat \<Rightarrow> 'a list \<Rightarrow> 'a list" where
  "slice i j xs = take (j - i) (drop i xs)"

lemma length_slice: "j \<le> length xs \<Longrightarrow> length (slice i j xs) = j - i"
  by (simp add: slice_def)

text \<open>A string literal of the source, as its bytes.\<close>

definition ascii_bytes :: "string \<Rightarrow> byte list" where
  "ascii_bytes s = map of_char s"

lemma length_ascii_bytes [simp]: "length (ascii_bytes s) = length s"
  by (simp add: ascii_bytes_def)

lemma if_less_max: "(if x < y then y else x) = max x y" for x y :: "'a::linorder"
  by (auto simp: max_def)

lemma unat_max: "unat (max x y) = max (unat x) (unat y)" for x y :: "'a::len word"
  by (simp add: max_def word_le_nat_alt)

lemma mult_div_le: "b \<le> c \<Longrightarrow> a * b div c \<le> a" for a b c :: nat
proof -
  assume "b \<le> c"
  then have "a * b div c \<le> a * c div c" by (intro div_le_mono mult_le_mono2)
  then show ?thesis by (cases "c = 0") simp_all
qed

section \<open>Sums over finitely many keys\<close>

lemma sum_fun_upd:
  fixes g :: "'k::finite \<Rightarrow> 'b" and f :: "'b \<Rightarrow> nat"
  shows "(\<Sum>k\<in>UNIV. f ((g(a := v)) k)) + f (g a) = (\<Sum>k\<in>UNIV. f (g k)) + f v"
proof -
  have upd: "(\<Sum>k\<in>UNIV. f ((g(a := v)) k)) = f v + (\<Sum>k\<in>UNIV - {a}. f (g k))"
    by (simp add: sum.remove [of UNIV a])
  have "(\<Sum>k\<in>UNIV. f (g k)) = f (g a) + (\<Sum>k\<in>UNIV - {a}. f (g k))"
    by (simp add: sum.remove [of UNIV a])
  with upd show ?thesis by simp
qed

end
