(* ===== verification/Swiss_Group.thy ===== *)
theory Swiss_Group
  imports Vow_Prelude
begin

text \<open>
  Control bytes and groups of \<open>patches/hashbrown\<close> (\<open>control/tag.rs\<close>, \<open>control/bitmask.rs\<close>,
  \<open>control/group\<close>): the tag of a bucket, bit masks over a group, and the operations of a group.
  The locales \<open>group_laws\<close> and \<open>group_masks\<close> state what the table relies on; the generic word
  implementation (32 and 64 bits), SSE2, NEON and LSX are interpretations of them. The vector
  instructions are lists of lanes. Memory is little-endian and \<open>usize\<close> has 64 bits.
\<close>

unbundle bit_operations_syntax

section \<open>Control tags\<close>

type_synonym tag = u8

definition EMPTY :: tag where "EMPTY = 0b11111111"
definition DELETED :: tag where "DELETED = 0b10000000"

definition is_full :: "tag \<Rightarrow> bool" where
  "is_full t \<longleftrightarrow> t AND 0x80 = 0"

definition is_special :: "tag \<Rightarrow> bool" where
  "is_special t \<longleftrightarrow> t AND 0x80 \<noteq> 0"

definition special_is_empty :: "tag \<Rightarrow> bool" where
  "special_is_empty t \<longleftrightarrow> t AND 0x01 \<noteq> 0"

text \<open>\<open>MIN_HASH_LEN\<close> is 8 bytes on a 64-bit target.\<close>

definition tag_full :: "u64 \<Rightarrow> tag" where
  "tag_full hash = ucast (drop_bit (8 * 8 - 7) hash AND 0x7f)"

text \<open>The bytes a table can hold: a full tag, \<^const>\<open>EMPTY\<close> or \<^const>\<open>DELETED\<close>.\<close>

definition valid_tag :: "tag \<Rightarrow> bool" where
  "valid_tag t \<longleftrightarrow> is_full t \<or> t = EMPTY \<or> t = DELETED"

lemma is_full_bit: "is_full t \<longleftrightarrow> \<not> bit t 7"
  using and_exp_eq_0_iff_not_bit [of t 7] by (simp add: is_full_def)

lemma is_special_not_full: "is_special t \<longleftrightarrow> \<not> is_full t"
  by (simp add: is_special_def is_full_def)

lemma tag_consts [simp]:
  "\<not> is_full EMPTY" "\<not> is_full DELETED" "EMPTY \<noteq> DELETED" "DELETED \<noteq> EMPTY"
  "special_is_empty EMPTY" "\<not> special_is_empty DELETED"
  by (simp_all add: is_full_def EMPTY_def DELETED_def special_is_empty_def)

lemma is_full_tag_full [simp]: "is_full (tag_full h)"
  by (simp add: is_full_bit tag_full_def bit_simps)

lemma valid_tag_simps [simp]:
  "valid_tag EMPTY" "valid_tag DELETED" "valid_tag (tag_full h)"
  by (simp_all add: valid_tag_def)

lemma valid_special_cases: "valid_tag t \<Longrightarrow> \<not> is_full t \<Longrightarrow> t = EMPTY \<or> t = DELETED"
  by (auto simp: valid_tag_def)

section \<open>Bit masks\<close>

text \<open>The functions of the Rust integers that count zero bits from either end.\<close>

definition word_trailing_zeros :: "'m::len word \<Rightarrow> nat" where
  "word_trailing_zeros w = length (takeWhile (\<lambda>i. \<not> bit w i) [0..<LENGTH('m)])"

definition word_leading_zeros :: "'m::len word \<Rightarrow> nat" where
  "word_leading_zeros w = length (takeWhile (\<lambda>i. \<not> bit w i) (rev [0..<LENGTH('m)]))"

text \<open>
  What a back end of \<^verbatim>\<open>control/group\<close> provides: the constants \<open>WIDTH\<close> (the size of the
  group in bytes, a power of two), \<open>BITMASK_STRIDE\<close> and \<open>BITMASK_ITER_MASK\<close>, and the
  operations of \<open>Group\<close>; a group of type \<open>'g\<close> is loaded from and stored to \<open>WIDTH\<close> bytes.
\<close>

record ('g, 'm) group_impl =
  log_width :: nat
  bitmask_stride :: nat
  bitmask_iter_mask :: 'm
  load :: "tag list \<Rightarrow> 'g"
  store :: "'g \<Rightarrow> tag list"
  match_tag :: "'g \<Rightarrow> tag \<Rightarrow> 'm"
  match_empty :: "'g \<Rightarrow> 'm"
  match_empty_or_deleted :: "'g \<Rightarrow> 'm"
  match_full :: "'g \<Rightarrow> 'm"
  convert_special_to_empty_and_full_to_deleted :: "'g \<Rightarrow> 'g"

definition WIDTH :: "('g, 'm) group_impl \<Rightarrow> nat" where
  "WIDTH G = 2 ^ log_width G"

definition remove_lowest_bit :: "'m::len word \<Rightarrow> 'm word" where
  "remove_lowest_bit m = m AND (m - 1)"

definition any_bit_set :: "'m::len word \<Rightarrow> bool" where
  "any_bit_set m \<longleftrightarrow> m \<noteq> 0"

definition trailing_zeros :: "('g, 'm::len word) group_impl \<Rightarrow> 'm word \<Rightarrow> nat" where
  "trailing_zeros G m = word_trailing_zeros m div bitmask_stride G"

definition leading_zeros :: "('g, 'm::len word) group_impl \<Rightarrow> 'm word \<Rightarrow> nat" where
  "leading_zeros G m = word_leading_zeros m div bitmask_stride G"

definition lowest_set_bit :: "('g, 'm::len word) group_impl \<Rightarrow> 'm word \<Rightarrow> nat option" where
  "lowest_set_bit G m = (if m \<noteq> 0 then Some (word_trailing_zeros m div bitmask_stride G) else None)"

text \<open>\<open>BitMaskIter::next\<close>, and the indices the iterator yields until it returns \<open>None\<close>.\<close>

definition bitmask_next :: "('g, 'm::len word) group_impl \<Rightarrow> 'm word \<Rightarrow> (nat \<times> 'm word) option" where
  "bitmask_next G m = (case lowest_set_bit G m of
     None \<Rightarrow> None
   | Some b \<Rightarrow> Some (b, remove_lowest_bit m))"

definition bitmask_into_iter :: "('g, 'm::len word) group_impl \<Rightarrow> 'm word \<Rightarrow> 'm word" where
  "bitmask_into_iter G m = m AND bitmask_iter_mask G"

lemma length_takeWhile_all: "(\<And>x. x \<in> set xs \<Longrightarrow> P x) \<Longrightarrow> length (takeWhile P xs) = length xs"
  by (induction xs) auto

lemma word_trailing_zeros_eq:
  fixes m :: "'m::len word"
  assumes "bit m k" and "\<And>i. i < k \<Longrightarrow> \<not> bit m i"
  shows "word_trailing_zeros m = k"
proof -
  have k: "k < LENGTH('m)" using assms(1) by (rule bit_imp_le_length)
  then have "[0..<LENGTH('m)] = [0..<k] @ k # [Suc k..<LENGTH('m)]"
    using upt_add_eq_append [of 0 k "LENGTH('m) - k"] by (simp add: upt_conv_Cons)
  moreover have "length (takeWhile (\<lambda>i. \<not> bit m i) [0..<k]) = length [0..<k]"
    by (rule arg_cong [where f = length]) (use assms(2) in \<open>simp add: takeWhile_eq_all_conv\<close>)
  ultimately show ?thesis using assms by (simp add: word_trailing_zeros_def takeWhile_tail)
qed

lemma least_bit:
  fixes m :: "'m::len word"
  assumes "m \<noteq> 0"
  obtains k where "bit m k" and "\<And>i. i < k \<Longrightarrow> \<not> bit m i"
proof -
  from assms have "\<exists>k. bit m k" by (auto simp: bit_eq_iff)
  then show ?thesis using LeastI_ex not_less_Least that by metis
qed

text \<open>\<open>m & (m - 1)\<close> clears the lowest set bit and no other.\<close>

lemma bit_and_pred:
  fixes m :: "'m::len word"
  assumes k: "bit m k" and below: "\<And>i. i < k \<Longrightarrow> \<not> bit m i"
  shows "bit (remove_lowest_bit m) i \<longleftrightarrow> bit m i \<and> i \<noteq> k"
proof -
  let ?n = "unat m"
  have pos: "0 < ?n" using k by (auto simp: unat_gt_0)
  have bm: "bit ?n j \<longleftrightarrow> bit m j" for j by (simp add: bit_unsigned_iff bit_imp_le_length)
  have "take_bit k ?n = 0" using below bm by (intro bit_eqI) (auto simp: bit_take_bit_iff)
  then have q: "?n = (?n div 2 ^ k) * 2 ^ k"
    by (simp add: take_bit_eq_mod) (metis add.right_neutral mult.commute mult_div_mod_eq)
  have odd: "odd (?n div 2 ^ k)" using k bm by (simp add: bit_iff_odd)
  define a where "a = ?n div 2 ^ Suc k"
  have n: "?n = a * 2 ^ Suc k + 2 ^ k"
  proof -
    have "?n div 2 ^ k = 2 * a + 1"
      using odd by (simp add: a_def div_mult2_eq power_Suc2 del: power_Suc)
    with q show ?thesis by (simp add: algebra_simps)
  qed
  have n1: "?n - 1 = a * 2 ^ Suc k + (2 ^ k - 1)"
    using n by simp
  have pred: "unat (m - 1) = ?n - 1"
    using pos by (metis One_nat_def Suc_leI unat_1 unat_sub word_le_nat_alt unat_gt_0)
  have lt: "(2 ^ k - 1 :: nat) < 2 ^ Suc k" "(2 ^ k - 1 :: nat) < 2 ^ k"
    by (simp_all add: less_imp_diff_less)
  have hi: "(?n - 1) div 2 ^ Suc k = a" using lt(1) by (simp only: n1 div_mult_self3) simp
  have mid: "\<not> bit (?n - 1) k"
  proof -
    have "(?n - 1) div 2 ^ k = a * 2"
    proof -
      have "?n - 1 = (2 ^ k - 1) + (a * 2) * 2 ^ k" unfolding n1 by simp
      then show ?thesis using lt(2) by (simp only: div_mult_self1) simp
    qed
    then show ?thesis by (simp add: bit_iff_odd)
  qed
  have above: "bit (?n - 1) i \<longleftrightarrow> bit ?n i" if "k < i" for i
  proof -
    from that obtain d where d: "i = Suc k + d" using less_iff_Suc_add by auto
    have "(?n - 1) div 2 ^ i = (?n - 1) div 2 ^ Suc k div 2 ^ d"
      unfolding d power_add by (simp only: div_mult2_eq)
    also have "\<dots> = ?n div 2 ^ Suc k div 2 ^ d" by (simp only: hi a_def)
    also have "\<dots> = ?n div 2 ^ i" unfolding d power_add by (simp only: div_mult2_eq)
    finally show ?thesis by (simp add: bit_iff_odd)
  qed
  have "bit (m - 1) i \<longleftrightarrow> bit (?n - 1) i" for i
    unfolding pred [symmetric] by (simp add: bit_unsigned_iff bit_imp_le_length)
  then show ?thesis
    using above [of i] mid below [of i] bm unfolding remove_lowest_bit_def
    by (cases "i < k"; cases "i = k") (auto simp: bit_and_iff)
qed

lemma remove_lowest_bit_less: "m \<noteq> 0 \<Longrightarrow> unat (remove_lowest_bit m) < unat m"
proof -
  assume "m \<noteq> 0"
  then have "m - 1 < m" by (simp add: word_less_nat_alt unat_minus_one unat_gt_0)
  moreover have "m AND (m - 1) \<le> m - 1" by (rule word_and_le1)
  ultimately show ?thesis unfolding remove_lowest_bit_def by (simp add: word_le_nat_alt word_less_nat_alt)
qed

function bitmask_indices :: "('g, 'm::len word) group_impl \<Rightarrow> 'm word \<Rightarrow> nat list" where
  "bitmask_indices G m = (case bitmask_next G m of
     None \<Rightarrow> []
   | Some (b, m') \<Rightarrow> b # bitmask_indices G m')"
  by pat_completeness auto
termination
  by (relation "measure (\<lambda>(G, m). unat m)")
     (auto simp: bitmask_next_def lowest_set_bit_def remove_lowest_bit_less split: if_splits)

declare bitmask_indices.simps [simp del]

lemma filter_bits_least:
  fixes m :: "'m::len word"
  assumes "bit m k" and "\<And>i. i < k \<Longrightarrow> \<not> bit m i"
  shows "filter (bit m) [0..<LENGTH('m)]
    = k # filter (bit (remove_lowest_bit m)) [0..<LENGTH('m)]"
proof -
  have k: "k < LENGTH('m)" using assms(1) by (rule bit_imp_le_length)
  then have split: "[0..<LENGTH('m)] = [0..<k] @ k # [Suc k..<LENGTH('m)]"
    using upt_add_eq_append [of 0 k "LENGTH('m) - k"] by (simp add: upt_conv_Cons)
  have "filter (bit m) [Suc k..<LENGTH('m)]
      = filter (bit (remove_lowest_bit m)) [Suc k..<LENGTH('m)]"
    by (rule filter_cong) (auto simp: bit_and_pred [OF assms])
  then show ?thesis
    unfolding split using assms by (simp add: bit_and_pred [OF assms] filter_empty_conv)
qed

lemma bitmask_indices_eq:
  fixes m :: "'m::len word"
  shows "bitmask_indices G m = map (\<lambda>j. j div bitmask_stride G) (filter (bit m) [0..<LENGTH('m)])"
proof (induction G m rule: bitmask_indices.induct)
  case (1 G m)
  show ?case
  proof (cases "m = 0")
    case True
    then show ?thesis
      by (simp add: bitmask_indices.simps [of G 0] bitmask_next_def lowest_set_bit_def)
  next
    case False
    then obtain k where k: "bit m k" "\<And>i. i < k \<Longrightarrow> \<not> bit m i"
      using least_bit [of m] by metis
    have nx: "bitmask_next G m = Some (k div bitmask_stride G, remove_lowest_bit m)"
      using False by (simp add: bitmask_next_def lowest_set_bit_def word_trailing_zeros_eq [OF k])
    show ?thesis
      using "1.IH" [OF nx refl] by (simp add: bitmask_indices.simps [of G m] nx filter_bits_least [OF k])
  qed
qed

text \<open>
  A mask stands for one truth value per byte of the group. In a mask as the back ends build it,
  a byte is marked when any of its \<open>BITMASK_STRIDE\<close> bits is set; a mask that is iterated has
  one bit, the same for every byte, in each marked byte.
\<close>

definition mask_marks :: "nat \<Rightarrow> 'm::len word \<Rightarrow> bool list \<Rightarrow> bool" where
  "mask_marks s m bs \<longleftrightarrow> 0 < s \<and> length bs * s = LENGTH('m)
     \<and> (\<forall>i<length bs. bs ! i \<longleftrightarrow> (\<exists>j < s. bit m (s * i + j)))"

definition mask_single :: "nat \<Rightarrow> nat \<Rightarrow> 'm::len word \<Rightarrow> bool list \<Rightarrow> bool" where
  "mask_single s c m bs \<longleftrightarrow> c < s \<and> length bs * s = LENGTH('m)
     \<and> (\<forall>i<length bs. \<forall>j < s. bit m (s * i + j) \<longleftrightarrow> bs ! i \<and> j = c)"

lemma mask_single_marks: "mask_single s c m bs \<Longrightarrow> mask_marks s m bs"
  by (auto simp: mask_single_def mask_marks_def)

lemma length_takeWhile_eq:
  "k < length xs \<Longrightarrow> \<not> P (xs ! k) \<Longrightarrow> (\<And>i. i < k \<Longrightarrow> P (xs ! i)) \<Longrightarrow> length (takeWhile P xs) = k"
  using takeWhile_eq_take_P_nth [of k xs P] by simp

lemma mask_marks_bit:
  assumes "mask_marks s m bs" and "bit m k"
  shows "k div s < length bs" and "bs ! (k div s)"
proof -
  from assms have s: "0 < s" and len: "length bs * s = LENGTH('a)" by (auto simp: mask_marks_def)
  have "k < length bs * s" using assms(2) len by (metis bit_imp_le_length)
  then show lt: "k div s < length bs" by (rule less_mult_imp_div_less)
  have "bit m (s * (k div s) + k mod s)" using assms(2) by simp
  with lt s assms(1) show "bs ! (k div s)"
    unfolding mask_marks_def by (meson mod_less_divisor)
qed

lemma mask_marks_nth:
  assumes "mask_marks s m bs" and "i < length bs" and "bs ! i"
  obtains k where "bit m k" and "k div s = i"
proof -
  from assms obtain j where "j < s" "bit m (s * i + j)" by (auto simp: mask_marks_def)
  then show ?thesis using that [of "s * i + j"] by simp
qed

lemma mask_marks_zero: "mask_marks s m bs \<Longrightarrow> m = 0 \<longleftrightarrow> True \<notin> set bs"
proof
  assume mm: "mask_marks s m bs" and nt: "True \<notin> set bs"
  show "m = 0"
  proof (rule ccontr)
    assume "m \<noteq> 0"
    then obtain k where "bit m k" using least_bit by blast
    from mask_marks_bit [OF mm this] nt show False by (metis nth_mem)
  qed
next
  assume "mask_marks s m bs" "m = 0"
  then show "True \<notin> set bs" by (auto simp: in_set_conv_nth mask_marks_def)
qed

lemma word_trailing_zeros_zero: "word_trailing_zeros (0 :: 'm::len word) = LENGTH('m)"
  by (simp add: word_trailing_zeros_def length_takeWhile_all)

lemma word_leading_zeros_zero: "word_leading_zeros (0 :: 'm::len word) = LENGTH('m)"
  by (simp add: word_leading_zeros_def length_takeWhile_all)

lemma mask_trailing:
  fixes m :: "'m::len word"
  assumes mm: "mask_marks s m bs"
  shows "word_trailing_zeros m div s = length (takeWhile Not bs)"
proof (cases "m = 0")
  case True
  then have "length (takeWhile Not bs) = length (bs)"
    using mask_marks_zero [OF mm] by (intro length_takeWhile_all) (metis set_rev)
  moreover have "word_trailing_zeros m = length bs * s" "0 < s"
    using True mm by (simp_all add: word_trailing_zeros_zero mask_marks_def)
  ultimately show ?thesis by simp
next
  case False
  then obtain k where k: "bit m k" "\<And>i. i < k \<Longrightarrow> \<not> bit m i"
    using least_bit [of m] by metis
  have "length (takeWhile Not bs) = k div s"
  proof (rule length_takeWhile_eq)
    fix i assume i: "i < k div s"
    show "\<not> bs ! i"
    proof
      assume "bs ! i"
      with i mask_marks_bit [OF mm k(1)] obtain j where "bit m j" "j div s = i"
        using mask_marks_nth [OF mm, of i] by (metis order.strict_trans)
      with k(2) i show False by (metis div_le_mono linorder_not_less)
    qed
  qed (use mask_marks_bit [OF mm k(1)] in auto)
  then show ?thesis by (simp add: word_trailing_zeros_eq [OF k])
qed

lemma word_leading_zeros_eq:
  fixes m :: "'m::len word"
  assumes "bit m k" and "\<And>i. k < i \<Longrightarrow> \<not> bit m i"
  shows "word_leading_zeros m = LENGTH('m) - Suc k"
  unfolding word_leading_zeros_def
proof (rule length_takeWhile_eq)
  have k: "k < LENGTH('m)" using assms(1) by (rule bit_imp_le_length)
  then show "LENGTH('m) - Suc k < length (rev [0..<LENGTH('m)])" by simp
  from k assms(1) show "\<not> \<not> bit m (rev [0..<LENGTH('m)] ! (LENGTH('m) - Suc k))"
    by (simp add: rev_nth)
  fix i assume "i < LENGTH('m) - Suc k"
  then show "\<not> bit m (rev [0..<LENGTH('m)] ! i)" using assms(2) k by (simp add: rev_nth)
qed

lemma greatest_bit:
  fixes m :: "'m::len word"
  assumes "m \<noteq> 0"
  obtains k where "bit m k" and "\<And>i. k < i \<Longrightarrow> \<not> bit m i"
proof -
  from assms have "\<exists>k. bit m k" by (auto simp: bit_eq_iff)
  moreover have "\<forall>k. bit m k \<longrightarrow> k \<le> LENGTH('m)" by (auto dest: bit_imp_le_length)
  ultimately have "bit m (GREATEST k. bit m k)" "\<And>i. bit m i \<Longrightarrow> i \<le> (GREATEST k. bit m k)"
    by (auto intro: GreatestI_ex_nat Greatest_le_nat)
  then show ?thesis using that by (metis linorder_not_less)
qed

lemma mask_leading:
  fixes m :: "'m::len word"
  assumes mm: "mask_marks s m bs"
  shows "word_leading_zeros m div s = length (takeWhile Not (rev bs))"
proof (cases "m = 0")
  case True
  then have "length (takeWhile Not (rev bs)) = length (rev bs)"
    using mask_marks_zero [OF mm] by (intro length_takeWhile_all) (metis set_rev)
  moreover have "word_leading_zeros m = length bs * s" "0 < s"
    using True mm by (simp_all add: word_leading_zeros_zero mask_marks_def)
  ultimately show ?thesis by simp
next
  case False
  then obtain k where k: "bit m k" "\<And>i. k < i \<Longrightarrow> \<not> bit m i"
    using greatest_bit [of m] by metis
  define q where "q = k div s"
  have q: "q < length bs" "bs ! q" unfolding q_def by (rule mask_marks_bit [OF mm k(1)])+
  from mm have s: "0 < s" and len: "LENGTH('m) = length bs * s" by (auto simp: mask_marks_def)
  have "length (takeWhile Not (rev bs)) = length bs - Suc q"
  proof (rule length_takeWhile_eq)
    fix i assume i: "i < length bs - Suc q"
    then have lt: "length bs - Suc i < length bs" and gt: "q < length bs - Suc i" by auto
    show "\<not> rev bs ! i"
    proof
      assume "rev bs ! i"
      then have "bs ! (length bs - Suc i)" using i by (simp add: rev_nth)
      with lt obtain j where "bit m j" "j div s = length bs - Suc i"
        using mask_marks_nth [OF mm] by metis
      with k(2) gt show False unfolding q_def by (metis div_le_mono linorder_not_less)
    qed
  qed (use q in \<open>auto simp: rev_nth\<close>)
  moreover have "(LENGTH('m) - Suc k) div s = length bs - Suc q"
  proof -
    have "k = q * s + k mod s" unfolding q_def by simp
    moreover have "length bs * s = (length bs - Suc q) * s + s + q * s"
      using q(1) by (metis Suc_leI add.assoc add_mult_distrib le_add_diff_inverse2 mult_Suc)
    ultimately have "LENGTH('m) - Suc k = (s - Suc (k mod s)) + (length bs - Suc q) * s"
      using len s by (simp add: Suc_leI mod_less_divisor)
    then show ?thesis using s by simp
  qed
  ultimately show ?thesis by (simp add: word_leading_zeros_eq [OF k])
qed

lemma mask_single_indices:
  fixes m :: "'m::len word"
  assumes "mask_single s c m bs"
  shows "map (\<lambda>j. j div s) (filter (bit m) [0..<LENGTH('m)]) = filter (\<lambda>i. bs ! i) [0..<length bs]"
proof -
  from assms have c: "c < s" and len: "LENGTH('m) = length bs * s"
    and b: "\<And>i j. i < length bs \<Longrightarrow> j < s \<Longrightarrow> bit m (s * i + j) \<longleftrightarrow> bs ! i \<and> j = c"
    by (auto simp: mask_single_def)
  have "n \<le> length bs \<Longrightarrow>
      map (\<lambda>j. j div s) (filter (bit m) [0..<n * s]) = filter (\<lambda>i. bs ! i) [0..<n]" for n
  proof (induction n)
    case (Suc n)
    have "[0..<Suc n * s] = [0..<n * s] @ map (\<lambda>j. s * n + j) [0..<s]"
      using upt_add_eq_append [of 0 "n * s" s] by (simp add: map_add_upt mult.commute add.commute)
    moreover have "filter (bit m) (map (\<lambda>j. s * n + j) [0..<s]) = (if bs ! n then [s * n + c] else [])"
    proof -
      have "filter (bit m) (map (\<lambda>j. s * n + j) [0..<s])
          = map (\<lambda>j. s * n + j) (filter (\<lambda>j. bs ! n \<and> j = c) [0..<s])"
        unfolding filter_map comp_def
        by (rule arg_cong [where f = "map _"], rule filter_cong) (use Suc.prems b in auto)
      moreover have "filter (\<lambda>j. j = c) [0..<s] = [c]"
        using c distinct_upt [of 0 s] by (induction s) (auto simp: less_Suc_eq filter_empty_conv)
      ultimately show ?thesis by simp
    qed
    ultimately show ?case using Suc c by simp
  qed simp
  from this [of "length bs"] show ?thesis by (simp add: len)
qed

section \<open>What a group promises\<close>

text \<open>The bytes a loop \<open>for bit in group.match_tag(tag)\<close> visits, and those of \<open>match_full\<close>.\<close>

definition tag_indices :: "('g, 'm::len word) group_impl \<Rightarrow> tag list \<Rightarrow> tag \<Rightarrow> nat list" where
  "tag_indices G ts t = bitmask_indices G (bitmask_into_iter G (match_tag G (load G ts) t))"

definition full_indices :: "('g, 'm::len word) group_impl \<Rightarrow> tag list \<Rightarrow> nat list" where
  "full_indices G ts = bitmask_indices G (bitmask_into_iter G (match_full G (load G ts)))"

abbreviation valid_tags :: "tag list \<Rightarrow> bool" where
  "valid_tags ts \<equiv> list_all valid_tag ts"

locale group_laws =
  fixes G :: "('g, 'm::len word) group_impl"
  assumes log_width_le: "log_width G \<le> 4"
    and tag_indices_hit:
      "length ts = WIDTH G \<Longrightarrow> is_full t \<Longrightarrow> b < WIDTH G \<Longrightarrow> ts ! b = t \<Longrightarrow> b \<in> set (tag_indices G ts t)"
    and tag_indices_full:
      "length ts = WIDTH G \<Longrightarrow> is_full t \<Longrightarrow> b \<in> set (tag_indices G ts t) \<Longrightarrow> b < WIDTH G \<and> is_full (ts ! b)"
    and any_empty:
      "length ts = WIDTH G \<Longrightarrow> valid_tags ts \<Longrightarrow>
         any_bit_set (match_empty G (load G ts)) \<longleftrightarrow> EMPTY \<in> set ts"
    and trailing_empty:
      "length ts = WIDTH G \<Longrightarrow> valid_tags ts \<Longrightarrow>
         trailing_zeros G (match_empty G (load G ts)) = length (takeWhile (\<lambda>t. t \<noteq> EMPTY) ts)"
    and leading_empty:
      "length ts = WIDTH G \<Longrightarrow> valid_tags ts \<Longrightarrow>
         leading_zeros G (match_empty G (load G ts)) = length (takeWhile (\<lambda>t. t \<noteq> EMPTY) (rev ts))"
    and lowest_special:
      "length ts = WIDTH G \<Longrightarrow> lowest_set_bit G (match_empty_or_deleted G (load G ts))
         = (if list_all is_full ts then None else Some (length (takeWhile is_full ts)))"
    and full_indices_eq:
      "length ts = WIDTH G \<Longrightarrow> full_indices G ts = filter (\<lambda>i. is_full (ts ! i)) [0..<WIDTH G]"
    and convert_eq:
      "length ts = WIDTH G \<Longrightarrow> store G (convert_special_to_empty_and_full_to_deleted G (load G ts))
         = map (\<lambda>t. if is_full t then DELETED else EMPTY) ts"

text \<open>The same contract in terms of the masks the back ends compute.\<close>

locale group_masks =
  fixes G :: "('g, 'm::len word) group_impl" and c :: nat
  assumes mask_width: "log_width G \<le> 4"
    and tag_mask: "length ts = WIDTH G \<Longrightarrow> is_full t \<Longrightarrow>
      \<exists>bs. mask_single (bitmask_stride G) c (bitmask_into_iter G (match_tag G (load G ts) t)) bs
        \<and> length bs = WIDTH G
        \<and> (\<forall>i<WIDTH G. (ts ! i = t \<longrightarrow> bs ! i) \<and> (bs ! i \<longrightarrow> is_full (ts ! i)))"
    and empty_mask: "length ts = WIDTH G \<Longrightarrow> valid_tags ts \<Longrightarrow>
      mask_marks (bitmask_stride G) (match_empty G (load G ts)) (map (\<lambda>t. t = EMPTY) ts)"
    and special_mask: "length ts = WIDTH G \<Longrightarrow>
      mask_marks (bitmask_stride G) (match_empty_or_deleted G (load G ts)) (map is_special ts)"
    and full_mask: "length ts = WIDTH G \<Longrightarrow>
      mask_single (bitmask_stride G) c (bitmask_into_iter G (match_full G (load G ts))) (map is_full ts)"
    and convert_bytes: "length ts = WIDTH G \<Longrightarrow>
      store G (convert_special_to_empty_and_full_to_deleted G (load G ts))
        = map (\<lambda>t. if is_full t then DELETED else EMPTY) ts"

lemma mask_single_set:
  fixes m :: "'m::len word"
  assumes "mask_single (bitmask_stride G) c m bs"
  shows "bitmask_indices G m = filter (\<lambda>i. bs ! i) [0..<length bs]"
  by (simp add: bitmask_indices_eq mask_single_indices [OF assms])

lemma mask_marks_lowest:
  assumes "mask_marks (bitmask_stride G) m bs"
  shows "lowest_set_bit G m = (if True \<in> set bs then Some (length (takeWhile Not bs)) else None)"
  using mask_marks_zero [OF assms] mask_trailing [OF assms] by (simp add: lowest_set_bit_def)

sublocale group_masks \<subseteq> group_laws G
proof
  show "log_width G \<le> 4" by (rule mask_width)
next
  fix ts :: "tag list" and t b
  assume "length ts = WIDTH G" "is_full t" "b < WIDTH G" "ts ! b = t"
  then show "b \<in> set (tag_indices G ts t)"
    using tag_mask [of ts t] by (auto simp: tag_indices_def mask_single_set)
next
  fix ts :: "tag list" and t b
  assume "length ts = WIDTH G" "is_full t" "b \<in> set (tag_indices G ts t)"
  then show "b < WIDTH G \<and> is_full (ts ! b)"
    using tag_mask [of ts t] by (auto simp: tag_indices_def mask_single_set)
next
  fix ts :: "tag list" assume l: "length ts = WIDTH G" and v: "valid_tags ts"
  note em = empty_mask [OF l v]
  have set: "True \<in> set (map (\<lambda>t. t = EMPTY) ts) \<longleftrightarrow> EMPTY \<in> set ts" by auto
  show "any_bit_set (match_empty G (load G ts)) \<longleftrightarrow> EMPTY \<in> set ts"
    using mask_marks_zero [OF em] set by (auto simp: any_bit_set_def)
  show "trailing_zeros G (match_empty G (load G ts)) = length (takeWhile (\<lambda>t. t \<noteq> EMPTY) ts)"
    using mask_trailing [OF em] by (simp add: trailing_zeros_def takeWhile_map comp_def)
  show "leading_zeros G (match_empty G (load G ts)) = length (takeWhile (\<lambda>t. t \<noteq> EMPTY) (rev ts))"
    using mask_leading [OF em] by (simp add: leading_zeros_def takeWhile_map comp_def rev_map)
next
  fix ts :: "tag list" assume l: "length ts = WIDTH G"
  have "True \<in> set (map is_special ts) \<longleftrightarrow> \<not> list_all is_full ts"
    by (auto simp: list_all_iff is_special_not_full)
  then show "lowest_set_bit G (match_empty_or_deleted G (load G ts))
      = (if list_all is_full ts then None else Some (length (takeWhile is_full ts)))"
    using mask_marks_lowest [OF special_mask [OF l]]
    by (simp add: takeWhile_map comp_def is_special_not_full)
  show "full_indices G ts = filter (\<lambda>i. is_full (ts ! i)) [0..<WIDTH G]"
    using mask_single_set [OF full_mask [OF l]] l by (auto simp: full_indices_def intro: filter_cong)
  show "store G (convert_special_to_empty_and_full_to_deleted G (load G ts))
      = map (\<lambda>t. if is_full t then DELETED else EMPTY) ts"
    by (rule convert_bytes [OF l])
qed

section \<open>Bytes of a machine word\<close>

definition word_of_bytes :: "byte list \<Rightarrow> 'm::len word" where
  "word_of_bytes bs = word_of_nat (le_value bs)"

lemma bit_le_value:
  "i < length bs \<Longrightarrow> j < 8 \<Longrightarrow> bit (le_value bs) (8 * i + j) \<longleftrightarrow> bit (bs ! i) j"
proof (induction bs arbitrary: i)
  case (Cons b bs)
  have low: "bit (unat b) k \<longleftrightarrow> bit b k" for k by (simp add: bit_unsigned_iff bit_imp_le_length)
  have v: "le_value (b # bs) = unat b OR push_bit 8 (le_value bs)"
  proof -
    have "unat b AND push_bit 8 (le_value bs) = 0"
      by (rule bit_eqI) (auto simp: bit_and_iff bit_push_bit_iff low dest: bit_imp_le_length)
    then show ?thesis by (simp add: disjunctive_add_eq_or [symmetric] push_bit_eq_mult)
  qed
  show ?case
  proof (cases i)
    case 0
    with Cons.prems show ?thesis by (simp only: v) (auto simp: bit_or_iff bit_push_bit_iff low)
  next
    case (Suc k)
    then have "\<not> bit b (8 * i + j)" by (auto dest: bit_imp_le_length)
    with Suc Cons show ?thesis by (simp only: v) (auto simp: bit_or_iff bit_push_bit_iff low)
  qed
qed simp

lemma bit_word_of_bytes:
  assumes "8 * length bs = LENGTH('m::len)" and "i < length bs" and "j < 8"
  shows "bit (word_of_bytes bs :: 'm word) (8 * i + j) \<longleftrightarrow> bit (bs ! i) j"
proof -
  have "8 * i + j < LENGTH('m)" using assms by linarith
  then show ?thesis using bit_le_value [OF assms(2,3)] by (simp add: word_of_bytes_def bit_of_nat_iff possible_bit_word)
qed

lemma word_of_bytes_eqI:
  fixes w :: "'m::len word"
  assumes len: "8 * length bs = LENGTH('m)"
    and "\<And>i j. i < length bs \<Longrightarrow> j < 8 \<Longrightarrow> bit w (8 * i + j) \<longleftrightarrow> bit (bs ! i) j"
  shows "w = word_of_bytes bs"
proof (rule bit_word_eqI)
  fix n assume "n < LENGTH('m)"
  then have "n div 8 < length bs" using len by simp
  then show "bit w n \<longleftrightarrow> bit (word_of_bytes bs :: 'm word) n"
    using assms(2) [of "n div 8" "n mod 8"] bit_word_of_bytes [OF len, of "n div 8" "n mod 8"] by simp
qed

section \<open>The back ends\<close>

subsection \<open>The generic one, on a machine word\<close>

text \<open>
  \<open>GroupWord\<close> is \<open>u64\<close> or \<open>u32\<close>; the word type is that of the result and \<open>k\<close> the logarithm of
  its size in bytes. Memory is little-endian, so \<open>to_le\<close> is the identity.
\<close>

definition repeat_tag :: "nat \<Rightarrow> tag \<Rightarrow> 'm::len word" where
  "repeat_tag k t = word_of_bytes (replicate (2 ^ k) t)"

definition generic_match_tag :: "nat \<Rightarrow> 'm::len word \<Rightarrow> tag \<Rightarrow> 'm word" where
  "generic_match_tag k g t = (let cmp = g XOR repeat_tag k t in
     (cmp - repeat_tag k 0x01) AND NOT cmp AND repeat_tag k DELETED)"

definition generic_match_empty :: "nat \<Rightarrow> 'm::len word \<Rightarrow> 'm word" where
  "generic_match_empty k g = g AND push_bit 1 g AND repeat_tag k DELETED"

definition generic_match_empty_or_deleted :: "nat \<Rightarrow> 'm::len word \<Rightarrow> 'm word" where
  "generic_match_empty_or_deleted k g = g AND repeat_tag k DELETED"

definition generic_match_full :: "nat \<Rightarrow> 'm::len word \<Rightarrow> 'm word" where
  "generic_match_full k g = generic_match_empty_or_deleted k g XOR repeat_tag k DELETED"

definition generic_convert :: "nat \<Rightarrow> 'm::len word \<Rightarrow> 'm word" where
  "generic_convert k g = (let full = NOT g AND repeat_tag k DELETED in NOT full + drop_bit 7 full)"

definition generic_group :: "nat \<Rightarrow> ('m::len word, 'm word) group_impl" where
  "generic_group k =
     \<lparr>log_width = k, bitmask_stride = 8, bitmask_iter_mask = NOT 0,
      load = word_of_bytes, store = (\<lambda>g. le_bytes (2 ^ k) (unat g)),
      match_tag = generic_match_tag k, match_empty = generic_match_empty k,
      match_empty_or_deleted = generic_match_empty_or_deleted k, match_full = generic_match_full k,
      convert_special_to_empty_and_full_to_deleted = generic_convert k\<rparr>"

subsection \<open>Vector instructions\<close>

text \<open>
  A vector register is the list of its byte lanes. A comparison sets a lane to all ones or to
  zero; the mask instructions collect the top bit of every lane.
\<close>

definition lanes_where :: "(tag \<Rightarrow> bool) \<Rightarrow> tag list \<Rightarrow> tag list" where
  "lanes_where P v = map (\<lambda>x. if P x then 0xFF else 0) v"

definition movemask :: "tag list \<Rightarrow> 16 word" where
  "movemask v = horner_sum of_bool 2 (map (\<lambda>x. bit x 7) v)"

definition sse2_match_tag :: "tag list \<Rightarrow> tag \<Rightarrow> 16 word" where
  "sse2_match_tag g t = movemask (lanes_where (\<lambda>x. x = t) g)"

definition sse2_convert :: "tag list \<Rightarrow> tag list" where
  "sse2_convert g = map (\<lambda>x. x OR DELETED) (lanes_where (\<lambda>x. x <s 0) g)"

definition sse2_group :: "(tag list, 16 word) group_impl" where
  "sse2_group =
     \<lparr>log_width = 4, bitmask_stride = 1, bitmask_iter_mask = NOT 0, load = id, store = id,
      match_tag = sse2_match_tag, match_empty = (\<lambda>g. sse2_match_tag g EMPTY),
      match_empty_or_deleted = movemask, match_full = (\<lambda>g. NOT (movemask g)),
      convert_special_to_empty_and_full_to_deleted = sse2_convert\<rparr>"

definition neon_match_tag :: "tag list \<Rightarrow> tag \<Rightarrow> u64" where
  "neon_match_tag g t = word_of_bytes (lanes_where (\<lambda>x. x = t) g)"

definition neon_group :: "(tag list, 64 word) group_impl" where
  "neon_group =
     \<lparr>log_width = 3, bitmask_stride = 8, bitmask_iter_mask = 0x8080808080808080,
      load = id, store = id,
      match_tag = neon_match_tag, match_empty = (\<lambda>g. neon_match_tag g EMPTY),
      match_empty_or_deleted = (\<lambda>g. word_of_bytes (lanes_where (\<lambda>x. x <s 0) g)),
      match_full = (\<lambda>g. word_of_bytes (lanes_where (\<lambda>x. 0 \<le>s x) g)),
      convert_special_to_empty_and_full_to_deleted =
        (\<lambda>g. map (\<lambda>x. x OR 0x80) (lanes_where (\<lambda>x. x <s 0) g))\<rparr>"

definition lsx_group :: "(tag list, 16 word) group_impl" where
  "lsx_group =
     \<lparr>log_width = 4, bitmask_stride = 1, bitmask_iter_mask = NOT 0, load = id, store = id,
      match_tag = (\<lambda>g t. movemask (lanes_where (\<lambda>x. x = t) g)),
      match_empty = (\<lambda>g. movemask (lanes_where (\<lambda>x. x = EMPTY) g)),
      match_empty_or_deleted = movemask,
      match_full = (\<lambda>g. movemask (lanes_where (\<lambda>x. 0 \<le>s x) g)),
      convert_special_to_empty_and_full_to_deleted =
        (\<lambda>g. map (\<lambda>x. x OR DELETED) (lanes_where (\<lambda>x. x <s 0) g))\<rparr>"

subsection \<open>The subtraction of \<open>match_tag\<close>\<close>

lemma unat_zero_one: "unat (c :: u8) = 0 \<longleftrightarrow> c = 0" "unat (c :: u8) = 1 \<longleftrightarrow> c = 1"
  by (simp_all add: word_unat_eq_iff)

text \<open>
  Subtracting one from every byte: the top bit of a byte whose top bit was clear is set only
  when the byte was 0, or when it was 1 and a borrow came in, and a borrow only starts at a
  byte that was 0.
\<close>

lemma subtract_ones:
  assumes "i < length cs" and "b = 0 \<or> b = 1" and "\<not> bit (cs ! i) 7"
  defines "d \<equiv> int (le_value cs) - int (le_value (replicate (length cs) 1)) - b"
  shows "(cs ! i = 0 \<longrightarrow> bit d (8 * i + 7))
    \<and> (bit d (8 * i + 7) \<longrightarrow> cs ! i = 0 \<or> cs ! i = 1 \<and> (b = 1 \<or> (\<exists>k<i. cs ! k = 0)))"
  using assms(1-3) unfolding d_def
proof (induction cs arbitrary: i b)
  case (Cons c cs)
  define d' where "d' = int (le_value cs) - int (le_value (replicate (length cs) 1))"
  define u where "u = int (unat c)"
  define e where "e = u - 1 - b"
  have d: "int (le_value (c # cs)) - int (le_value (replicate (length (c # cs)) 1)) - b = e + 256 * d'"
    by (simp add: e_def u_def d'_def)
  have c: "0 \<le> u" "u < 256"
    using unsigned_less [of c, where ?'a = int] by (simp_all add: u_def)
  have u01: "u = 0 \<longleftrightarrow> c = 0" "u = 1 \<longleftrightarrow> c = 1"
    by (simp_all add: u_def word_uint_eq_iff)
  show ?case
  proof (cases i)
    case 0
    with Cons.prems(3) have "\<not> bit u 7" by (simp add: u_def bit_uint_iff)
    moreover have "bit u 7 \<longleftrightarrow> 128 \<le> u"
    proof -
      have "u div 128 = (if u < 128 then 0 else 1)" using c by auto
      then show ?thesis by (simp add: bit_iff_odd)
    qed
    ultimately have lt: "u < 128" by simp
    have "bit (e + 256 * d') 7 \<longleftrightarrow> odd ((e + 256 * d') div 128)" by (simp add: bit_iff_odd)
    also have "(e + 256 * d') div 128 = (if e < 0 then - 1 else 0) + 2 * d'"
    proof -
      have "(e + 256 * d') div 128 = (e + (2 * d') * 128) div 128" by simp
      also have "\<dots> = 2 * d' + e div 128" by (rule div_mult_self1) simp
      also have "e div 128 = (if e < 0 then - 1 else 0)"
        using lt c Cons.prems(2) by (auto simp: e_def)
      finally show ?thesis by simp
    qed
    also have "odd ((if e < 0 then - 1 else 0) + 2 * d') \<longleftrightarrow> e < 0" by simp
    finally have "bit (e + 256 * d') 7 \<longleftrightarrow> e < 0" .
    then show ?thesis
      unfolding d using 0 c Cons.prems(2) by (auto simp: e_def simp flip: u01)
  next
    case (Suc k)
    define b' :: int where "b' = (if e < 0 then 1 else 0)"
    have "bit (e + 256 * d') (8 * i + 7) \<longleftrightarrow> bit (drop_bit 8 (e + 256 * d')) (8 * k + 7)"
      using Suc by (simp add: bit_drop_bit_eq)
    also have "drop_bit 8 (e + 256 * d') = d' - b'"
      using c Cons.prems(2) by (auto simp: b'_def e_def drop_bit_eq_div)
    finally have st: "bit (e + 256 * d') (8 * i + 7) \<longleftrightarrow> bit (d' - b') (8 * k + 7)" .
    have b': "b' = 1 \<longleftrightarrow> c = 0 \<or> c = 1 \<and> b = 1"
      using c Cons.prems(2) by (auto simp: b'_def e_def simp flip: u01)
    from Cons.IH [of k b'] Cons.prems Suc
    have IH: "(cs ! k = 0 \<longrightarrow> bit (d' - b') (8 * k + 7)) \<and>
        (bit (d' - b') (8 * k + 7) \<longrightarrow> cs ! k = 0 \<or> cs ! k = 1 \<and> (b' = 1 \<or> (\<exists>k'<k. cs ! k' = 0)))"
      by (auto simp: b'_def d'_def)
    show ?thesis
      unfolding d st using IH Suc b' by (auto simp: Ex_less_Suc2)
  qed
qed simp

subsection \<open>The generic back end keeps the contract\<close>

lemma bit_DELETED: "bit DELETED j \<longleftrightarrow> j = 7"
proof -
  have D: "DELETED = 2 ^ 7" by (simp add: DELETED_def)
  have "bit DELETED j \<longleftrightarrow> possible_bit TYPE(u8) j \<and> j = 7" unfolding D by (rule bit_exp_iff)
  then show ?thesis by (auto simp: possible_bit_word)
qed

lemma bit_repeat_tag:
  assumes "8 * 2 ^ k = LENGTH('m::len)" and "i < 2 ^ k" and "j < 8"
  shows "bit (repeat_tag k t :: 'm word) (8 * i + j) \<longleftrightarrow> bit t j"
  using bit_word_of_bytes [where ?'m = 'm and bs = "replicate (2 ^ k) t" and i = i and j = j] assms
  by (simp add: repeat_tag_def)

lemma generic_cmp:
  assumes "8 * 2 ^ k = LENGTH('m::len)" and "length ts = 2 ^ k"
  shows "word_of_bytes ts XOR repeat_tag k t = (word_of_bytes (map (\<lambda>x. x XOR t) ts) :: 'm word)"
  by (rule word_of_bytes_eqI)
     (use assms in \<open>simp_all add: bit_xor_iff bit_word_of_bytes bit_repeat_tag\<close>)

lemma generic_match_tag_bit:
  fixes ts :: "tag list" and t :: tag
  assumes w: "8 * 2 ^ k = LENGTH('m::len)" and l: "length ts = 2 ^ k" and i: "i < 2 ^ k" and j: "j < 8"
  defines "cs \<equiv> map (\<lambda>x. x XOR t) ts"
  shows "bit (generic_match_tag k (word_of_bytes ts :: 'm word) t) (8 * i + j) \<longleftrightarrow>
    j = 7 \<and> \<not> bit (cs ! i) 7
      \<and> bit (int (le_value cs) - int (le_value (replicate (length cs) 1))) (8 * i + 7)"
proof -
  have in_word: "8 * i + j < LENGTH('m)" using i j by (simp flip: w)
  have sub: "word_of_bytes cs - repeat_tag k 1
      = (word_of_int (int (le_value cs) - int (le_value (replicate (length cs) 1))) :: 'm word)"
    by (simp add: word_of_bytes_def repeat_tag_def cs_def l)
  have d: "bit (word_of_bytes cs - repeat_tag k 1 :: 'm word) (8 * i + j) \<longleftrightarrow>
      bit (int (le_value cs) - int (le_value (replicate (length cs) 1))) (8 * i + j)"
    unfolding sub using in_word by (simp only: bit_word_of_int_iff simp_thms)
  have c: "bit (word_of_bytes cs :: 'm word) (8 * i + j) \<longleftrightarrow> bit (cs ! i) j"
    by (rule bit_word_of_bytes) (use w l i j in \<open>simp_all add: cs_def\<close>)
  show ?thesis
    unfolding generic_match_tag_def Let_def generic_cmp [OF w l] cs_def [symmetric]
      bit_and_iff bit_not_iff bit_repeat_tag [OF w i j] bit_DELETED d c
    using in_word by (auto simp: possible_bit_word)
qed

text \<open>
  A hit of \<open>match_tag\<close> is a byte equal to the tag or, after such a byte, one that differs from
  it in the lowest bit only.
\<close>

lemma generic_match_tag_hits:
  fixes ts :: "tag list" and t :: tag
  assumes w: "8 * 2 ^ k = LENGTH('m::len)" and l: "length ts = 2 ^ k" and i: "i < 2 ^ k"
  defines "hit \<equiv> bit (generic_match_tag k (word_of_bytes ts :: 'm word) t) (8 * i + 7)"
  shows "ts ! i = t \<Longrightarrow> hit"
    and "hit \<Longrightarrow> ts ! i = t \<or> ts ! i = t XOR 1 \<and> (\<exists>k<i. ts ! k = t)"
proof -
  let ?cs = "map (\<lambda>x. x XOR t) ts"
  have x0: "x XOR t = 0 \<longleftrightarrow> x = t" for x :: u8
    by (auto simp: bit_eq_iff bit_xor_iff)
  have x1: "x XOR t = 1 \<longleftrightarrow> x = t XOR 1" for x :: u8
    unfolding bit_eq_iff bit_xor_iff by metis
  note hit = generic_match_tag_bit [OF w l i, of 7 t, folded hit_def, simplified]
  {
    assume "ts ! i = t"
    then show hit
      using subtract_ones [of i ?cs 0] i l by (simp add: hit)
  next
    assume hit
    then show "ts ! i = t \<or> ts ! i = t XOR 1 \<and> (\<exists>k<i. ts ! k = t)"
      using subtract_ones [of i ?cs 0] i l by (auto simp: hit x0 x1)
  }
qed

lemma is_full_xor_one: "is_full (t XOR 1) \<longleftrightarrow> is_full t"
  by (simp add: is_full_bit bit_xor_iff bit_1_iff)

lemma generic_tag_mask:
  assumes w: "8 * 2 ^ k = LENGTH('m::len)" and l: "length ts = 2 ^ k" and t: "is_full t"
  shows "\<exists>bs. mask_single 8 7 (generic_match_tag k (word_of_bytes ts :: 'm word) t) bs
    \<and> length bs = 2 ^ k \<and> (\<forall>i<2 ^ k. (ts ! i = t \<longrightarrow> bs ! i) \<and> (bs ! i \<longrightarrow> is_full (ts ! i)))"
proof (intro exI conjI allI impI)
  let ?m = "generic_match_tag k (word_of_bytes ts :: 'm word) t"
  let ?bs = "map (\<lambda>i. bit ?m (8 * i + 7)) [0..<2 ^ k]"
  show "mask_single 8 7 ?m ?bs"
    using w generic_match_tag_bit [OF w l] by (auto simp: mask_single_def)
  fix i :: nat assume i: "i < 2 ^ k"
  note hits = generic_match_tag_hits [OF w l i, of t]
  show "?bs ! i" if "ts ! i = t" using hits(1) [OF that] i by simp
  show "is_full (ts ! i)" if "?bs ! i"
    using hits(2) that i t by (auto simp: is_full_xor_one)
qed simp

lemma valid_tag_bit6: "valid_tag t \<Longrightarrow> bit t 7 \<and> bit t 6 \<longleftrightarrow> t = EMPTY"
proof -
  have "bit EMPTY 7" "bit EMPTY 6" "\<not> bit DELETED 6"
    by (simp_all add: EMPTY_def bit_numeral_rec bit_DELETED)
  then show "valid_tag t \<Longrightarrow> bit t 7 \<and> bit t 6 \<longleftrightarrow> t = EMPTY"
    by (auto simp: valid_tag_def is_full_bit)
qed

lemma mask_single_bytes:
  fixes m :: "'m::len word"
  assumes "8 * 2 ^ k = LENGTH('m)" and "length ts = 2 ^ k"
    and "\<And>i j. i < 2 ^ k \<Longrightarrow> j < 8 \<Longrightarrow> bit m (8 * i + j) \<longleftrightarrow> P (ts ! i) \<and> j = 7"
  shows "mask_single 8 7 m (map P ts)"
  using assms by (auto simp: mask_single_def)

lemma generic_empty_mask:
  assumes w: "8 * 2 ^ k = LENGTH('m::len)" and l: "length ts = 2 ^ k" and v: "valid_tags ts"
  shows "mask_single 8 7 (generic_match_empty k (word_of_bytes ts :: 'm word)) (map (\<lambda>t. t = EMPTY) ts)"
proof (rule mask_single_bytes [OF w l])
  fix i j :: nat assume i: "i < 2 ^ k" and j: "j < 8"
  let ?g = "word_of_bytes ts :: 'm word"
  have in_word: "8 * i + j < LENGTH('m)" using i j by (simp flip: w)
  have b: "bit ?g (8 * i + n) \<longleftrightarrow> bit (ts ! i) n" if "n < 8" for n
    using bit_word_of_bytes [where ?'m = 'm, of ts i n] w l i that by simp
  have "bit (generic_match_empty k ?g) (8 * i + j) \<longleftrightarrow> j = 7 \<and> bit ?g (8 * i + 7) \<and> bit ?g (8 * i + 6)"
    using in_word
    by (auto simp: generic_match_empty_def bit_and_iff bit_repeat_tag [OF w i j] bit_DELETED
        bit_push_bit_iff possible_bit_word add.commute [of 6] simp del: push_bit_Suc)
  also have "\<dots> \<longleftrightarrow> ts ! i = EMPTY \<and> j = 7"
    using v i l valid_tag_bit6 [of "ts ! i"] by (auto simp: b list_all_length)
  finally show "bit (generic_match_empty k ?g) (8 * i + j) \<longleftrightarrow> ts ! i = EMPTY \<and> j = 7" .
qed

lemma generic_special_mask:
  assumes w: "8 * 2 ^ k = LENGTH('m::len)" and l: "length ts = 2 ^ k"
  shows "mask_single 8 7 (generic_match_empty_or_deleted k (word_of_bytes ts :: 'm word)) (map is_special ts)"
    and "mask_single 8 7 (generic_match_full k (word_of_bytes ts :: 'm word)) (map is_full ts)"
proof -
  have b: "bit (word_of_bytes ts :: 'm word) (8 * i + j) \<longleftrightarrow> bit (ts ! i) j" if "i < 2 ^ k" "j < 8" for i j
    using bit_word_of_bytes [where ?'m = 'm, of ts i j] w l that by simp
  show "mask_single 8 7 (generic_match_empty_or_deleted k (word_of_bytes ts :: 'm word)) (map is_special ts)"
    by (rule mask_single_bytes [OF w l])
       (auto simp: generic_match_empty_or_deleted_def bit_and_iff bit_repeat_tag [OF w] bit_DELETED b
         is_special_not_full is_full_bit)
  show "mask_single 8 7 (generic_match_full k (word_of_bytes ts :: 'm word)) (map is_full ts)"
    by (rule mask_single_bytes [OF w l])
       (auto simp: generic_match_full_def generic_match_empty_or_deleted_def bit_and_iff bit_xor_iff
         bit_repeat_tag [OF w] bit_DELETED b is_full_bit)
qed

lemma le_value_add:
  "(\<And>x. x \<in> set xs \<Longrightarrow> unat (f x) + unat (g x) = unat (h x))
    \<Longrightarrow> le_value (map f xs) + le_value (map g xs) = le_value (map h xs)"
proof (induction xs)
  case (Cons x xs)
  from Cons.prems [of x] have "unat (f x) + unat (g x) = unat (h x)" by simp
  moreover have "le_value (map f xs) + le_value (map g xs) = le_value (map h xs)" using Cons by simp
  ultimately show ?case by simp
qed simp

lemma le_bytes_word_of_bytes:
  assumes "8 * length bs = LENGTH('m::len)" and "length bs = n"
  shows "le_bytes n (unat (word_of_bytes bs :: 'm word)) = bs"
proof -
  have "(256 :: nat) ^ length bs = 2 ^ LENGTH('m)"
    using power_mult [of "2 :: nat" 8 "length bs"] assms(1) by simp
  then have "unat (word_of_bytes bs :: 'm word) = le_value bs"
    using le_value_less [of bs] by (simp add: word_of_bytes_def unat_of_nat)
  then show ?thesis using le_bytes_le_value [OF assms(2)] by simp
qed

lemma bit_tag_consts:
  "j < 8 \<Longrightarrow> bit (0xFF :: int) j" "j < 8 \<Longrightarrow> bit (0x7F :: int) j \<longleftrightarrow> j \<noteq> 7"
  by (auto simp: less_Suc_eq numeral_eq_Suc bit_Suc)

lemma generic_convert_eq:
  assumes w: "8 * 2 ^ k = LENGTH('m::len)" and l: "length ts = 2 ^ k"
  shows "generic_convert k (word_of_bytes ts :: 'm word)
    = word_of_bytes (map (\<lambda>t. if is_full t then DELETED else EMPTY) ts)"
proof -
  have b: "bit (word_of_bytes bs :: 'm word) (8 * i + j) \<longleftrightarrow> bit (bs ! i) j"
    if "length bs = 2 ^ k" "i < 2 ^ k" "j < 8" for bs i j
    using bit_word_of_bytes [where ?'m = 'm, of bs i j] w that by simp
  define full where "full = (NOT (word_of_bytes ts) AND repeat_tag k DELETED :: 'm word)"
  have full: "bit full (8 * i + j) \<longleftrightarrow> is_full (ts ! i) \<and> j = 7" if "i < 2 ^ k" "j < 8" for i j
  proof -
    have "8 * i + j < LENGTH('m)" using that by (simp flip: w)
    then show ?thesis using that
      by (auto simp: full_def bit_and_iff bit_not_iff bit_repeat_tag [OF w] bit_DELETED b l is_full_bit
          possible_bit_word)
  qed
  have not_full: "NOT full = word_of_bytes (map (\<lambda>t. if is_full t then 0x7F else 0xFF) ts)"
  proof (rule word_of_bytes_eqI)
    fix i j :: nat assume "i < length (map (\<lambda>t. if is_full t then 0x7F else 0xFF :: u8) ts)" and j: "j < 8"
    then have i: "i < 2 ^ k" by (simp add: l)
    then have "8 * i + j < LENGTH('m)" using j by (simp flip: w)
    then show "bit (NOT full) (8 * i + j)
        \<longleftrightarrow> bit (map (\<lambda>t. if is_full t then 0x7F else 0xFF :: u8) ts ! i) j"
      using i j by (auto simp: bit_not_iff full l bit_tag_consts possible_bit_word)
  qed (simp add: l w)
  have shifted: "drop_bit 7 full = word_of_bytes (map (\<lambda>t. if is_full t then 1 else 0) ts)"
  proof (rule word_of_bytes_eqI)
    fix i j :: nat assume "i < length (map (\<lambda>t. if is_full t then 1 else 0 :: u8) ts)" and j: "j < 8"
    then have i: "i < 2 ^ k" by (simp add: l)
    have "bit full (7 + (8 * i + j)) \<longleftrightarrow> is_full (ts ! i) \<and> j = 0"
    proof (cases "j = 0")
      case True
      then show ?thesis using full [OF i, of 7] by (simp add: add.commute)
    next
      case False
      then have e: "7 + (8 * i + j) = 8 * Suc i + (j - 1)" by simp
      have "\<not> bit full (8 * Suc i + (j - 1))"
      proof (cases "Suc i < 2 ^ k")
        case True
        then show ?thesis using full [of "Suc i" "j - 1"] j by auto
      next
        case False
        then have "LENGTH('m) \<le> 8 * Suc i + (j - 1)" by (simp flip: w)
        then show ?thesis using bit_imp_le_length [of full] by (meson linorder_not_less)
      qed
      then show ?thesis using False unfolding e by simp
    qed
    then show "bit (drop_bit 7 full) (8 * i + j) \<longleftrightarrow> bit (map (\<lambda>t. if is_full t then 1 else 0 :: u8) ts ! i) j"
      using i by (simp add: bit_drop_bit_eq l bit_1_iff)
  qed (simp add: l w)
  have "generic_convert k (word_of_bytes ts :: 'm word) = NOT full + drop_bit 7 full"
    by (simp add: generic_convert_def full_def Let_def)
  also have "\<dots> = word_of_nat (le_value (map (\<lambda>t. if is_full t then 0x7F else 0xFF) ts)
      + le_value (map (\<lambda>t. if is_full t then 1 else 0) ts))"
    unfolding not_full shifted by (simp add: word_of_bytes_def)
  also have "\<dots> = word_of_bytes (map (\<lambda>t. if is_full t then DELETED else EMPTY) ts)"
    unfolding word_of_bytes_def
    by (rule arg_cong [where f = word_of_nat], rule le_value_add) (simp add: DELETED_def EMPTY_def)
  finally show ?thesis .
qed

lemma generic_group_masks:
  assumes w: "8 * 2 ^ k = LENGTH('m::len)" and k: "k \<le> 4"
  shows "group_masks (generic_group k :: ('m word, 'm word) group_impl) 7"
proof
  fix ts :: "tag list" assume "length ts = WIDTH (generic_group k :: ('m word, 'm word) group_impl)"
  then have l: "length ts = 2 ^ k" by (simp add: WIDTH_def generic_group_def)
  let ?G = "generic_group k :: ('m word, 'm word) group_impl"
  note defs = generic_group_def WIDTH_def bitmask_into_iter_def
  show "valid_tags ts \<Longrightarrow> mask_marks (bitmask_stride ?G) (match_empty ?G (load ?G ts)) (map (\<lambda>t. t = EMPTY) ts)"
    using mask_single_marks [OF generic_empty_mask [OF w l]] by (simp add: defs)
  show "mask_marks (bitmask_stride ?G) (match_empty_or_deleted ?G (load ?G ts)) (map is_special ts)"
    using mask_single_marks [OF generic_special_mask(1) [OF w l]] by (simp add: defs)
  show "mask_single (bitmask_stride ?G) 7 (bitmask_into_iter ?G (match_full ?G (load ?G ts))) (map is_full ts)"
    using generic_special_mask(2) [OF w l] by (simp add: defs)
  show "store ?G (convert_special_to_empty_and_full_to_deleted ?G (load ?G ts))
      = map (\<lambda>t. if is_full t then DELETED else EMPTY) ts"
    by (simp add: defs generic_convert_eq [OF w l] le_bytes_word_of_bytes w l)
  fix t assume "is_full t"
  from generic_tag_mask [OF w l this]
  show "\<exists>bs. mask_single (bitmask_stride ?G) 7 (bitmask_into_iter ?G (match_tag ?G (load ?G ts) t)) bs
      \<and> length bs = WIDTH ?G
      \<and> (\<forall>i<WIDTH ?G. (ts ! i = t \<longrightarrow> bs ! i) \<and> (bs ! i \<longrightarrow> is_full (ts ! i)))"
    by (simp add: defs)
qed (simp add: generic_group_def k)

interpretation generic64: group_masks "generic_group 3 :: (64 word, 64 word) group_impl" 7
  by (rule generic_group_masks) simp_all

interpretation generic32: group_masks "generic_group 2 :: (32 word, 32 word) group_impl" 7
  by (rule generic_group_masks) simp_all

subsection \<open>The vector back ends keep it\<close>

lemma signed_lane: "x <s 0 \<longleftrightarrow> \<not> is_full x" "0 \<le>s x \<longleftrightarrow> is_full x" for x :: tag
  using bit_last_iff [of x] by (auto simp: word_sless_alt word_sle_eq is_full_bit)

lemma length_lanes_where [simp]: "length (lanes_where P v) = length v"
  by (simp add: lanes_where_def)

lemma is_full_lane: "i < length v \<Longrightarrow> bit (lanes_where P v ! i) j \<longleftrightarrow> P (v ! i) \<and> j < 8"
  by (auto simp: lanes_where_def bit_tag_consts dest: bit_imp_le_length)

lemma bit_movemask: "length v = 16 \<Longrightarrow> bit (movemask v) i \<longleftrightarrow> i < 16 \<and> bit (v ! i) 7"
  by (auto simp: movemask_def bit_horner_sum_bit_word_iff)

lemma movemask_single:
  assumes "length v = 16" and "\<And>i. i < 16 \<Longrightarrow> bit (v ! i) 7 \<longleftrightarrow> bs ! i" and "length bs = 16"
  shows "mask_single 1 0 (movemask v) bs"
  using assms by (auto simp: mask_single_def bit_movemask)

lemma movemask_lanes:
  "length g = 16 \<Longrightarrow> mask_single 1 0 (movemask (lanes_where P g)) (map P g)"
  by (rule movemask_single) (auto simp: is_full_lane)

lemma movemask_special: "length g = 16 \<Longrightarrow> mask_single 1 0 (movemask g) (map is_special g)"
  by (rule movemask_single) (auto simp: is_special_not_full is_full_bit)

lemma movemask_not: "length g = 16 \<Longrightarrow> mask_single 1 0 (NOT (movemask g)) (map is_full g)"
  by (auto simp: mask_single_def bit_not_iff bit_movemask is_full_bit possible_bit_word)

lemma convert_lanes:
  "map (\<lambda>x. x OR DELETED) (lanes_where (\<lambda>x. x <s 0) g)
    = map (\<lambda>t. if is_full t then DELETED else EMPTY) g"
  by (simp add: lanes_where_def signed_lane EMPTY_def DELETED_def)

lemma exact_tag_mask:
  assumes "mask_single s c m (map (\<lambda>x. x = t) ts)" and "length ts = n" and "is_full t"
  shows "\<exists>bs. mask_single s c m bs \<and> length bs = n
    \<and> (\<forall>i<n. (ts ! i = t \<longrightarrow> bs ! i) \<and> (bs ! i \<longrightarrow> is_full (ts ! i)))"
  using assms by (intro exI [of _ "map (\<lambda>x. x = t) ts"]) auto

interpretation sse2: group_masks sse2_group 0
proof
  fix ts :: "tag list" assume "length ts = WIDTH sse2_group"
  then have l: "length ts = 16" by (simp add: WIDTH_def sse2_group_def)
  note defs = sse2_group_def WIDTH_def bitmask_into_iter_def sse2_match_tag_def sse2_convert_def
  show "mask_marks (bitmask_stride sse2_group) (match_empty sse2_group (load sse2_group ts)) (map (\<lambda>t. t = EMPTY) ts)"
    using mask_single_marks [OF movemask_lanes [OF l]] by (simp add: defs)
  show "mask_marks (bitmask_stride sse2_group) (match_empty_or_deleted sse2_group (load sse2_group ts)) (map is_special ts)"
    using mask_single_marks [OF movemask_special [OF l]] by (simp add: defs)
  show "mask_single (bitmask_stride sse2_group) 0
      (bitmask_into_iter sse2_group (match_full sse2_group (load sse2_group ts))) (map is_full ts)"
    using movemask_not [OF l] by (simp add: defs)
  show "store sse2_group (convert_special_to_empty_and_full_to_deleted sse2_group (load sse2_group ts))
      = map (\<lambda>t. if is_full t then DELETED else EMPTY) ts"
    by (simp add: defs convert_lanes)
  fix t assume "is_full t"
  from exact_tag_mask [OF movemask_lanes [OF l] l this]
  show "\<exists>bs. mask_single (bitmask_stride sse2_group) 0
        (bitmask_into_iter sse2_group (match_tag sse2_group (load sse2_group ts) t)) bs
      \<and> length bs = WIDTH sse2_group
      \<and> (\<forall>i<WIDTH sse2_group. (ts ! i = t \<longrightarrow> bs ! i) \<and> (bs ! i \<longrightarrow> is_full (ts ! i)))"
    by (simp add: defs)
qed (simp add: sse2_group_def)

interpretation lsx: group_masks lsx_group 0
proof
  fix ts :: "tag list" assume "length ts = WIDTH lsx_group"
  then have l: "length ts = 16" by (simp add: WIDTH_def lsx_group_def)
  note defs = lsx_group_def WIDTH_def bitmask_into_iter_def
  show "mask_marks (bitmask_stride lsx_group) (match_empty lsx_group (load lsx_group ts)) (map (\<lambda>t. t = EMPTY) ts)"
    using mask_single_marks [OF movemask_lanes [OF l]] by (simp add: defs)
  show "mask_marks (bitmask_stride lsx_group) (match_empty_or_deleted lsx_group (load lsx_group ts)) (map is_special ts)"
    using mask_single_marks [OF movemask_special [OF l]] by (simp add: defs)
  show "mask_single (bitmask_stride lsx_group) 0
      (bitmask_into_iter lsx_group (match_full lsx_group (load lsx_group ts))) (map is_full ts)"
    using movemask_lanes [OF l, of "\<lambda>x. 0 \<le>s x"] by (simp add: defs signed_lane)
  show "store lsx_group (convert_special_to_empty_and_full_to_deleted lsx_group (load lsx_group ts))
      = map (\<lambda>t. if is_full t then DELETED else EMPTY) ts"
    by (simp add: defs convert_lanes)
  fix t assume "is_full t"
  from exact_tag_mask [OF movemask_lanes [OF l] l this]
  show "\<exists>bs. mask_single (bitmask_stride lsx_group) 0
        (bitmask_into_iter lsx_group (match_tag lsx_group (load lsx_group ts) t)) bs
      \<and> length bs = WIDTH lsx_group
      \<and> (\<forall>i<WIDTH lsx_group. (ts ! i = t \<longrightarrow> bs ! i) \<and> (bs ! i \<longrightarrow> is_full (ts ! i)))"
    by (simp add: defs)
qed (simp add: lsx_group_def)

lemma neon_iter_mask: "(0x8080808080808080 :: u64) = word_of_bytes (replicate 8 DELETED)"
proof -
  have "replicate 8 DELETED = [DELETED, DELETED, DELETED, DELETED, DELETED, DELETED, DELETED, DELETED]"
    by (simp add: numeral_eq_Suc)
  then show ?thesis by (simp add: word_of_bytes_def DELETED_def)
qed

lemma bit_neon_lanes:
  assumes "length g = 8" and "i < 8" and "j < 8"
  shows "bit (word_of_bytes (lanes_where P g) :: u64) (8 * i + j) \<longleftrightarrow> P (g ! i)"
  using bit_word_of_bytes [where ?'m = 64, of "lanes_where P g" i j] assms by (simp add: is_full_lane)

lemma neon_marks:
  "length g = 8 \<Longrightarrow> mask_marks 8 (word_of_bytes (lanes_where P g) :: u64) (map P g)"
proof -
  assume l: "length g = 8"
  have "(\<exists>j < 8. bit (word_of_bytes (lanes_where P g) :: u64) (8 * i + j)) \<longleftrightarrow> P (g ! i)" if "i < 8" for i
    using bit_neon_lanes [OF l that] by (metis zero_less_numeral)
  then show ?thesis using l by (simp add: mask_marks_def)
qed

lemma neon_single:
  "length g = 8 \<Longrightarrow> mask_single 8 7 (word_of_bytes (lanes_where P g) AND 0x8080808080808080 :: u64) (map P g)"
  unfolding neon_iter_mask
  by (auto simp: mask_single_def bit_and_iff bit_neon_lanes bit_word_of_bytes bit_DELETED is_full_lane)

interpretation neon: group_masks neon_group 7
proof
  fix ts :: "tag list" assume "length ts = WIDTH neon_group"
  then have l: "length ts = 8" by (simp add: WIDTH_def neon_group_def)
  note defs = neon_group_def WIDTH_def bitmask_into_iter_def neon_match_tag_def
  show "mask_marks (bitmask_stride neon_group) (match_empty neon_group (load neon_group ts)) (map (\<lambda>t. t = EMPTY) ts)"
    using neon_marks [OF l] by (simp add: defs)
  show "mask_marks (bitmask_stride neon_group) (match_empty_or_deleted neon_group (load neon_group ts)) (map is_special ts)"
    using neon_marks [OF l, of "\<lambda>x. x <s 0"] by (simp add: defs signed_lane is_special_not_full [abs_def])
  show "mask_single (bitmask_stride neon_group) 7
      (bitmask_into_iter neon_group (match_full neon_group (load neon_group ts))) (map is_full ts)"
    using neon_single [OF l, of "\<lambda>x. 0 \<le>s x"] by (simp add: defs signed_lane)
  show "store neon_group (convert_special_to_empty_and_full_to_deleted neon_group (load neon_group ts))
      = map (\<lambda>t. if is_full t then DELETED else EMPTY) ts"
    using convert_lanes [of ts] by (simp add: defs DELETED_def)
  fix t assume "is_full t"
  from exact_tag_mask [OF neon_single [OF l] l this]
  show "\<exists>bs. mask_single (bitmask_stride neon_group) 7
        (bitmask_into_iter neon_group (match_tag neon_group (load neon_group ts) t)) bs
      \<and> length bs = WIDTH neon_group
      \<and> (\<forall>i<WIDTH neon_group. (ts ! i = t \<longrightarrow> bs ! i) \<and> (bs ! i \<longrightarrow> is_full (ts ! i)))"
    by (simp add: defs)
qed (simp add: neon_group_def)

end
