(* ===== verification/Swiss_Layout.thy ===== *)
theory Swiss_Layout
  imports Swiss_Group
begin

text \<open>
  Sizes (\<open>raw.rs\<close>, \<open>capacity_to_buckets\<close> to \<open>TableLayout\<close>, and \<open>maximum_buckets_in\<close>): the number of
  buckets for a capacity, the load limit, the layout of a table in memory, and the number of
  buckets that a block larger than asked for can hold.
\<close>

unbundle bit_operations_syntax

section \<open>Sizes\<close>

text \<open>\<open>usize\<close> is 64 bits wide; its values are natural numbers and the checks are written out.\<close>

definition usize_bound :: nat where "usize_bound = 2 ^ 64"
definition isize_max :: nat where "isize_max = 2 ^ 63 - 1"

definition checked_usize :: "nat \<Rightarrow> nat option" where
  "checked_usize x = (if x < usize_bound then Some x else None)"

definition usize_wrapping_sub :: "nat \<Rightarrow> nat \<Rightarrow> nat" where
  "usize_wrapping_sub x y = (x + usize_bound - y) mod usize_bound"

text \<open>\<open>x & !m\<close> on \<open>usize\<close>.\<close>

definition usize_and_not :: "nat \<Rightarrow> nat \<Rightarrow> nat" where
  "usize_and_not x m = unat ((word_of_nat x :: u64) AND NOT (word_of_nat m))"

text \<open>The number of significant bits: \<open>64 - x.leading_zeros()\<close>.\<close>

fun bit_length :: "nat \<Rightarrow> nat" where
  "bit_length x = (if x = 0 then 0 else Suc (bit_length (x div 2)))"

declare bit_length.simps [simp del]

definition next_power_of_two :: "nat \<Rightarrow> nat" where
  "next_power_of_two x = (if x \<le> 1 then 1 else 2 ^ bit_length (x - 1))"

definition prev_pow2 :: "nat \<Rightarrow> nat" where
  "prev_pow2 z = (let shift = 8 * 8 - 1 in 2 ^ (shift - (64 - bit_length z)))"

text \<open>\<open>TableLayout\<close>: the size of an element and the alignment of the control bytes.\<close>

record table_layout =
  layout_size :: nat
  ctrl_align :: nat

definition table_layout_new :: "nat \<Rightarrow> nat \<Rightarrow> nat \<Rightarrow> table_layout" where
  "table_layout_new width sz align =
     \<lparr>layout_size = sz, ctrl_align = (if align > width then align else width)\<rparr>"

definition min_cap :: "nat \<Rightarrow> nat \<Rightarrow> nat" where
  "min_cap width sz =
     (if width = 16 \<and> sz \<le> 1 then 14
      else if width = 16 \<and> 2 \<le> sz \<and> sz \<le> 3 \<or> width = 8 \<and> sz \<le> 1 then 7
      else 3)"

definition capacity_to_buckets :: "nat \<Rightarrow> nat \<Rightarrow> table_layout \<Rightarrow> nat option" where
  "capacity_to_buckets width cap layout =
     (if cap < 15 then
        (let cap' = max (min_cap width (layout_size layout)) cap in
         Some (if cap' < 4 then 4 else if cap' < 8 then 8 else 16))
      else
        (case checked_usize (cap * 8) of
           None \<Rightarrow> None
         | Some c \<Rightarrow> Some (next_power_of_two (c div 7))))"

text \<open>The condition that \<open>ensure_bucket_bytes_at_least_ctrl_align\<close> asserts.\<close>

definition bucket_bytes_at_least_ctrl_align :: "table_layout \<Rightarrow> nat \<Rightarrow> bool" where
  "bucket_bytes_at_least_ctrl_align layout buckets \<longleftrightarrow>
     layout_size layout \<noteq> 0 \<longrightarrow> min (layout_size layout * buckets) (usize_bound - 1) \<ge> ctrl_align layout"

definition bucket_mask_to_capacity :: "nat \<Rightarrow> nat" where
  "bucket_mask_to_capacity bucket_mask =
     (if bucket_mask < 8 then bucket_mask else ((bucket_mask + 1) div 8) * 7)"

definition calculate_layout_for :: "nat \<Rightarrow> table_layout \<Rightarrow> nat \<Rightarrow> ((nat \<times> nat) \<times> nat) option" where
  "calculate_layout_for width layout buckets =
     (let a = ctrl_align layout in
      case checked_usize (layout_size layout * buckets) of None \<Rightarrow> None | Some bytes \<Rightarrow>
      case checked_usize (bytes + (a - 1)) of None \<Rightarrow> None | Some padded \<Rightarrow>
      let ctrl_offset = usize_and_not padded (a - 1) in
      case checked_usize (ctrl_offset + (buckets + width)) of None \<Rightarrow> None | Some len \<Rightarrow>
      if len > isize_max - (a - 1) then None
      else Some ((len, a), ctrl_offset))"

definition maximum_buckets_in :: "nat \<Rightarrow> table_layout \<Rightarrow> nat \<Rightarrow> nat" where
  "maximum_buckets_in allocation_size layout group_width =
     (let x = (allocation_size - group_width) div (layout_size layout + 1) in prev_pow2 x)"

section \<open>Powers of two\<close>

lemma bit_length_bounds: "0 < x \<Longrightarrow> 2 ^ (bit_length x - 1) \<le> x \<and> x < 2 ^ bit_length x"
proof (induction x rule: bit_length.induct)
  case (1 x)
  show ?case
  proof (cases "x div 2 = 0")
    case True
    with 1 have "x = 1" by auto
    then show ?thesis by (simp add: bit_length.simps)
  next
    case False
    with 1 have IH: "2 ^ (bit_length (x div 2) - 1) \<le> x div 2" "x div 2 < 2 ^ bit_length (x div 2)" by auto
    from False obtain n where n: "bit_length (x div 2) = Suc n"
      by (metis bit_length.simps)
    have "bit_length x = Suc (Suc n)" using 1 n by (simp add: bit_length.simps [of x])
    with IH n show ?thesis by auto
  qed
qed

lemma bit_length_pos: "0 < x \<Longrightarrow> 0 < bit_length x"
  by (simp add: bit_length.simps [of x])

lemma bit_length_le: "x < 2 ^ n \<Longrightarrow> bit_length x \<le> n"
proof (cases "x = 0")
  case False
  assume "x < 2 ^ n"
  with bit_length_bounds [of x] False have "(2::nat) ^ (bit_length x - 1) < 2 ^ n" by linarith
  then have "bit_length x - 1 < n" by simp
  with bit_length_pos [of x] False show ?thesis by simp
qed (simp add: bit_length.simps)

lemma next_power_of_two_ge: "x \<le> next_power_of_two x"
  using bit_length_bounds [of "x - 1"] by (auto simp: next_power_of_two_def)

lemma next_power_of_two_pow: "\<exists>k. next_power_of_two x = 2 ^ k"
  by (auto simp: next_power_of_two_def intro: exI [of _ 0])

lemma next_power_of_two_le: "x \<le> 2 ^ n \<Longrightarrow> next_power_of_two x \<le> 2 ^ n"
  using bit_length_le [of "x - 1" n] by (auto simp: next_power_of_two_def)

lemma prev_pow2_eq: "0 < z \<Longrightarrow> z < 2 ^ 64 \<Longrightarrow> prev_pow2 z = 2 ^ (bit_length z - 1)"
  using bit_length_le [of z 64] bit_length_pos [of z] by (simp add: prev_pow2_def)

lemma prev_pow2_le: "0 < z \<Longrightarrow> z < 2 ^ 64 \<Longrightarrow> prev_pow2 z \<le> z"
  using bit_length_bounds [of z] by (simp add: prev_pow2_eq)

lemma prev_pow2_ge:
  assumes "2 ^ k \<le> z" and "z < 2 ^ 64"
  shows "2 ^ k \<le> prev_pow2 z"
proof -
  have z: "0 < z" using assms(1) by (metis less_le_trans zero_less_numeral zero_less_power)
  from bit_length_bounds [OF z] assms have "(2 :: nat) ^ k < 2 ^ bit_length z" by linarith
  then have "k < bit_length z" by simp
  then show ?thesis using z assms(2) by (simp add: prev_pow2_eq)
qed

section \<open>Bucket counts\<close>

lemma bucket_mask_to_capacity_less: "0 < n \<Longrightarrow> bucket_mask_to_capacity (n - 1) < n"
  by (auto simp: bucket_mask_to_capacity_def)

lemma pow2_dvd_le: "(2::nat) ^ j \<le> 2 ^ k \<Longrightarrow> 2 ^ j dvd (2::nat) ^ k"
  by (simp add: le_imp_power_dvd)

lemma capacity_fits:
  fixes b cap :: nat
  assumes "16 \<le> b" and "8 dvd b" and "cap * 8 div 7 \<le> b"
  shows "cap \<le> b div 8 * 7"
proof -
  from assms(2) obtain q where "b = 8 * q" by blast
  with assms(3) show ?thesis by auto
qed

lemma capacity_to_buckets_Some:
  assumes "capacity_to_buckets w cap L = Some b" and "0 < cap"
  shows "\<exists>k. b = 2 ^ k \<and> 2 \<le> k \<and> k \<le> 62" and "cap \<le> bucket_mask_to_capacity (b - 1)"
proof -
  have "(\<exists>k. b = 2 ^ k \<and> 2 \<le> k \<and> k \<le> 62) \<and> cap \<le> bucket_mask_to_capacity (b - 1)"
  proof (cases "cap < 15")
    case True
    then have b: "b = (if max (min_cap w (layout_size L)) cap < 4 then 4
        else if max (min_cap w (layout_size L)) cap < 8 then 8 else 16)"
      using assms by (simp add: capacity_to_buckets_def Let_def)
    from b have "b = 2 ^ 2 \<or> b = 2 ^ 3 \<or> b = 2 ^ 4" by auto
    then have "\<exists>k. b = 2 ^ k \<and> 2 \<le> k \<and> k \<le> 62"
      by (elim disjE) (rule exI, erule conjI, simp)+
    moreover have "cap \<le> bucket_mask_to_capacity (b - 1)"
      unfolding b using True by (auto simp: bucket_mask_to_capacity_def)
    ultimately show ?thesis ..
  next
    case False
    let ?c = "cap * 8 div 7"
    from False assms have b: "b = next_power_of_two ?c" and lt: "cap * 8 < 2 ^ 64"
      by (auto simp: capacity_to_buckets_def checked_usize_def usize_bound_def split: if_splits)
    obtain k where k: "b = 2 ^ k" using next_power_of_two_pow b by metis
    have ge: "?c \<le> b" unfolding b by (rule next_power_of_two_ge)
    then have b16: "16 \<le> b" using False by linarith
    then have "(2::nat) ^ 4 \<le> 2 ^ k" by (simp add: k)
    then have k4: "4 \<le> k" by (rule power_le_imp_le_exp [of "2 :: nat", rotated]) simp
    have "?c \<le> 2 ^ 62" using lt by simp
    then have "b \<le> 2 ^ 62" unfolding b by (rule next_power_of_two_le)
    then have k62: "k \<le> 62" unfolding k by (rule power_le_imp_le_exp [of "2 :: nat", rotated]) simp
    have "8 dvd b" using k4 le_imp_power_dvd [of 3 k "2 :: nat"] k by simp
    then have "cap \<le> b div 8 * 7" using capacity_fits b16 ge by blast
    then have "cap \<le> bucket_mask_to_capacity (b - 1)"
      using b16 by (auto simp: bucket_mask_to_capacity_def)
    with k k4 k62 show ?thesis by auto
  qed
  then show "\<exists>k. b = 2 ^ k \<and> 2 \<le> k \<and> k \<le> 62" and "cap \<le> bucket_mask_to_capacity (b - 1)" by auto
qed

lemma capacity_to_buckets_None:
  "capacity_to_buckets w cap L = None \<longleftrightarrow> usize_bound \<le> cap * 8"
  by (auto simp: capacity_to_buckets_def checked_usize_def usize_bound_def Let_def)

section \<open>Memory layout of a table\<close>

text \<open>Rust's guarantees for the layout of a type: the alignment is a power of two that divides the size.\<close>

definition rust_layout :: "nat \<Rightarrow> nat \<Rightarrow> bool" where
  "rust_layout sz align \<longleftrightarrow> (\<exists>j. align = 2 ^ j \<and> j \<le> 29) \<and> align dvd sz \<and> sz \<le> isize_max"

lemma align_down:
  assumes "x < 2 ^ 64" and "j \<le> 63"
  shows "usize_and_not x (2 ^ j - 1) = x - x mod 2 ^ j"
proof -
  have m: "(word_of_nat (2 ^ j - 1) :: u64) = mask j"
    by (simp add: mask_eq_exp_minus_1 of_nat_diff)
  have "(word_of_nat x :: u64) AND NOT (mask j) = push_bit j (drop_bit j (word_of_nat x))"
    by (rule bit_word_eqI) (auto simp: bit_simps bit_mask_iff)
  also have "unat \<dots> = push_bit j (drop_bit j x)"
  proof -
    have "unat (word_of_nat x :: u64) = x" using assms by (simp add: unat_of_nat)
    moreover have "push_bit j (drop_bit j x) \<le> x"
      by (simp add: push_bit_eq_mult drop_bit_eq_div)
    ultimately show ?thesis
      using assms by (simp add: unsigned_push_bit_eq unsigned_drop_bit_eq take_bit_nat_eq_self)
  qed
  also have "\<dots> = x - x mod 2 ^ j"
    by (simp add: push_bit_eq_mult drop_bit_eq_div minus_mod_eq_div_mult [symmetric])
  finally show ?thesis unfolding usize_and_not_def m .
qed

text \<open>The offset of the control bytes is the size of the elements rounded up to the alignment.\<close>

lemma calculate_layout_for_Some:
  assumes "calculate_layout_for w L b = Some ((len, a), off)"
    and a: "ctrl_align L = 2 ^ j" "j \<le> 62"
  defines "bytes \<equiv> layout_size L * b"
  shows "a = ctrl_align L" and "len = off + b + w" and "bytes \<le> off" and "off mod ctrl_align L = 0"
    and "off < bytes + ctrl_align L" and "len \<le> isize_max"
proof -
  let ?p = "bytes + (ctrl_align L - 1)"
  from assms(1) have lt: "?p < 2 ^ 64"
    and off: "off = usize_and_not ?p (ctrl_align L - 1)"
    and a': "a = ctrl_align L" and len: "len = off + b + w" and "\<not> len > isize_max - (ctrl_align L - 1)"
    by (auto simp: calculate_layout_for_def checked_usize_def usize_bound_def Let_def bytes_def
        split: if_splits option.splits)
  then have max: "len \<le> isize_max" by linarith
  have o: "off = ?p - ?p mod ctrl_align L"
    unfolding off using align_down [OF lt, of j] a by simp
  have pos: "0 < ctrl_align L" by (simp add: a)
  have "?p mod ctrl_align L < ctrl_align L" using pos by (rule mod_less_divisor)
  then show "bytes \<le> off" using o by linarith
  show "off mod ctrl_align L = 0" unfolding o by (simp add: mod_eq_0_iff_dvd dvd_minus_mod)
  show "off < bytes + ctrl_align L" using o pos by linarith
  show "a = ctrl_align L" "len = off + b + w" "len \<le> isize_max" by (fact a' len max)+
qed

lemma calculate_layout_for_aligned:
  assumes a: "ctrl_align L = 2 ^ j" "j \<le> 62" and al: "ctrl_align L dvd layout_size L * b"
    and fits: "layout_size L * b + b + w + ctrl_align L \<le> isize_max + 1"
  shows "calculate_layout_for w L b = Some ((layout_size L * b + b + w, ctrl_align L), layout_size L * b)"
proof -
  let ?p = "layout_size L * b + (ctrl_align L - 1)"
  have pos: "0 < ctrl_align L" by (simp add: a)
  have lt: "?p < 2 ^ 64" using fits pos by (simp add: isize_max_def)
  have "?p mod ctrl_align L = ctrl_align L - 1"
  proof -
    from al obtain q where "layout_size L * b = ctrl_align L * q" by blast
    then have "?p = (ctrl_align L - 1) + q * ctrl_align L" by (simp add: mult.commute)
    then have "?p mod ctrl_align L = (ctrl_align L - 1) mod ctrl_align L" by (simp only: mod_mult_self1)
    then show ?thesis using pos by simp
  qed
  then have off: "usize_and_not ?p (ctrl_align L - 1) = layout_size L * b"
    using align_down [OF lt, of j] a by simp
  show ?thesis
    unfolding calculate_layout_for_def Let_def
    using off fits pos lt
    by (simp add: checked_usize_def usize_bound_def isize_max_def)
qed

lemma rust_layout_ctrl_align:
  assumes "rust_layout sz al" and "w = 2 ^ v" and "v \<le> 4"
  obtains j where "ctrl_align (table_layout_new w sz al) = 2 ^ j" and "j \<le> 62" and "w \<le> 2 ^ j"
proof -
  from assms obtain j where j: "al = 2 ^ j" "j \<le> 29" by (auto simp: rust_layout_def)
  show ?thesis
  proof (cases "al > w")
    case True
    then show ?thesis using that [of j] j by (simp add: table_layout_new_def)
  next
    case False
    then show ?thesis using that [of v] assms by (simp add: table_layout_new_def)
  qed
qed

lemma bucket_bytes_hold:
  assumes rl: "rust_layout sz al" and w: "w = 4 \<or> w = 8 \<or> w = 16" and cap: "0 < cap"
    and b: "capacity_to_buckets w cap (table_layout_new w sz al) = Some b"
  shows "bucket_bytes_at_least_ctrl_align (table_layout_new w sz al) b"
proof (cases "sz = 0")
  case False
  let ?L = "table_layout_new w sz al"
  from rl obtain j where "al = 2 ^ j" "j \<le> 29" by (auto simp: rust_layout_def)
  then have lim: "al \<le> 2 ^ 29" "w \<le> 2 ^ 29"
    using power_increasing [of j 29 "2 :: nat"] w by auto
  have "ctrl_align ?L \<le> sz * b"
  proof (cases "al > w")
    case True
    from rl False have "al \<le> sz" by (auto simp: rust_layout_def intro: dvd_imp_le)
    moreover have "0 < b" using capacity_to_buckets_Some(1) [OF b cap] by auto
    ultimately have "al \<le> sz * b" by (metis One_nat_def Suc_leI le_trans mult_le_mono2 nat_mult_1_right)
    then show ?thesis using True by (simp add: table_layout_new_def)
  next
    case le: False
    have "w \<le> sz * b"
    proof (cases "cap < 15")
      case True
      then show ?thesis
        using b w False by (auto simp: capacity_to_buckets_def min_cap_def table_layout_new_def Let_def
            split: if_splits)
    next
      case False
      then have "16 \<le> b"
        using b next_power_of_two_ge [of "cap * 8 div 7"]
        by (auto simp: capacity_to_buckets_def checked_usize_def split: if_splits)
      then have "16 * 1 \<le> b * sz" using \<open>sz \<noteq> 0\<close> by (intro mult_le_mono) auto
      then show ?thesis using w by (auto simp: mult.commute)
    qed
    then show ?thesis using le by (simp add: table_layout_new_def)
  qed
  moreover have "ctrl_align ?L \<le> usize_bound - 1"
    using lim by (auto simp: table_layout_new_def usize_bound_def)
  ultimately show ?thesis
    by (simp add: bucket_bytes_at_least_ctrl_align_def table_layout_new_def)
qed (simp add: bucket_bytes_at_least_ctrl_align_def table_layout_new_def)

lemma round_up_least:
  assumes "off mod a = 0" and "(m :: nat) mod a = 0" and "off < n + a" and "n \<le> m"
  shows "off \<le> m"
proof -
  from assms(1,2) obtain u v where uv: "off = a * u" "m = a * v" by (auto simp: mod_eq_0_iff_dvd elim!: dvdE)
  with assms(3,4) have "a * u < a * (v + 1)" by simp
  then have "u < v + 1" by (metis mult_less_cancel1)
  then have "u \<le> v" by simp
  then show ?thesis by (simp add: uv)
qed

lemma maximum_buckets_bounds:
  assumes "2 ^ k * (layout_size L + 1) + w \<le> z" and "z < 2 ^ 64"
  defines "x \<equiv> maximum_buckets_in z L w"
  shows "2 ^ k \<le> x" and "layout_size L * x + x + w \<le> z" and "\<exists>m. x = 2 ^ m"
proof -
  define q where "q = (z - w) div (layout_size L + 1)"
  have "2 ^ k \<le> q"
    unfolding q_def using assms(1) by (subst less_eq_div_iff_mult_less_eq) auto
  moreover have "q < 2 ^ 64" using assms(2) unfolding q_def
    by (meson div_le_dividend diff_le_self le_less_trans)
  moreover have "0 < q" using calculation(1) by (metis less_le_trans zero_less_numeral zero_less_power)
  ultimately have "2 ^ k \<le> prev_pow2 q" "prev_pow2 q \<le> q" "\<exists>m. prev_pow2 q = 2 ^ m"
    using prev_pow2_ge [of k q] prev_pow2_le [of q] prev_pow2_eq [of q] by blast+
  moreover have "q * (layout_size L + 1) \<le> z - w" unfolding q_def by (rule div_times_less_eq_dividend)
  moreover have "x = prev_pow2 q" by (simp add: x_def maximum_buckets_in_def q_def Let_def)
  moreover have "w \<le> z" using assms(1) by simp
  ultimately show "2 ^ k \<le> x" "layout_size L * x + x + w \<le> z" "\<exists>m. x = 2 ^ m"
    using mult_le_mono1 [of x q "layout_size L + 1"] by (auto simp: algebra_simps)
qed

text \<open>
  A block larger than requested: with groups of up to eight bytes the layout for the number of
  buckets that \<open>maximum_buckets_in\<close> picks fits in the block, and has at least as many buckets.
\<close>

lemma oversized_block_fits:
  assumes rl: "rust_layout sz al" and w: "w = 4 \<or> w = 8" and k: "2 \<le> k"
  defines "L \<equiv> table_layout_new w sz al"
  assumes lay: "calculate_layout_for w L (2 ^ k) = Some ((len, a), off)"
    and z: "len \<le> z" "z + ctrl_align L \<le> isize_max + 1"
  defines "x \<equiv> maximum_buckets_in z L w"
  shows "2 ^ k \<le> x \<and> (\<exists>m. x = 2 ^ m) \<and>
    (\<exists>len' off'. calculate_layout_for w L x = Some ((len', a), off') \<and> len' \<le> z \<and> off \<le> off')"
proof -
  obtain v where v: "w = 2 ^ v" "v \<le> 4"
    using w that [of 2] that [of 3] by auto
  obtain j where j: "ctrl_align L = 2 ^ j" "j \<le> 62" "w \<le> 2 ^ j"
    using rust_layout_ctrl_align [OF rl v] unfolding L_def by metis
  note c = calculate_layout_for_Some [OF lay j(1,2)]
  have sz: "layout_size L = sz" by (simp add: L_def table_layout_new_def)
  have z64: "z < 2 ^ 64" using z(2) by (simp add: isize_max_def)
  have "2 ^ k * (layout_size L + 1) + w \<le> z"
    using c(2,3) z(1) by (simp add: algebra_simps)
  note m = maximum_buckets_bounds [OF this z64, folded x_def]
  from m(3) obtain p where p: "x = 2 ^ p" by blast
  show ?thesis
  proof (cases "x = 2 ^ k")
    case True
    then show ?thesis using lay z(1) by auto
  next
    case False
    then have "(2::nat) ^ k < 2 ^ p" using m(1) p by simp
    then have "k < p" by simp
    then have "3 \<le> p" using k by simp
    then have "8 dvd x" using le_imp_power_dvd [of 3 p "2 :: nat"] p by simp
    have al: "ctrl_align L dvd layout_size L * x"
    proof (cases "al > w")
      case True
      then have "ctrl_align L = al" by (simp add: L_def table_layout_new_def)
      then show ?thesis using rl by (simp add: sz rust_layout_def)
    next
      case False
      then have "ctrl_align L = w" by (simp add: L_def table_layout_new_def)
      moreover have "w dvd x" using w \<open>8 dvd x\<close> by (auto intro: dvd_trans [of 4 8 x])
      ultimately show ?thesis by simp
    qed
    have "calculate_layout_for w L x
        = Some ((layout_size L * x + x + w, ctrl_align L), layout_size L * x)"
      by (rule calculate_layout_for_aligned [OF j(1,2) al]) (use m(2) z(2) in linarith)
    moreover have "off \<le> layout_size L * x"
      by (rule round_up_least [OF c(4) _ c(5)]) (use al m(1) in \<open>auto simp: mod_eq_0_iff_dvd\<close>)
    ultimately show ?thesis using m c(1) p by auto
  qed
qed

end
