(* ===== verification/Swiss_Probe.thy ===== *)
theory Swiss_Probe
  imports Swiss_Layout
begin

text \<open>
  The probe sequence (\<open>raw.rs\<close>, \<open>ProbeSeq\<close>). Its positions are the triangular numbers of groups away
  from the start, which modulo a power of two are all different, so it covers every bucket.
\<close>

unbundle bit_operations_syntax

section \<open>The probe sequence\<close>

definition h1 :: "u64 \<Rightarrow> nat" where
  "h1 hash = unat hash"

record probe_seq =
  ps_pos :: nat
  ps_stride :: nat

text \<open>
  One move, with \<open>None\<close> for the assertion \<open>stride <= bucket_mask\<close> of the debug build
  (\<open>Went past end of probe sequence\<close>).
\<close>

definition move_next :: "nat \<Rightarrow> nat \<Rightarrow> probe_seq \<Rightarrow> probe_seq option" where
  "move_next width bucket_mask ps =
     (if ps_stride ps \<le> bucket_mask then
        (let stride = ps_stride ps + width in
         Some \<lparr>ps_pos = (ps_pos ps + stride) AND bucket_mask, ps_stride = stride\<rparr>)
      else None)"

definition probe_seq_new :: "nat \<Rightarrow> u64 \<Rightarrow> probe_seq" where
  "probe_seq_new bucket_mask hash = \<lparr>ps_pos = h1 hash AND bucket_mask, ps_stride = 0\<rparr>"

lemma and_bucket_mask: "x AND (2 ^ k - Suc 0) = x mod 2 ^ k"
proof -
  have "2 ^ k - Suc 0 = (mask k :: nat)" by (simp add: mask_eq_exp_minus_1)
  then show ?thesis by (simp add: take_bit_eq_mod flip: take_bit_eq_mask)
qed

section \<open>Triangular numbers\<close>

text \<open>The state after \<open>j\<close> moves: the \<open>j\<close>-th triangular number of groups away from the start.\<close>

definition triangle :: "nat \<Rightarrow> nat" where
  "triangle j = j * (j + 1) div 2"

lemma triangle_0 [simp]: "triangle 0 = 0"
  by (simp add: triangle_def)

lemma triangle_Suc: "triangle (Suc j) = triangle j + Suc j"
  by (simp add: triangle_def)

lemma double_triangle: "2 * triangle j = j * (j + 1)"
  by (simp add: triangle_def)

text \<open>
  Modulo a power of two the triangular numbers below it are distinct: of the two factors of
  \<open>(j - i) * (i + j + 1)\<close> one is odd, so the other would have to be a multiple of a larger
  power of two than it can be.
\<close>

lemma triangle_diff: "i \<le> j \<Longrightarrow> 2 * (triangle j - triangle i) = (j - i) * (i + j + 1)"
proof -
  assume "i \<le> j"
  then obtain d where j: "j = i + d" using le_Suc_ex by blast
  have "2 * triangle j - 2 * triangle i = d * (2 * i + d + 1)"
    unfolding double_triangle j by (simp add: algebra_simps)
  then show ?thesis by (simp add: j algebra_simps)
qed

lemma triangle_mono: "i \<le> j \<Longrightarrow> triangle i \<le> triangle j"
  unfolding triangle_def by (intro div_le_mono mult_le_mono) auto

lemma triangle_inj_mod: "inj_on (\<lambda>j. triangle j mod 2 ^ k) {..<2 ^ k}"
proof (rule linorder_inj_onI)
  fix i j :: nat
  assume lt: "i < j" and "i \<in> {..<2 ^ k}" and "j \<in> {..<2 ^ k}"
  then have j: "j < 2 ^ k" by simp
  show "triangle i mod 2 ^ k \<noteq> triangle j mod 2 ^ k"
  proof
    assume "triangle i mod 2 ^ k = triangle j mod 2 ^ k"
    then have "2 ^ k dvd triangle j - triangle i"
      using mod_eq_dvd_iff_nat [of "triangle i" "triangle j" "2 ^ k"] triangle_mono [of i j] lt by auto
    then have "2 * 2 ^ k dvd 2 * (triangle j - triangle i)" by simp
    then have dv: "2 ^ Suc k dvd (j - i) * (i + j + 1)" using triangle_diff [of i j] lt by simp
    have "odd (j - i) \<or> odd (i + j + 1)" using lt by auto
    then have "2 ^ Suc k dvd i + j + 1 \<or> 2 ^ Suc k dvd j - i"
    proof
      assume "odd (j - i)"
      then have "coprime (2 ^ Suc k) (j - i)" by (simp only: coprime_power_left_iff coprime_left_2_iff_odd) simp
      then show ?thesis using dv coprime_dvd_mult_right_iff by blast
    next
      assume "odd (i + j + 1)"
      then have "coprime (2 ^ Suc k) (i + j + 1)" by (simp only: coprime_power_left_iff coprime_left_2_iff_odd) simp
      then show ?thesis using dv coprime_dvd_mult_left_iff by blast
    qed
    then have "2 ^ Suc k \<le> i + j + 1 \<or> 2 ^ Suc k \<le> j - i"
      using lt by (auto dest!: dvd_imp_le)
    then show False using lt j by auto
  qed
qed auto

lemma triangle_surj_mod:
  assumes "q < 2 ^ k"
  obtains j where "j < 2 ^ k" and "triangle j mod 2 ^ k = q"
proof -
  let ?f = "\<lambda>j. triangle j mod 2 ^ k"
  have "?f ` {..<2 ^ k} = {..<2 ^ k}"
    by (rule endo_inj_surj) (auto simp: triangle_inj_mod)
  with assms have "q \<in> ?f ` {..<2 ^ k}" by simp
  then show ?thesis using that by auto
qed

section \<open>Positions\<close>

definition probe_pos :: "nat \<Rightarrow> nat \<Rightarrow> u64 \<Rightarrow> nat \<Rightarrow> nat" where
  "probe_pos width n hash j = (h1 hash + width * triangle j) mod n"

definition probe_at :: "nat \<Rightarrow> nat \<Rightarrow> u64 \<Rightarrow> nat \<Rightarrow> probe_seq" where
  "probe_at width n hash j = \<lparr>ps_pos = probe_pos width n hash j, ps_stride = width * j\<rparr>"

lemma probe_at_0: "n = 2 ^ k \<Longrightarrow> probe_seq_new (n - 1) hash = probe_at width n hash 0"
  by (simp add: probe_seq_new_def probe_at_def probe_pos_def and_bucket_mask)

lemma move_next_probe_at:
  assumes "n = 2 ^ k" and "width * j \<le> n - 1"
  shows "move_next width (n - 1) (probe_at width n hash j) = Some (probe_at width n hash (Suc j))"
proof -
  have "(probe_pos width n hash j + (width * j + width)) mod n = probe_pos width n hash (Suc j)"
    unfolding probe_pos_def mod_add_left_eq by (simp add: triangle_Suc algebra_simps)
  then show ?thesis
    using assms by (simp add: move_next_def probe_at_def Let_def and_bucket_mask add.commute)
qed

text \<open>Bucket \<open>i\<close> is covered by the group loaded at position \<open>p\<close>.\<close>

definition in_window :: "nat \<Rightarrow> nat \<Rightarrow> nat \<Rightarrow> nat \<Rightarrow> bool" where
  "in_window width n p i \<longleftrightarrow> (i + n - p) mod n < width"

lemma in_window_small: "0 < n \<Longrightarrow> n \<le> width \<Longrightarrow> in_window width n p i"
  unfolding in_window_def by (meson less_le_trans mod_less_divisor)

lemma in_window_add: "p < n \<Longrightarrow> b < width \<Longrightarrow> in_window width n p ((p + b) mod n)"
proof -
  assume p: "p < n" and b: "b < width"
  have "((p + b) mod n + (n - p)) mod n = (p + b + (n - p)) mod n" by (rule mod_add_left_eq)
  also have "p + b + (n - p) = b + n" using p by simp
  finally have "((p + b) mod n + n - p) mod n = b mod n" using p by simp
  then show ?thesis using b unfolding in_window_def by (metis le_less_trans mod_less_eq_dividend)
qed

text \<open>Every bucket is covered before the stride passes the end of the table.\<close>

theorem probe_covers:
  assumes n: "n = 2 ^ k" and w: "width = 2 ^ v" and i: "i < n"
  obtains j where "width * j \<le> n - 1" and "in_window width n (probe_pos width n hash j) i"
    and "j < max 1 (n div width)"
proof (cases "n \<le> width")
  case True
  then show ?thesis using that [of 0] in_window_small [of n width] n by simp
next
  case False
  then have vk: "v < k" using n w by (metis nat_le_linear not_less power_increasing_iff one_less_numeral_iff semiring_norm(76))
  define m where "m = (2::nat) ^ (k - v)"
  have nm: "n = width * m" using vk by (simp add: n w m_def flip: power_add)
  have wpos: "0 < width" by (simp add: w)
  define s where "s = h1 hash mod n"
  have s: "s < n" unfolding s_def using n by simp
  define r where "r = (i + (n - s)) mod n"
  have r: "r < n" unfolding r_def using n by simp
  then have "r div width < m" using nm wpos by (simp add: less_mult_imp_div_less mult.commute)
  then obtain j where j: "j < m" and q: "triangle j mod m = r div width"
    using triangle_surj_mod [of "r div width" "k - v"] unfolding m_def by metis
  have "width * j \<le> width * (m - 1)" using j by (intro mult_le_mono2) simp
  also have "\<dots> \<le> n - 1" using nm wpos by (simp add: diff_mult_distrib2)
  finally have le: "width * j \<le> n - 1" .
  have wt: "width * triangle j mod n = width * (r div width)"
    unfolding nm by (simp add: q flip: mult_mod_right)
  let ?p = "probe_pos width n hash j"
  have p: "?p = (s + width * (r div width)) mod n"
    unfolding probe_pos_def s_def by (metis mod_add_eq wt mod_mod_trivial)
  have "i = (?p + r mod width) mod n"
  proof -
    have "(?p + r mod width) mod n = (s + (width * (r div width) + r mod width)) mod n"
      unfolding p mod_add_left_eq by (simp only: add.assoc)
    also have "\<dots> = (s + r) mod n" by simp
    also have "\<dots> = (s + (i + (n - s))) mod n" unfolding r_def by (rule mod_add_right_eq)
    also have "s + (i + (n - s)) = i + n" using s by simp
    finally show ?thesis using i by simp
  qed
  moreover have "?p < n" unfolding probe_pos_def using n by simp
  ultimately have "in_window width n ?p i"
    using in_window_add [of ?p n "r mod width" width] wpos by simp
  moreover have "j < max 1 (n div width)" using j nm wpos by simp
  ultimately show ?thesis using that le by blast
qed

text \<open>The state after \<open>j\<close> moves from the start.\<close>

primrec probe_moves :: "nat \<Rightarrow> nat \<Rightarrow> u64 \<Rightarrow> nat \<Rightarrow> probe_seq option" where
  "probe_moves width bucket_mask hash 0 = Some (probe_seq_new bucket_mask hash)"
| "probe_moves width bucket_mask hash (Suc j) =
     (case probe_moves width bucket_mask hash j of
        None \<Rightarrow> None
      | Some ps \<Rightarrow> move_next width bucket_mask ps)"

lemma probe_moves_at:
  assumes "n = 2 ^ k"
  shows "width * j \<le> n - 1 \<Longrightarrow> probe_moves width (n - 1) hash j = Some (probe_at width n hash j)"
proof (induction j)
  case 0
  then show ?case using probe_at_0 [OF assms] by simp
next
  case (Suc j)
  then have "width * j \<le> n - 1" by simp
  then show ?case using Suc.IH move_next_probe_at [OF assms] by simp
qed

end
