(* ===== verification/Swiss_Table.thy ===== *)
theory Swiss_Table
  imports Swiss_Probe "HOL-Library.Multiset"
begin

text \<open>
  The raw table (\<open>raw.rs\<close>, \<open>RawTableInner\<close> and \<open>RawTable\<close>): its state, the searches, the changes of
  control bytes, and the operations on elements that do not grow it. An assertion of the debug
  build is an error; that of \<open>special_is_empty\<close>, which only special tags reach, is not modelled.
  The loops over groups end because the stride of the probe sequence grows.
\<close>

unbundle bit_operations_syntax

section \<open>The raw table\<close>

text \<open>
  Errors of the raw table: the values of \<open>TryReserveError\<close>, the panic and the abort that
  replace them when the caller asked for infallible allocation, a panic of the hash function or of
  an element's \<open>Clone\<close>, failed assertions and arithmetic overflow of the debug build, and reads that the
  \<open>unsafe\<close> blocks rule out.
\<close>

datatype raw_error =
    CapacityOverflow
  | AllocError "nat \<times> nat"
  | PanicCapacityOverflow
  | AbortAllocError "nat \<times> nat"
  | HasherPanic
  | ClonePanic
  | DebugAssertion
  | ArithmeticOverflow
  | UndefinedBehavior

text \<open>
  \<open>RawTableInner\<close> together with the memory it points to: the control bytes, and for every bucket
  its element, \<open>None\<close> while the memory is uninitialised.
\<close>

record 't raw_table =
  bucket_mask :: nat
  ctrl :: "tag list"
  growth_left :: nat
  items :: nat
  slots :: "'t option list"

definition num_buckets :: "'t raw_table \<Rightarrow> nat" where
  "num_buckets t = bucket_mask t + 1"

definition num_ctrl_bytes :: "('g, 'm::len word) group_impl \<Rightarrow> 't raw_table \<Rightarrow> nat" where
  "num_ctrl_bytes G t = bucket_mask t + 1 + WIDTH G"

definition is_bucket_full :: "'t raw_table \<Rightarrow> nat \<Rightarrow> bool" where
  "is_bucket_full t i \<longleftrightarrow> is_full (ctrl t ! i)"

definition is_empty_singleton :: "'t raw_table \<Rightarrow> bool" where
  "is_empty_singleton t \<longleftrightarrow> bucket_mask t = 0"

text \<open>\<open>RawTableInner::NEW\<close> points to the static group of empty tags.\<close>

definition raw_table_new :: "('g, 'm::len word) group_impl \<Rightarrow> 't raw_table" where
  "raw_table_new G = \<lparr>bucket_mask = 0, ctrl = replicate (WIDTH G) EMPTY, growth_left = 0, items = 0,
     slots = [None]\<rparr>"

definition raw_capacity :: "'t raw_table \<Rightarrow> nat" where
  "raw_capacity t = items t + growth_left t"

definition raw_len :: "'t raw_table \<Rightarrow> nat" where
  "raw_len t = items t"

definition raw_is_empty :: "'t raw_table \<Rightarrow> bool" where
  "raw_is_empty t \<longleftrightarrow> raw_len t = 0"

text \<open>The bytes that \<open>Group::load(self.ctrl(i))\<close> reads.\<close>

definition group_bytes :: "('g, 'm::len word) group_impl \<Rightarrow> 't raw_table \<Rightarrow> nat \<Rightarrow> tag list" where
  "group_bytes G t i = take (WIDTH G) (drop i (ctrl t))"

section \<open>Searching\<close>

definition fix_insert_index :: "('g, 'm::len word) group_impl \<Rightarrow> 't raw_table \<Rightarrow> nat \<Rightarrow> raw_error + nat" where
  "fix_insert_index G t index =
     (if is_bucket_full t index then
        (if bucket_mask t < WIDTH G then
           (case lowest_set_bit G (match_empty_or_deleted G (load G (group_bytes G t 0))) of
              None \<Rightarrow> Err UndefinedBehavior
            | Some i \<Rightarrow> Ok i)
         else Err DebugAssertion)
      else Ok index)"

definition find_insert_index_in_group ::
  "('g, 'm::len word) group_impl \<Rightarrow> 't raw_table \<Rightarrow> tag list \<Rightarrow> probe_seq \<Rightarrow> nat option" where
  "find_insert_index_in_group G t grp ps =
     (case lowest_set_bit G (match_empty_or_deleted G (load G grp)) of
        None \<Rightarrow> None
      | Some b \<Rightarrow> Some ((ps_pos ps + b) AND bucket_mask t))"

lemma move_next_stride:
  "move_next w bm ps = Some ps' \<Longrightarrow> 0 < w \<Longrightarrow> bm + 1 - ps_stride ps' < bm + 1 - ps_stride ps"
  by (auto simp: move_next_def Let_def split: if_splits)

lemma WIDTH_pos [simp]: "0 < WIDTH G"
  by (simp add: WIDTH_def)

function find_insert_loop ::
  "('g, 'm::len word) group_impl \<Rightarrow> 't raw_table \<Rightarrow> probe_seq \<Rightarrow> raw_error + nat" where
  "find_insert_loop G t ps =
     (case find_insert_index_in_group G t (group_bytes G t (ps_pos ps)) ps of
        Some index \<Rightarrow> fix_insert_index G t index
      | None \<Rightarrow>
          (case move_next (WIDTH G) (bucket_mask t) ps of
             None \<Rightarrow> Err DebugAssertion
           | Some ps' \<Rightarrow> find_insert_loop G t ps'))"
  by pat_completeness auto
termination
  by (relation "measure (\<lambda>(G, t, ps). bucket_mask t + 1 - ps_stride ps)") (auto dest: move_next_stride)

definition find_insert_index ::
  "('g, 'm::len word) group_impl \<Rightarrow> 't raw_table \<Rightarrow> u64 \<Rightarrow> raw_error + nat" where
  "find_insert_index G t hash = find_insert_loop G t (probe_seq_new (bucket_mask t) hash)"

text \<open>The buckets that \<open>for bit in group.match_tag(tag_hash)\<close> tries, in order.\<close>

definition candidates ::
  "('g, 'm::len word) group_impl \<Rightarrow> 't raw_table \<Rightarrow> tag \<Rightarrow> nat \<Rightarrow> nat list" where
  "candidates G t tag_hash pos =
     map (\<lambda>b. (pos + b) AND bucket_mask t) (tag_indices G (group_bytes G t pos) tag_hash)"

function find_loop ::
  "('g, 'm::len word) group_impl \<Rightarrow> 't raw_table \<Rightarrow> tag \<Rightarrow> (nat \<Rightarrow> bool) \<Rightarrow> probe_seq
    \<Rightarrow> raw_error + nat option" where
  "find_loop G t tag_hash eq ps =
     (case List.find eq (candidates G t tag_hash (ps_pos ps)) of
        Some index \<Rightarrow> Ok (Some index)
      | None \<Rightarrow>
          if any_bit_set (match_empty G (load G (group_bytes G t (ps_pos ps)))) then Ok None
          else
            (case move_next (WIDTH G) (bucket_mask t) ps of
               None \<Rightarrow> Err DebugAssertion
             | Some ps' \<Rightarrow> find_loop G t tag_hash eq ps'))"
  by pat_completeness auto
termination
  by (relation "measure (\<lambda>(G, t, tg, eq, ps). bucket_mask t + 1 - ps_stride ps)") (auto dest: move_next_stride)

definition find_inner ::
  "('g, 'm::len word) group_impl \<Rightarrow> 't raw_table \<Rightarrow> u64 \<Rightarrow> (nat \<Rightarrow> bool) \<Rightarrow> raw_error + nat option" where
  "find_inner G t hash eq = find_loop G t (tag_full hash) eq (probe_seq_new (bucket_mask t) hash)"

text \<open>\<open>Result<usize, usize>\<close> of \<open>find_or_find_insert_index_inner\<close>.\<close>

datatype slot = Found nat | Vacant nat

function find_or_find_insert_loop ::
  "('g, 'm::len word) group_impl \<Rightarrow> 't raw_table \<Rightarrow> tag \<Rightarrow> (nat \<Rightarrow> bool) \<Rightarrow> nat option \<Rightarrow> probe_seq
    \<Rightarrow> raw_error + slot" where
  "find_or_find_insert_loop G t tag_hash eq insert_index ps =
     (let grp = group_bytes G t (ps_pos ps) in
      case List.find eq (candidates G t tag_hash (ps_pos ps)) of
        Some index \<Rightarrow> Ok (Found index)
      | None \<Rightarrow>
          (let insert_index' = (case insert_index of
                 None \<Rightarrow> find_insert_index_in_group G t grp ps
               | Some i \<Rightarrow> Some i);
               next_group = (case move_next (WIDTH G) (bucket_mask t) ps of
                 None \<Rightarrow> Err DebugAssertion
               | Some ps' \<Rightarrow> find_or_find_insert_loop G t tag_hash eq insert_index' ps')
           in case insert_index' of
                None \<Rightarrow> next_group
              | Some index \<Rightarrow>
                  if any_bit_set (match_empty G (load G grp))
                  then and_then (fix_insert_index G t index) (\<lambda>i. Ok (Vacant i))
                  else next_group))"
  by pat_completeness auto
termination
  by (relation "measure (\<lambda>(G, t, tg, eq, ii, ps). bucket_mask t + 1 - ps_stride ps)")
     (auto dest: move_next_stride)

definition find_or_find_insert_index_inner ::
  "('g, 'm::len word) group_impl \<Rightarrow> 't raw_table \<Rightarrow> u64 \<Rightarrow> (nat \<Rightarrow> bool) \<Rightarrow> raw_error + slot" where
  "find_or_find_insert_index_inner G t hash eq =
     find_or_find_insert_loop G t (tag_full hash) eq None (probe_seq_new (bucket_mask t) hash)"

declare find_insert_loop.simps [simp del] find_loop.simps [simp del] find_or_find_insert_loop.simps [simp del]

section \<open>Changing control bytes\<close>

definition set_ctrl :: "('g, 'm::len word) group_impl \<Rightarrow> 't raw_table \<Rightarrow> nat \<Rightarrow> tag \<Rightarrow> 't raw_table" where
  "set_ctrl G t index c =
     (let index2 = (usize_wrapping_sub index (WIDTH G) AND bucket_mask t) + WIDTH G
      in t\<lparr>ctrl := (ctrl t)[index := c, index2 := c]\<rparr>)"

definition set_ctrl_hash :: "('g, 'm::len word) group_impl \<Rightarrow> 't raw_table \<Rightarrow> nat \<Rightarrow> u64 \<Rightarrow> 't raw_table" where
  "set_ctrl_hash G t index hash = set_ctrl G t index (tag_full hash)"

definition replace_ctrl_hash ::
  "('g, 'm::len word) group_impl \<Rightarrow> 't raw_table \<Rightarrow> nat \<Rightarrow> u64 \<Rightarrow> tag \<times> 't raw_table" where
  "replace_ctrl_hash G t index hash = (ctrl t ! index, set_ctrl_hash G t index hash)"

definition prepare_insert_index ::
  "('g, 'm::len word) group_impl \<Rightarrow> 't raw_table \<Rightarrow> u64 \<Rightarrow> raw_error + nat \<times> tag \<times> 't raw_table" where
  "prepare_insert_index G t hash =
     and_then (find_insert_index G t hash) (\<lambda>index.
       Ok (index, ctrl t ! index, set_ctrl_hash G t index hash))"

definition record_item_insert_at ::
  "('g, 'm::len word) group_impl \<Rightarrow> 't raw_table \<Rightarrow> nat \<Rightarrow> tag \<Rightarrow> tag \<Rightarrow> raw_error + 't raw_table" where
  "record_item_insert_at G t index old_ctrl new_ctrl =
     (let used = (if special_is_empty old_ctrl then 1 else 0) in
      require (used \<le> growth_left t) ArithmeticOverflow
        (let t1 = t\<lparr>growth_left := growth_left t - used\<rparr>;
             t2 = set_ctrl G t1 index new_ctrl
         in Ok (t2\<lparr>items := items t2 + 1\<rparr>)))"

definition write_slot :: "'t raw_table \<Rightarrow> nat \<Rightarrow> 't \<Rightarrow> 't raw_table" where
  "write_slot t index value = t\<lparr>slots := (slots t)[index := Some value]\<rparr>"

definition read_slot :: "'t raw_table \<Rightarrow> nat \<Rightarrow> raw_error + 't" where
  "read_slot t index = ok_or (slots t ! index) UndefinedBehavior"

definition insert_tagged_at_index ::
  "('g, 'm::len word) group_impl \<Rightarrow> 't raw_table \<Rightarrow> tag \<Rightarrow> nat \<Rightarrow> 't \<Rightarrow> raw_error + nat \<times> 't raw_table" where
  "insert_tagged_at_index G t tag index value =
     and_then (record_item_insert_at G t index (ctrl t ! index) tag) (\<lambda>t'.
       require (bucket_mask t' \<noteq> 0 \<and> index < num_buckets t') DebugAssertion
         (Ok (index, write_slot t' index value)))"

definition insert_at_index ::
  "('g, 'm::len word) group_impl \<Rightarrow> 't raw_table \<Rightarrow> u64 \<Rightarrow> nat \<Rightarrow> 't \<Rightarrow> raw_error + nat \<times> 't raw_table" where
  "insert_at_index G t hash index value = insert_tagged_at_index G t (tag_full hash) index value"

definition erase :: "('g, 'm::len word) group_impl \<Rightarrow> 't raw_table \<Rightarrow> nat \<Rightarrow> raw_error + 't raw_table" where
  "erase G t index =
     require (is_bucket_full t index) DebugAssertion
       (let index_before = usize_wrapping_sub index (WIDTH G) AND bucket_mask t;
            empty_before = match_empty G (load G (group_bytes G t index_before));
            empty_after = match_empty G (load G (group_bytes G t index));
            deleted = leading_zeros G empty_before + trailing_zeros G empty_after \<ge> WIDTH G;
            t1 = (if deleted then t else t\<lparr>growth_left := growth_left t + 1\<rparr>);
            t2 = set_ctrl G t1 index (if deleted then DELETED else EMPTY)
        in require (1 \<le> items t) ArithmeticOverflow (Ok (t2\<lparr>items := items t - 1\<rparr>)))"

section \<open>Elements\<close>

text \<open>The closure \<open>|index| eq(self.bucket(index).as_ref())\<close>.\<close>

definition slot_eq :: "'t raw_table \<Rightarrow> ('t \<Rightarrow> bool) \<Rightarrow> nat \<Rightarrow> bool" where
  "slot_eq t eq i = (case slots t ! i of Some x \<Rightarrow> eq x | None \<Rightarrow> False)"

definition raw_find ::
  "('g, 'm::len word) group_impl \<Rightarrow> 't raw_table \<Rightarrow> u64 \<Rightarrow> ('t \<Rightarrow> bool) \<Rightarrow> raw_error + nat option" where
  "raw_find G t hash eq = find_inner G t hash (slot_eq t eq)"

definition raw_get ::
  "('g, 'm::len word) group_impl \<Rightarrow> 't raw_table \<Rightarrow> u64 \<Rightarrow> ('t \<Rightarrow> bool) \<Rightarrow> raw_error + 't option" where
  "raw_get G t hash eq =
     and_then (raw_find G t hash eq) (\<lambda>r. case r of
       None \<Rightarrow> Ok None
     | Some i \<Rightarrow> and_then (read_slot t i) (\<lambda>x. Ok (Some x)))"

definition get_bucket :: "'t raw_table \<Rightarrow> nat \<Rightarrow> raw_error + 't option" where
  "get_bucket t index =
     (if index < num_buckets t \<and> is_bucket_full t index
      then and_then (read_slot t index) (\<lambda>x. Ok (Some x))
      else Ok None)"

definition checked_bucket :: "'t raw_table \<Rightarrow> nat \<Rightarrow> nat option" where
  "checked_bucket t index = (if index < num_buckets t \<and> is_bucket_full t index then Some index else None)"

definition erase_no_drop :: "('g, 'm::len word) group_impl \<Rightarrow> 't raw_table \<Rightarrow> nat \<Rightarrow> raw_error + 't raw_table" where
  "erase_no_drop G t item = erase G t item"

definition raw_remove ::
  "('g, 'm::len word) group_impl \<Rightarrow> 't raw_table \<Rightarrow> nat \<Rightarrow> raw_error + ('t \<times> nat) \<times> 't raw_table" where
  "raw_remove G t item =
     and_then (erase_no_drop G t item) (\<lambda>t'.
     and_then (read_slot t' item) (\<lambda>x. Ok ((x, item), t')))"

definition remove_tagged ::
  "('g, 'm::len word) group_impl \<Rightarrow> 't raw_table \<Rightarrow> nat \<Rightarrow> raw_error + ('t \<times> nat \<times> tag) \<times> 't raw_table" where
  "remove_tagged G t item =
     (let tag = ctrl t ! item in
      and_then (erase G t item) (\<lambda>t'.
      and_then (read_slot t' item) (\<lambda>x. Ok ((x, item, tag), t'))))"

definition remove_entry ::
  "('g, 'm::len word) group_impl \<Rightarrow> 't raw_table \<Rightarrow> u64 \<Rightarrow> ('t \<Rightarrow> bool) \<Rightarrow> raw_error + 't option \<times> 't raw_table" where
  "remove_entry G t hash eq =
     and_then (raw_find G t hash eq) (\<lambda>r. case r of
       None \<Rightarrow> Ok (None, t)
     | Some bucket \<Rightarrow> and_then (raw_remove G t bucket) (\<lambda>((x, _), t'). Ok (Some x, t')))"

definition replace_bucket_with ::
  "('g, 'm::len word) group_impl \<Rightarrow> 't raw_table \<Rightarrow> nat \<Rightarrow> ('t \<Rightarrow> 't option)
    \<Rightarrow> raw_error + tag option \<times> 't raw_table" where
  "replace_bucket_with G t index f =
     (let old_ctrl = ctrl t ! index in
      require (is_bucket_full t index) DebugAssertion
       (let old_growth_left = growth_left t in
        and_then (raw_remove G t index) (\<lambda>((item, _), t1).
          case f item of
            Some new_item \<Rightarrow>
              (let t2 = set_ctrl G (t1\<lparr>growth_left := old_growth_left\<rparr>) index old_ctrl
               in Ok (None, write_slot (t2\<lparr>items := items t2 + 1\<rparr>) index new_item))
          | None \<Rightarrow> Ok (Some old_ctrl, t1))))"

definition raw_clear_no_drop :: "('g, 'm::len word) group_impl \<Rightarrow> 't raw_table \<Rightarrow> 't raw_table" where
  "raw_clear_no_drop G t =
     (let t1 = (if \<not> is_empty_singleton t then t\<lparr>ctrl := replicate (num_ctrl_bytes G t) EMPTY\<rparr> else t)
      in t1\<lparr>items := 0, growth_left := bucket_mask_to_capacity (bucket_mask t1)\<rparr>)"

definition raw_clear :: "('g, 'm::len word) group_impl \<Rightarrow> 't raw_table \<Rightarrow> 't raw_table" where
  "raw_clear G t = (if raw_is_empty t then t else raw_clear_no_drop G t)"

end
