(* ===== verification/Swiss_Invariant.thy ===== *)
theory Swiss_Invariant
  imports Swiss_Table
begin

text \<open>
  The control bytes of a table: the first ones are copied behind the last, so that a group can be
  loaded at any bucket. \<open>ctrl_ok\<close> states this; here are what a loaded group shows, that \<open>set_ctrl\<close>
  keeps the copies, and the runs of the search loops up to the group that stops them.
\<close>

unbundle bit_operations_syntax

section \<open>Control bytes and their copies\<close>

definition tags_of :: "'t raw_table \<Rightarrow> tag list" where
  "tags_of t = take (num_buckets t) (ctrl t)"

text \<open>The control bytes of an allocated table: the tags of the buckets and the replicated group.\<close>

definition mirror :: "nat \<Rightarrow> tag list \<Rightarrow> tag list" where
  "mirror w ts =
     (if length ts < w then ts @ replicate (w - length ts) EMPTY @ ts else ts @ take w ts)"

definition ctrl_ok :: "('g, 'm::len word) group_impl \<Rightarrow> 't raw_table \<Rightarrow> bool" where
  "ctrl_ok G t \<longleftrightarrow> (\<exists>k\<le>62. num_buckets t = 2 ^ k)
     \<and> length (tags_of t) = num_buckets t \<and> valid_tags (tags_of t)
     \<and> ctrl t = (if bucket_mask t = 0 then replicate (WIDTH G) EMPTY else mirror (WIDTH G) (tags_of t))"

text \<open>The byte at offset \<open>q\<close> of the control bytes.\<close>

definition mirror_byte :: "nat \<Rightarrow> tag list \<Rightarrow> nat \<Rightarrow> tag" where
  "mirror_byte w ts q =
     (if length ts < w \<and> length ts \<le> q \<and> q < w then EMPTY else ts ! (q mod length ts))"

lemma length_mirror [simp]: "length (mirror w ts) = length ts + w"
  by (simp add: mirror_def)

lemma nth_mirror:
  assumes "q < length ts + w" and "length ts = 2 ^ k" and "w = 2 ^ v"
  shows "mirror w ts ! q = mirror_byte w ts q"
proof (cases "length ts < w")
  case True
  then have "k < v" using assms by (metis nat_power_less_imp_less zero_less_numeral)
  then obtain d where d: "w = length ts * d" using assms by (metis less_imp_le_nat le_imp_power_dvd dvdE)
  have "q mod length ts = q - w" if "w \<le> q"
  proof -
    have "q = (q - w) + length ts * d" using that d by simp
    then have "q mod length ts = (q - w) mod length ts" by (metis mod_mult_self2)
    then show ?thesis using assms(1) that by simp
  qed
  then show ?thesis using True assms(1) by (auto simp: mirror_def mirror_byte_def nth_append)
next
  case False
  have "q mod length ts = q - length ts" if "length ts \<le> q"
    using that False assms(1) by (simp add: mod_if)
  then show ?thesis using False assms(1) by (auto simp: mirror_def mirror_byte_def nth_append)
qed

lemma usize_wrapping_sub_mod:
  assumes "n = 2 ^ k" and "k \<le> 64" and "i < n" and "w \<le> 2 ^ 64"
  shows "usize_wrapping_sub i w AND (n - 1) = (i + (2 ^ 64 - w)) mod n"
proof -
  have "n dvd 2 ^ 64" unfolding assms(1) using assms(2) by (rule le_imp_power_dvd)
  then have "(i + 2 ^ 64 - w) mod 2 ^ 64 mod n = (i + 2 ^ 64 - w) mod n" by (rule mod_mod_cancel)
  then show ?thesis
    using assms and_bucket_mask [of _ k] by (simp add: usize_wrapping_sub_def usize_bound_def)
qed

lemma index2_eq:
  assumes n: "n = 2 ^ k" "k \<le> 62" and w: "w = 2 ^ v" "v \<le> 4" and i: "i < n"
  shows "(usize_wrapping_sub i w AND (n - 1)) + w = (if n < w then w + i else if i < w then n + i else i)"
proof -
  have w16: "w \<le> 2 ^ 4" unfolding w by (rule power_increasing) (use w in auto)
  have eq: "usize_wrapping_sub i w AND (n - 1) = (i + (2 ^ 64 - w)) mod n"
    by (rule usize_wrapping_sub_mod) (use n i w16 in auto)
  have n64: "n dvd 2 ^ 64" unfolding n by (rule le_imp_power_dvd) (use n in simp)
  show ?thesis
  proof (cases "n < w")
    case True
    then have "k < v" using n w by (metis nat_power_less_imp_less zero_less_numeral)
    then have "n dvd w" using n w by (simp add: le_imp_power_dvd)
    then have "n dvd 2 ^ 64 - w" using n64 by (rule dvd_diff_nat [rotated])
    then have "(i + (2 ^ 64 - w)) mod n = i mod n" by (metis mod_mult_self2 dvd_def)
    then show ?thesis unfolding eq using True i by simp
  next
    case nw: False
    show ?thesis
    proof (cases "i < w")
      case True
      have le: "n \<le> 2 ^ 64" using n64 by (simp add: dvd_imp_le)
      have "i + (2 ^ 64 - w) = (n - w + i) + (2 ^ 64 - n)" using nw le by simp
      moreover have "n dvd 2 ^ 64 - n" using n64 by simp
      ultimately have "(i + (2 ^ 64 - w)) mod n = (n - w + i) mod n" by (metis mod_mult_self2 dvd_def)
      then show ?thesis unfolding eq using True nw i by simp
    next
      case False
      have "i + (2 ^ 64 - w) = (i - w) + 2 ^ 64" using False w16 by simp
      then have "(i + (2 ^ 64 - w)) mod n = (i - w) mod n" using n64 by (metis mod_mult_self2 dvd_def)
      then show ?thesis unfolding eq using False nw i by simp
    qed
  qed
qed

lemma mirror_update:
  assumes n: "length ts = 2 ^ k" and w: "w = 2 ^ v" and i: "i < length ts"
  defines "i2 \<equiv> if length ts < w then w + i else if i < w then length ts + i else i"
  shows "(mirror w ts)[i := c, i2 := c] = mirror w (ts[i := c])"
proof (cases "length ts < w")
  case True
  then show ?thesis
    using i by (auto simp: mirror_def i2_def list_update_append)
next
  case nw: False
  show ?thesis
  proof (cases "i < w")
    case True
    then show ?thesis using nw i by (simp add: mirror_def i2_def list_update_append take_update_swap)
  next
    case False
    then have "(take w ts)[i := c] = take w ts" by (intro list_update_beyond) simp
    then show ?thesis using False nw i by (simp add: mirror_def i2_def list_update_append take_update_swap)
  qed
qed

section \<open>Windows\<close>

text \<open>
  The laws of a group are used for one back end at a time; what follows holds for any
  \<open>G\<close> that keeps them.
\<close>

lemma pow2_WIDTH: "WIDTH G = 2 ^ log_width G"
  by (simp add: WIDTH_def)

lemma num_buckets_pos [simp]: "0 < num_buckets t"
  by (simp add: num_buckets_def)

lemma bucket_mask_eq: "bucket_mask t = num_buckets t - 1"
  by (simp add: num_buckets_def)

lemma ctrl_okD:
  assumes "ctrl_ok G t"
  obtains k where "num_buckets t = 2 ^ k" and "k \<le> 62"
  using assms by (auto simp: ctrl_ok_def)

lemma tags_singleton:
  assumes "ctrl_ok G t" and "bucket_mask t = 0"
  shows "tags_of t = [EMPTY]"
proof -
  obtain n where "WIDTH G = Suc n" using WIDTH_pos [of G] gr0_implies_Suc by blast
  then show ?thesis using assms by (simp add: ctrl_ok_def tags_of_def num_buckets_def)
qed

lemma group_bytes_nth:
  assumes ok: "ctrl_ok G t" and p: "p < num_buckets t"
  shows "length (group_bytes G t p) = WIDTH G"
    and "b < WIDTH G \<Longrightarrow> group_bytes G t p ! b = mirror_byte (WIDTH G) (tags_of t) (p + b)"
proof -
  from ok have len: "length (tags_of t) = num_buckets t" by (simp add: ctrl_ok_def)
  have "length (group_bytes G t p) = WIDTH G \<and>
    (b < WIDTH G \<longrightarrow> group_bytes G t p ! b = mirror_byte (WIDTH G) (tags_of t) (p + b))"
  proof (cases "bucket_mask t = 0")
    case True
    then have "p = 0" using p by (simp add: num_buckets_def)
    moreover have "ctrl t = replicate (WIDTH G) EMPTY" using ok True by (simp add: ctrl_ok_def)
    moreover have "mirror_byte (WIDTH G) [EMPTY] q = EMPTY" for q by (simp add: mirror_byte_def)
    ultimately show ?thesis using tags_singleton [OF ok True] by (simp add: group_bytes_def)
  next
    case False
    then have c: "ctrl t = mirror (WIDTH G) (tags_of t)" using ok by (simp add: ctrl_ok_def)
    obtain k where k: "length (tags_of t) = 2 ^ k" using ok len by (auto elim: ctrl_okD)
    have "group_bytes G t p ! b = mirror_byte (WIDTH G) (tags_of t) (p + b)" if "b < WIDTH G"
      using nth_mirror [OF _ k pow2_WIDTH, of "p + b" G] that p len by (simp add: group_bytes_def c)
    then show ?thesis using p len by (simp add: group_bytes_def c)
  qed
  then show "length (group_bytes G t p) = WIDTH G"
    and "b < WIDTH G \<Longrightarrow> group_bytes G t p ! b = mirror_byte (WIDTH G) (tags_of t) (p + b)" by auto
qed

lemma valid_mirror_byte: "valid_tags ts \<Longrightarrow> 0 < length ts \<Longrightarrow> valid_tag (mirror_byte w ts q)"
  by (simp add: mirror_byte_def list_all_length)

lemma valid_group_bytes: "ctrl_ok G t \<Longrightarrow> p < num_buckets t \<Longrightarrow> valid_tags (group_bytes G t p)"
  by (auto simp: list_all_length group_bytes_nth ctrl_ok_def intro!: valid_mirror_byte)

text \<open>A byte of a group that is not empty is the tag of its bucket.\<close>

lemma group_byte_tag:
  assumes "ctrl_ok G t" and "p < num_buckets t" and "b < WIDTH G" and "group_bytes G t p ! b \<noteq> EMPTY"
  shows "tags_of t ! ((p + b) mod num_buckets t) = group_bytes G t p ! b"
  using assms by (auto simp: group_bytes_nth mirror_byte_def ctrl_ok_def split: if_splits)

text \<open>Every bucket that a window covers is seen in it.\<close>

lemma window_sees:
  assumes ok: "ctrl_ok G t" and p: "p < num_buckets t" and i: "i < num_buckets t"
    and win: "in_window (WIDTH G) (num_buckets t) p i"
  obtains b where "b < WIDTH G" and "(p + b) mod num_buckets t = i"
    and "group_bytes G t p ! b = tags_of t ! i"
proof (cases "num_buckets t < WIDTH G")
  case True
  let ?n = "num_buckets t" and ?w = "WIDTH G"
  from ok have len: "length (tags_of t) = ?n" by (simp add: ctrl_ok_def)
  obtain k where k: "?n = 2 ^ k" using ok by (rule ctrl_okD)
  then have "k < log_width G" using True pow2_WIDTH [of G] by (metis nat_power_less_imp_less zero_less_numeral)
  then have dv: "?n dvd ?w" using k pow2_WIDTH [of G] by (simp add: le_imp_power_dvd)
  show ?thesis
  proof (cases "p \<le> i")
    case True
    have "i - p < ?w" using i \<open>?n < ?w\<close> by simp
    then show ?thesis
      using that [of "i - p"] True i len
      by (simp add: group_bytes_nth [OF ok p] mirror_byte_def)
  next
    case False
    have b: "?w + i - p < ?w" "p + (?w + i - p) = i + ?w" using False p \<open>?n < ?w\<close> by auto
    have "(i + ?w) mod ?n = i" using dv i by (auto elim!: dvdE)
    then show ?thesis
      using that [of "?w + i - p"] b len by (simp add: group_bytes_nth [OF ok p] mirror_byte_def)
  qed
next
  case False
  let ?n = "num_buckets t" and ?w = "WIDTH G"
  from ok have len: "length (tags_of t) = ?n" by (simp add: ctrl_ok_def)
  define b where "b = (i + ?n - p) mod ?n"
  have "b < ?w" using win by (simp add: b_def in_window_def)
  moreover have "(p + b) mod ?n = i"
  proof -
    have "(p + b) mod ?n = (p + (i + ?n - p)) mod ?n" unfolding b_def by (rule mod_add_right_eq)
    also have "p + (i + ?n - p) = i + ?n" using p by simp
    finally show ?thesis using i by simp
  qed
  ultimately show ?thesis
    using that [of b] False len by (simp add: group_bytes_nth [OF ok p] mirror_byte_def)
qed

lemma small_window_empty:
  assumes ok: "ctrl_ok G t" and p: "p < num_buckets t" and small: "num_buckets t < WIDTH G"
  shows "EMPTY \<in> set (group_bytes G t p)"
proof -
  let ?b = "WIDTH G - 1 - p"
  from ok have len: "length (tags_of t) = num_buckets t" by (simp add: ctrl_ok_def)
  have b: "?b < WIDTH G" "p + ?b = WIDTH G - 1" using p small by auto
  then have "group_bytes G t p ! ?b = EMPTY"
    using small len by (auto simp: group_bytes_nth [OF ok p] mirror_byte_def)
  then show ?thesis using b(1) group_bytes_nth(1) [OF ok p] by (metis nth_mem)
qed

section \<open>Setting a control byte\<close>

lemma set_ctrl_simps [simp]:
  "bucket_mask (set_ctrl G t i c) = bucket_mask t" "num_buckets (set_ctrl G t i c) = num_buckets t"
  "growth_left (set_ctrl G t i c) = growth_left t" "items (set_ctrl G t i c) = items t"
  "slots (set_ctrl G t i c) = slots t"
  by (simp_all add: set_ctrl_def num_buckets_def Let_def)

lemma tags_of_cong: "bucket_mask t' = bucket_mask t \<Longrightarrow> ctrl t' = ctrl t \<Longrightarrow> tags_of t' = tags_of t"
  by (simp add: tags_of_def num_buckets_def)

lemma ctrl_ok_cong: "bucket_mask t' = bucket_mask t \<Longrightarrow> ctrl t' = ctrl t \<Longrightarrow> ctrl_ok G t' = ctrl_ok G t"
  by (simp add: ctrl_ok_def tags_of_def num_buckets_def)

lemma take_mirror: "length ts = n \<Longrightarrow> take n (mirror w ts) = ts"
  by (auto simp: mirror_def)

context group_laws
begin

lemma set_ctrl_ok:
  assumes ok: "ctrl_ok G t" and bm: "bucket_mask t \<noteq> 0" and i: "i < num_buckets t" and c: "valid_tag c"
  shows "ctrl_ok G (set_ctrl G t i c)" and "tags_of (set_ctrl G t i c) = (tags_of t)[i := c]"
proof -
  obtain k where k: "num_buckets t = 2 ^ k" "k \<le> 62" using ok by (rule ctrl_okD)
  from ok bm have len: "length (tags_of t) = num_buckets t" and ct: "ctrl t = mirror (WIDTH G) (tags_of t)"
    by (simp_all add: ctrl_ok_def)
  have "ctrl (set_ctrl G t i c) = mirror (WIDTH G) ((tags_of t)[i := c])"
  proof -
    have "ctrl (set_ctrl G t i c)
        = (ctrl t)[i := c, (usize_wrapping_sub i (WIDTH G) AND bucket_mask t) + WIDTH G := c]"
      by (simp add: set_ctrl_def Let_def)
    moreover have kl: "length (tags_of t) = 2 ^ k" using len k(1) by simp
    note mirror_update [OF kl pow2_WIDTH, of i G c, unfolded len, OF i]
    ultimately show ?thesis
      unfolding bucket_mask_eq index2_eq [OF k pow2_WIDTH log_width_le i] ct by simp
  qed
  moreover from this have tg: "tags_of (set_ctrl G t i c) = (tags_of t)[i := c]"
    using len by (simp add: tags_of_def [of "set_ctrl G t i c"] take_mirror)
  moreover have "valid_tags ((tags_of t)[i := c])"
    using ok c set_update_subset_insert [of "tags_of t" i c] by (auto simp: ctrl_ok_def list_all_iff)
  ultimately show "ctrl_ok G (set_ctrl G t i c)"
    using ok bm by (simp add: ctrl_ok_def)
  show "tags_of (set_ctrl G t i c) = (tags_of t)[i := c]" by (rule tg)
qed

section \<open>Runs of the search loops\<close>

abbreviation pos_of :: "'t raw_table \<Rightarrow> u64 \<Rightarrow> nat \<Rightarrow> nat" where
  "pos_of t hash j \<equiv> probe_pos (WIDTH G) (num_buckets t) hash j"

abbreviation window :: "'t raw_table \<Rightarrow> u64 \<Rightarrow> nat \<Rightarrow> tag list" where
  "window t hash j \<equiv> group_bytes G t (pos_of t hash j)"

lemma pos_of_less: "pos_of t hash j < num_buckets t"
  by (simp add: probe_pos_def)

lemma first_window:
  assumes ok: "ctrl_ok G t" and i: "i < num_buckets t" and P: "P (tags_of t ! i)"
  obtains J where "WIDTH G * J \<le> bucket_mask t" and "\<exists>c\<in>set (window t hash J). P c"
    and "\<And>j. j < J \<Longrightarrow> \<forall>c\<in>set (window t hash j). \<not> P c"
proof -
  let ?Q = "\<lambda>j. \<exists>c\<in>set (window t hash j). P c"
  obtain k where k: "num_buckets t = 2 ^ k" using ok by (rule ctrl_okD)
  obtain j where j: "WIDTH G * j \<le> num_buckets t - 1"
    and win: "in_window (WIDTH G) (num_buckets t) (pos_of t hash j) i"
    using probe_covers [OF k pow2_WIDTH i] by metis
  from window_sees [OF ok pos_of_less i win] obtain b
    where "b < WIDTH G" "window t hash j ! b = tags_of t ! i" by metis
  then have "?Q j" using P group_bytes_nth(1) [OF ok pos_of_less] by (metis nth_mem)
  then have le: "(LEAST j. ?Q j) \<le> j" and Q: "?Q (LEAST j. ?Q j)"
    by (rule Least_le, rule LeastI)
  have "WIDTH G * (LEAST j. ?Q j) \<le> bucket_mask t"
    using mult_le_mono2 [OF le, of "WIDTH G"] j unfolding bucket_mask_eq by (rule order_trans)
  moreover have "\<forall>c\<in>set (window t hash j'). \<not> P c" if "j' < (LEAST j. ?Q j)" for j'
    using not_less_Least [OF that] by blast
  ultimately show ?thesis using that Q by blast
qed

lemma find_append: "List.find P (xs @ ys) = (case List.find P xs of None \<Rightarrow> List.find P ys | Some x \<Rightarrow> Some x)"
  by (induction xs) auto

lemma any_empty_window:
  "ctrl_ok G t \<Longrightarrow> any_bit_set (match_empty G (load G (window t hash j))) \<longleftrightarrow> EMPTY \<in> set (window t hash j)"
  by (rule any_empty) (simp_all add: group_bytes_nth pos_of_less valid_group_bytes)

lemma move_next_at:
  assumes "ctrl_ok G t" and "WIDTH G * j \<le> bucket_mask t"
  shows "move_next (WIDTH G) (bucket_mask t) (probe_at (WIDTH G) (num_buckets t) hash j)
    = Some (probe_at (WIDTH G) (num_buckets t) hash (Suc j))"
  using assms move_next_probe_at [of "num_buckets t" _ "WIDTH G" j hash]
  by (auto simp: bucket_mask_eq elim: ctrl_okD)

text \<open>The search visits the groups up to the first one with an empty bucket.\<close>

lemma find_loop_run:
  assumes ok: "ctrl_ok G t" and le: "WIDTH G * J \<le> bucket_mask t"
    and stop: "EMPTY \<in> set (window t hash J)"
    and go: "\<And>j. j < J \<Longrightarrow> EMPTY \<notin> set (window t hash j)"
    and j: "j \<le> J"
  shows "find_loop G t tg eq (probe_at (WIDTH G) (num_buckets t) hash j)
    = Ok (List.find eq (concat (map (\<lambda>j. candidates G t tg (pos_of t hash j)) [j..<Suc J])))"
  using j
proof (induction rule: inc_induct)
  case base
  show ?case
    unfolding find_loop.simps [of G t tg eq "probe_at (WIDTH G) (num_buckets t) hash J"]
    using stop by (simp add: any_empty_window [OF ok] probe_at_def split: option.split)
next
  case (step j)
  have le: "WIDTH G * j \<le> bucket_mask t"
    using step(2) le by (meson less_imp_le_nat mult_le_mono2 order_trans)
  have split: "[j..<Suc J] = j # [Suc j..<Suc J]" using step(2) by (simp add: upt_conv_Cons)
  show ?case
    unfolding find_loop.simps [of G t tg eq "probe_at (WIDTH G) (num_buckets t) hash j"]
      move_next_at [OF ok le] split
    using go [OF step(2)] step.IH
    by (simp add: any_empty_window [OF ok] probe_at_def find_append split: option.split)
qed

text \<open>The first group with a free bucket decides where an element is inserted.\<close>

lemma find_insert_loop_run:
  assumes ok: "ctrl_ok G t" and le: "WIDTH G * J \<le> bucket_mask t"
    and stop: "\<not> list_all is_full (window t hash J)"
    and go: "\<And>j. j < J \<Longrightarrow> list_all is_full (window t hash j)"
    and j: "j \<le> J"
  shows "find_insert_loop G t (probe_at (WIDTH G) (num_buckets t) hash j)
    = fix_insert_index G t
        ((pos_of t hash J + length (takeWhile is_full (window t hash J))) AND bucket_mask t)"
  using j
proof (induction rule: inc_induct)
  case base
  show ?case
    unfolding find_insert_loop.simps [of G t "probe_at (WIDTH G) (num_buckets t) hash J"]
    using stop group_bytes_nth(1) [OF ok pos_of_less]
    by (simp add: find_insert_index_in_group_def lowest_special probe_at_def)
next
  case (step j)
  have le: "WIDTH G * j \<le> bucket_mask t"
    using step(2) le by (meson less_imp_le_nat mult_le_mono2 order_trans)
  show ?case
    unfolding find_insert_loop.simps [of G t "probe_at (WIDTH G) (num_buckets t) hash j"]
      move_next_at [OF ok le]
    using go [OF step(2)] step.IH group_bytes_nth(1) [OF ok pos_of_less]
    by (simp add: find_insert_index_in_group_def lowest_special probe_at_def)
qed

text \<open>The index that \<open>fix_insert_index\<close> returns is that of a free bucket.\<close>

lemma ctrl_nth: "i < num_buckets t \<Longrightarrow> ctrl t ! i = tags_of t ! i"
  by (simp add: tags_of_def)

lemma length_takeWhile_first:
  assumes "\<not> list_all P xs"
  shows "length (takeWhile P xs) < length xs" and "\<not> P (xs ! length (takeWhile P xs))"
  using assms by (induction xs) auto

lemma fix_insert_index_free:
  assumes ok: "ctrl_ok G t" and i0: "i0 < num_buckets t" "\<not> is_full (tags_of t ! i0)"
    and w: "\<not> list_all is_full (window t hash J)"
  defines "b \<equiv> length (takeWhile is_full (window t hash J))"
  shows "\<exists>i. fix_insert_index G t ((pos_of t hash J + b) AND bucket_mask t) = Ok i \<and> i < num_buckets t
    \<and> \<not> is_full (tags_of t ! i) \<and> in_window (WIDTH G) (num_buckets t) (pos_of t hash J) i"
proof -
  let ?n = "num_buckets t" and ?p = "pos_of t hash J"
  obtain k where k: "?n = 2 ^ k" using ok by (rule ctrl_okD)
  have len: "length (tags_of t) = ?n" using ok by (simp add: ctrl_ok_def)
  have b: "b < WIDTH G" "\<not> is_full (window t hash J ! b)"
    using length_takeWhile_first [OF w] group_bytes_nth(1) [OF ok pos_of_less] by (simp_all add: b_def)
  have idx: "(?p + b) AND bucket_mask t = (?p + b) mod ?n"
    using and_bucket_mask [of "?p + b" k] k by (simp add: bucket_mask_eq)
  have lt: "(?p + b) mod ?n < ?n" by simp
  show ?thesis
  proof (cases "is_full (tags_of t ! ((?p + b) mod ?n))")
    case False
    then show ?thesis
      using lt in_window_add [OF pos_of_less b(1)] by (simp add: fix_insert_index_def idx is_bucket_full_def ctrl_nth)
  next
    case True
    have small: "?n < WIDTH G"
    proof (rule ccontr)
      assume "\<not> ?n < WIDTH G"
      then have "window t hash J ! b = tags_of t ! ((?p + b) mod ?n)"
        using b(1) len by (simp add: group_bytes_nth [OF ok pos_of_less] mirror_byte_def)
      with True b(2) show False by simp
    qed
    let ?g = "group_bytes G t 0" and ?i = "length (takeWhile is_full (group_bytes G t 0))"
    have lg: "length ?g = WIDTH G" by (rule group_bytes_nth(1) [OF ok]) simp
    have tag: "?g ! i = tags_of t ! i" if "i < ?n" for i
      using that small len group_bytes_nth(2) [OF ok, of 0 i] by (simp add: mirror_byte_def)
    have nl: "\<not> list_all is_full ?g" using i0 tag small lg by (metis list_all_length order.strict_trans)
    have "?i \<le> i0"
    proof (rule ccontr)
      assume "\<not> ?i \<le> i0"
      then have "is_full (?g ! i0)" by (metis not_le nth_mem set_takeWhileD takeWhile_nth)
      with i0 tag show False by simp
    qed
    then have i: "?i < ?n" using i0(1) by simp
    have "\<not> is_full (tags_of t ! ?i)" using length_takeWhile_first(2) [OF nl] tag [OF i] by simp
    moreover have "fix_insert_index G t ((?p + b) mod ?n) = Ok ?i"
      using True small lt nl lowest_special [OF lg]
      by (simp add: fix_insert_index_def is_bucket_full_def ctrl_nth bucket_mask_eq)
    ultimately show ?thesis using i in_window_small [of ?n "WIDTH G"] small idx by simp
  qed
qed

lemma find_insert_index_free:
  assumes ok: "ctrl_ok G t" and i0: "i0 < num_buckets t" "\<not> is_full (tags_of t ! i0)"
  obtains i J where "find_insert_index G t hash = Ok i" and "i < num_buckets t"
    and "\<not> is_full (tags_of t ! i)" and "WIDTH G * J \<le> bucket_mask t"
    and "in_window (WIDTH G) (num_buckets t) (pos_of t hash J) i"
    and "\<And>j. j < J \<Longrightarrow> list_all is_full (window t hash j)"
proof -
  obtain k where k: "num_buckets t = 2 ^ k" using ok by (rule ctrl_okD)
  obtain J where J: "WIDTH G * J \<le> bucket_mask t" "\<exists>c\<in>set (window t hash J). \<not> is_full c"
    "\<And>j. j < J \<Longrightarrow> \<forall>c\<in>set (window t hash j). \<not> \<not> is_full c"
    using first_window [OF ok i0(1), of "\<lambda>c. \<not> is_full c" hash] i0(2) by metis
  then have stop: "\<not> list_all is_full (window t hash J)"
    and go: "\<And>j. j < J \<Longrightarrow> list_all is_full (window t hash j)" by (auto simp: list_all_iff)
  have "find_insert_index G t hash = fix_insert_index G t
      ((pos_of t hash J + length (takeWhile is_full (window t hash J))) AND bucket_mask t)"
    using find_insert_loop_run [OF ok J(1) stop go, of 0] probe_at_0 [OF k]
    by (simp add: find_insert_index_def bucket_mask_eq)
  with fix_insert_index_free [OF ok i0 stop] show ?thesis using that J(1) go by metis
qed

end

end
