(* ===== verification/Swiss_Ops.thy ===== *)
theory Swiss_Ops
  imports Swiss_Invariant
begin

text \<open>
  The invariant of a raw table and what its searches answer. \<open>reach\<close> is the heart of it: no group
  that a search for an element visits before that of the element has an empty bucket.
\<close>

unbundle bit_operations_syntax

section \<open>The invariant\<close>

text \<open>
  Bucket \<open>i\<close> is within reach of a search for \<open>hash\<close>: a group of the probe sequence covers it and
  no earlier group has an empty bucket.
\<close>

definition reach :: "('g, 'm::len word) group_impl \<Rightarrow> 't raw_table \<Rightarrow> u64 \<Rightarrow> nat \<Rightarrow> bool" where
  "reach G t hash i \<longleftrightarrow>
     (\<exists>j. WIDTH G * j \<le> bucket_mask t
        \<and> in_window (WIDTH G) (num_buckets t) (probe_pos (WIDTH G) (num_buckets t) hash j) i
        \<and> (\<forall>j'<j. EMPTY \<notin> set (group_bytes G t (probe_pos (WIDTH G) (num_buckets t) hash j'))))"

definition count_full :: "'t raw_table \<Rightarrow> nat" where
  "count_full t = length (filter is_full (tags_of t))"

definition count_deleted :: "'t raw_table \<Rightarrow> nat" where
  "count_deleted t = length (filter (\<lambda>c. c = DELETED) (tags_of t))"

definition full_buckets :: "'t raw_table \<Rightarrow> nat set" where
  "full_buckets t = {i. i < num_buckets t \<and> is_full (tags_of t ! i)}"

text \<open>
  The invariant of a table whose elements hash with \<open>hf\<close>: the control bytes have their copies,
  the counters count, and every full bucket holds an element whose tag it carries, within
  reach of the searches for it.
\<close>

definition raw_inv :: "('g, 'm::len word) group_impl \<Rightarrow> ('t \<Rightarrow> u64) \<Rightarrow> 't raw_table \<Rightarrow> bool" where
  "raw_inv G hf t \<longleftrightarrow> ctrl_ok G t \<and> length (slots t) = num_buckets t
     \<and> items t = count_full t
     \<and> growth_left t + items t + count_deleted t = bucket_mask_to_capacity (bucket_mask t)
     \<and> (\<forall>i\<in>full_buckets t. \<exists>x. slots t ! i = Some x \<and> tags_of t ! i = tag_full (hf x)
          \<and> reach G t (hf x) i)"

text \<open>The content of a table: its elements, with multiplicity.\<close>

definition elements :: "'t raw_table \<Rightarrow> 't multiset" where
  "elements t = image_mset (\<lambda>i. the (slots t ! i)) (mset_set (full_buckets t))"

lemma finite_full_buckets [simp]: "finite (full_buckets t)"
  by (simp add: full_buckets_def)

lemma full_buckets_less: "i \<in> full_buckets t \<Longrightarrow> i < num_buckets t"
  by (simp add: full_buckets_def)

lemma count_full_card: "ctrl_ok G t \<Longrightarrow> count_full t = card (full_buckets t)"
  by (auto simp: count_full_def full_buckets_def length_filter_conv_card ctrl_ok_def)

lemma set_mset_elements: "set_mset (elements t) = (\<lambda>i. the (slots t ! i)) ` full_buckets t"
  by (simp add: elements_def)

lemma size_elements: "ctrl_ok G t \<Longrightarrow> size (elements t) = count_full t"
  by (simp add: elements_def count_full_card)

lemma length_filter_update:
  assumes "i < length xs"
  shows "length (filter P (xs[i := y])) + (if P (xs ! i) then 1 else 0)
    = length (filter P xs) + (if P y then 1 else 0)"
  using assms
proof (induction xs arbitrary: i)
  case (Cons x xs)
  then show ?case using Cons.IH [of "i - 1"] by (cases i) auto
qed simp

lemma filter_partition_length:
  "length (filter is_full ts) + length (filter (\<lambda>c. c = DELETED) ts)
     + length (filter (\<lambda>c. c = EMPTY) ts) = length ts" if "valid_tags ts"
  using that by (induction ts) (auto simp: valid_tag_def)

text \<open>The load factor leaves an empty bucket.\<close>

lemma raw_inv_empty_bucket:
  assumes "raw_inv G hf t"
  obtains i where "i < num_buckets t" and "tags_of t ! i = EMPTY"
proof -
  from assms have v: "valid_tags (tags_of t)" and len: "length (tags_of t) = num_buckets t"
    and le: "count_full t + count_deleted t \<le> bucket_mask_to_capacity (bucket_mask t)"
    by (auto simp: raw_inv_def ctrl_ok_def)
  have "bucket_mask_to_capacity (bucket_mask t) < num_buckets t"
    using bucket_mask_to_capacity_less [of "num_buckets t"] by (simp add: bucket_mask_eq)
  with le filter_partition_length [OF v] len have "filter (\<lambda>c. c = EMPTY) (tags_of t) \<noteq> []"
    by (auto simp: count_full_def count_deleted_def)
  then have "EMPTY \<in> set (tags_of t)" by (auto simp: filter_empty_conv)
  then obtain i where "i < length (tags_of t)" "tags_of t ! i = EMPTY" by (auto simp: in_set_conv_nth)
  then show ?thesis using that len by simp
qed

text \<open>
  A bucket where an element with this hash may be inserted: free, in a group of the probe
  sequence such that every earlier group is full.
\<close>

definition insert_slot :: "('g, 'm::len word) group_impl \<Rightarrow> 't raw_table \<Rightarrow> u64 \<Rightarrow> nat \<Rightarrow> bool" where
  "insert_slot G t hash i \<longleftrightarrow> i < num_buckets t \<and> \<not> is_full (tags_of t ! i)
     \<and> (\<exists>J. WIDTH G * J \<le> bucket_mask t
          \<and> in_window (WIDTH G) (num_buckets t) (probe_pos (WIDTH G) (num_buckets t) hash J) i
          \<and> (\<forall>j<J. list_all is_full (group_bytes G t (probe_pos (WIDTH G) (num_buckets t) hash j))))"

text \<open>What a search may answer.\<close>

definition found_spec :: "('t \<Rightarrow> u64) \<Rightarrow> 't raw_table \<Rightarrow> u64 \<Rightarrow> ('t \<Rightarrow> bool) \<Rightarrow> nat option \<Rightarrow> bool" where
  "found_spec hf t hash eq r = (case r of
     Some i \<Rightarrow> i \<in> full_buckets t \<and> (\<exists>x. slots t ! i = Some x \<and> eq x)
   | None \<Rightarrow> (\<forall>x\<in>#elements t. eq x \<longrightarrow> hf x \<noteq> hash))"

lemma find_eq_None: "List.find P xs = None \<longleftrightarrow> (\<forall>x\<in>set xs. \<not> P x)"
  by (induction xs) auto

lemma find_eq_SomeD: "List.find P xs = Some x \<Longrightarrow> x \<in> set xs \<and> P x"
  by (induction xs) (auto split: if_splits)

context group_laws
begin

section \<open>Finding an element\<close>

lemma candidates_full:
  assumes ok: "ctrl_ok G t" and tg: "is_full tg" and i: "i \<in> set (candidates G t tg (pos_of t hash j))"
  shows "i \<in> full_buckets t"
proof -
  obtain k where k: "num_buckets t = 2 ^ k" using ok by (rule ctrl_okD)
  let ?p = "pos_of t hash j"
  from i obtain b where b: "b \<in> set (tag_indices G (window t hash j) tg)" and ib: "i = (?p + b) AND bucket_mask t"
    by (auto simp: candidates_def)
  from tag_indices_full [OF group_bytes_nth(1) [OF ok pos_of_less] tg b]
  have bw: "b < WIDTH G" and full: "is_full (window t hash j ! b)" by auto
  have idx: "i = (?p + b) mod num_buckets t"
    unfolding ib using and_bucket_mask [of "?p + b" k] k by (simp add: bucket_mask_eq)
  have "window t hash j ! b \<noteq> EMPTY" using full by auto
  from group_byte_tag [OF ok pos_of_less bw this] full idx show ?thesis
    by (simp add: full_buckets_def)
qed

lemma candidates_hit:
  assumes ok: "ctrl_ok G t" and i: "i < num_buckets t" and full: "is_full (tags_of t ! i)"
    and win: "in_window (WIDTH G) (num_buckets t) (pos_of t hash j) i"
  shows "i \<in> set (candidates G t (tags_of t ! i) (pos_of t hash j))"
proof -
  obtain k where k: "num_buckets t = 2 ^ k" using ok by (rule ctrl_okD)
  from window_sees [OF ok pos_of_less i win] obtain b where b: "b < WIDTH G"
    "(pos_of t hash j + b) mod num_buckets t = i" "window t hash j ! b = tags_of t ! i" by metis
  have "b \<in> set (tag_indices G (window t hash j) (tags_of t ! i))"
    by (rule tag_indices_hit [OF group_bytes_nth(1) [OF ok pos_of_less] full b(1) b(3)])
  moreover have "(pos_of t hash j + b) AND bucket_mask t = i"
    using and_bucket_mask [of "pos_of t hash j + b" k] k b(2) by (simp add: bucket_mask_eq)
  ultimately show ?thesis by (auto simp: candidates_def intro!: rev_image_eqI)
qed

text \<open>The first group with an empty bucket, and what the groups up to it contain.\<close>

lemma first_empty_window:
  assumes inv: "raw_inv G hf t"
  obtains J where "WIDTH G * J \<le> bucket_mask t" and "EMPTY \<in> set (window t hash J)"
    and "\<And>j. j < J \<Longrightarrow> EMPTY \<notin> set (window t hash j)"
proof -
  from inv have ok: "ctrl_ok G t" by (simp add: raw_inv_def)
  obtain i where i: "i < num_buckets t" "tags_of t ! i = EMPTY" using inv by (rule raw_inv_empty_bucket)
  obtain J where "WIDTH G * J \<le> bucket_mask t" "\<exists>c\<in>set (window t hash J). c = EMPTY"
    "\<And>j. j < J \<Longrightarrow> \<forall>c\<in>set (window t hash j). c \<noteq> EMPTY"
    using first_window [OF ok i(1), of "\<lambda>c. c = EMPTY" hash] i(2) by metis
  then show ?thesis using that [of J] by auto
qed

lemma reach_before:
  assumes "EMPTY \<in> set (window t hash J)" and "reach G t hash i"
  obtains j where "j \<le> J" and "in_window (WIDTH G) (num_buckets t) (pos_of t hash j) i"
  using assms unfolding reach_def by (metis not_le)

lemma candidates_search:
  assumes inv: "raw_inv G hf t" and J: "EMPTY \<in> set (window t hash J)"
  shows "found_spec hf t hash eq
    (List.find (slot_eq t eq) (concat (map (\<lambda>j. candidates G t (tag_full hash) (pos_of t hash j)) [0..<Suc J])))"
    (is "found_spec hf t hash eq (List.find _ ?cs)")
proof (cases "List.find (slot_eq t eq) ?cs")
  case None
  from inv have ok: "ctrl_ok G t" by (simp add: raw_inv_def)
  have "hf x \<noteq> hash" if "x \<in># elements t" and eq: "eq x" for x
  proof
    assume h: "hf x = hash"
    from that obtain i where i: "i \<in> full_buckets t" "x = the (slots t ! i)" by (auto simp: set_mset_elements)
    with inv h have x: "slots t ! i = Some x" "tags_of t ! i = tag_full hash" "reach G t hash i"
      by (auto simp: raw_inv_def)
    obtain j where j: "j \<le> J" "in_window (WIDTH G) (num_buckets t) (pos_of t hash j) i"
      using reach_before [OF J x(3)] .
    have "i \<in> set (candidates G t (tag_full hash) (pos_of t hash j))"
      using candidates_hit [OF ok _ _ j(2)] i(1) x(2) by (simp add: full_buckets_def)
    then have "i \<in> set ?cs"
      unfolding set_concat set_map set_upt using j(1) by (intro UN_I [OF imageI]) auto
    then have "\<not> slot_eq t eq i" using None unfolding find_eq_None by blast
    then show False using x(1) eq by (simp add: slot_eq_def)
  qed
  then show ?thesis using None by (simp add: found_spec_def)
next
  case (Some i)
  from inv have ok: "ctrl_ok G t" by (simp add: raw_inv_def)
  from find_eq_SomeD [OF Some] have "i \<in> set ?cs" and e: "slot_eq t eq i" by auto
  then have "i \<in> full_buckets t" using candidates_full [OF ok is_full_tag_full] by auto
  then show ?thesis using Some e by (auto simp: found_spec_def slot_eq_def split: option.splits)
qed

lemma raw_find_spec:
  assumes inv: "raw_inv G hf t"
  shows "\<exists>r. raw_find G t hash eq = Ok r \<and> found_spec hf t hash eq r"
proof -
  from inv have ok: "ctrl_ok G t" by (simp add: raw_inv_def)
  obtain k where k: "num_buckets t = 2 ^ k" using ok by (rule ctrl_okD)
  obtain J where J: "WIDTH G * J \<le> bucket_mask t" "EMPTY \<in> set (window t hash J)"
    "\<And>j. j < J \<Longrightarrow> EMPTY \<notin> set (window t hash j)" using first_empty_window [OF inv, of hash] by metis
  show ?thesis
    unfolding raw_find_def find_inner_def bucket_mask_eq probe_at_0 [OF k, of hash "WIDTH G"]
    using find_loop_run [OF ok J, of 0 "tag_full hash" "slot_eq t eq"] candidates_search [OF inv J(2)] by simp
qed

section \<open>Finding a place to insert\<close>

lemma find_insert_index_spec:
  assumes "ctrl_ok G t" and "i0 < num_buckets t" and "\<not> is_full (tags_of t ! i0)"
  shows "\<exists>i. find_insert_index G t hash = Ok i \<and> insert_slot G t hash i"
  using find_insert_index_free [OF assms, of hash] unfolding insert_slot_def by metis

lemma find_or_find_insert_loop_run:
  assumes ok: "ctrl_ok G t" and le: "WIDTH G * J \<le> bucket_mask t"
    and stop: "EMPTY \<in> set (window t hash J)"
    and go: "\<And>j. j < J \<Longrightarrow> EMPTY \<notin> set (window t hash j)"
    and J0: "J0 \<le> J" "\<not> list_all is_full (window t hash J0)"
    and full: "\<And>j. j < J0 \<Longrightarrow> list_all is_full (window t hash j)"
    and j: "j \<le> J"
  defines "idx \<equiv> (pos_of t hash J0 + length (takeWhile is_full (window t hash J0))) AND bucket_mask t"
  shows "find_or_find_insert_loop G t tg eq (if j \<le> J0 then None else Some idx)
      (probe_at (WIDTH G) (num_buckets t) hash j)
    = (case List.find eq (concat (map (\<lambda>j. candidates G t tg (pos_of t hash j)) [j..<Suc J])) of
         Some i \<Rightarrow> Ok (Found i)
       | None \<Rightarrow> and_then (fix_insert_index G t idx) (\<lambda>i. Ok (Vacant i)))"
  using j
proof (induction rule: inc_induct)
  case base
  have slot: "find_insert_index_in_group G t (window t hash J0) (probe_at (WIDTH G) (num_buckets t) hash J0)
      = Some idx"
    using J0(2) lowest_special [OF group_bytes_nth(1) [OF ok pos_of_less]]
    by (simp add: find_insert_index_in_group_def probe_at_def idx_def)
  show ?case
    unfolding find_or_find_insert_loop.simps [of G t tg eq _ "probe_at (WIDTH G) (num_buckets t) hash J"]
    using stop slot J0(1)
    by (cases "J = J0") (simp_all add: any_empty_window [OF ok] probe_at_def Let_def split: option.split)
next
  case (step j)
  have le: "WIDTH G * j \<le> bucket_mask t"
    using step(2) le by (meson less_imp_le_nat mult_le_mono2 order_trans)
  have split: "[j..<Suc J] = j # [Suc j..<Suc J]" using step(2) by (simp add: upt_conv_Cons)
  have slot: "find_insert_index_in_group G t (window t hash j) (probe_at (WIDTH G) (num_buckets t) hash j)
      = (if j < J0 then None else Some idx)" if "j \<le> J0"
    using that full [of j] J0(2) lowest_special [OF group_bytes_nth(1) [OF ok pos_of_less]]
    by (cases "j = J0") (simp_all add: find_insert_index_in_group_def probe_at_def idx_def)
  have pos: "ps_pos (probe_at (WIDTH G) (num_buckets t) hash j) = pos_of t hash j"
    by (simp add: probe_at_def)
  show ?case
    unfolding find_or_find_insert_loop.simps [of G t tg eq _ "probe_at (WIDTH G) (num_buckets t) hash j"]
      move_next_at [OF ok le] split pos
    using go [OF step(2)] step.IH slot
    by (cases "j < J0"; cases "j = J0")
       (simp_all add: any_empty_window [OF ok] find_append Let_def not_less_eq_eq Suc_le_eq split: option.split)
qed

lemma find_or_find_insert_index_spec:
  assumes inv: "raw_inv G hf t"
  shows "\<exists>r. find_or_find_insert_index_inner G t hash (slot_eq t eq) = Ok r
    \<and> (case r of Found i \<Rightarrow> found_spec hf t hash eq (Some i)
        | Vacant i \<Rightarrow> found_spec hf t hash eq None \<and> insert_slot G t hash i)"
proof -
  from inv have ok: "ctrl_ok G t" by (simp add: raw_inv_def)
  obtain k where k: "num_buckets t = 2 ^ k" using ok by (rule ctrl_okD)
  obtain J where J: "WIDTH G * J \<le> bucket_mask t" "EMPTY \<in> set (window t hash J)"
    "\<And>j. j < J \<Longrightarrow> EMPTY \<notin> set (window t hash j)" using first_empty_window [OF inv, of hash] by metis
  obtain i0 where "i0 < num_buckets t" "tags_of t ! i0 = EMPTY" using inv by (rule raw_inv_empty_bucket)
  then have i0: "i0 < num_buckets t" "\<not> is_full (tags_of t ! i0)" by auto
  obtain J0 where "WIDTH G * J0 \<le> bucket_mask t" "\<exists>c\<in>set (window t hash J0). \<not> is_full c"
    "\<And>j. j < J0 \<Longrightarrow> \<forall>c\<in>set (window t hash j). \<not> \<not> is_full c"
    using first_window [OF ok i0(1), of "\<lambda>c. \<not> is_full c" hash] i0(2) by metis
  then have J0: "WIDTH G * J0 \<le> bucket_mask t" "\<not> list_all is_full (window t hash J0)"
    and full: "\<And>j. j < J0 \<Longrightarrow> list_all is_full (window t hash j)" by (auto simp: list_all_iff)
  have J0J: "J0 \<le> J"
  proof (rule ccontr)
    assume "\<not> J0 \<le> J"
    then have "list_all is_full (window t hash J)" using full by simp
    then show False using J(2) by (auto simp: list_all_iff)
  qed
  from fix_insert_index_free [OF ok i0 J0(2)] obtain i where
    i: "fix_insert_index G t ((pos_of t hash J0 + length (takeWhile is_full (window t hash J0))) AND bucket_mask t) = Ok i"
    "insert_slot G t hash i"
    using J0(1) full unfolding insert_slot_def by metis
  show ?thesis
    unfolding find_or_find_insert_index_inner_def bucket_mask_eq probe_at_0 [OF k, of hash "WIDTH G"]
    using find_or_find_insert_loop_run [OF ok J J0J J0(2) full, of 0 "tag_full hash" "slot_eq t eq"] i
      candidates_search [OF inv J(2), of eq] by (simp split: option.splits)
qed

end

end
