(* ===== verification/Swiss_Update.thy ===== *)
theory Swiss_Update
  imports Swiss_Ops
begin

text \<open>
  Inserting, erasing, replacing and clearing keep the invariant of the table and change its elements,
  a multiset, as they should. Erasing may leave an empty bucket only if no group that is loaded
  over it could have been full.
\<close>

unbundle bit_operations_syntax

section \<open>Changing the tag of one bucket\<close>

lemma group_bytes_update:
  assumes ok: "ctrl_ok G t" "ctrl_ok G t'" and bm: "bucket_mask t' = bucket_mask t"
    and tg: "tags_of t' = (tags_of t)[i := c]" and p: "p < num_buckets t" and b: "b < WIDTH G"
    and ne: "group_bytes G t' p ! b \<noteq> group_bytes G t p ! b"
  shows "(p + b) mod num_buckets t = i" and "group_bytes G t' p ! b = c"
proof -
  have n: "num_buckets t' = num_buckets t" by (simp add: num_buckets_def bm)
  have len: "length (tags_of t) = num_buckets t" using ok(1) by (simp add: ctrl_ok_def)
  have "(p + b) mod num_buckets t = i \<and> group_bytes G t' p ! b = c"
    using ne p b len n group_bytes_nth(2) [OF ok(1) p b] group_bytes_nth(2) [OF ok(2) _ b, of p]
    by (cases "(p + b) mod num_buckets t = i")
       (auto simp: mirror_byte_def tg nth_list_update split: if_splits)
  then show "(p + b) mod num_buckets t = i" and "group_bytes G t' p ! b = c" by auto
qed

lemma reach_transfer:
  assumes "reach G t h i" and bm: "bucket_mask t' = bucket_mask t"
    and "\<And>p. p < num_buckets t \<Longrightarrow> EMPTY \<notin> set (group_bytes G t p) \<Longrightarrow> EMPTY \<notin> set (group_bytes G t' p)"
  shows "reach G t' h i"
proof -
  have n: "num_buckets t' = num_buckets t" by (simp add: num_buckets_def bm)
  have "probe_pos (WIDTH G) (num_buckets t) h j < num_buckets t" for j by (simp add: probe_pos_def)
  then show ?thesis using assms unfolding reach_def n bm by metis
qed

text \<open>A tag other than \<open>EMPTY\<close> adds no empty byte to any group.\<close>

lemma no_new_empty:
  assumes ok: "ctrl_ok G t" "ctrl_ok G t'" and bm: "bucket_mask t' = bucket_mask t"
    and tg: "tags_of t' = (tags_of t)[i := c]" and c: "c \<noteq> EMPTY" and p: "p < num_buckets t"
    and "EMPTY \<notin> set (group_bytes G t p)"
  shows "EMPTY \<notin> set (group_bytes G t' p)"
proof
  assume "EMPTY \<in> set (group_bytes G t' p)"
  moreover have p': "p < num_buckets t'" using p bm by (simp add: num_buckets_def)
  ultimately obtain b where b: "b < WIDTH G" "group_bytes G t' p ! b = EMPTY"
    using group_bytes_nth(1) [OF ok(2) p'] by (metis in_set_conv_nth)
  have "group_bytes G t p ! b \<noteq> EMPTY"
    using assms(7) b(1) group_bytes_nth(1) [OF ok(1) p] by (metis nth_mem)
  then show False using group_bytes_update(2) [OF ok bm tg p b(1)] b(2) c by auto
qed

lemma full_buckets_update:
  assumes "length (tags_of t) = num_buckets t" and "bucket_mask t' = bucket_mask t"
    and "tags_of t' = (tags_of t)[i := c]" and "i < num_buckets t"
  shows "full_buckets t' = (if is_full c then insert i (full_buckets t) else full_buckets t - {i})"
  using assms by (auto simp: full_buckets_def num_buckets_def nth_list_update split: if_splits)

lemma count_full_update:
  assumes "length (tags_of t) = num_buckets t" and "tags_of t' = (tags_of t)[i := c]" and "i < num_buckets t"
  shows "count_full t' + (if is_full (tags_of t ! i) then 1 else 0) = count_full t + (if is_full c then 1 else 0)"
  using length_filter_update [of i "tags_of t" is_full c] assms by (simp add: count_full_def)

lemma count_deleted_update:
  assumes "length (tags_of t) = num_buckets t" and "tags_of t' = (tags_of t)[i := c]" and "i < num_buckets t"
  shows "count_deleted t' + (if tags_of t ! i = DELETED then 1 else 0)
    = count_deleted t + (if c = DELETED then 1 else 0)"
  using length_filter_update [of i "tags_of t" "\<lambda>c. c = DELETED" c] assms by (simp add: count_deleted_def)

lemma elements_insert:
  assumes "full_buckets t' = insert i (full_buckets t)" and "i \<notin> full_buckets t"
    and "slots t' = (slots t)[i := Some x]" and "i < length (slots t)"
  shows "elements t' = add_mset x (elements t)"
proof -
  have "image_mset (\<lambda>j. the (slots t' ! j)) (mset_set (full_buckets t))
      = image_mset (\<lambda>j. the (slots t ! j)) (mset_set (full_buckets t))"
  proof (rule image_mset_cong)
    fix j assume "j \<in># mset_set (full_buckets t)"
    then have "j \<noteq> i" using assms(2) by auto
    then show "the (slots t' ! j) = the (slots t ! j)" by (simp add: assms(3))
  qed
  then show ?thesis using assms by (simp add: elements_def)
qed

lemma elements_remove:
  assumes "full_buckets t' = full_buckets t - {i}" and "i \<in> full_buckets t"
    and "slots t' = slots t" and "slots t ! i = Some x"
  shows "add_mset x (elements t') = elements t"
proof -
  have "full_buckets t = insert i (full_buckets t')" "i \<notin> full_buckets t'" using assms by auto
  then have "mset_set (full_buckets t) = add_mset i (mset_set (full_buckets t'))" by simp
  then show ?thesis using assms(3,4) by (simp add: elements_def)
qed

lemma takeWhile_length_ge:
  "d \<le> length xs \<Longrightarrow> (\<And>a. a < d \<Longrightarrow> P (xs ! a)) \<Longrightarrow> d \<le> length (takeWhile P xs)"
  using nth_length_takeWhile [of P xs] by (metis leI less_le_trans)

lemma mod_diff_cong_nat:
  fixes x y n :: nat
  assumes "x mod n = y mod n" and "c \<le> x" and "c \<le> y"
  shows "(x - c) mod n = (y - c) mod n"
proof (cases "y \<le> x")
  case True
  then have "n dvd (x - c) - (y - c)" using assms mod_eq_dvd_iff_nat [of y x n] by simp
  then show ?thesis using mod_eq_dvd_iff_nat [of "y - c" "x - c" n] True by simp
next
  case False
  then have "n dvd (y - c) - (x - c)" using assms mod_eq_dvd_iff_nat [of x y n] by simp
  then show ?thesis using mod_eq_dvd_iff_nat [of "x - c" "y - c" n] False by simp
qed

section \<open>Inserting at an index\<close>

context group_laws
begin

lemma special_is_empty_iff: "valid_tag c \<Longrightarrow> \<not> is_full c \<Longrightarrow> special_is_empty c \<longleftrightarrow> c = EMPTY"
  by (auto simp: valid_tag_def)

lemma valid_tags_nth: "ctrl_ok G t \<Longrightarrow> i < num_buckets t \<Longrightarrow> valid_tag (tags_of t ! i)"
  by (simp add: ctrl_ok_def list_all_length)

lemma insert_slot_reach:
  assumes "insert_slot G t hash i"
  shows "reach G t hash i"
  using assms unfolding insert_slot_def reach_def list_all_iff by (metis tag_consts(1))

text \<open>A full tag at a free place, and the element in the bucket.\<close>

lemma insert_tag_inv:
  assumes inv: "raw_inv G hf t" and slot: "insert_slot G t (hf x) i" and bm: "bucket_mask t \<noteq> 0"
    and room: "tags_of t ! i = EMPTY \<Longrightarrow> 0 < growth_left t"
    and t': "bucket_mask t' = bucket_mask t" "ctrl t' = ctrl (set_ctrl G t i (tag_full (hf x)))"
      "slots t' = (slots t)[i := Some x]" "items t' = items t + 1"
      "growth_left t' = growth_left t - (if tags_of t ! i = EMPTY then 1 else 0)"
  shows "raw_inv G hf t'" and "elements t' = add_mset x (elements t)"
proof -
  let ?s = "set_ctrl G t i (tag_full (hf x))"
  from inv have ok: "ctrl_ok G t" and len: "length (slots t) = num_buckets t"
    and cnt: "items t = count_full t"
    and cap: "growth_left t + items t + count_deleted t = bucket_mask_to_capacity (bucket_mask t)"
    and st: "\<And>j. j \<in> full_buckets t \<Longrightarrow>
      \<exists>y. slots t ! j = Some y \<and> tags_of t ! j = tag_full (hf y) \<and> reach G t (hf y) j"
    by (auto simp: raw_inv_def)
  from slot have i: "i < num_buckets t" and free: "\<not> is_full (tags_of t ! i)" by (auto simp: insert_slot_def)
  note s = set_ctrl_ok [OF ok bm i valid_tag_simps(3), of "hf x"]
  have ok': "ctrl_ok G t'" and tg: "tags_of t' = (tags_of t)[i := tag_full (hf x)]"
    using s ctrl_ok_cong [of t' ?s G] tags_of_cong [of t' ?s] t' by auto
  have tl: "length (tags_of t) = num_buckets t" using ok by (simp add: ctrl_ok_def)
  have n: "num_buckets t' = num_buckets t" by (simp add: num_buckets_def t')
  note fb = full_buckets_update [OF tl t'(1) tg i, simplified]
  have fi: "i \<notin> full_buckets t" using free by (simp add: full_buckets_def)
  show "elements t' = add_mset x (elements t)"
    using elements_insert [OF fb fi t'(3)] i len by simp
  have rt: "reach G t h j \<Longrightarrow> reach G t' h j" for h j
    using reach_transfer [OF _ t'(1)] no_new_empty [OF ok ok' t'(1) tg] is_full_tag_full [of "hf x"]
    by (metis tag_consts(1))
  have "\<exists>y. slots t' ! j = Some y \<and> tags_of t' ! j = tag_full (hf y) \<and> reach G t' (hf y) j"
    if "j \<in> full_buckets t'" for j
  proof (cases "j = i")
    case True
    then show ?thesis using rt [OF insert_slot_reach [OF slot]] i len tl by (simp add: t' tg)
  next
    case False
    then have j: "j \<in> full_buckets t" using that fb by auto
    then obtain y where "slots t ! j = Some y" "tags_of t ! j = tag_full (hf y)" "reach G t (hf y) j"
      using st by blast
    then show ?thesis using rt False by (auto simp: t' tg)
  qed
  moreover have "items t' = count_full t'"
    using count_full_update [OF tl tg i] free cnt by (simp add: t')
  moreover have "growth_left t' + items t' + count_deleted t' = bucket_mask_to_capacity (bucket_mask t')"
  proof -
    have "tags_of t ! i = EMPTY \<or> tags_of t ! i = DELETED"
      using valid_special_cases [OF valid_tags_nth [OF ok i] free] .
    moreover have "tag_full (hf x) \<noteq> DELETED" using is_full_tag_full [of "hf x"] tag_consts(2) by metis
    ultimately show ?thesis using count_deleted_update [OF tl tg i] cap room by (auto simp: t')
  qed
  ultimately show "raw_inv G hf t'" using ok' len n by (simp add: raw_inv_def t')
qed

lemma insert_at_index_inv:
  assumes inv: "raw_inv G hf t" and slot: "insert_slot G t (hf x) i" and bm: "bucket_mask t \<noteq> 0"
    and room: "tags_of t ! i = EMPTY \<Longrightarrow> 0 < growth_left t"
  shows "\<exists>t'. insert_at_index G t (hf x) i x = Ok (i, t') \<and> raw_inv G hf t'
    \<and> elements t' = add_mset x (elements t) \<and> bucket_mask t' = bucket_mask t"
proof -
  from inv have ok: "ctrl_ok G t" by (simp add: raw_inv_def)
  from slot have i: "i < num_buckets t" and free: "\<not> is_full (tags_of t ! i)" by (auto simp: insert_slot_def)
  let ?u = "if tags_of t ! i = EMPTY then 1 else 0 :: nat"
  have e: "special_is_empty (ctrl t ! i) \<longleftrightarrow> tags_of t ! i = EMPTY"
    using special_is_empty_iff [OF valid_tags_nth [OF ok i] free] i by (simp add: ctrl_nth)
  let ?t' = "write_slot ((set_ctrl G (t\<lparr>growth_left := growth_left t - ?u\<rparr>) i (tag_full (hf x)))
    \<lparr>items := items t + 1\<rparr>) i x"
  have "insert_at_index G t (hf x) i x = Ok (i, ?t')"
    using room bm i
    by (auto simp: insert_at_index_def insert_tagged_at_index_def record_item_insert_at_def e Let_def
        num_buckets_def Suc_le_eq)
  moreover have "raw_inv G hf ?t'" "elements ?t' = add_mset x (elements t)"
    by (rule insert_tag_inv [OF inv slot bm room];
        simp add: write_slot_def set_ctrl_def Let_def)+
  moreover have "bucket_mask ?t' = bucket_mask t" by (simp add: write_slot_def)
  ultimately show ?thesis by blast
qed

section \<open>Erasing\<close>

lemma big_group_byte:
  assumes "ctrl_ok G t" and "p < num_buckets t" and "b < WIDTH G" and "WIDTH G \<le> num_buckets t"
  shows "group_bytes G t p ! b = tags_of t ! ((p + b) mod num_buckets t)"
  using assms by (simp add: group_bytes_nth mirror_byte_def ctrl_ok_def)

text \<open>
  The counts of \<open>erase\<close>: a group without an empty byte that covers bucket \<open>i\<close> lies within the
  run of non-empty bytes around \<open>i\<close>, which then is at least one group long.
\<close>

lemma erase_counts:
  assumes ok: "ctrl_ok G t" and i: "i < num_buckets t" and p: "p < num_buckets t"
    and ne: "EMPTY \<notin> set (group_bytes G t p)" and d: "d < WIDTH G" "(p + d) mod num_buckets t = i"
  defines "before \<equiv> group_bytes G t (usize_wrapping_sub i (WIDTH G) AND bucket_mask t)"
  shows "WIDTH G \<le> length (takeWhile (\<lambda>c. c \<noteq> EMPTY) (rev before))
    + length (takeWhile (\<lambda>c. c \<noteq> EMPTY) (group_bytes G t i))"
proof -
  let ?n = "num_buckets t" and ?w = "WIDTH G"
  let ?ib = "usize_wrapping_sub i ?w AND bucket_mask t"
  obtain k where k: "?n = 2 ^ k" "k \<le> 62" using ok by (rule ctrl_okD)
  have big: "?w \<le> ?n" using small_window_empty [OF ok p] ne by (meson not_le)
  have "?ib + ?w = (if i < ?w then ?n + i else i)"
    using index2_eq [OF k pow2_WIDTH log_width_le i] big by (simp add: bucket_mask_eq)
  then have ib: "(?ib + ?w) mod ?n = (p + d) mod ?n" "?ib < ?n" using d(2) i big by (auto split: if_splits)
  have byte: "tags_of t ! ((p + b) mod ?n) \<noteq> EMPTY" if "b < ?w" for b
    using big_group_byte [OF ok p that big] ne group_bytes_nth(1) [OF ok p] that by (metis nth_mem)
  have lb: "length before = ?w" unfolding before_def by (rule group_bytes_nth(1) [OF ok ib(2)])
  have "d \<le> length (takeWhile (\<lambda>c. c \<noteq> EMPTY) (rev before))"
  proof (rule takeWhile_length_ge)
    fix a assume a: "a < d"
    have "(?ib + ?w - Suc a) mod ?n = (p + d - Suc a) mod ?n"
      by (rule mod_diff_cong_nat [OF ib(1)]) (use a d(1) in auto)
    then have "rev before ! a = tags_of t ! ((p + (d - Suc a)) mod ?n)"
      using a d(1) lb big_group_byte [OF ok ib(2) _ big, of "?w - Suc a"]
      by (simp add: rev_nth before_def)
    then show "rev before ! a \<noteq> EMPTY" using byte [of "d - Suc a"] a d(1) by simp
  qed (use d(1) lb in simp)
  moreover have "?w - d \<le> length (takeWhile (\<lambda>c. c \<noteq> EMPTY) (group_bytes G t i))"
  proof (rule takeWhile_length_ge)
    fix b assume b: "b < ?w - d"
    have "(i + b) mod ?n = (p + (d + b)) mod ?n"
      unfolding d(2) [symmetric] mod_add_left_eq by (simp add: add.assoc)
    then show "group_bytes G t i ! b \<noteq> EMPTY"
      using b big_group_byte [OF ok i _ big, of b] byte [of "d + b"] by simp
  qed (simp add: group_bytes_nth(1) [OF ok i])
  ultimately show ?thesis by simp
qed

lemma erase_inv:
  assumes inv: "raw_inv G hf t" and i: "i \<in> full_buckets t"
  obtains t' x where "erase G t i = Ok t'" and "raw_inv G hf t'" and "slots t ! i = Some x"
    and "elements t = add_mset x (elements t')" and "bucket_mask t' = bucket_mask t" and "slots t' = slots t"
    and "tags_of t' = (tags_of t)[i := EMPTY] \<or> tags_of t' = (tags_of t)[i := DELETED]"
proof -
  from inv have ok: "ctrl_ok G t" and len: "length (slots t) = num_buckets t"
    and cnt: "items t = count_full t"
    and cap: "growth_left t + items t + count_deleted t = bucket_mask_to_capacity (bucket_mask t)"
    and st: "\<And>j. j \<in> full_buckets t \<Longrightarrow>
      \<exists>y. slots t ! j = Some y \<and> tags_of t ! j = tag_full (hf y) \<and> reach G t (hf y) j"
    by (auto simp: raw_inv_def)
  from i have il: "i < num_buckets t" and full: "is_full (tags_of t ! i)" by (auto simp: full_buckets_def)
  from st [OF i] obtain x where x: "slots t ! i = Some x" by blast
  have tl: "length (tags_of t) = num_buckets t" using ok by (simp add: ctrl_ok_def)
  have bm: "bucket_mask t \<noteq> 0"
  proof
    assume "bucket_mask t = 0"
    then show False using tags_singleton [OF ok] full il by (simp add: num_buckets_def)
  qed
  have pos: "1 \<le> items t" unfolding cnt count_full_card [OF ok] using i by (metis Suc_leI One_nat_def card_gt_0_iff
        empty_iff finite_full_buckets)
  obtain k where k: "num_buckets t = 2 ^ k" using ok by (rule ctrl_okD)
  let ?ib = "usize_wrapping_sub i (WIDTH G) AND bucket_mask t"
  have ib: "?ib < num_buckets t" using and_bucket_mask [of _ k] k by (simp add: bucket_mask_eq)
  define deleted where "deleted \<longleftrightarrow> WIDTH G \<le> length (takeWhile (\<lambda>c. c \<noteq> EMPTY) (rev (group_bytes G t ?ib)))
    + length (takeWhile (\<lambda>c. c \<noteq> EMPTY) (group_bytes G t i))"
  define c where "c = (if deleted then DELETED else EMPTY)"
  define t1 where "t1 = (if deleted then t else t\<lparr>growth_left := growth_left t + 1\<rparr>)"
  define t' where "t' = (set_ctrl G t1 i c)\<lparr>items := items t - 1\<rparr>"
  have t1: "bucket_mask t1 = bucket_mask t" "ctrl t1 = ctrl t" "slots t1 = slots t"
    by (simp_all add: t1_def)
  have er: "erase G t i = Ok t'"
    using full il pos
    by (simp add: erase_def is_bucket_full_def ctrl_nth leading_empty trailing_empty group_bytes_nth(1) [OF ok]
        valid_group_bytes [OF ok] ib t'_def t1_def c_def deleted_def Let_def)
  have c: "valid_tag c" "\<not> is_full c" by (simp_all add: c_def)
  have ok1: "ctrl_ok G t1" and tg1: "tags_of t1 = tags_of t"
    using ok ctrl_ok_cong [of t1 t G] tags_of_cong [of t1 t] t1 by auto
  note s = set_ctrl_ok [OF ok1, unfolded t1, OF bm, of i c]
  have n1: "num_buckets t1 = num_buckets t" by (simp add: num_buckets_def t1)
  have t': "bucket_mask t' = bucket_mask t" "slots t' = slots t" "ctrl t' = ctrl (set_ctrl G t1 i c)"
    by (simp_all add: t'_def t1)
  have ok': "ctrl_ok G t'" and tg: "tags_of t' = (tags_of t)[i := c]"
    using s il c(1) n1 tg1 ctrl_ok_cong [of t' "set_ctrl G t1 i c" G] tags_of_cong [of t' "set_ctrl G t1 i c"]
      t' t1 by auto
  have fb: "full_buckets t' = full_buckets t - {i}"
    using full_buckets_update [OF tl t'(1) tg il] c(2) by simp
  have rt: "reach G t h j \<Longrightarrow> reach G t' h j" for h j
  proof (rule reach_transfer [OF _ t'(1)])
    fix p assume p: "p < num_buckets t" and ne: "EMPTY \<notin> set (group_bytes G t p)"
    show "EMPTY \<notin> set (group_bytes G t' p)"
    proof (cases deleted)
      case True
      then show ?thesis using no_new_empty [OF ok ok' t'(1) tg _ p ne] by (simp add: c_def)
    next
      case False
      have "group_bytes G t' p ! b = group_bytes G t p ! b" if "b < WIDTH G" for b
        using group_bytes_update(1) [OF ok ok' t'(1) tg p that] erase_counts [OF ok il p ne that] False
        by (auto simp: deleted_def)
      moreover have "num_buckets t' = num_buckets t" by (simp add: num_buckets_def t')
      ultimately have "group_bytes G t' p = group_bytes G t p"
        using group_bytes_nth(1) [OF ok p] group_bytes_nth(1) [OF ok', of p] p
        by (intro nth_equalityI) auto
      then show ?thesis using ne by simp
    qed
  qed
  have "\<exists>y. slots t' ! j = Some y \<and> tags_of t' ! j = tag_full (hf y) \<and> reach G t' (hf y) j"
    if "j \<in> full_buckets t'" for j
    using that st [of j] rt by (auto simp: fb t' tg)
  moreover have "items t' = count_full t'"
    using count_full_update [OF tl tg il] full c(2) cnt by (simp add: t'_def)
  moreover have "growth_left t' + items t' + count_deleted t' = bucket_mask_to_capacity (bucket_mask t')"
  proof -
    have "tags_of t ! i \<noteq> DELETED" using full by auto
    then show ?thesis
      using count_deleted_update [OF tl tg il] cap pos by (auto simp: t'_def t1_def c_def)
  qed
  ultimately have "raw_inv G hf t'" using ok' len by (simp add: raw_inv_def t' num_buckets_def)
  moreover have "elements t = add_mset x (elements t')"
    using elements_remove [OF fb i t'(2) x] by simp
  ultimately show ?thesis using that er x t' tg by (auto simp: c_def split: if_splits)
qed

section \<open>Removing elements\<close>

lemma raw_remove_spec:
  assumes inv: "raw_inv G hf t" and i: "i \<in> full_buckets t"
  shows "\<exists>x t'. raw_remove G t i = Ok ((x, i), t') \<and> slots t ! i = Some x \<and> raw_inv G hf t'
    \<and> elements t = add_mset x (elements t') \<and> bucket_mask t' = bucket_mask t"
proof -
  obtain t' x where "erase G t i = Ok t'" "raw_inv G hf t'" "slots t ! i = Some x"
    "elements t = add_mset x (elements t')" "bucket_mask t' = bucket_mask t" "slots t' = slots t"
    using erase_inv [OF inv i] by metis
  then show ?thesis by (simp add: raw_remove_def erase_no_drop_def read_slot_def)
qed

lemma remove_tagged_spec:
  assumes inv: "raw_inv G hf t" and i: "i \<in> full_buckets t"
  shows "\<exists>x t'. remove_tagged G t i = Ok ((x, i, tag_full (hf x)), t') \<and> slots t ! i = Some x
    \<and> raw_inv G hf t' \<and> elements t = add_mset x (elements t')"
proof -
  obtain t' x where e: "erase G t i = Ok t'" "raw_inv G hf t'" "slots t ! i = Some x"
    "elements t = add_mset x (elements t')" "slots t' = slots t"
    using erase_inv [OF inv i] by metis
  moreover from inv i e(3) have "tags_of t ! i = tag_full (hf x)" by (auto simp: raw_inv_def)
  moreover from i have "ctrl t ! i = tags_of t ! i" using full_buckets_less by (auto intro: ctrl_nth)
  ultimately show ?thesis by (simp add: remove_tagged_def read_slot_def)
qed

lemma remove_entry_spec:
  assumes inv: "raw_inv G hf t"
  shows "\<exists>r t'. remove_entry G t hash eq = Ok (r, t') \<and> raw_inv G hf t'
    \<and> (case r of
         Some x \<Rightarrow> eq x \<and> elements t = add_mset x (elements t')
       | None \<Rightarrow> t' = t \<and> (\<forall>x\<in>#elements t. eq x \<longrightarrow> hf x \<noteq> hash))"
proof -
  obtain r where r: "raw_find G t hash eq = Ok r" "found_spec hf t hash eq r"
    using raw_find_spec [OF inv] by blast
  show ?thesis
  proof (cases r)
    case None
    then show ?thesis using r inv by (simp add: remove_entry_def found_spec_def)
  next
    case (Some i)
    with r have i: "i \<in> full_buckets t" and "\<exists>x. slots t ! i = Some x \<and> eq x" by (auto simp: found_spec_def)
    then show ?thesis using raw_remove_spec [OF inv i] r(1) Some by (auto simp: remove_entry_def)
  qed
qed

lemma raw_inv_cong:
  assumes "raw_inv G hf t" and "bucket_mask t' = bucket_mask t" "ctrl t' = ctrl t" "items t' = items t"
    "growth_left t' = growth_left t" and "length (slots t') = length (slots t)"
    and "\<And>i. i \<in> full_buckets t \<Longrightarrow> \<exists>y. slots t' ! i = Some y \<and> hf y = hf (the (slots t ! i))"
  shows "raw_inv G hf t'"
proof -
  have tg: "tags_of t' = tags_of t" by (rule tags_of_cong) (fact assms)+
  have n: "num_buckets t' = num_buckets t" by (simp add: num_buckets_def assms)
  have fb: "full_buckets t' = full_buckets t" by (simp add: full_buckets_def tg n)
  have r: "reach G t' h i = reach G t h i" for h i
    by (simp add: reach_def n assms group_bytes_def)
  have "\<exists>y. slots t' ! i = Some y \<and> tags_of t' ! i = tag_full (hf y) \<and> reach G t' (hf y) i"
    if i: "i \<in> full_buckets t'" for i
  proof -
    from i fb assms(7) [of i] obtain y where "slots t' ! i = Some y" "hf y = hf (the (slots t ! i))" by auto
    moreover from i fb assms(1) obtain x where "slots t ! i = Some x" "tags_of t ! i = tag_full (hf x)"
      "reach G t (hf x) i" by (auto simp: raw_inv_def)
    ultimately show ?thesis by (simp add: tg r)
  qed
  moreover have "ctrl_ok G t'" using assms(1) ctrl_ok_cong [of t' t G] assms by (simp add: raw_inv_def)
  ultimately show ?thesis
    using assms(1) by (simp add: raw_inv_def count_full_def count_deleted_def tg n assms)
qed

text \<open>Replacing the element of a full bucket by one with the same hash.\<close>

lemma write_slot_full:
  assumes inv: "raw_inv G hf t" and i: "i \<in> full_buckets t" and x: "slots t ! i = Some x" and h: "hf y = hf x"
  obtains R where "raw_inv G hf (write_slot t i y)" and "elements t = add_mset x R"
    and "elements (write_slot t i y) = add_mset y R"
proof -
  let ?t' = "write_slot t i y" and ?F = "full_buckets t - {i}"
  from inv have len: "length (slots t) = num_buckets t" by (simp add: raw_inv_def)
  from i have il: "i < num_buckets t" by (simp add: full_buckets_def)
  have "raw_inv G hf ?t'"
  proof (rule raw_inv_cong [OF inv])
    fix j assume j: "j \<in> full_buckets t"
    then obtain z where "slots t ! j = Some z" using inv by (auto simp: raw_inv_def)
    then show "\<exists>z. slots ?t' ! j = Some z \<and> hf z = hf (the (slots t ! j))"
      using h x il len by (cases "j = i") (auto simp: write_slot_def)
  qed (simp_all add: write_slot_def)
  moreover have F: "full_buckets t = insert i ?F" "i \<notin> ?F" using i by auto
  moreover have "full_buckets ?t' = full_buckets t"
    by (simp add: full_buckets_def tags_of_def num_buckets_def write_slot_def)
  moreover have "image_mset (\<lambda>j. the (slots ?t' ! j)) (mset_set ?F) = image_mset (\<lambda>j. the (slots t ! j)) (mset_set ?F)"
    by (rule image_mset_cong) (auto simp: write_slot_def)
  moreover have "slots ?t' ! i = Some y" using il len by (simp add: write_slot_def)
  ultimately show thesis
    using that [of "image_mset (\<lambda>j. the (slots t ! j)) (mset_set ?F)"] x unfolding elements_def
    by (metis (no_types, lifting) finite_Diff finite_full_buckets image_mset_add_mset mset_set.insert option.sel)
qed

text \<open>Putting an element back leaves the control bytes as they were before the removal.\<close>

lemma replace_bucket_with_spec:
  assumes inv: "raw_inv G hf t" and i: "i \<in> full_buckets t" and x: "slots t ! i = Some x"
    and f: "\<And>y. f x = Some y \<Longrightarrow> hf y = hf x"
  shows "\<exists>r t'. replace_bucket_with G t i f = Ok (r, t') \<and> raw_inv G hf t'
    \<and> (case f x of
         Some y \<Rightarrow> r = None \<and> t' = write_slot t i y
           \<and> (\<exists>R. elements t = add_mset x R \<and> elements t' = add_mset y R)
       | None \<Rightarrow> r = Some (tag_full (hf x)) \<and> elements t = add_mset x (elements t'))"
proof -
  obtain t1 where e: "erase G t i = Ok t1" "raw_inv G hf t1"
    "elements t = add_mset x (elements t1)" "bucket_mask t1 = bucket_mask t" "slots t1 = slots t"
    "tags_of t1 = (tags_of t)[i := EMPTY] \<or> tags_of t1 = (tags_of t)[i := DELETED]"
    using erase_inv [OF inv i, where thesis = thesis] x by fastforce
  from inv have ok: "ctrl_ok G t" and len: "length (slots t) = num_buckets t" by (auto simp: raw_inv_def)
  from i have il: "i < num_buckets t" and full: "is_full (tags_of t ! i)" by (auto simp: full_buckets_def)
  have ct: "ctrl t ! i = tags_of t ! i" using il by (rule ctrl_nth)
  have tag: "tags_of t ! i = tag_full (hf x)" using inv i x by (auto simp: raw_inv_def)
  have rm: "raw_remove G t i = Ok ((x, i), t1)"
    using e x by (simp add: raw_remove_def erase_no_drop_def read_slot_def)
  have bf: "is_bucket_full t i" using full ct by (simp add: is_bucket_full_def)
  show ?thesis
  proof (cases "f x")
    case None
    then show ?thesis using e rm bf ct tag by (simp add: replace_bucket_with_def Let_def)
  next
    case (Some y)
    have bm: "bucket_mask t1 \<noteq> 0"
    proof
      assume "bucket_mask t1 = 0"
      then show False using tags_singleton [OF ok] full il e(4) by (simp add: num_buckets_def)
    qed
    let ?u = "t1\<lparr>growth_left := growth_left t\<rparr>"
    have ok1: "ctrl_ok G ?u" and tg1: "tags_of ?u = tags_of t1" and n1: "num_buckets ?u = num_buckets t"
      using e(2,4) ctrl_ok_cong [of ?u t1 G] tags_of_cong [of ?u t1] by (simp_all add: raw_inv_def num_buckets_def)
    let ?v = "set_ctrl G ?u i (tag_full (hf x))"
    have same: "(tags_of t)[i := tag_full (hf x)] = tags_of t" unfolding tag [symmetric] by simp
    have "tags_of ?v = tags_of t" "ctrl_ok G ?v"
      using same set_ctrl_ok [OF ok1, of i "tag_full (hf x)"] bm il n1 tg1 e(6) tag by auto
    then have cv: "ctrl ?v = ctrl t"
      using ok bm e(4) unfolding ctrl_ok_def by simp
    have it: "items t1 + 1 = items t"
    proof -
      have "items t = size (elements t)" "items t1 = size (elements t1)"
        using inv e(2) by (auto simp: raw_inv_def size_elements)
      then show ?thesis using e(3) by simp
    qed
    have "write_slot (?v\<lparr>items := items ?v + 1\<rparr>) i y = write_slot t i y"
      using cv it e(4,5) by (simp add: write_slot_def)
    then have "replace_bucket_with G t i f = Ok (None, write_slot t i y)"
      using Some rm bf ct tag by (simp add: replace_bucket_with_def Let_def)
    moreover obtain R where "raw_inv G hf (write_slot t i y)" "elements t = add_mset x R"
      "elements (write_slot t i y) = add_mset y R"
      using write_slot_full [OF inv i x f [OF Some]] by blast
    ultimately show ?thesis using Some by auto
  qed
qed

section \<open>Empty tables\<close>

lemma mirror_replicate: "mirror w (replicate n EMPTY) = replicate (n + w) EMPTY"
  by (auto simp: mirror_def min_def simp flip: replicate_add)

lemma ctrl_ok_empty:
  assumes "num_buckets t = 2 ^ k" and "k \<le> 62"
    and "ctrl t = (if bucket_mask t = 0 then replicate (WIDTH G) EMPTY
      else replicate (num_buckets t + WIDTH G) EMPTY)"
  shows "ctrl_ok G t" and "tags_of t = replicate (num_buckets t) EMPTY"
proof -
  have "1 \<le> WIDTH G" using WIDTH_pos [of G] by linarith
  then show tg: "tags_of t = replicate (num_buckets t) EMPTY"
    using assms(3) by (auto simp: tags_of_def num_buckets_def min_def)
  show "ctrl_ok G t" using assms tg by (auto simp: ctrl_ok_def mirror_replicate list_all_iff)
qed

lemma raw_inv_empty:
  assumes "num_buckets t = 2 ^ k" and "k \<le> 62"
    and "ctrl t = (if bucket_mask t = 0 then replicate (WIDTH G) EMPTY
      else replicate (num_buckets t + WIDTH G) EMPTY)"
    and "length (slots t) = num_buckets t" and "items t = 0"
    and "growth_left t = bucket_mask_to_capacity (bucket_mask t)"
  shows "raw_inv G hf t" and "elements t = {#}"
proof -
  note tg = ctrl_ok_empty [OF assms(1-3)]
  have fb: "full_buckets t = {}" by (simp add: full_buckets_def tg)
  show "elements t = {#}" by (simp add: elements_def fb)
  show "raw_inv G hf t"
    using assms tg fb by (simp add: raw_inv_def count_full_def count_deleted_def)
qed

lemma raw_table_new_inv: "raw_inv G hf (raw_table_new G)" and raw_table_new_elements: "elements (raw_table_new G) = {#}"
  using raw_inv_empty(1) [of "raw_table_new G" 0 hf] raw_inv_empty(2) [of "raw_table_new G" 0]
  by (simp_all add: raw_table_new_def num_buckets_def bucket_mask_to_capacity_def)

lemma raw_clear_any_spec:
  assumes ok: "ctrl_ok G t" and len: "length (slots t) = num_buckets t"
  shows "raw_inv G hf (raw_clear_no_drop G t) \<and> elements (raw_clear_no_drop G t) = {#}
    \<and> bucket_mask (raw_clear_no_drop G t) = bucket_mask t"
proof -
  let ?t = "raw_clear_no_drop G t"
  obtain k where k: "num_buckets t = 2 ^ k" "k \<le> 62" using ok by (rule ctrl_okD)
  have bm: "bucket_mask ?t = bucket_mask t" "slots ?t = slots t" "items ?t = 0"
    "growth_left ?t = bucket_mask_to_capacity (bucket_mask ?t)"
    by (simp_all add: raw_clear_no_drop_def Let_def)
  have n: "num_buckets ?t = num_buckets t" by (simp add: num_buckets_def bm)
  have "ctrl ?t = (if bucket_mask ?t = 0 then replicate (WIDTH G) EMPTY
      else replicate (num_buckets ?t + WIDTH G) EMPTY)"
    using ok by (auto simp: raw_clear_no_drop_def Let_def is_empty_singleton_def ctrl_ok_def num_ctrl_bytes_def
        num_buckets_def)
  then show ?thesis using raw_inv_empty(1) [of ?t k hf] raw_inv_empty(2) [of ?t k] k bm len n by simp
qed

lemma raw_clear_no_drop_spec:
  assumes "raw_inv G hf t"
  shows "raw_inv G hf (raw_clear_no_drop G t) \<and> elements (raw_clear_no_drop G t) = {#}
    \<and> bucket_mask (raw_clear_no_drop G t) = bucket_mask t"
  by (rule raw_clear_any_spec) (use assms in \<open>auto simp: raw_inv_def\<close>)

lemma raw_clear_spec:
  assumes inv: "raw_inv G hf t"
  shows "raw_inv G hf (raw_clear G t)" and "elements (raw_clear G t) = {#}"
proof -
  have "items t = size (elements t)" using inv by (auto simp: raw_inv_def size_elements)
  then show "raw_inv G hf (raw_clear G t)" "elements (raw_clear G t) = {#}"
    using raw_clear_no_drop_spec [OF inv] inv by (auto simp: raw_clear_def raw_is_empty_def raw_len_def)
qed

end

end
