(* ===== verification/Swiss_Resize.thy ===== *)
theory Swiss_Resize
  imports Swiss_Update
begin

text \<open>
  The operations that grow a table (\<open>raw.rs\<close>): allocation, moving to a new table, rehashing in place,
  reserving, shrinking and inserting. The hash function may panic; the guards that clean up then
  are part of the model. \<open>None\<close> stands for an inner loop of the rehash that runs out of its fuel,
  which is the number of buckets and one.
\<close>

unbundle bit_operations_syntax

section \<open>Allocation\<close>

datatype fallibility = Fallible | Infallible

fun capacity_overflow :: "fallibility \<Rightarrow> raw_error" where
  "capacity_overflow Fallible = CapacityOverflow"
| "capacity_overflow Infallible = PanicCapacityOverflow"

fun alloc_err :: "fallibility \<Rightarrow> nat \<times> nat \<Rightarrow> raw_error" where
  "alloc_err Fallible layout = AllocError layout"
| "alloc_err Infallible layout = AbortAllocError layout"

text \<open>
  An allocator maps a layout, size and alignment, to the length of the block it returns,
  \<open>None\<close> when it fails.
\<close>

type_synonym allocator = "nat \<times> nat \<Rightarrow> nat option"

definition is_power_of_two :: "nat \<Rightarrow> bool" where
  "is_power_of_two x \<longleftrightarrow> x \<noteq> 0 \<and> x AND (x - 1) = 0"

text \<open>A table whose control bytes and buckets are uninitialised; the bytes are overwritten before they are read.\<close>

definition uninitialized_table :: "('g, 'm::len word) group_impl \<Rightarrow> nat \<Rightarrow> 't raw_table" where
  "uninitialized_table G buckets =
     \<lparr>bucket_mask = buckets - 1, ctrl = replicate (buckets + WIDTH G) 0,
      growth_left = bucket_mask_to_capacity (buckets - 1), items = 0, slots = replicate buckets None\<rparr>"

definition new_uninitialized ::
  "('g, 'm::len word) group_impl \<Rightarrow> allocator \<Rightarrow> table_layout \<Rightarrow> nat \<Rightarrow> fallibility
    \<Rightarrow> raw_error + 't raw_table" where
  "new_uninitialized G alloc L buckets fallibility =
     require (is_power_of_two buckets) DebugAssertion
       (case calculate_layout_for (WIDTH G) L buckets of
          None \<Rightarrow> Err (capacity_overflow fallibility)
        | Some (layout, ctrl_offset) \<Rightarrow>
            (case alloc layout of
               None \<Rightarrow> Err (alloc_err fallibility layout)
             | Some block_len \<Rightarrow>
                 if block_len \<noteq> fst layout then
                   (let x = maximum_buckets_in block_len L (WIDTH G) in
                    require (buckets \<le> x) DebugAssertion
                      (case calculate_layout_for (WIDTH G) L x of
                         None \<Rightarrow> Err UndefinedBehavior
                       | Some (oversized_layout, oversized_ctrl_offset) \<Rightarrow>
                           require (fst oversized_layout \<le> block_len \<and> ctrl_offset \<le> oversized_ctrl_offset)
                             DebugAssertion
                             (Ok (uninitialized_table G x))))
                 else Ok (uninitialized_table G buckets)))"

definition fill_empty :: "('g, 'm::len word) group_impl \<Rightarrow> 't raw_table \<Rightarrow> 't raw_table" where
  "fill_empty G t = t\<lparr>ctrl := replicate (num_ctrl_bytes G t) EMPTY\<rparr>"

definition fallible_with_capacity ::
  "('g, 'm::len word) group_impl \<Rightarrow> allocator \<Rightarrow> table_layout \<Rightarrow> nat \<Rightarrow> fallibility
    \<Rightarrow> raw_error + 't raw_table" where
  "fallible_with_capacity G alloc L capacity fallibility =
     (if capacity = 0 then Ok (raw_table_new G)
      else
        and_then (ok_or (capacity_to_buckets (WIDTH G) capacity L) (capacity_overflow fallibility)) (\<lambda>buckets.
        and_then (new_uninitialized G alloc L buckets fallibility) (\<lambda>result.
        Ok (fill_empty G result))))"

definition raw_with_capacity ::
  "('g, 'm::len word) group_impl \<Rightarrow> allocator \<Rightarrow> table_layout \<Rightarrow> nat \<Rightarrow> raw_error + 't raw_table" where
  "raw_with_capacity G alloc L capacity = fallible_with_capacity G alloc L capacity Infallible"

section \<open>Iterating over the full buckets\<close>

text \<open>
  \<open>FullBucketsIndices::next_impl\<close>: the bits left in the mask of the current group, then the next
  group; a load past the control bytes is undefined.
\<close>

lemma full_next_measure: "f + WIDTH G + WIDTH G \<le> n \<Longrightarrow> n - (f + WIDTH G) < n - f"
  using WIDTH_pos [of G] by linarith

function full_next ::
  "('g, 'm::len word) group_impl \<Rightarrow> tag list \<Rightarrow> 'm word \<Rightarrow> nat \<Rightarrow> raw_error + nat \<times> 'm word \<times> nat" where
  "full_next G cs current_group group_first_index =
     (case bitmask_next G current_group of
        Some (index, current_group') \<Rightarrow> Ok (group_first_index + index, current_group', group_first_index)
      | None \<Rightarrow>
          (let first = group_first_index + WIDTH G in
           if first + WIDTH G \<le> length cs then
             full_next G cs (bitmask_into_iter G (match_full G (load G (take (WIDTH G) (drop first cs))))) first
           else Err UndefinedBehavior))"
  by pat_completeness auto
termination
  by (relation "measure (\<lambda>(G, cs, m, first). length cs - first)") (auto dest: full_next_measure)

declare full_next.simps [simp del]

text \<open>The indices the iterator yields while its \<open>items\<close> counter is positive.\<close>

primrec full_collect ::
  "('g, 'm::len word) group_impl \<Rightarrow> tag list \<Rightarrow> nat \<Rightarrow> 'm word \<Rightarrow> nat \<Rightarrow> raw_error + nat list" where
  "full_collect G cs 0 current_group first = Ok []"
| "full_collect G cs (Suc n) current_group first =
     and_then (full_next G cs current_group first) (\<lambda>(index, current_group', first').
     and_then (full_collect G cs n current_group' first') (\<lambda>rest. Ok (index # rest)))"

definition full_buckets_indices ::
  "('g, 'm::len word) group_impl \<Rightarrow> 't raw_table \<Rightarrow> raw_error + nat list" where
  "full_buckets_indices G t =
     full_collect G (ctrl t) (items t) (bitmask_into_iter G (match_full G (load G (group_bytes G t 0)))) 0"

section \<open>Moving to a new table\<close>

definition prepare_resize ::
  "('g, 'm::len word) group_impl \<Rightarrow> allocator \<Rightarrow> table_layout \<Rightarrow> 't raw_table \<Rightarrow> nat \<Rightarrow> fallibility
    \<Rightarrow> raw_error + 't raw_table" where
  "prepare_resize G alloc L t capacity fallibility =
     require (items t \<le> capacity) DebugAssertion (fallible_with_capacity G alloc L capacity fallibility)"

text \<open>
  A hash function is \<open>hasher :: 't \<Rightarrow> u64 option\<close>, \<open>None\<close> when it panics; the guard of
  \<open>resize_inner\<close> then frees the new table and leaves the old one as it is.
\<close>

fun resize_loop ::
  "('g, 'm::len word) group_impl \<Rightarrow> ('t \<Rightarrow> u64 option) \<Rightarrow> 't raw_table \<Rightarrow> nat list \<Rightarrow> 't raw_table
    \<Rightarrow> raw_error + 't raw_table" where
  "resize_loop G hasher t [] new_table = Ok new_table"
| "resize_loop G hasher t (i # is) new_table =
     and_then (read_slot t i) (\<lambda>x.
     and_then (ok_or (hasher x) HasherPanic) (\<lambda>hash.
     and_then (prepare_insert_index G new_table hash) (\<lambda>(new_index, _, new_table').
     resize_loop G hasher t is (write_slot new_table' new_index x))))"

definition resize_inner ::
  "('g, 'm::len word) group_impl \<Rightarrow> allocator \<Rightarrow> table_layout \<Rightarrow> 't raw_table \<Rightarrow> nat
    \<Rightarrow> ('t \<Rightarrow> u64 option) \<Rightarrow> fallibility \<Rightarrow> (raw_error + unit) \<times> 't raw_table" where
  "resize_inner G alloc L t capacity hasher fallibility =
     (case
        and_then (prepare_resize G alloc L t capacity fallibility) (\<lambda>new_table.
        and_then (full_buckets_indices G t) (\<lambda>indices.
        and_then (resize_loop G hasher t indices new_table) (\<lambda>new_table'.
        require (items t \<le> growth_left new_table') ArithmeticOverflow
          (Ok (new_table'\<lparr>growth_left := growth_left new_table' - items t, items := items t\<rparr>)))))
      of Inl e \<Rightarrow> (Err e, t) | Inr t' \<Rightarrow> (Ok (), t'))"

section \<open>Rehashing in place\<close>

fun convert_groups ::
  "('g, 'm::len word) group_impl \<Rightarrow> tag list \<Rightarrow> nat list \<Rightarrow> tag list" where
  "convert_groups G cs [] = cs"
| "convert_groups G cs (i # is) =
     (let g = store G (convert_special_to_empty_and_full_to_deleted G (load G (take (WIDTH G) (drop i cs))))
      in convert_groups G (take i cs @ g @ drop (i + WIDTH G) cs) is)"

text \<open>The trailing bytes are copied from the first ones, \<open>copy_to(dst, n)\<close>.\<close>

definition copy_tags :: "tag list \<Rightarrow> nat \<Rightarrow> nat \<Rightarrow> tag list" where
  "copy_tags cs dst n = take dst cs @ take n cs @ drop (dst + n) cs"

definition prepare_rehash_in_place :: "('g, 'm::len word) group_impl \<Rightarrow> 't raw_table \<Rightarrow> 't raw_table" where
  "prepare_rehash_in_place G t =
     (let starts = map (\<lambda>k. k * WIDTH G) [0..<(num_buckets t + WIDTH G - 1) div WIDTH G];
          cs = convert_groups G (ctrl t) starts
      in t\<lparr>ctrl := (if num_buckets t < WIDTH G then copy_tags cs (WIDTH G) (num_buckets t)
                    else copy_tags cs (num_buckets t) (WIDTH G))\<rparr>)"

definition is_in_same_group ::
  "('g, 'm::len word) group_impl \<Rightarrow> 't raw_table \<Rightarrow> nat \<Rightarrow> nat \<Rightarrow> u64 \<Rightarrow> bool" where
  "is_in_same_group G t i new_i hash \<longleftrightarrow>
     (let probe_seq_pos = ps_pos (probe_seq_new (bucket_mask t) hash);
          probe_index = (\<lambda>pos. (usize_wrapping_sub pos probe_seq_pos AND bucket_mask t) div WIDTH G)
      in probe_index i = probe_index new_i)"

definition swap_slots :: "'t raw_table \<Rightarrow> nat \<Rightarrow> nat \<Rightarrow> 't raw_table" where
  "swap_slots t i j = t\<lparr>slots := (slots t)[i := slots t ! j, j := slots t ! i]\<rparr>"

definition copy_slot :: "'t raw_table \<Rightarrow> nat \<Rightarrow> nat \<Rightarrow> 't raw_table" where
  "copy_slot t src dst = t\<lparr>slots := (slots t)[dst := slots t ! src]\<rparr>"

text \<open>
  The inner loop for bucket \<open>i\<close>. Each round that swaps two elements turns one more
  \<^const>\<open>DELETED\<close> byte into a full one, so \<open>fuel\<close> rounds are enough when it exceeds their number;
  running out is reported as \<open>None\<close>.
\<close>

fun rehash_bucket ::
  "nat \<Rightarrow> ('g, 'm::len word) group_impl \<Rightarrow> ('t \<Rightarrow> u64 option) \<Rightarrow> 't raw_table \<Rightarrow> nat
    \<Rightarrow> ((raw_error + unit) \<times> 't raw_table) option" where
  "rehash_bucket 0 G hasher t i = None"
| "rehash_bucket (Suc fuel) G hasher t i =
     (case and_then (read_slot t i) (\<lambda>x. ok_or (hasher x) HasherPanic) of
        Inl e \<Rightarrow> Some (Err e, t)
      | Inr hash \<Rightarrow>
          (case find_insert_index G t hash of
             Inl e \<Rightarrow> Some (Err e, t)
           | Inr new_i \<Rightarrow>
               if is_in_same_group G t i new_i hash then Some (Ok (), set_ctrl_hash G t i hash)
               else
                 (let (prev_ctrl, t1) = replace_ctrl_hash G t new_i hash in
                  if prev_ctrl = EMPTY then Some (Ok (), copy_slot (set_ctrl G t1 i EMPTY) i new_i)
                  else if prev_ctrl = DELETED then rehash_bucket fuel G hasher (swap_slots t1 i new_i) i
                  else Some (Err DebugAssertion, t1))))"

fun rehash_loop ::
  "nat \<Rightarrow> ('g, 'm::len word) group_impl \<Rightarrow> ('t \<Rightarrow> u64 option) \<Rightarrow> 't raw_table \<Rightarrow> nat list
    \<Rightarrow> ((raw_error + unit) \<times> 't raw_table) option" where
  "rehash_loop fuel G hasher t [] = Some (Ok (), t)"
| "rehash_loop fuel G hasher t (i # is) =
     (if ctrl t ! i \<noteq> DELETED then rehash_loop fuel G hasher t is
      else
        (case rehash_bucket fuel G hasher t i of
           None \<Rightarrow> None
         | Some (Inl e, t') \<Rightarrow> Some (Err e, t')
         | Some (Inr _, t') \<Rightarrow> rehash_loop fuel G hasher t' is))"

text \<open>The guard of \<open>rehash_in_place\<close>: it drops the elements that were not rehashed.\<close>

fun rehash_guard_loop :: "('g, 'm::len word) group_impl \<Rightarrow> 't raw_table \<Rightarrow> nat list \<Rightarrow> 't raw_table" where
  "rehash_guard_loop G t [] = t"
| "rehash_guard_loop G t (i # is) =
     (if ctrl t ! i = DELETED
      then rehash_guard_loop G ((set_ctrl G t i EMPTY)\<lparr>items := items t - 1\<rparr>) is
      else rehash_guard_loop G t is)"

definition rehash_guard :: "('g, 'm::len word) group_impl \<Rightarrow> 't raw_table \<Rightarrow> 't raw_table" where
  "rehash_guard G t =
     (let t' = rehash_guard_loop G t [0..<num_buckets t]
      in t'\<lparr>growth_left := bucket_mask_to_capacity (bucket_mask t') - items t'\<rparr>)"

definition rehash_in_place ::
  "('g, 'm::len word) group_impl \<Rightarrow> ('t \<Rightarrow> u64 option) \<Rightarrow> 't raw_table
    \<Rightarrow> ((raw_error + unit) \<times> 't raw_table) option" where
  "rehash_in_place G hasher t =
     (let t1 = prepare_rehash_in_place G t in
      case rehash_loop (num_buckets t + 1) G hasher t1 [0..<num_buckets t1] of
        None \<Rightarrow> None
      | Some (Inl e, t2) \<Rightarrow> Some (Err e, rehash_guard G t2)
      | Some (Inr _, t2) \<Rightarrow>
          Some (Ok (), t2\<lparr>growth_left := bucket_mask_to_capacity (bucket_mask t2) - items t2\<rparr>))"

section \<open>Reserving\<close>

definition reserve_rehash ::
  "('g, 'm::len word) group_impl \<Rightarrow> allocator \<Rightarrow> table_layout \<Rightarrow> 't raw_table \<Rightarrow> nat
    \<Rightarrow> ('t \<Rightarrow> u64 option) \<Rightarrow> fallibility \<Rightarrow> ((raw_error + unit) \<times> 't raw_table) option" where
  "reserve_rehash G alloc L t additional hasher fallibility =
     (case checked_usize (items t + additional) of
        None \<Rightarrow> Some (Err (capacity_overflow fallibility), t)
      | Some new_items \<Rightarrow>
          (let full_capacity = bucket_mask_to_capacity (bucket_mask t) in
           if new_items \<le> full_capacity div 2 then rehash_in_place G hasher t
           else Some (resize_inner G alloc L t (max new_items (full_capacity + 1)) hasher fallibility)))"

definition raw_reserve ::
  "('g, 'm::len word) group_impl \<Rightarrow> allocator \<Rightarrow> table_layout \<Rightarrow> 't raw_table \<Rightarrow> nat
    \<Rightarrow> ('t \<Rightarrow> u64 option) \<Rightarrow> ((raw_error + unit) \<times> 't raw_table) option" where
  "raw_reserve G alloc L t additional hasher =
     (if additional > growth_left t then reserve_rehash G alloc L t additional hasher Infallible
      else Some (Ok (), t))"

definition raw_try_reserve ::
  "('g, 'm::len word) group_impl \<Rightarrow> allocator \<Rightarrow> table_layout \<Rightarrow> 't raw_table \<Rightarrow> nat
    \<Rightarrow> ('t \<Rightarrow> u64 option) \<Rightarrow> ((raw_error + unit) \<times> 't raw_table) option" where
  "raw_try_reserve G alloc L t additional hasher =
     (if additional > growth_left t then reserve_rehash G alloc L t additional hasher Fallible
      else Some (Ok (), t))"

definition raw_shrink_to ::
  "('g, 'm::len word) group_impl \<Rightarrow> allocator \<Rightarrow> table_layout \<Rightarrow> 't raw_table \<Rightarrow> nat
    \<Rightarrow> ('t \<Rightarrow> u64 option) \<Rightarrow> (raw_error + unit) \<times> 't raw_table" where
  "raw_shrink_to G alloc L t min_size hasher =
     (let min_size' = max (items t) min_size in
      if min_size' = 0 then (Ok (), raw_table_new G)
      else
        (case capacity_to_buckets (WIDTH G) min_size' L of
           None \<Rightarrow> (Ok (), t)
         | Some min_buckets \<Rightarrow>
             if min_buckets < num_buckets t then
               (if items t = 0 then
                  (case raw_with_capacity G alloc L min_size' of
                     Inl e \<Rightarrow> (Err e, t)
                   | Inr new_inner \<Rightarrow> (Ok (), new_inner))
                else resize_inner G alloc L t min_size' hasher Infallible)
             else (Ok (), t)))"

section \<open>Inserting\<close>

definition finish_insert ::
  "'t raw_table \<Rightarrow> raw_error + nat \<times> 't raw_table \<Rightarrow> ((raw_error + nat) \<times> 't raw_table) option" where
  "finish_insert t r = Some (case r of Inl e \<Rightarrow> (Err e, t) | Inr (i, t') \<Rightarrow> (Ok i, t'))"

definition raw_insert ::
  "('g, 'm::len word) group_impl \<Rightarrow> allocator \<Rightarrow> table_layout \<Rightarrow> 't raw_table \<Rightarrow> u64 \<Rightarrow> 't
    \<Rightarrow> ('t \<Rightarrow> u64 option) \<Rightarrow> ((raw_error + nat) \<times> 't raw_table) option" where
  "raw_insert G alloc L t hash value hasher =
     (case find_insert_index G t hash of
        Inl e \<Rightarrow> Some (Err e, t)
      | Inr index \<Rightarrow>
          (let old_ctrl = ctrl t ! index in
           if growth_left t = 0 \<and> special_is_empty old_ctrl then
             (case raw_reserve G alloc L t 1 hasher of
                None \<Rightarrow> None
              | Some (Inl e, t') \<Rightarrow> Some (Err e, t')
              | Some (Inr _, t') \<Rightarrow>
                  finish_insert t'
                    (and_then (find_insert_index G t' hash) (\<lambda>index'. insert_at_index G t' hash index' value)))
           else finish_insert t (insert_at_index G t hash index value)))"

definition insert_no_grow ::
  "('g, 'm::len word) group_impl \<Rightarrow> 't raw_table \<Rightarrow> u64 \<Rightarrow> 't \<Rightarrow> raw_error + nat \<times> 't raw_table" where
  "insert_no_grow G t hash value =
     and_then (prepare_insert_index G t hash) (\<lambda>(index, old_ctrl, t1).
     (let used = (if special_is_empty old_ctrl then 1 else 0) in
      require (bucket_mask t1 \<noteq> 0 \<and> index < num_buckets t1) DebugAssertion
       (require (used \<le> growth_left t1) ArithmeticOverflow
         (let t2 = write_slot (t1\<lparr>growth_left := growth_left t1 - used\<rparr>) index value
          in Ok (index, t2\<lparr>items := items t2 + 1\<rparr>)))))"

definition raw_find_or_find_insert_index ::
  "('g, 'm::len word) group_impl \<Rightarrow> allocator \<Rightarrow> table_layout \<Rightarrow> 't raw_table \<Rightarrow> u64 \<Rightarrow> ('t \<Rightarrow> bool)
    \<Rightarrow> ('t \<Rightarrow> u64 option) \<Rightarrow> ((raw_error + slot) \<times> 't raw_table) option" where
  "raw_find_or_find_insert_index G alloc L t hash eq hasher =
     (case raw_reserve G alloc L t 1 hasher of
        None \<Rightarrow> None
      | Some (Inl e, t') \<Rightarrow> Some (Err e, t')
      | Some (Inr _, t') \<Rightarrow> Some (find_or_find_insert_index_inner G t' hash (slot_eq t' eq), t'))"

end
