(* ===== verification/Swiss_Grow.thy ===== *)
theory Swiss_Grow
  imports Swiss_Resize
begin

text \<open>
  Allocation: the iterator over the full buckets yields them in order; what the locale \<open>raw_alloc\<close> assumes
  of the element layout and the allocator gives a fresh empty table, or an error of the
  allocation. \<open>Global\<close> of \<open>alloc.rs\<close> is an interpretation of it.
\<close>

unbundle bit_operations_syntax

section \<open>The full buckets, in order\<close>

lemma upt_split: "a \<le> b \<Longrightarrow> b \<le> c \<Longrightarrow> [a..<c] = [a..<b] @ [b..<c]"
  by (metis le_add_diff_inverse upt_add_eq_append)

context group_laws
begin

definition full_from :: "'t raw_table \<Rightarrow> 'm word \<Rightarrow> nat \<Rightarrow> nat list" where
  "full_from t m first =
     map (\<lambda>b. first + b) (bitmask_indices G m)
       @ filter (\<lambda>i. is_full (tags_of t ! i)) [first + WIDTH G..<num_buckets t]"

text \<open>An aligned group holds the tags of its buckets, and empty tags past the end of a small table.\<close>

lemma aligned_group_full:
  assumes ok: "ctrl_ok G t" and first: "first < num_buckets t" "WIDTH G dvd first"
  shows "map (\<lambda>b. first + b) (full_indices G (group_bytes G t first))
    = filter (\<lambda>i. is_full (tags_of t ! i)) [first..<min (num_buckets t) (first + WIDTH G)]"
proof -
  let ?n = "num_buckets t" and ?w = "WIDTH G"
  obtain k where k: "?n = 2 ^ k" using ok by (rule ctrl_okD)
  have len: "length (tags_of t) = ?n" using ok by (simp add: ctrl_ok_def)
  have byte: "is_full (group_bytes G t first ! b) \<longleftrightarrow> first + b < ?n \<and> is_full (tags_of t ! (first + b))"
    if b: "b < ?w" for b
  proof (cases "?n < ?w")
    case True
    then have "first = 0" using first by (metis dvd_imp_le gr0I leD le_less_trans less_imp_le_nat)
    then show ?thesis
      using True b len group_bytes_nth(2) [OF ok first(1) b] by (auto simp: mirror_byte_def)
  next
    case False
    then have "?w dvd ?n" using k pow2_WIDTH [of G] by (metis le_imp_power_dvd not_less
          power_le_imp_le_exp one_less_numeral_iff semiring_norm(76))
    then have "?w dvd ?n - first" using first(2) by simp
    then have "?w \<le> ?n - first" using first(1) by (simp add: dvd_imp_le)
    then have "first + b < ?n" using b first(1) by linarith
    then show ?thesis using False len group_bytes_nth(2) [OF ok first(1) b] by (simp add: mirror_byte_def)
  qed
  have "map (\<lambda>b. first + b) (full_indices G (group_bytes G t first))
      = filter (\<lambda>i. i < ?n \<and> is_full (tags_of t ! i)) (map (\<lambda>b. first + b) [0..<?w])"
    unfolding full_indices_eq [OF group_bytes_nth(1) [OF ok first(1)]] filter_map comp_def
    by (rule arg_cong [where f = "map _"], rule filter_cong) (auto simp: byte)
  also have "map (\<lambda>b. first + b) [0..<?w] = [first..<first + ?w]" by (simp add: map_add_upt add.commute)
  also have "filter (\<lambda>i. i < ?n \<and> is_full (tags_of t ! i)) [first..<first + ?w]
      = filter (\<lambda>i. is_full (tags_of t ! i)) [first..<min ?n (first + ?w)]"
  proof -
    define e where "e = min ?n (first + ?w)"
    have e: "first \<le> e" "e \<le> first + ?w" "e \<le> ?n" using first(1) by (auto simp: e_def)
    have "filter (\<lambda>i. i < ?n \<and> is_full (tags_of t ! i)) [first..<e]
        = filter (\<lambda>i. is_full (tags_of t ! i)) [first..<e]"
      by (rule filter_cong) (use e in auto)
    moreover have "filter (\<lambda>i. i < ?n \<and> is_full (tags_of t ! i)) [e..<first + ?w] = []"
      by (auto simp: filter_empty_conv e_def)
    ultimately show ?thesis
      unfolding e_def [symmetric] upt_split [OF e(1,2)] by simp
  qed
  finally show ?thesis .
qed

lemma full_from_group:
  assumes ok: "ctrl_ok G t" and first: "first < num_buckets t" "WIDTH G dvd first"
  shows "full_from t (bitmask_into_iter G (match_full G (load G (group_bytes G t first)))) first
    = filter (\<lambda>i. is_full (tags_of t ! i)) [first..<num_buckets t]"
proof -
  have "full_from t (bitmask_into_iter G (match_full G (load G (group_bytes G t first)))) first
      = filter (\<lambda>i. is_full (tags_of t ! i)) ([first..<min (num_buckets t) (first + WIDTH G)]
          @ [first + WIDTH G..<num_buckets t])"
    using aligned_group_full [OF assms] by (simp add: full_from_def full_indices_def)
  also have "[first..<min (num_buckets t) (first + WIDTH G)] @ [first + WIDTH G..<num_buckets t]
      = [first..<num_buckets t]"
    using upt_split [of first "first + WIDTH G" "num_buckets t"] by (cases "first + WIDTH G \<le> num_buckets t") auto
  finally show ?thesis .
qed

lemma full_next_step:
  assumes ok: "ctrl_ok G t" and bm: "bucket_mask t \<noteq> 0"
  shows "WIDTH G dvd first \<Longrightarrow> full_from t m first = i # rest \<Longrightarrow>
    \<exists>m' first'. full_next G (ctrl t) m first = Ok (i, m', first') \<and> WIDTH G dvd first'
      \<and> full_from t m' first' = rest"
proof (induction "num_buckets t - first" arbitrary: m first rule: less_induct)
  case less
  have len: "length (ctrl t) = num_buckets t + WIDTH G" using ok bm by (simp add: ctrl_ok_def)
  show ?case
  proof (cases "bitmask_next G m")
    case (Some r)
    then obtain b m' where r: "bitmask_next G m = Some (b, m')" by (metis surj_pair)
    then have "bitmask_indices G m = b # bitmask_indices G m'" by (simp add: bitmask_indices.simps [of G m])
    then show ?thesis
      using less.prems r by (auto simp: full_next.simps [of G "ctrl t" m] full_from_def)
  next
    case None
    then have "bitmask_indices G m = []" by (simp add: bitmask_indices.simps [of G m])
    with less.prems have f: "filter (\<lambda>i. is_full (tags_of t ! i)) [first + WIDTH G..<num_buckets t] = i # rest"
      by (simp add: full_from_def)
    let ?f = "first + WIDTH G"
    have lt: "?f < num_buckets t"
    proof (rule ccontr)
      assume "\<not> ?f < num_buckets t"
      with f show False by simp
    qed
    let ?m = "bitmask_into_iter G (match_full G (load G (group_bytes G t ?f)))"
    have dv: "WIDTH G dvd ?f" using less.prems(1) by simp
    have "full_from t ?m ?f = i # rest" using full_from_group [OF ok lt dv] f by simp
    moreover have "num_buckets t - ?f < num_buckets t - first" using lt WIDTH_pos [of G] by linarith
    moreover have "full_next G (ctrl t) m first = full_next G (ctrl t) ?m ?f"
      unfolding full_next.simps [of G "ctrl t" m] using None lt len by (simp add: group_bytes_def Let_def)
    ultimately show ?thesis using less.hyps [OF _ dv] by simp
  qed
qed

lemma full_collect_eq:
  assumes ok: "ctrl_ok G t" and bm: "bucket_mask t \<noteq> 0"
  shows "WIDTH G dvd first \<Longrightarrow> length (full_from t m first) = n \<Longrightarrow>
    full_collect G (ctrl t) n m first = Ok (full_from t m first)"
proof (induction n arbitrary: m first)
  case (Suc n)
  then obtain i rest where f: "full_from t m first = i # rest" by (cases "full_from t m first") auto
  from full_next_step [OF ok bm Suc.prems(1) f] obtain m' first' where
    "full_next G (ctrl t) m first = Ok (i, m', first')" "WIDTH G dvd first'" "full_from t m' first' = rest"
    by blast
  then show ?case using Suc f by simp
qed simp

theorem full_buckets_indices_eq:
  assumes inv: "raw_inv G hf t"
  shows "full_buckets_indices G t = Ok (filter (\<lambda>i. is_full (tags_of t ! i)) [0..<num_buckets t])"
proof -
  from inv have ok: "ctrl_ok G t" and it: "items t = count_full t" by (auto simp: raw_inv_def)
  have len: "length (tags_of t) = num_buckets t" using ok by (simp add: ctrl_ok_def)
  show ?thesis
  proof (cases "bucket_mask t = 0")
    case True
    then have "tags_of t = [EMPTY]" by (rule tags_singleton [OF ok])
    then show ?thesis using True it by (simp add: full_buckets_indices_def count_full_def num_buckets_def)
  next
    case False
    have "length (filter (\<lambda>i. is_full (tags_of t ! i)) [0..<num_buckets t]) = items t"
      by (simp add: it count_full_def length_filter_conv_card len cong: conj_cong)
    then show ?thesis
      using full_collect_eq [OF ok False, of 0 _ "items t"] full_from_group [OF ok, of 0]
      by (simp add: full_buckets_indices_def)
  qed
qed

end

section \<open>The allocator\<close>

text \<open>
  What is assumed of the element type and of the allocator: a layout as Rust guarantees it, and
  blocks of at least the requested size that stay within \<open>isize::MAX\<close>. With groups of 16 bytes
  a block must have exactly the requested size (see \<open>oversized_block_overflow\<close>).
\<close>

text \<open>An allocation fails with one of the two errors of the fallibility, or gives a power of two of buckets.\<close>

definition alloc_failure :: "allocator \<Rightarrow> fallibility \<Rightarrow> raw_error \<Rightarrow> bool" where
  "alloc_failure alloc f e \<longleftrightarrow> e = capacity_overflow f \<or> (\<exists>l. alloc l = None \<and> e = alloc_err f l)"

text \<open>\<open>Global::allocate\<close>: whatever the system allocator accepts, it returns as a block of the requested size.\<close>

definition global_allocate :: "(nat \<times> nat \<Rightarrow> bool) \<Rightarrow> allocator" where
  "global_allocate accepts layout = (if accepts layout then Some (fst layout) else None)"

locale raw_alloc = group_laws G
  for G :: "('g, 'm::len word) group_impl" +
  fixes alloc :: allocator and sz al :: nat
  assumes elem_layout: "rust_layout sz al"
    and exact_or_small: "alloc (s, a) = Some z \<Longrightarrow>
      z = s \<or> (WIDTH G = 4 \<or> WIDTH G = 8) \<and> s \<le> z \<and> z + a \<le> isize_max + 1"
begin

abbreviation L :: table_layout where
  "L \<equiv> table_layout_new (WIDTH G) sz al"

lemma L_ctrl_align: obtains j where "ctrl_align L = 2 ^ j" and "j \<le> 62"
  using rust_layout_ctrl_align [OF elem_layout pow2_WIDTH log_width_le] by metis

lemma is_power_of_two_pow: "is_power_of_two (2 ^ k)"
  using and_bucket_mask [of "2 ^ k" k] by (simp add: is_power_of_two_def)

lemma buckets_bound:
  assumes "calculate_layout_for (WIDTH G) L b = Some ((len, a), off)" and "b = 2 ^ k"
  shows "k \<le> 62"
proof -
  obtain j where j: "ctrl_align L = 2 ^ j" "j \<le> 62" by (rule L_ctrl_align)
  have "b \<le> isize_max" using calculate_layout_for_Some(2,6) [OF assms(1) j] by simp
  then have "(2 :: nat) ^ k < 2 ^ 63" using assms(2) by (simp add: isize_max_def)
  then have "k < 63" by (rule power_less_imp_less_exp [rotated]) simp
  then show ?thesis by simp
qed

lemma new_uninitialized_spec:
  assumes k: "2 \<le> k"
  shows "case new_uninitialized G alloc L (2 ^ k) f :: raw_error + 't raw_table of
      Inl e \<Rightarrow> alloc_failure alloc f e
    | Inr t \<Rightarrow> (\<exists>k'\<ge>k. k' \<le> 62 \<and> t = uninitialized_table G (2 ^ k'))"
proof (cases "calculate_layout_for (WIDTH G) L (2 ^ k)")
  case None
  then show ?thesis by (simp add: new_uninitialized_def is_power_of_two_pow alloc_failure_def)
next
  case (Some r)
  obtain len a off where r: "r = ((len, a), off)" by (metis surj_pair)
  note lay = Some [unfolded r]
  obtain j where j: "ctrl_align L = 2 ^ j" "j \<le> 62" by (rule L_ctrl_align)
  have a: "a = ctrl_align L" using calculate_layout_for_Some(1) [OF lay j] .
  show ?thesis
  proof (cases "alloc (len, a)")
    case None
    then show ?thesis
      using lay by (auto simp: new_uninitialized_def is_power_of_two_pow alloc_failure_def)
  next
    case (Some z)
    show ?thesis
    proof (cases "z = len")
      case True
      then show ?thesis
        using lay Some buckets_bound [OF lay] by (auto simp: new_uninitialized_def is_power_of_two_pow)
    next
      case False
      with exact_or_small [OF Some] have w: "WIDTH G = 4 \<or> WIDTH G = 8" and z: "len \<le> z" "z + ctrl_align L \<le> isize_max + 1"
        using a by auto
      let ?x = "maximum_buckets_in z L (WIDTH G)"
      from oversized_block_fits [OF elem_layout w k lay z] obtain m len' off' where
        m: "2 ^ k \<le> ?x" "?x = 2 ^ m" "calculate_layout_for (WIDTH G) L ?x = Some ((len', a), off')"
        "len' \<le> z" "off \<le> off'" by auto
      from m(1,2) have "k \<le> m" by simp
      moreover have "m \<le> 62" using buckets_bound [OF m(3,2)] .
      ultimately show ?thesis
        using lay Some False m by (auto simp: new_uninitialized_def is_power_of_two_pow Let_def)
    qed
  qed
qed

lemma raw_inv_fill:
  assumes "k \<le> 62" and "1 \<le> k"
  defines "t \<equiv> fill_empty G (uninitialized_table G (2 ^ k))"
  shows "raw_inv G hf t" and "elements t = {#}" and "bucket_mask t = 2 ^ k - 1"
    and "growth_left t = bucket_mask_to_capacity (2 ^ k - 1)" and "items t = 0"
    and "tags_of t = replicate (2 ^ k) EMPTY"
proof -
  have p: "(2 :: nat) \<le> 2 ^ k" using assms(2) self_le_power [of "2::nat" k] by simp
  then have n: "num_buckets t = 2 ^ k" and bm: "bucket_mask t \<noteq> 0"
    by (auto simp: t_def fill_empty_def uninitialized_table_def num_buckets_def)
  have c: "ctrl t = replicate (num_buckets t + WIDTH G) EMPTY"
    using n by (simp add: t_def fill_empty_def num_ctrl_bytes_def num_buckets_def)
  have l: "length (slots t) = num_buckets t"
    using n by (simp add: t_def fill_empty_def uninitialized_table_def)
  show "bucket_mask t = 2 ^ k - 1" "growth_left t = bucket_mask_to_capacity (2 ^ k - 1)" "items t = 0"
    by (simp_all add: t_def fill_empty_def uninitialized_table_def)
  then show "raw_inv G hf t" "elements t = {#}" "tags_of t = replicate (2 ^ k) EMPTY"
    using raw_inv_empty(1) [OF n assms(1), of hf] raw_inv_empty(2) [OF n assms(1)]
      ctrl_ok_empty(2) [OF n assms(1)] c bm l n by auto
qed

lemma pow2_capacity_mono:
  assumes "k \<le> k'"
  shows "bucket_mask_to_capacity (2 ^ k - 1) \<le> bucket_mask_to_capacity (2 ^ k' - 1)"
proof -
  have le: "(2::nat) ^ k \<le> 2 ^ k'" using assms by simp
  show ?thesis
  proof (cases "(2::nat) ^ k' \<le> 8")
    case True
    with le have "(2::nat) ^ k - 1 \<le> 2 ^ k' - 1" "(2::nat) ^ k' - 1 < 8" by linarith+
    then show ?thesis by (simp add: bucket_mask_to_capacity_def)
  next
    case False
    then have "(2::nat) ^ 3 < 2 ^ k'" by simp
    then have "3 < k'" by (rule power_less_imp_less_exp [rotated]) simp
    then have "4 \<le> k'" by simp
    then have "(2::nat) ^ 4 \<le> 2 ^ k'" by (rule power_increasing) simp
    then have "16 \<le> (2::nat) ^ k'" by simp
    then have "14 \<le> 2 ^ k' div 8 * (7::nat)" using div_le_mono [of 16 "2 ^ k'" 8] by simp
    moreover have "2 ^ k div 8 * 7 \<le> 2 ^ k' div 8 * (7::nat)" using le by (simp add: div_le_mono)
    ultimately show ?thesis using False by (auto simp: bucket_mask_to_capacity_def)
  qed
qed

lemma fallible_with_capacity_spec:
  assumes c: "0 < capacity"
  shows "case fallible_with_capacity G alloc L capacity f :: raw_error + 't raw_table of
      Inl e \<Rightarrow> alloc_failure alloc f e
    | Inr t \<Rightarrow> (\<exists>k. 2 \<le> k \<and> k \<le> 62 \<and> t = fill_empty G (uninitialized_table G (2 ^ k))
        \<and> capacity \<le> bucket_mask_to_capacity (2 ^ k - 1))"
proof (cases "capacity_to_buckets (WIDTH G) capacity L")
  case None
  then show ?thesis using c by (simp add: fallible_with_capacity_def alloc_failure_def)
next
  case (Some b)
  from capacity_to_buckets_Some [OF Some c] obtain k where
    k: "b = 2 ^ k" "2 \<le> k" and cap: "capacity \<le> bucket_mask_to_capacity (2 ^ k - 1)" by auto
  show ?thesis
  proof (cases "new_uninitialized G alloc L (2 ^ k) f :: raw_error + 't raw_table")
    case (Inl e)
    then show ?thesis
      using new_uninitialized_spec [OF k(2), where ?'t = 't, of f] Some k c by (simp add: fallible_with_capacity_def)
  next
    case (Inr t)
    then obtain k' where k': "k \<le> k'" "k' \<le> 62" "t = uninitialized_table G (2 ^ k')"
      using new_uninitialized_spec [OF k(2), where ?'t = 't, of f] by auto
    then have "2 \<le> k' \<and> capacity \<le> bucket_mask_to_capacity (2 ^ k' - 1)"
      using k(2) cap pow2_capacity_mono [OF k'(1)] by simp
    then show ?thesis
      using Inr k' Some k c by (auto simp: fallible_with_capacity_def intro!: exI [of _ k'])
  qed
qed

end

lemma raw_alloc_global: "group_laws G \<Longrightarrow> rust_layout sz al \<Longrightarrow> raw_alloc G (global_allocate accepts) sz al"
  by (auto simp: raw_alloc_def raw_alloc_axioms_def global_allocate_def split: if_splits)

lemma rust_layout_8: "sz mod 8 = 0 \<Longrightarrow> sz \<le> isize_max \<Longrightarrow> rust_layout sz 8"
  unfolding rust_layout_def by (intro conjI exI [of _ 3]) auto

interpretation sse2_global: raw_alloc sse2_group "global_allocate accepts" 16 8
  for accepts
  by (rule raw_alloc_global [OF sse2.group_laws_axioms rust_layout_8]) (simp_all add: isize_max_def)

interpretation generic64_global:
  raw_alloc "generic_group 3 :: (64 word, 64 word) group_impl" "global_allocate accepts" 16 8
  for accepts
  by (rule raw_alloc_global [OF generic64.group_laws_axioms rust_layout_8]) (simp_all add: isize_max_def)

interpretation neon_global: raw_alloc neon_group "global_allocate accepts" 16 8
  for accepts
  by (rule raw_alloc_global [OF neon.group_laws_axioms rust_layout_8]) (simp_all add: isize_max_def)

end
