(* ===== verification/Swiss_Move.thy ===== *)
theory Swiss_Move
  imports Swiss_Grow
begin

text \<open>
  Moving to a new table keeps the elements, and leaves the old table as it was when it fails.
\<close>

unbundle bit_operations_syntax

section \<open>Facts that depend on the control bytes only\<close>

lemma same_ctrl:
  assumes "bucket_mask t' = bucket_mask t" and "ctrl t' = ctrl t"
  shows "num_buckets t' = num_buckets t" and "tags_of t' = tags_of t" and "ctrl_ok G t' = ctrl_ok G t"
    and "insert_slot G t' h i = insert_slot G t h i" and "full_buckets t' = full_buckets t"
    and "count_full t' = count_full t" and "count_deleted t' = count_deleted t"
    and "group_bytes G t' p = group_bytes G t p"
  using assms
  by (simp_all add: num_buckets_def tags_of_def ctrl_ok_def insert_slot_def full_buckets_def count_full_def
      count_deleted_def group_bytes_def)

lemma same_elements:
  assumes "bucket_mask t' = bucket_mask t" and "ctrl t' = ctrl t" and "slots t' = slots t"
  shows "elements t' = elements t"
  using same_ctrl(5) [OF assms(1,2)] by (simp add: elements_def assms(3))

lemma elements_list: "elements t = mset (map (\<lambda>i. the (slots t ! i)) (filter (\<lambda>i. is_full (tags_of t ! i)) [0..<num_buckets t]))"
proof -
  have "full_buckets t = set (filter (\<lambda>i. is_full (tags_of t ! i)) [0..<num_buckets t])"
    by (auto simp: full_buckets_def)
  then show ?thesis by (simp add: elements_def mset_set_set)
qed

text \<open>The hash function may panic; otherwise it is \<open>hf\<close>.\<close>

definition hasher_ok :: "('t \<Rightarrow> u64) \<Rightarrow> ('t \<Rightarrow> u64 option) \<Rightarrow> 't raw_table \<Rightarrow> bool" where
  "hasher_ok hf hasher t \<longleftrightarrow> (\<forall>x\<in>#elements t. hasher x = None \<or> hasher x = Some (hf x))"

text \<open>The table as it will be once its counters are set for \<open>m\<close> elements.\<close>

definition with_items :: "'t raw_table \<Rightarrow> nat \<Rightarrow> 't raw_table" where
  "with_items t m = t\<lparr>items := m, growth_left := bucket_mask_to_capacity (bucket_mask t) - m\<rparr>"

lemma with_items_simps [simp]:
  "bucket_mask (with_items t m) = bucket_mask t" "ctrl (with_items t m) = ctrl t" "items (with_items t m) = m"
  "growth_left (with_items t m) = bucket_mask_to_capacity (bucket_mask t) - m" "slots (with_items t m) = slots t"
  by (simp_all add: with_items_def)

lemmas same_with_items = same_ctrl [of "with_items t m" t for t m, simplified]

context group_laws
begin

lemma resize_step:
  assumes inv: "raw_inv G hf (with_items nt m)" and nd: "count_deleted nt = 0" and bm: "bucket_mask nt \<noteq> 0"
    and room: "m < bucket_mask_to_capacity (bucket_mask nt)"
  obtains i nt1 where "prepare_insert_index G nt (hf x) = Ok (i, EMPTY, nt1)"
    and "raw_inv G hf (with_items (write_slot nt1 i x) (Suc m))"
    and "count_deleted (write_slot nt1 i x) = 0" and "bucket_mask nt1 = bucket_mask nt"
    and "growth_left nt1 = growth_left nt" and "items nt1 = items nt"
    and "elements (write_slot nt1 i x) = add_mset x (elements nt)"
proof -
  let ?v = "with_items nt m"
  from inv have ok: "ctrl_ok G nt" by (simp add: raw_inv_def same_with_items)
  obtain i0 where "i0 < num_buckets nt" "tags_of nt ! i0 = EMPTY"
    using raw_inv_empty_bucket [OF inv] by (auto simp: same_with_items)
  then obtain i where i: "find_insert_index G nt (hf x) = Ok i" "insert_slot G nt (hf x) i"
    using find_insert_index_spec [OF ok, of i0] by auto
  then have il: "i < num_buckets nt" and free: "\<not> is_full (tags_of nt ! i)" by (auto simp: insert_slot_def)
  have tl: "length (tags_of nt) = num_buckets nt" using ok by (simp add: ctrl_ok_def)
  have "tags_of nt ! i \<noteq> DELETED"
    using nd il tl by (auto simp: count_deleted_def filter_empty_conv)
  then have e: "tags_of nt ! i = EMPTY" using valid_special_cases [OF valid_tags_nth [OF ok il] free] by blast
  define nt1 where "nt1 = set_ctrl_hash G nt i (hf x)"
  have n1: "bucket_mask nt1 = bucket_mask nt" "growth_left nt1 = growth_left nt" "items nt1 = items nt"
    "slots nt1 = slots nt" by (simp_all add: nt1_def set_ctrl_hash_def)
  let ?t' = "with_items (write_slot nt1 i x) (Suc m)"
  have ctr: "ctrl ?t' = ctrl (set_ctrl G ?v i (tag_full (hf x)))"
    by (simp add: write_slot_def nt1_def set_ctrl_hash_def set_ctrl_def Let_def)
  have iv: "raw_inv G hf ?t'" "elements ?t' = add_mset x (elements ?v)"
    by (rule insert_tag_inv [OF inv, of x i];
        use i(2) bm room e ctr in \<open>simp add: same_with_items n1 write_slot_def\<close>)+
  have "tags_of (write_slot nt1 i x) = (tags_of nt)[i := tag_full (hf x)]"
    using set_ctrl_ok(2) [OF ok bm il, of "tag_full (hf x)"] same_ctrl(2) [of "write_slot nt1 i x" nt1]
    by (simp add: nt1_def set_ctrl_hash_def write_slot_def)
  moreover have "tag_full (hf x) \<noteq> DELETED" using is_full_tag_full [of "hf x"] tag_consts(2) by metis
  ultimately have "count_deleted (write_slot nt1 i x) = 0"
    using count_deleted_update [OF tl _ il, of "write_slot nt1 i x" "tag_full (hf x)"] nd by simp
  moreover have "elements (write_slot nt1 i x) = add_mset x (elements nt)"
    using iv(2) same_elements [of ?t' "write_slot nt1 i x"] same_elements [of ?v nt] by simp
  moreover have "prepare_insert_index G nt (hf x) = Ok (i, EMPTY, nt1)"
    using i(1) e il by (simp add: prepare_insert_index_def nt1_def ctrl_nth)
  ultimately show ?thesis using that iv(1) n1 by blast
qed

lemma resize_loop_spec:
  assumes inv: "raw_inv G hf t" and hs: "hasher_ok hf hasher t"
  shows "set is \<subseteq> full_buckets t \<Longrightarrow> raw_inv G hf (with_items nt m) \<Longrightarrow> count_deleted nt = 0 \<Longrightarrow>
    bucket_mask nt \<noteq> 0 \<Longrightarrow> m + length is \<le> bucket_mask_to_capacity (bucket_mask nt) \<Longrightarrow>
    (case resize_loop G hasher t is nt of
       Inl e \<Rightarrow> e = HasherPanic \<and> (\<exists>x\<in>#elements t. hasher x = None)
     | Inr nt' \<Rightarrow> raw_inv G hf (with_items nt' (m + length is)) \<and> count_deleted nt' = 0
         \<and> bucket_mask nt' = bucket_mask nt \<and> growth_left nt' = growth_left nt
         \<and> elements nt' = elements nt + mset (map (\<lambda>i. the (slots t ! i)) is))"
proof (induction "is" arbitrary: nt m)
  case Nil
  then show ?case by simp
next
  case (Cons i "is")
  then have i: "i \<in> full_buckets t" by simp
  then obtain x where x: "slots t ! i = Some x" using inv by (auto simp: raw_inv_def)
  then have xe: "x \<in># elements t" using i by (force simp: set_mset_elements)
  show ?case
  proof (cases "hasher x")
    case None
    then show ?thesis using x xe by (auto simp: read_slot_def)
  next
    case (Some h)
    then have h: "hasher x = Some (hf x)" using hs xe by (auto simp: hasher_ok_def)
    have "m < bucket_mask_to_capacity (bucket_mask nt)" using Cons.prems(5) by simp
    from resize_step [OF Cons.prems(2,3,4) this, of x] obtain j nt1 where
      st: "prepare_insert_index G nt (hf x) = Ok (j, EMPTY, nt1)"
      "raw_inv G hf (with_items (write_slot nt1 j x) (Suc m))"
      "count_deleted (write_slot nt1 j x) = 0" "bucket_mask nt1 = bucket_mask nt"
      "growth_left nt1 = growth_left nt"
      "elements (write_slot nt1 j x) = add_mset x (elements nt)" by metis
    have w: "bucket_mask (write_slot nt1 j x) = bucket_mask nt" "growth_left (write_slot nt1 j x) = growth_left nt"
      using st by (simp_all add: write_slot_def)
    have "resize_loop G hasher t (i # is) nt = resize_loop G hasher t is (write_slot nt1 j x)"
      using x h st(1) by (simp add: read_slot_def)
    then show ?thesis
      using Cons.IH [of "write_slot nt1 j x" "Suc m"] Cons.prems st w x by (simp split: sum.splits)
  qed
qed

end

context raw_alloc
begin

text \<open>
  Resizing: an error leaves the table as it was; otherwise the new table has the same elements,
  no deleted bucket, and room for \<open>capacity\<close> elements.
\<close>

lemma resize_inner_spec:
  assumes inv: "raw_inv G hf t" and hs: "hasher_ok hf hasher t"
    and cap: "items t \<le> capacity" "0 < capacity"
  shows "case resize_inner G alloc L t capacity hasher f of
      (Inl e, t') \<Rightarrow> t' = t \<and> (alloc_failure alloc f e \<or> e = HasherPanic \<and> (\<exists>x\<in>#elements t. hasher x = None))
    | (Inr _, t') \<Rightarrow> raw_inv G hf t' \<and> elements t' = elements t \<and> count_deleted t' = 0
        \<and> bucket_mask t' \<noteq> 0 \<and> capacity \<le> items t' + growth_left t'"
proof (cases "fallible_with_capacity G alloc L capacity f :: raw_error + 'a raw_table")
  case (Inl e)
  then have "alloc_failure alloc f e"
    using fallible_with_capacity_spec [OF cap(2), where ?'t = 'a, of f] by simp
  then show ?thesis using Inl cap by (simp add: resize_inner_def prepare_resize_def)
next
  case (Inr nt)
  then obtain k where k: "2 \<le> k" "k \<le> 62" "nt = fill_empty G (uninitialized_table G (2 ^ k))"
    "capacity \<le> bucket_mask_to_capacity (2 ^ k - 1)"
    using fallible_with_capacity_spec [OF cap(2), where ?'t = 'a, of f] by auto
  have k1: "1 \<le> k" using k(1) by simp
  have nt: "raw_inv G hf nt" "elements nt = {#}" "bucket_mask nt = 2 ^ k - 1"
    "growth_left nt = bucket_mask_to_capacity (2 ^ k - 1)" "items nt = 0"
    "tags_of nt = replicate (2 ^ k) EMPTY"
    unfolding k(3) by (rule raw_inv_fill [OF k(2) k1])+
  have bm: "bucket_mask nt \<noteq> 0" using nt(3) k1 self_le_power [of "2::nat" k] by simp
  have "with_items nt 0 = nt" using nt by (simp add: with_items_def)
  then have v: "raw_inv G hf (with_items nt 0)" using nt(1) by simp
  have nd: "count_deleted nt = 0" using nt(6) by (simp add: count_deleted_def)
  let ?is = "filter (\<lambda>i. is_full (tags_of t ! i)) [0..<num_buckets t]"
  have sub: "set ?is \<subseteq> full_buckets t" by (auto simp: full_buckets_def)
  have len: "length ?is = items t"
  proof -
    have "length ?is = size (elements t)" by (simp only: elements_list size_mset length_map)
    then show ?thesis using inv size_elements by (metis raw_inv_def)
  qed
  have fit: "0 + length ?is \<le> bucket_mask_to_capacity (bucket_mask nt)" using cap(1) k(4) nt(3) len by simp
  note lp = resize_loop_spec [OF inv hs sub v nd bm fit]
  show ?thesis
  proof (cases "resize_loop G hasher t ?is nt")
    case (Inl e)
    then show ?thesis
      using lp Inr cap full_buckets_indices_eq [OF inv] by (simp add: resize_inner_def prepare_resize_def)
  next
    case (Inr nt')
    with lp len have r: "raw_inv G hf (with_items nt' (items t))" "count_deleted nt' = 0"
      "bucket_mask nt' = bucket_mask nt" "growth_left nt' = growth_left nt" "elements nt' = elements t"
      by (simp_all add: nt(2) elements_list [of t])
    have g: "growth_left nt' = bucket_mask_to_capacity (bucket_mask nt')" using r nt(3,4) by simp
    have wi: "nt'\<lparr>growth_left := growth_left nt' - items t, items := items t\<rparr> = with_items nt' (items t)"
      using g by (simp add: with_items_def)
    have le: "items t \<le> bucket_mask_to_capacity (bucket_mask nt')" using fit len r(3) by simp
    have "resize_inner G alloc L t capacity hasher f = (Ok (), with_items nt' (items t))"
      using Inr \<open>fallible_with_capacity G alloc L capacity f = Ok nt\<close> cap full_buckets_indices_eq [OF inv] le g wi
      by (simp add: resize_inner_def prepare_resize_def)
    moreover have "count_deleted (with_items nt' (items t)) = 0" using r(2) by (simp add: same_with_items)
    moreover have "elements (with_items nt' (items t)) = elements t"
      using same_elements [of "with_items nt' (items t)" nt'] r(5) by simp
    ultimately show ?thesis using r bm le k(4) nt(3) by simp
  qed
qed

end

end
