(* ===== verification/Swiss_Rehash.thy ===== *)
theory Swiss_Rehash
  imports Swiss_Move
begin

text \<open>
  Rehashing in place, first part: the preparation marks every element as pending, and the
  invariant of the loop that places them.
\<close>

unbundle bit_operations_syntax

section \<open>Preparing: full tags become \<open>DELETED\<close>, the others \<open>EMPTY\<close>\<close>

definition pending_tag :: "tag \<Rightarrow> tag" where
  "pending_tag c = (if is_full c then DELETED else EMPTY)"

lemma convert_groups_append: "convert_groups G cs (is @ js) = convert_groups G (convert_groups G cs is) js"
  by (induction "is" arbitrary: cs) (simp_all add: Let_def)

context group_laws
begin

lemma convert_groups_eq:
  "m * WIDTH G \<le> length cs \<Longrightarrow>
    convert_groups G cs (map (\<lambda>k. k * WIDTH G) [0..<m])
      = map pending_tag (take (m * WIDTH G) cs) @ drop (m * WIDTH G) cs"
proof (induction m)
  case (Suc m)
  let ?w = "WIDTH G" and ?i = "m * WIDTH G"
  let ?cs = "map pending_tag (take ?i cs) @ drop ?i cs"
  have le: "?i + ?w \<le> length cs" using Suc.prems by simp
  have g: "take ?w (drop ?i ?cs) = take ?w (drop ?i cs)" using le by simp
  have "convert_groups G cs (map (\<lambda>k. k * ?w) [0..<Suc m]) = convert_groups G ?cs [?i]"
    using Suc by (simp add: convert_groups_append)
  also have "\<dots> = take ?i ?cs @ map pending_tag (take ?w (drop ?i cs)) @ drop (?i + ?w) ?cs"
    using le convert_eq [of "take ?w (drop ?i cs)"] by (simp add: Let_def g pending_tag_def [abs_def])
  also have "\<dots> = map pending_tag (take (Suc m * ?w) cs) @ drop (Suc m * ?w) cs"
  proof -
    have e: "Suc m * ?w = ?i + ?w" by simp
    show ?thesis unfolding e using le by (simp add: take_add add.commute [of "WIDTH G"])
  qed
  finally show ?case .
qed simp

lemma prepare_rehash_spec:
  assumes ok: "ctrl_ok G t" and bm: "bucket_mask t \<noteq> 0"
  defines "t1 \<equiv> prepare_rehash_in_place G t"
  shows "ctrl_ok G t1" and "tags_of t1 = map pending_tag (tags_of t)" and "bucket_mask t1 = bucket_mask t"
    and "slots t1 = slots t" and "items t1 = items t"
proof -
  let ?w = "WIDTH G" and ?n = "num_buckets t" and ?ts = "tags_of t"
  obtain k where k: "?n = 2 ^ k" using ok by (rule ctrl_okD)
  have len: "length ?ts = ?n" and c: "ctrl t = mirror ?w ?ts" using ok bm by (simp_all add: ctrl_ok_def)
  have pe: "pending_tag EMPTY = EMPTY" by (simp add: pending_tag_def)
  have ct: "ctrl t1 = mirror ?w (map pending_tag ?ts)"
  proof (cases "?n < ?w")
    case True
    have "(?n + ?w - 1) div ?w = 1"
    proof -
      have "?n + ?w - 1 = (?n - 1) + 1 * ?w" using num_buckets_pos [of t] by linarith
      then show ?thesis using True by (simp only: div_mult_self1 WIDTH_pos) simp
    qed
    then have cg: "convert_groups G (ctrl t) (map (\<lambda>k. k * ?w) [0..<(?n + ?w - 1) div ?w])
        = map pending_tag ?ts @ replicate (?w - ?n) EMPTY @ ?ts"
      using convert_groups_eq [of 1 "ctrl t"] True len by (simp add: c mirror_def pe)
    show ?thesis
      unfolding t1_def prepare_rehash_in_place_def Let_def cg
      using True len by (simp add: copy_tags_def mirror_def)
  next
    case False
    then have "?w dvd ?n" using k pow2_WIDTH [of G] by (metis le_imp_power_dvd not_less
          power_le_imp_le_exp one_less_numeral_iff semiring_norm(76))
    then obtain m where m: "?n = m * ?w" by (metis dvdE mult.commute)
    have "(?n + ?w - 1) div ?w = m"
    proof -
      have "?n + ?w - 1 = (?w - 1) + m * ?w" using m WIDTH_pos [of G] by linarith
      then show ?thesis using WIDTH_pos [of G] by (simp only: div_mult_self1) simp
    qed
    then have cg: "convert_groups G (ctrl t) (map (\<lambda>k. k * ?w) [0..<(?n + ?w - 1) div ?w])
        = map pending_tag ?ts @ take ?w ?ts"
      using convert_groups_eq [of m "ctrl t"] False len by (simp add: c mirror_def flip: m)
    show ?thesis
      unfolding t1_def prepare_rehash_in_place_def Let_def cg
      using False len by (simp add: copy_tags_def mirror_def take_map)
  qed
  show b: "bucket_mask t1 = bucket_mask t" and "slots t1 = slots t" and "items t1 = items t"
    by (simp_all add: t1_def prepare_rehash_in_place_def Let_def)
  have n: "num_buckets t1 = ?n" by (simp add: num_buckets_def b)
  show tg: "tags_of t1 = map pending_tag ?ts"
    using ct len n by (simp add: tags_of_def [of t1] take_mirror)
  show "ctrl_ok G t1"
    using ok bm ct tg n b len by (auto simp: ctrl_ok_def list_all_iff pending_tag_def)
qed

end

section \<open>The invariant of the loop\<close>

text \<open>A bucket is within strong reach of a hash when the groups before its own are full.\<close>

definition strong_reach :: "('g, 'm::len word) group_impl \<Rightarrow> 't raw_table \<Rightarrow> u64 \<Rightarrow> nat \<Rightarrow> bool" where
  "strong_reach G t hash i \<longleftrightarrow>
     (\<exists>J. WIDTH G * J \<le> bucket_mask t
        \<and> in_window (WIDTH G) (num_buckets t) (probe_pos (WIDTH G) (num_buckets t) hash J) i
        \<and> (\<forall>j<J. list_all is_full (group_bytes G t (probe_pos (WIDTH G) (num_buckets t) hash j))))"

definition live_buckets :: "'t raw_table \<Rightarrow> nat set" where
  "live_buckets t = {i. i < num_buckets t \<and> tags_of t ! i \<noteq> EMPTY}"

definition full_ok :: "('g, 'm::len word) group_impl \<Rightarrow> ('t \<Rightarrow> u64) \<Rightarrow> 't raw_table \<Rightarrow> bool" where
  "full_ok G hf t \<longleftrightarrow> (\<forall>i\<in>full_buckets t. \<exists>x. slots t ! i = Some x \<and> tags_of t ! i = tag_full (hf x)
     \<and> strong_reach G t (hf x) i)"

text \<open>The elements that wait to be rehashed are those of the deleted buckets.\<close>

definition pending_elements :: "'t raw_table \<Rightarrow> 't multiset" where
  "pending_elements t =
     image_mset (\<lambda>i. the (slots t ! i)) (mset_set {i. i < num_buckets t \<and> tags_of t ! i = DELETED})"

text \<open>While rehashing, the elements are those of the full and of the deleted buckets.\<close>

definition rehash_inv ::
  "('g, 'm::len word) group_impl \<Rightarrow> ('t \<Rightarrow> u64) \<Rightarrow> 't multiset \<Rightarrow> 't raw_table \<Rightarrow> bool" where
  "rehash_inv G hf E t \<longleftrightarrow> ctrl_ok G t \<and> bucket_mask t \<noteq> 0 \<and> length (slots t) = num_buckets t
     \<and> items t = card (live_buckets t) \<and> items t \<le> bucket_mask_to_capacity (bucket_mask t)
     \<and> (\<forall>i\<in>live_buckets t. slots t ! i \<noteq> None)
     \<and> image_mset (\<lambda>i. the (slots t ! i)) (mset_set (live_buckets t)) = E
     \<and> full_ok G hf t"

lemma finite_live [simp]: "finite (live_buckets t)"
  by (simp add: live_buckets_def)

lemma strong_reach_reach: "strong_reach G t h i \<Longrightarrow> reach G t h i"
  unfolding strong_reach_def reach_def list_all_iff by (metis tag_consts(1))

lemma insert_slot_strong: "insert_slot G t h i \<longleftrightarrow> i < num_buckets t \<and> \<not> is_full (tags_of t ! i) \<and> strong_reach G t h i"
  by (simp add: insert_slot_def strong_reach_def)

text \<open>A group of full buckets does not see a change of a bucket that is not full.\<close>

lemma full_group_kept:
  assumes ok: "ctrl_ok G t" "ctrl_ok G t'" and bm: "bucket_mask t' = bucket_mask t"
    and tg: "tags_of t' = (tags_of t)[i := c]" and nf: "\<not> is_full (tags_of t ! i)" and p: "p < num_buckets t"
    and full: "list_all is_full (group_bytes G t p)"
  shows "group_bytes G t' p = group_bytes G t p"
proof (rule nth_equalityI)
  have p': "p < num_buckets t'" using p bm by (simp add: num_buckets_def)
  show "length (group_bytes G t' p) = length (group_bytes G t p)"
    by (simp add: group_bytes_nth(1) [OF ok(1) p] group_bytes_nth(1) [OF ok(2) p'])
  fix b assume "b < length (group_bytes G t' p)"
  then have b: "b < WIDTH G" by (simp add: group_bytes_nth(1) [OF ok(2) p'])
  have fb: "is_full (group_bytes G t p ! b)" using full b group_bytes_nth(1) [OF ok(1) p] by (simp add: list_all_length)
  show "group_bytes G t' p ! b = group_bytes G t p ! b"
  proof (rule ccontr)
    assume ne: "\<not> ?thesis"
    have "(p + b) mod num_buckets t = i" by (rule group_bytes_update(1) [OF ok bm tg p b ne])
    moreover have "group_bytes G t p ! b \<noteq> EMPTY" using fb by auto
    ultimately show False using group_byte_tag [OF ok(1) p b] fb nf by metis
  qed
qed

lemma strong_reach_kept:
  assumes ok: "ctrl_ok G t" "ctrl_ok G t'" and bm: "bucket_mask t' = bucket_mask t"
    and tg: "tags_of t' = (tags_of t)[i := c]" and nf: "\<not> is_full (tags_of t ! i)"
    and "strong_reach G t h j"
  shows "strong_reach G t' h j"
proof -
  have n: "num_buckets t' = num_buckets t" by (simp add: num_buckets_def bm)
  have "probe_pos (WIDTH G) (num_buckets t) h j < num_buckets t" for j by (simp add: probe_pos_def)
  then show ?thesis
    using assms(6) full_group_kept [OF ok bm tg nf] unfolding strong_reach_def n bm by metis
qed

lemma full_ok_set:
  assumes fo: "full_ok G hf t" and ok: "ctrl_ok G t" "ctrl_ok G t'" and bm: "bucket_mask t' = bucket_mask t"
    and tg: "tags_of t' = (tags_of t)[i := c]" and i: "i < num_buckets t" and nf: "\<not> is_full (tags_of t ! i)"
    and sl: "\<And>j. j \<in> full_buckets t \<Longrightarrow> slots t' ! j = slots t ! j"
    and new: "is_full c \<Longrightarrow> \<exists>x. slots t' ! i = Some x \<and> c = tag_full (hf x) \<and> strong_reach G t (hf x) i"
  shows "full_ok G hf t'"
  unfolding full_ok_def
proof
  fix j assume j: "j \<in> full_buckets t'"
  have tl: "length (tags_of t) = num_buckets t" using ok(1) by (simp add: ctrl_ok_def)
  note fb = full_buckets_update [OF tl bm tg i]
  note keep = strong_reach_kept [OF ok bm tg nf]
  show "\<exists>x. slots t' ! j = Some x \<and> tags_of t' ! j = tag_full (hf x) \<and> strong_reach G t' (hf x) j"
  proof (cases "j = i")
    case True
    with j i tl have "is_full c" by (simp add: full_buckets_def tg)
    then show ?thesis using new keep True i tl by (auto simp: tg)
  next
    case False
    then have jf: "j \<in> full_buckets t" using j fb by (auto split: if_splits)
    then obtain x where "slots t ! j = Some x" "tags_of t ! j = tag_full (hf x)" "strong_reach G t (hf x) j"
      using fo by (auto simp: full_ok_def)
    then show ?thesis using sl [OF jf] keep False by (auto simp: tg)
  qed
qed

section \<open>Buckets of the same group\<close>

lemma probe_index_eq:
  assumes n: "n = 2 ^ k" "k \<le> 62" and s: "s < n" and pos: "pos < n"
  shows "usize_wrapping_sub pos s AND (n - 1) = (pos + n - s) mod n"
proof -
  have n64: "n dvd 2 ^ 64" unfolding n by (rule le_imp_power_dvd) (use n in simp)
  have le: "n \<le> 2 ^ 64" using n64 by (simp add: dvd_imp_le)
  have "usize_wrapping_sub pos s AND (n - 1) = (pos + (2 ^ 64 - s)) mod n"
    by (rule usize_wrapping_sub_mod) (use n pos s le in auto)
  also have "pos + (2 ^ 64 - s) = (pos + n - s) + (2 ^ 64 - n)" using s le by simp
  also have "\<dots> mod n = (pos + n - s) mod n"
    using n64 by (metis mod_add_right_eq add.right_neutral dvd_imp_mod_0 dvd_minus_self)
  finally show ?thesis .
qed

lemma window_offset:
  assumes n: "n = w * m" and w: "0 < w" and m: "0 < m" and s: "s < n" and i: "i < n"
  shows "in_window w n ((s + w * T) mod n) i \<longleftrightarrow> (i + n - s) mod n div w = T mod m"
proof -
  let ?p = "(s + w * T) mod n"
  define r where "r = (i + n - s) mod n"
  have npos: "0 < n" using n w m by simp
  have si: "(s + r) mod n = i"
  proof -
    have "(s + r) mod n = (s + (i + n - s)) mod n" unfolding r_def by (rule mod_add_right_eq)
    also have "s + (i + n - s) = i + n" using s by simp
    finally show ?thesis using i by simp
  qed
  have wt: "w * T mod n = w * (T mod m)" unfolding n by (rule mult_mod_right [symmetric])
  show ?thesis
  proof
    assume "in_window w n ?p i"
    then have b: "(i + n - ?p) mod n < w" by (simp add: in_window_def)
    define b where "b = (i + n - ?p) mod n"
    have pb: "(?p + b) mod n = i"
    proof -
      have "(?p + b) mod n = (?p + (i + n - ?p)) mod n" unfolding b_def by (rule mod_add_right_eq)
      also have "?p + (i + n - ?p) = i + n" using npos by (simp add: less_imp_le_nat add.commute le_add_diff_inverse2
          trans_le_add2)
      finally show ?thesis using i by simp
    qed
    have "(s + (w * (T mod m) + b)) mod n = (s + (w * T + b)) mod n"
      by (metis mod_add_left_eq mod_add_right_eq wt)
    also have "\<dots> = i" using pb by (metis add.assoc mod_add_left_eq)
    finally have "(s + (w * (T mod m) + b)) mod n = (s + r) mod n" using si by simp
    moreover have lt: "w * (T mod m) + b < n"
    proof -
      have "T mod m < m" using m by simp
      then have "w * (T mod m) + w \<le> w * m" by (metis Suc_leI mult_Suc_right mult_le_mono2 add.commute)
      then show ?thesis using b n by (simp add: b_def)
    qed
    ultimately have "w * (T mod m) + b = r"
      using mod_diff_cong_nat [of "s + (w * (T mod m) + b)" n "s + r" s] npos by (simp add: r_def)
    then show "(i + n - s) mod n div w = T mod m" using b unfolding r_def [symmetric] b_def [symmetric] by auto
  next
    assume "(i + n - s) mod n div w = T mod m"
    then have "r = w * (T mod m) + r mod w" unfolding r_def [symmetric] by (metis mult_div_mod_eq)
    then have "i = (s + (w * (T mod m) + r mod w)) mod n" using si by simp
    also have "\<dots> = (?p + r mod w) mod n" by (metis (no_types) add.assoc mod_add_left_eq mod_add_right_eq wt)
    finally show "in_window w n ?p i"
      using in_window_add [of ?p n "r mod w" w] npos w by simp
  qed
qed

context group_laws
begin

lemma same_group_strong_reach:
  assumes ok: "ctrl_ok G t" and i: "i < num_buckets t" "new_i < num_buckets t"
    and same: "is_in_same_group G t i new_i h" and sr: "strong_reach G t h new_i"
  shows "strong_reach G t h i"
proof -
  let ?n = "num_buckets t" and ?w = "WIDTH G"
  obtain k where k: "?n = 2 ^ k" "k \<le> 62" using ok by (rule ctrl_okD)
  from sr obtain J where J: "?w * J \<le> bucket_mask t" "in_window ?w ?n (probe_pos ?w ?n h J) new_i"
    "\<forall>j<J. list_all is_full (group_bytes G t (probe_pos ?w ?n h j))" by (auto simp: strong_reach_def)
  have "in_window ?w ?n (probe_pos ?w ?n h J) i"
  proof (cases "?n \<le> ?w")
    case True
    then show ?thesis by (simp add: in_window_small)
  next
    case False
    then have "log_width G \<le> k" using k(1) pow2_WIDTH [of G]
      by (metis nat_le_linear power_increasing_iff one_less_numeral_iff semiring_norm(76))
    then have "?w dvd ?n" using k(1) pow2_WIDTH [of G] by (simp add: le_imp_power_dvd)
    then obtain m where m: "?n = ?w * m" by blast
    then have mp: "0 < m" by (metis gr0I mult_0_right num_buckets_pos less_numeral_extra(3))
    define s where "s = h1 h mod ?n"
    have s: "s < ?n" by (simp add: s_def)
    have pp: "probe_pos ?w ?n h J = (s + ?w * triangle J) mod ?n"
      unfolding probe_pos_def s_def by (simp add: mod_add_left_eq)
    have st: "ps_pos (probe_seq_new (num_buckets t - 1) h) = s"
      using and_bucket_mask [of "h1 h" k] k by (simp add: probe_seq_new_def bucket_mask_eq s_def)
    have "(i + ?n - s) mod ?n div ?w = (new_i + ?n - s) mod ?n div ?w"
      using same unfolding is_in_same_group_def Let_def bucket_mask_eq st
        probe_index_eq [OF k s i(1)] probe_index_eq [OF k s i(2)] .
    then show ?thesis
      using J(2) window_offset [OF m WIDTH_pos mp s i(1)] window_offset [OF m WIDTH_pos mp s i(2)] by (simp add: pp)
  qed
  then show ?thesis using J unfolding strong_reach_def by blast
qed

end

end
