(* ===== verification/Swiss_Place.thy ===== *)
theory Swiss_Place
  imports Swiss_Rehash
begin

text \<open>
  Rehashing in place, second part: each of the three moves of the loop keeps its invariant, and a
  swap uses up one pending bucket, so the loop ends within its fuel.
\<close>

unbundle bit_operations_syntax

section \<open>The three moves of the loop\<close>

lemma swap_image_mset:
  assumes "finite A" and "i \<in> A" and "j \<in> A" and "i \<noteq> j" and "length xs = n" and "i < n" and "j < n"
  shows "image_mset (\<lambda>k. the (xs[i := xs ! j, j := xs ! i] ! k)) (mset_set A)
    = image_mset (\<lambda>k. the (xs ! k)) (mset_set A)"
proof -
  define R where "R = A - {i, j}"
  have A: "A = insert i (insert j R)" using assms by (auto simp: R_def)
  have R: "finite R" "i \<notin> R" "j \<notin> R" using assms by (auto simp: R_def)
  have "image_mset (\<lambda>k. the (xs[i := xs ! j, j := xs ! i] ! k)) (mset_set R)
      = image_mset (\<lambda>k. the (xs ! k)) (mset_set R)"
  proof (rule image_mset_cong)
    fix k assume "k \<in># mset_set R"
    then have "k \<noteq> i" "k \<noteq> j" using R by auto
    then show "the (xs[i := xs ! j, j := xs ! i] ! k) = the (xs ! k)" by simp
  qed
  then show ?thesis using assms R by (simp add: A)
qed

lemma move_image_mset:
  assumes "finite A" and "i \<in> A" and "j \<notin> A" and "length xs = n" and "j < n"
  shows "image_mset (\<lambda>k. the (xs[j := xs ! i] ! k)) (mset_set (insert j (A - {i})))
    = image_mset (\<lambda>k. the (xs ! k)) (mset_set A)"
proof -
  define R where "R = A - {i}"
  have A: "A = insert i R" "finite R" "i \<notin> R" "j \<notin> R" using assms by (auto simp: R_def)
  have "image_mset (\<lambda>k. the (xs[j := xs ! i] ! k)) (mset_set R) = image_mset (\<lambda>k. the (xs ! k)) (mset_set R)"
  proof (rule image_mset_cong)
    fix k assume "k \<in># mset_set R"
    then have "k \<noteq> j" using A by auto
    then show "the (xs[j := xs ! i] ! k) = the (xs ! k)" by simp
  qed
  then have "image_mset (\<lambda>k. the (xs[j := xs ! i] ! k)) (mset_set (insert j R))
      = image_mset (\<lambda>k. the (xs ! k)) (mset_set (insert i R))"
    using assms A by simp
  then show ?thesis unfolding R_def using assms(2) by (simp add: insert_absorb)
qed

lemma live_update:
  assumes "length (tags_of t) = num_buckets t" and "bucket_mask t' = bucket_mask t"
    and "tags_of t' = (tags_of t)[i := c]" and "i < num_buckets t"
  shows "live_buckets t' = (if c \<noteq> EMPTY then insert i (live_buckets t) else live_buckets t - {i})"
proof -
  have n: "num_buckets t' = num_buckets t" by (simp add: num_buckets_def assms(2))
  have nth: "tags_of t' ! j = (if j = i then c else tags_of t ! j)" if "j < num_buckets t" for j
    using that assms(1) by (simp add: assms(3) nth_list_update)
  have "x \<in> live_buckets t' \<longleftrightarrow> x < num_buckets t \<and> (if x = i then c else tags_of t ! x) \<noteq> EMPTY" for x
    using nth [of x] by (auto simp: live_buckets_def n)
  then show ?thesis using assms(4) by (auto simp: live_buckets_def split: if_splits)
qed

text \<open>No step of the loop marks a bucket as deleted.\<close>

definition no_new_deleted :: "'t raw_table \<Rightarrow> 't raw_table \<Rightarrow> bool" where
  "no_new_deleted t t' \<longleftrightarrow> bucket_mask t' = bucket_mask t
     \<and> (\<forall>j<num_buckets t. tags_of t ! j \<noteq> DELETED \<longrightarrow> tags_of t' ! j \<noteq> DELETED)"

lemma no_new_deleted_trans: "no_new_deleted t t' \<Longrightarrow> no_new_deleted t' t'' \<Longrightarrow> no_new_deleted t t''"
  by (auto simp: no_new_deleted_def num_buckets_def)

lemma no_new_deleted_refl: "no_new_deleted t t"
  by (simp add: no_new_deleted_def)

definition rehash_result ::
  "('g, 'm::len word) group_impl \<Rightarrow> ('t \<Rightarrow> u64) \<Rightarrow> ('t \<Rightarrow> u64 option) \<Rightarrow> 't multiset \<Rightarrow> 't raw_table \<Rightarrow> nat set
    \<Rightarrow> ((raw_error + unit) \<times> 't raw_table) option \<Rightarrow> bool" where
  "rehash_result G hf hasher E t done r \<longleftrightarrow> (\<exists>o' t'. r = Some (o', t') \<and> rehash_inv G hf E t' \<and> no_new_deleted t t'
     \<and> (case o' of Inl e \<Rightarrow> e = HasherPanic \<and> (\<exists>x\<in>#pending_elements t'. hasher x = None)
         | Inr _ \<Rightarrow> (\<forall>i\<in>done. tags_of t' ! i \<noteq> DELETED)))"

context group_laws
begin

lemma tag_full_neq [simp]: "tag_full h \<noteq> EMPTY" "tag_full h \<noteq> DELETED"
  using is_full_tag_full [of h] tag_consts by metis+

lemma rehash_stay:
  assumes inv: "rehash_inv G hf E t" and i: "i < num_buckets t" "tags_of t ! i = DELETED"
    and x: "slots t ! i = Some x" and sr: "strong_reach G t (hf x) i"
  defines "t' \<equiv> set_ctrl_hash G t i (hf x)"
  shows "rehash_inv G hf E t'" and "tags_of t' = (tags_of t)[i := tag_full (hf x)]"
    and "bucket_mask t' = bucket_mask t"
proof -
  from inv have ok: "ctrl_ok G t" and bm: "bucket_mask t \<noteq> 0" and fo: "full_ok G hf t"
    by (auto simp: rehash_inv_def)
  have tl: "length (tags_of t) = num_buckets t" using ok by (simp add: ctrl_ok_def)
  note s = set_ctrl_ok [OF ok bm i(1) valid_tag_simps(3), of "hf x", folded set_ctrl_hash_def, folded t'_def]
  show b: "bucket_mask t' = bucket_mask t" by (simp add: t'_def set_ctrl_hash_def)
  show "tags_of t' = (tags_of t)[i := tag_full (hf x)]" by (rule s(2))
  have sl: "slots t' = slots t" "items t' = items t" "num_buckets t' = num_buckets t"
    by (simp_all add: t'_def set_ctrl_hash_def)
  have "live_buckets t' = live_buckets t"
  proof -
    have "i \<in> live_buckets t" using i by (simp add: live_buckets_def)
    then show ?thesis using live_update [OF tl b s(2) i(1)] by (simp add: insert_absorb)
  qed
  moreover have "full_ok G hf t'"
  proof (rule full_ok_set [OF fo ok s(1) b s(2) i(1)])
    show "\<not> is_full (tags_of t ! i)" by (simp add: i(2))
    show "\<exists>y. slots t' ! i = Some y \<and> tag_full (hf x) = tag_full (hf y) \<and> strong_reach G t (hf y) i"
      using x sr sl(1) by (intro exI [of _ x]) simp
  qed (simp add: sl)
  ultimately show "rehash_inv G hf E t'" using inv s(1) b sl by (simp add: rehash_inv_def)
qed

lemma rehash_move:
  assumes inv: "rehash_inv G hf E t" and i: "i < num_buckets t" "tags_of t ! i = DELETED"
    and x: "slots t ! i = Some x" and j: "insert_slot G t (hf x) j" "tags_of t ! j = EMPTY"
  defines "t' \<equiv> copy_slot (set_ctrl G (set_ctrl_hash G t j (hf x)) i EMPTY) i j"
  shows "rehash_inv G hf E t'" and "tags_of t' = (tags_of t)[j := tag_full (hf x), i := EMPTY]"
    and "bucket_mask t' = bucket_mask t"
proof -
  from inv have ok: "ctrl_ok G t" and bm: "bucket_mask t \<noteq> 0" and fo: "full_ok G hf t"
    and len: "length (slots t) = num_buckets t" by (auto simp: rehash_inv_def)
  have tl: "length (tags_of t) = num_buckets t" using ok by (simp add: ctrl_ok_def)
  from j(1) have jl: "j < num_buckets t" and sr: "strong_reach G t (hf x) j" by (auto simp: insert_slot_strong)
  have ij: "i \<noteq> j" using i(2) j(2) by auto
  define t1 where "t1 = copy_slot (set_ctrl_hash G t j (hf x)) i j"
  have b1: "bucket_mask t1 = bucket_mask t" "num_buckets t1 = num_buckets t" "items t1 = items t"
    "slots t1 = (slots t)[j := slots t ! i]" "ctrl t1 = ctrl (set_ctrl_hash G t j (hf x))"
    by (simp_all add: t1_def copy_slot_def set_ctrl_hash_def num_buckets_def)
  have t': "t' = set_ctrl G t1 i EMPTY"
    by (simp add: t'_def t1_def copy_slot_def set_ctrl_def Let_def)
  note s = set_ctrl_ok [OF ok bm jl valid_tag_simps(3), of "hf x", folded set_ctrl_hash_def]
  have ok1: "ctrl_ok G t1" and tg1: "tags_of t1 = (tags_of t)[j := tag_full (hf x)]"
    using s same_ctrl(2) [of t1 "set_ctrl_hash G t j (hf x)"]
      same_ctrl(3) [of t1 "set_ctrl_hash G t j (hf x)" G] b1 by (simp_all add: set_ctrl_hash_def)
  have il1: "i < num_buckets t1" "bucket_mask t1 \<noteq> 0" using i b1 bm by auto
  note s' = set_ctrl_ok [OF ok1 il1(2,1) valid_tag_simps(1), folded t']
  show b: "bucket_mask t' = bucket_mask t" by (simp add: t' b1)
  show tg: "tags_of t' = (tags_of t)[j := tag_full (hf x), i := EMPTY]" using s'(2) tg1 by simp
  have sl: "slots t' = (slots t)[j := slots t ! i]" "items t' = items t" "num_buckets t' = num_buckets t"
    by (simp_all add: t' b1)
  have tl1: "length (tags_of t1) = num_buckets t1" using ok1 by (simp add: ctrl_ok_def)
  have i1: "tags_of t1 ! i = DELETED" using i(2) ij by (simp add: tg1)
  have lv: "live_buckets t' = insert j (live_buckets t - {i})"
    using live_update [OF tl b1(1) tg1 jl] live_update [OF tl1 _ s'(2) il1(1)] ij b b1 by auto
  have iL: "i \<in> live_buckets t" "j \<notin> live_buckets t" using i j(2) by (auto simp: live_buckets_def)
  have "full_ok G hf t1"
  proof (rule full_ok_set [OF fo ok ok1 b1(1) tg1 jl])
    show "\<not> is_full (tags_of t ! j)" by (simp add: j(2))
    show "slots t1 ! k = slots t ! k" if "k \<in> full_buckets t" for k
      using that j(2) by (cases "k = j") (simp_all add: b1 full_buckets_def)
    show "\<exists>y. slots t1 ! j = Some y \<and> tag_full (hf x) = tag_full (hf y) \<and> strong_reach G t (hf y) j"
      using x sr b1(4) jl len by (intro exI [of _ x]) simp
  qed
  then have "full_ok G hf t'"
    by (rule full_ok_set [OF _ ok1 s'(1) _ s'(2) il1(1)]) (use i1 b b1 t' in auto)
  moreover have "card (live_buckets t') = card (live_buckets t)"
    unfolding lv using iL card_Suc_Diff1 [OF finite_live iL(1)] by simp
  moreover have "image_mset (\<lambda>k. the (slots t' ! k)) (mset_set (live_buckets t')) = E"
    unfolding lv sl(1) using move_image_mset [OF finite_live iL len jl] inv by (simp add: rehash_inv_def)
  moreover have "\<forall>k\<in>live_buckets t'. slots t' ! k \<noteq> None"
    unfolding lv sl(1) using inv x jl len by (auto simp: rehash_inv_def nth_list_update)
  ultimately show "rehash_inv G hf E t'" using inv s'(1) b sl by (simp add: rehash_inv_def)
qed

lemma rehash_swap:
  assumes inv: "rehash_inv G hf E t" and i: "i < num_buckets t" "tags_of t ! i = DELETED"
    and x: "slots t ! i = Some x" and j: "insert_slot G t (hf x) j" "tags_of t ! j = DELETED" and ij: "i \<noteq> j"
  defines "t' \<equiv> swap_slots (set_ctrl_hash G t j (hf x)) i j"
  shows "rehash_inv G hf E t'" and "tags_of t' = (tags_of t)[j := tag_full (hf x)]"
    and "bucket_mask t' = bucket_mask t"
proof -
  from inv have ok: "ctrl_ok G t" and bm: "bucket_mask t \<noteq> 0" and fo: "full_ok G hf t"
    and len: "length (slots t) = num_buckets t" by (auto simp: rehash_inv_def)
  have tl: "length (tags_of t) = num_buckets t" using ok by (simp add: ctrl_ok_def)
  from j(1) have jl: "j < num_buckets t" and sr: "strong_reach G t (hf x) j" by (auto simp: insert_slot_strong)
  have sl: "slots t' = (slots t)[i := slots t ! j, j := slots t ! i]" "items t' = items t"
    "num_buckets t' = num_buckets t" "ctrl t' = ctrl (set_ctrl_hash G t j (hf x))"
    by (simp_all add: t'_def swap_slots_def set_ctrl_hash_def num_buckets_def)
  show b: "bucket_mask t' = bucket_mask t" by (simp add: t'_def swap_slots_def set_ctrl_hash_def)
  note s = set_ctrl_ok [OF ok bm jl valid_tag_simps(3), of "hf x", folded set_ctrl_hash_def]
  have ok': "ctrl_ok G t'" and tg: "tags_of t' = (tags_of t)[j := tag_full (hf x)]"
    using s same_ctrl(2) [of t' "set_ctrl_hash G t j (hf x)"]
      same_ctrl(3) [of t' "set_ctrl_hash G t j (hf x)" G] b sl by (simp_all add: set_ctrl_hash_def)
  then show "tags_of t' = (tags_of t)[j := tag_full (hf x)]" by simp
  have L: "i \<in> live_buckets t" "j \<in> live_buckets t" using i j(2) jl by (auto simp: live_buckets_def)
  have lv: "live_buckets t' = live_buckets t" using live_update [OF tl b tg jl] L by auto
  have "full_ok G hf t'"
  proof (rule full_ok_set [OF fo ok ok' b tg jl])
    show "\<not> is_full (tags_of t ! j)" by (simp add: j(2))
    show "slots t' ! k = slots t ! k" if "k \<in> full_buckets t" for k
      using that j(2) i(2) by (cases "k = j"; cases "k = i") (simp_all add: sl full_buckets_def)
    show "\<exists>y. slots t' ! j = Some y \<and> tag_full (hf x) = tag_full (hf y) \<and> strong_reach G t (hf y) j"
      using x sr sl(1) jl len by (intro exI [of _ x]) simp
  qed
  moreover have "image_mset (\<lambda>k. the (slots t' ! k)) (mset_set (live_buckets t')) = E"
    unfolding lv sl(1) using swap_image_mset [OF finite_live L ij len i(1) jl] inv by (simp add: rehash_inv_def)
  moreover have "\<forall>k\<in>live_buckets t'. slots t' ! k \<noteq> None"
  proof
    fix k assume k: "k \<in> live_buckets t'"
    have "slots t ! i \<noteq> None" "slots t ! j \<noteq> None" "slots t ! k \<noteq> None"
      using inv L k lv by (auto simp: rehash_inv_def)
    then show "slots t' ! k \<noteq> None" unfolding sl(1) using jl i(1) len by (auto simp: nth_list_update)
  qed
  ultimately show "rehash_inv G hf E t'" using inv ok' b sl lv by (simp add: rehash_inv_def)
qed

section \<open>The loops\<close>

lemma no_new_deleted_update:
  assumes "ctrl_ok G t" "bucket_mask t' = bucket_mask t" and "tags_of t' = (tags_of t)[j := c]" and "c \<noteq> DELETED"
  shows "no_new_deleted t t'"
  using assms unfolding no_new_deleted_def ctrl_ok_def by (metis nth_list_update_eq nth_list_update_neq)

lemma rehash_bucket_spec:
  assumes hs: "\<forall>x\<in>#E. hasher x = None \<or> hasher x = Some (hf x)"
  shows "rehash_inv G hf E t \<Longrightarrow> i < num_buckets t \<Longrightarrow> tags_of t ! i = DELETED \<Longrightarrow> count_deleted t < fuel \<Longrightarrow>
    rehash_result G hf hasher E t {i} (rehash_bucket fuel G hasher t i)"
proof (induction fuel arbitrary: t)
  case (Suc fuel)
  note inv = Suc.prems(1) and i = Suc.prems(2,3)
  from inv have ok: "ctrl_ok G t" by (simp add: rehash_inv_def)
  have tl: "length (tags_of t) = num_buckets t" using ok by (simp add: ctrl_ok_def)
  have iL: "i \<in> live_buckets t" using i by (simp add: live_buckets_def)
  then obtain x where x: "slots t ! i = Some x" using inv by (auto simp: rehash_inv_def)
  then have xE: "x \<in># E" using inv iL by (force simp: rehash_inv_def)
  show ?case
  proof (cases "hasher x")
    case None
    have "x \<in># pending_elements t" using i x by (force simp: pending_elements_def)
    with None show ?thesis
      using x inv by (auto simp: rehash_result_def read_slot_def no_new_deleted_refl)
  next
    case (Some h)
    then have h: "hasher x = Some (hf x)" using hs xE by auto
    obtain j where j: "find_insert_index G t (hf x) = Ok j" "insert_slot G t (hf x) j"
      using find_insert_index_spec [OF ok i(1), of "hf x"] i(2) by auto
    then have jl: "j < num_buckets t" and jn: "\<not> is_full (tags_of t ! j)" and sr: "strong_reach G t (hf x) j"
      by (auto simp: insert_slot_strong)
    have run: "rehash_bucket (Suc fuel) G hasher t i =
        (if is_in_same_group G t i j (hf x) then Some (Ok (), set_ctrl_hash G t i (hf x))
         else if tags_of t ! j = EMPTY
           then Some (Ok (), copy_slot (set_ctrl G (set_ctrl_hash G t j (hf x)) i EMPTY) i j)
         else if tags_of t ! j = DELETED
           then rehash_bucket fuel G hasher (swap_slots (set_ctrl_hash G t j (hf x)) i j) i
         else Some (Err DebugAssertion, set_ctrl_hash G t j (hf x)))"
      using x h j(1) jl by (simp add: read_slot_def replace_ctrl_hash_def ctrl_nth)
    consider (same) "is_in_same_group G t i j (hf x)"
      | (empty) "\<not> is_in_same_group G t i j (hf x)" "tags_of t ! j = EMPTY"
      | (deleted) "\<not> is_in_same_group G t i j (hf x)" "tags_of t ! j = DELETED"
      using valid_special_cases [OF valid_tags_nth [OF ok jl] jn] by blast
    then show ?thesis
    proof cases
      case same
      have "strong_reach G t (hf x) i" by (rule same_group_strong_reach [OF ok i(1) jl same sr])
      note st = rehash_stay [OF inv i x this]
      then show ?thesis
        using same run no_new_deleted_update [OF ok st(3,2)] i tl by (simp add: rehash_result_def)
    next
      case empty
      let ?t' = "copy_slot (set_ctrl G (set_ctrl_hash G t j (hf x)) i EMPTY) i j"
      note mv = rehash_move [OF inv i x j(2) empty(2)]
      have "no_new_deleted t ?t'"
        unfolding no_new_deleted_def mv(2,3)
      proof (intro conjI allI impI refl)
        fix m assume "m < num_buckets t" "tags_of t ! m \<noteq> DELETED"
        then show "(tags_of t)[j := tag_full (hf x), i := EMPTY] ! m \<noteq> DELETED"
          using tl by (cases "m = i"; cases "m = j") auto
      qed
      then show ?thesis using empty run mv i tl by (simp add: rehash_result_def)
    next
      case deleted
      let ?t' = "swap_slots (set_ctrl_hash G t j (hf x)) i j"
      have ij: "i \<noteq> j" using deleted(1) by (auto simp: is_in_same_group_def Let_def)
      note sw = rehash_swap [OF inv i x j(2) deleted(2) ij]
      have "count_deleted ?t' < fuel"
        using count_deleted_update [OF tl sw(2) jl] deleted(2) Suc.prems(4) by simp
      moreover have "i < num_buckets ?t'" "tags_of ?t' ! i = DELETED"
        using i ij sw(2,3) by (simp_all add: num_buckets_def)
      ultimately have "rehash_result G hf hasher E ?t' {i} (rehash_bucket fuel G hasher ?t' i)"
        using Suc.IH sw(1) by blast
      moreover have "no_new_deleted t ?t'" by (rule no_new_deleted_update [OF ok sw(3,2)]) simp
      ultimately show ?thesis
        using deleted run no_new_deleted_trans unfolding rehash_result_def by fastforce
    qed
  qed
qed simp

lemma count_deleted_le: "ctrl_ok G t \<Longrightarrow> count_deleted t \<le> num_buckets t"
  unfolding count_deleted_def by (metis ctrl_ok_def length_filter_le)

lemma rehash_loop_spec:
  assumes hs: "\<forall>x\<in>#E. hasher x = None \<or> hasher x = Some (hf x)"
  shows "rehash_inv G hf E t \<Longrightarrow> set is \<subseteq> {..<num_buckets t} \<Longrightarrow> fuel = num_buckets t + 1 \<Longrightarrow>
    rehash_result G hf hasher E t (set is) (rehash_loop fuel G hasher t is)"
proof (induction "is" arbitrary: t)
  case Nil
  then show ?case by (simp add: rehash_result_def no_new_deleted_refl)
next
  case (Cons i "is")
  note inv = Cons.prems(1)
  from inv have ok: "ctrl_ok G t" by (simp add: rehash_inv_def)
  have i: "i < num_buckets t" using Cons.prems(2) by simp
  show ?case
  proof (cases "tags_of t ! i = DELETED")
    case False
    then have "rehash_loop fuel G hasher t (i # is) = rehash_loop fuel G hasher t is"
      using i by (simp add: ctrl_nth)
    moreover have "rehash_result G hf hasher E t (set is) (rehash_loop fuel G hasher t is)"
      using Cons by simp
    ultimately show ?thesis
      using False i by (auto simp: rehash_result_def no_new_deleted_def split: sum.splits)
  next
    case True
    have "count_deleted t < fuel" using count_deleted_le [OF ok] Cons.prems(3) by simp
    from rehash_bucket_spec [OF hs inv i True this] obtain o' t' where
      r: "rehash_bucket fuel G hasher t i = Some (o', t')" "rehash_inv G hf E t'" "no_new_deleted t t'"
      "case o' of Inl e \<Rightarrow> e = HasherPanic \<and> (\<exists>x\<in>#pending_elements t'. hasher x = None) | Inr _ \<Rightarrow> (\<forall>i\<in>{i}. tags_of t' ! i \<noteq> DELETED)"
      unfolding rehash_result_def by blast
    have n: "num_buckets t' = num_buckets t" using r(3) by (simp add: no_new_deleted_def num_buckets_def)
    show ?thesis
    proof (cases o')
      case (Inl e)
      then show ?thesis using r True i by (auto simp: rehash_result_def ctrl_nth)
    next
      case (Inr u)
      then have run: "rehash_loop fuel G hasher t (i # is) = rehash_loop fuel G hasher t' is"
        using r(1) True i by (simp add: ctrl_nth)
      have "rehash_result G hf hasher E t' (set is) (rehash_loop fuel G hasher t' is)"
        by (rule Cons.IH) (use Cons.prems r(2) n in simp_all)
      then obtain o2 t2 where r2: "rehash_loop fuel G hasher t' is = Some (o2, t2)" "rehash_inv G hf E t2"
        "no_new_deleted t' t2"
        "case o2 of Inl e \<Rightarrow> e = HasherPanic \<and> (\<exists>x\<in>#pending_elements t2. hasher x = None)
          | Inr _ \<Rightarrow> (\<forall>i\<in>set is. tags_of t2 ! i \<noteq> DELETED)"
        by (auto simp: rehash_result_def)
      moreover have "tags_of t2 ! i \<noteq> DELETED"
        using r2(3) r(4) Inr i n by (auto simp: no_new_deleted_def)
      ultimately show ?thesis
        unfolding rehash_result_def run using no_new_deleted_trans [OF r(3) r2(3)]
        by (intro exI [of _ o2] exI [of _ t2]) (auto split: sum.splits)
    qed
  qed
qed

end

end
