(* ===== verification/Swiss_Reserve.thy ===== *)
theory Swiss_Reserve
  imports Swiss_Place
begin

text \<open>
  Rehashing in place, third part: entering and leaving the loop, and the guard that drops the pending
  elements after a panic of the hash function.
\<close>

unbundle bit_operations_syntax

section \<open>Entering and leaving the loop\<close>

lemma count_deleted_0: "count_deleted t = 0 \<longleftrightarrow> DELETED \<notin> set (tags_of t)"
  by (auto simp: count_deleted_def filter_empty_conv)

context group_laws
begin

lemma rehash_start:
  assumes inv: "raw_inv G hf t" and bm: "bucket_mask t \<noteq> 0"
  shows "rehash_inv G hf (elements t) (prepare_rehash_in_place G t)"
proof -
  let ?t1 = "prepare_rehash_in_place G t"
  from inv have ok: "ctrl_ok G t" by (simp add: raw_inv_def)
  note p = prepare_rehash_spec [OF ok bm]
  have tl: "length (tags_of t) = num_buckets t" using ok by (simp add: ctrl_ok_def)
  have n: "num_buckets ?t1 = num_buckets t" by (simp add: num_buckets_def p)
  have lv: "live_buckets ?t1 = full_buckets t"
    using tl by (auto simp: live_buckets_def full_buckets_def n p(2) pending_tag_def split: if_splits)
  have "full_buckets ?t1 = {}"
    using tl by (auto simp: full_buckets_def n p(2) pending_tag_def)
  then have "full_ok G hf ?t1" by (simp add: full_ok_def)
  moreover have "items t = card (full_buckets t)" using inv count_full_card [OF ok] by (simp add: raw_inv_def)
  moreover have "items t \<le> bucket_mask_to_capacity (bucket_mask t)" using inv by (auto simp: raw_inv_def)
  moreover have "\<forall>i\<in>full_buckets t. slots t ! i \<noteq> None" using inv by (auto simp: raw_inv_def)
  ultimately show ?thesis
    using p bm inv lv n by (simp add: rehash_inv_def elements_def raw_inv_def)
qed

lemma rehash_end:
  assumes inv: "rehash_inv G hf E t" and nd: "DELETED \<notin> set (tags_of t)"
  defines "t' \<equiv> t\<lparr>growth_left := bucket_mask_to_capacity (bucket_mask t) - items t\<rparr>"
  shows "raw_inv G hf t'" and "elements t' = E" and "count_deleted t' = 0" and "bucket_mask t' = bucket_mask t"
    and "growth_left t' + items t' = bucket_mask_to_capacity (bucket_mask t')"
proof -
  have s: "bucket_mask t' = bucket_mask t" "ctrl t' = ctrl t" "slots t' = slots t" "items t' = items t"
    "growth_left t' = bucket_mask_to_capacity (bucket_mask t) - items t" by (simp_all add: t'_def)
  from inv have ok: "ctrl_ok G t" by (simp add: rehash_inv_def)
  have tl: "length (tags_of t) = num_buckets t" using ok by (simp add: ctrl_ok_def)
  note sc = same_ctrl [OF s(1,2)]
  have ok': "ctrl_ok G t'" using ok sc(3) [of G] by simp
  have "live_buckets t = full_buckets t"
  proof (intro set_eqI iffI)
    fix i assume "i \<in> live_buckets t"
    then have i: "i < num_buckets t" "tags_of t ! i \<noteq> EMPTY" by (auto simp: live_buckets_def)
    moreover have "tags_of t ! i \<noteq> DELETED" using i tl nd by (metis nth_mem)
    ultimately show "i \<in> full_buckets t"
      using valid_special_cases [OF valid_tags_nth [OF ok i(1)]] by (auto simp: full_buckets_def)
  qed (auto simp: live_buckets_def full_buckets_def)
  moreover have fb: "full_buckets t' = full_buckets t"
    by (simp add: full_buckets_def sc num_buckets_def s)
  ultimately have lv: "live_buckets t = full_buckets t'" by simp
  show d0: "count_deleted t' = 0" using nd by (simp add: count_deleted_0 sc)
  show "elements t' = E" using inv lv s by (simp add: elements_def rehash_inv_def)
  show "growth_left t' + items t' = bucket_mask_to_capacity (bucket_mask t')" and "bucket_mask t' = bucket_mask t"
    using inv s by (auto simp: rehash_inv_def)
  moreover have "items t' = count_full t'"
    using inv lv count_full_card [OF ok'] s by (simp add: rehash_inv_def)
  moreover have "\<exists>x. slots t' ! i = Some x \<and> tags_of t' ! i = tag_full (hf x) \<and> reach G t' (hf x) i"
    if "i \<in> full_buckets t'" for i
  proof -
    have "i \<in> full_buckets t" using that fb by simp
    then obtain x where "slots t ! i = Some x" "tags_of t ! i = tag_full (hf x)" "strong_reach G t (hf x) i"
      using inv by (auto simp: rehash_inv_def full_ok_def)
    moreover from this have "reach G t (hf x) i" by (simp add: strong_reach_reach)
    then have "reach G t' (hf x) i" by (simp add: reach_def num_buckets_def group_bytes_def s)
    ultimately show ?thesis using s sc by auto
  qed
  ultimately show "raw_inv G hf t'"
    using ok' inv d0 s by (simp add: raw_inv_def rehash_inv_def num_buckets_def)
qed

section \<open>The guard\<close>

lemma rehash_inv_elements:
  assumes "rehash_inv G hf E t"
  shows "E = elements t + pending_elements t"
proof -
  from assms have ok: "ctrl_ok G t" by (simp add: rehash_inv_def)
  let ?D = "{i. i < num_buckets t \<and> tags_of t ! i = DELETED}"
  have "live_buckets t = full_buckets t \<union> ?D"
    using valid_special_cases [OF valid_tags_nth [OF ok]]
    by (auto simp: live_buckets_def full_buckets_def)
  moreover have "full_buckets t \<inter> ?D = {}" "finite (full_buckets t)" by (auto simp: full_buckets_def)
  ultimately have "mset_set (live_buckets t) = mset_set (full_buckets t) + mset_set ?D"
    by (simp add: mset_set_Union)
  moreover have "E = image_mset (\<lambda>i. the (slots t ! i)) (mset_set (live_buckets t))"
    using assms by (simp add: rehash_inv_def)
  ultimately show ?thesis by (simp add: elements_def pending_elements_def)
qed

lemma rehash_drop:
  assumes inv: "rehash_inv G hf E t" and i: "i < num_buckets t" "tags_of t ! i = DELETED"
  defines "t' \<equiv> (set_ctrl G t i EMPTY)\<lparr>items := items t - 1\<rparr>"
  shows "\<exists>E'. rehash_inv G hf E' t'" and "elements t' = elements t" and "no_new_deleted t t'"
    and "tags_of t' ! i \<noteq> DELETED"
proof -
  from inv have ok: "ctrl_ok G t" and bm: "bucket_mask t \<noteq> 0" and fo: "full_ok G hf t"
    by (auto simp: rehash_inv_def)
  have tl: "length (tags_of t) = num_buckets t" using ok by (simp add: ctrl_ok_def)
  let ?s = "set_ctrl G t i EMPTY"
  note s = set_ctrl_ok [OF ok bm i(1) valid_tag_simps(1)]
  have st: "bucket_mask t' = bucket_mask t" "slots t' = slots t" "items t' = items t - 1"
    "ctrl t' = ctrl ?s" "num_buckets t' = num_buckets t" by (simp_all add: t'_def num_buckets_def)
  have ok': "ctrl_ok G t'" and tg: "tags_of t' = (tags_of t)[i := EMPTY]"
    using s same_ctrl(2) [of t' ?s] same_ctrl(3) [of t' ?s G] st by simp_all
  have iL: "i \<in> live_buckets t" using i by (simp add: live_buckets_def)
  have lv: "live_buckets t' = live_buckets t - {i}" using live_update [OF tl st(1) tg i(1)] by simp
  have "full_ok G hf t'"
    by (rule full_ok_set [OF fo ok ok' st(1) tg i(1)]) (use i st in auto)
  moreover have "items t' = card (live_buckets t')"
    unfolding lv st using inv iL by (simp add: rehash_inv_def)
  ultimately have "rehash_inv G hf (image_mset (\<lambda>k. the (slots t ! k)) (mset_set (live_buckets t'))) t'"
    using inv ok' st lv by (auto simp: rehash_inv_def)
  then show "\<exists>E'. rehash_inv G hf E' t'" by blast
  have "full_buckets t' = full_buckets t"
    using full_buckets_update [OF tl st(1) tg i(1)] i(2) by (auto simp: full_buckets_def)
  then show "elements t' = elements t" by (simp add: elements_def st)
  show "no_new_deleted t t'" by (rule no_new_deleted_update [OF ok st(1) tg]) simp
  show "tags_of t' ! i \<noteq> DELETED" using tl i(1) by (simp add: tg)
qed

lemma rehash_guard_loop_spec:
  "rehash_inv G hf E t \<Longrightarrow> set is \<subseteq> {..<num_buckets t} \<Longrightarrow>
    (\<exists>E'. rehash_inv G hf E' (rehash_guard_loop G t is)) \<and> elements (rehash_guard_loop G t is) = elements t
      \<and> no_new_deleted t (rehash_guard_loop G t is)
      \<and> (\<forall>i\<in>set is. tags_of (rehash_guard_loop G t is) ! i \<noteq> DELETED)"
proof (induction "is" arbitrary: E t)
  case Nil
  then show ?case by (auto simp: no_new_deleted_refl)
next
  case (Cons i "is")
  have i: "i < num_buckets t" using Cons.prems(2) by simp
  show ?case
  proof (cases "tags_of t ! i = DELETED")
    case False
    then have run: "rehash_guard_loop G t (i # is) = rehash_guard_loop G t is" using i by (simp add: ctrl_nth)
    have "set is \<subseteq> {..<num_buckets t}" using Cons.prems(2) by simp
    note r = Cons.IH [OF Cons.prems(1) this]
    moreover have "tags_of (rehash_guard_loop G t is) ! i \<noteq> DELETED"
      using r False i by (simp add: no_new_deleted_def)
    ultimately show ?thesis unfolding run by auto
  next
    case True
    let ?t' = "(set_ctrl G t i EMPTY)\<lparr>items := items t - 1\<rparr>"
    have run: "rehash_guard_loop G t (i # is) = rehash_guard_loop G ?t' is" using i True by (simp add: ctrl_nth)
    note d = rehash_drop [OF Cons.prems(1) i True]
    obtain E1 where E1: "rehash_inv G hf E1 ?t'" using d(1) by blast
    have n: "num_buckets ?t' = num_buckets t" by (simp add: num_buckets_def)
    have "set is \<subseteq> {..<num_buckets ?t'}" using Cons.prems(2) n by simp
    note r = Cons.IH [OF E1 this]
    moreover have "tags_of (rehash_guard_loop G ?t' is) ! i \<noteq> DELETED"
      using r d(4) i n by (simp add: no_new_deleted_def)
    moreover have "no_new_deleted t (rehash_guard_loop G ?t' is)"
      using no_new_deleted_trans [OF d(3)] r by blast
    ultimately show ?thesis unfolding run using d(2) by auto
  qed
qed

lemma rehash_inv_no_deleted:
  assumes "rehash_inv G hf E t" and "\<forall>i<num_buckets t. tags_of t ! i \<noteq> DELETED"
  shows "DELETED \<notin> set (tags_of t)"
  using assms by (auto simp: rehash_inv_def ctrl_ok_def in_set_conv_nth)

lemma rehash_guard_spec:
  assumes inv: "rehash_inv G hf E t"
  shows "raw_inv G hf (rehash_guard G t)" and "elements (rehash_guard G t) = elements t"
    and "count_deleted (rehash_guard G t) = 0" and "bucket_mask (rehash_guard G t) = bucket_mask t"
proof -
  let ?t = "rehash_guard_loop G t [0..<num_buckets t]"
  have "set [0..<num_buckets t] \<subseteq> {..<num_buckets t}" by auto
  from rehash_guard_loop_spec [OF inv this] obtain E' where
    r: "rehash_inv G hf E' ?t" "elements ?t = elements t" "no_new_deleted t ?t"
      "\<forall>i\<in>set [0..<num_buckets t]. tags_of ?t ! i \<noteq> DELETED"
    by blast
  have b: "bucket_mask ?t = bucket_mask t" using r(3) by (simp add: no_new_deleted_def)
  then have "num_buckets ?t = num_buckets t" by (simp only: num_buckets_def)
  then have "\<forall>i<num_buckets ?t. tags_of ?t ! i \<noteq> DELETED" using r(4) by auto
  note nd = rehash_inv_no_deleted [OF r(1) this]
  note e = rehash_end [OF r(1) nd]
  have "{i. i < num_buckets ?t \<and> tags_of ?t ! i = DELETED} = {}" using \<open>\<forall>i<num_buckets ?t. _ i\<close> by auto
  then have "pending_elements ?t = {#}" unfolding pending_elements_def by (simp only: mset_set.empty image_mset_empty)
  then have "E' = elements t" using rehash_inv_elements [OF r(1)] r(2) by simp
  then show "raw_inv G hf (rehash_guard G t)" "elements (rehash_guard G t) = elements t"
    "count_deleted (rehash_guard G t) = 0" "bucket_mask (rehash_guard G t) = bucket_mask t"
    using e b by (simp_all add: rehash_guard_def Let_def)
qed

text \<open>
  Rehashing in place always ends, keeps the invariant and leaves no deleted bucket. It keeps all
  elements unless the hash function panics on a pending one; then the table ends with the elements
  rehashed so far, and exactly the pending ones are gone.
\<close>

lemma rehash_in_place_exact:
  assumes inv: "raw_inv G hf t" and bm: "bucket_mask t \<noteq> 0" and hs: "hasher_ok hf hasher t"
  shows "\<exists>r t'. rehash_in_place G hasher t = Some (r, t') \<and> raw_inv G hf t' \<and> count_deleted t' = 0
    \<and> bucket_mask t' = bucket_mask t
    \<and> (case r of
         Inl e \<Rightarrow> e = HasherPanic \<and>
           (\<exists>t2. rehash_loop (num_buckets t + 1) G hasher (prepare_rehash_in_place G t) [0..<num_buckets t]
               = Some (Err HasherPanic, t2)
             \<and> elements t' = elements t2 \<and> elements t = elements t2 + pending_elements t2
             \<and> (\<exists>x\<in>#pending_elements t2. hasher x = None))
       | Inr _ \<Rightarrow> elements t' = elements t)"
proof -
  let ?t1 = "prepare_rehash_in_place G t" and ?E = "elements t"
  let ?n = "num_buckets t"
  from inv have ok: "ctrl_ok G t" by (simp add: raw_inv_def)
  note ri = rehash_start [OF inv bm] and b1 = prepare_rehash_spec(3) [OF ok bm]
  have n1: "num_buckets ?t1 = ?n" by (simp add: num_buckets_def b1)
  have "set [0..<num_buckets ?t1] \<subseteq> {..<num_buckets ?t1}" by auto
  from rehash_loop_spec [OF hs [unfolded hasher_ok_def] ri this, of "?n + 1", unfolded n1]
  obtain r t2 where r: "rehash_loop (?n + 1) G hasher ?t1 [0..<?n] = Some (r, t2)"
    "rehash_inv G hf ?E t2" "no_new_deleted ?t1 t2"
    "case r of Inl e \<Rightarrow> e = HasherPanic \<and> (\<exists>x\<in>#pending_elements t2. hasher x = None)
      | Inr _ \<Rightarrow> (\<forall>i\<in>set [0..<?n]. tags_of t2 ! i \<noteq> DELETED)"
    unfolding rehash_result_def by auto
  have b2: "bucket_mask t2 = bucket_mask t" using r(3) b1 by (simp add: no_new_deleted_def)
  show ?thesis
  proof (cases r)
    case (Inl e)
    then have "rehash_in_place G hasher t = Some (Err e, rehash_guard G t2)"
      using r(1) n1 by (simp add: rehash_in_place_def Let_def)
    then show ?thesis
      using rehash_guard_spec [OF r(2)] rehash_inv_elements [OF r(2)] r(1,4) b2 Inl by auto
  next
    case (Inr u)
    have "num_buckets t2 = ?n" using b2 by (simp add: num_buckets_def)
    then have "\<forall>i<num_buckets t2. tags_of t2 ! i \<noteq> DELETED" using r(4) Inr by auto
    note e = rehash_end [OF r(2) rehash_inv_no_deleted [OF r(2) this]]
    have "rehash_in_place G hasher t = Some (Ok (), t2\<lparr>growth_left := bucket_mask_to_capacity (bucket_mask t2) - items t2\<rparr>)"
      using r(1) n1 Inr by (simp add: rehash_in_place_def Let_def)
    then show ?thesis
      by (intro exI [of _ "Ok ()"] exI [of _ "t2\<lparr>growth_left := bucket_mask_to_capacity (bucket_mask t2) - items t2\<rparr>"]
          conjI e(1,3)) (use e(2,4) b2 in simp_all)
  qed
qed

lemma rehash_in_place_spec:
  assumes "raw_inv G hf t" and "bucket_mask t \<noteq> 0" and "hasher_ok hf hasher t"
  shows "\<exists>r t'. rehash_in_place G hasher t = Some (r, t') \<and> raw_inv G hf t' \<and> count_deleted t' = 0
    \<and> bucket_mask t' = bucket_mask t
    \<and> (case r of Inl e \<Rightarrow> e = HasherPanic \<and> (\<exists>x\<in>#elements t. hasher x = None) \<and> elements t' \<subseteq># elements t
        | Inr _ \<Rightarrow> elements t' = elements t)"
proof -
  from rehash_in_place_exact [OF assms] obtain r t' where
    r: "rehash_in_place G hasher t = Some (r, t')" "raw_inv G hf t'" "count_deleted t' = 0"
    "bucket_mask t' = bucket_mask t"
    and c: "case r of
         Inl e \<Rightarrow> e = HasherPanic \<and>
           (\<exists>t2. rehash_loop (num_buckets t + 1) G hasher (prepare_rehash_in_place G t) [0..<num_buckets t]
               = Some (Err HasherPanic, t2)
             \<and> elements t' = elements t2 \<and> elements t = elements t2 + pending_elements t2
             \<and> (\<exists>x\<in>#pending_elements t2. hasher x = None))
       | Inr _ \<Rightarrow> elements t' = elements t" by blast
  from c have "case r of Inl e \<Rightarrow> e = HasherPanic \<and> (\<exists>x\<in>#elements t. hasher x = None) \<and> elements t' \<subseteq># elements t
      | Inr _ \<Rightarrow> elements t' = elements t"
    by (cases r) (auto simp: mset_subset_eq_add_left)
  with r show ?thesis by blast
qed

end

end
