(* ===== verification/Swiss_Insert.thy ===== *)
theory Swiss_Insert
  imports Swiss_Reserve
begin

text \<open>
  Reserving, shrinking and inserting: what they guarantee when they succeed and when they fail.
\<close>

unbundle bit_operations_syntax

section \<open>Reserving\<close>

text \<open>
  Why a call that may grow the table fails: the allocation, or a panic of the hash function; only
  the latter may lose elements.
\<close>

definition grow_failure ::
  "allocator \<Rightarrow> fallibility \<Rightarrow> ('t \<Rightarrow> u64 option) \<Rightarrow> 't raw_table \<Rightarrow> raw_error \<Rightarrow> 't raw_table \<Rightarrow> bool" where
  "grow_failure alloc f hasher t e t' \<longleftrightarrow>
     (if e = HasherPanic then (\<exists>x\<in>#elements t. hasher x = None) \<and> elements t' \<subseteq># elements t
      else alloc_failure alloc f e \<and> t' = t)"

lemma alloc_failure_not_panic [simp]: "\<not> alloc_failure alloc f HasherPanic"
  by (cases f) (auto simp: alloc_failure_def)

lemma capacity_0 [simp]: "bucket_mask_to_capacity 0 = 0"
  by (simp add: bucket_mask_to_capacity_def)

lemma raw_inv_items: "raw_inv G hf t \<Longrightarrow> items t = size (elements t)"
  by (auto simp: raw_inv_def size_elements)

lemma raw_inv_growth_mask: "raw_inv G hf t \<Longrightarrow> 0 < growth_left t \<Longrightarrow> bucket_mask t \<noteq> 0"
  unfolding raw_inv_def by (metis capacity_0 add_is_0 less_numeral_extra(3))

context raw_alloc
begin

lemma reserve_rehash_spec:
  assumes inv: "raw_inv G hf t" and hs: "hasher_ok hf hasher t" and add: "growth_left t < additional"
  shows "\<exists>r t'. reserve_rehash G alloc L t additional hasher f = Some (r, t') \<and> raw_inv G hf t'
    \<and> (case r of Inl e \<Rightarrow> grow_failure alloc f hasher t e t'
        | Inr _ \<Rightarrow> elements t' = elements t \<and> additional \<le> growth_left t')"
proof (cases "checked_usize (items t + additional)")
  case None
  have "alloc_failure alloc f (capacity_overflow f)" "capacity_overflow f \<noteq> HasherPanic"
    by (simp add: alloc_failure_def) (cases f; simp)
  then show ?thesis using None inv by (simp add: reserve_rehash_def grow_failure_def)
next
  case (Some new_items)
  let ?cap = "bucket_mask_to_capacity (bucket_mask t)"
  from Some have ni: "new_items = items t + additional" by (auto simp: checked_usize_def split: if_splits)
  show ?thesis
  proof (cases "new_items \<le> ?cap div 2")
    case True
    then have "bucket_mask t \<noteq> 0" using add ni by (intro notI) simp
    from rehash_in_place_spec [OF inv this hs] obtain r t' where
      r: "rehash_in_place G hasher t = Some (r, t')" "raw_inv G hf t'" "count_deleted t' = 0"
      "bucket_mask t' = bucket_mask t"
      "case r of Inl e \<Rightarrow> e = HasherPanic \<and> (\<exists>x\<in>#elements t. hasher x = None) \<and> elements t' \<subseteq># elements t
        | Inr _ \<Rightarrow> elements t' = elements t" by blast
    have run: "reserve_rehash G alloc L t additional hasher f = Some (r, t')"
      using Some True r(1) by (simp add: reserve_rehash_def)
    show ?thesis
    proof (cases r)
      case (Inl e)
      then show ?thesis using run r by (auto simp: grow_failure_def)
    next
      case (Inr u)
      then have el: "elements t' = elements t" using r(5) by simp
      have "items t' = items t" using raw_inv_items [OF r(2)] raw_inv_items [OF inv] el by simp
      then have "growth_left t' + items t = ?cap" using r(2-4) by (simp add: raw_inv_def)
      then show ?thesis using Inr run r(2) el ni True by auto
    qed
  next
    case False
    let ?c = "max new_items (?cap + 1)"
    have c: "items t \<le> ?c" "0 < ?c" using ni by auto
    obtain r t' where rt: "resize_inner G alloc L t ?c hasher f = (r, t')" by fastforce
    have run: "reserve_rehash G alloc L t additional hasher f = Some (r, t')"
      using Some False rt by (simp add: reserve_rehash_def)
    note sp = resize_inner_spec [OF inv hs c, of f, unfolded rt]
    show ?thesis
    proof (cases r)
      case (Inl e)
      then show ?thesis using run sp inv by (auto simp: grow_failure_def)
    next
      case (Inr u)
      then have r: "raw_inv G hf t'" "elements t' = elements t" "?c \<le> items t' + growth_left t'" using sp by auto
      have "items t' = items t" using raw_inv_items [OF r(1)] raw_inv_items [OF inv] r(2) by simp
      then show ?thesis using Inr run r ni by auto
    qed
  qed
qed

lemma raw_reserve_spec:
  assumes inv: "raw_inv G hf t" and hs: "hasher_ok hf hasher t"
  shows "\<exists>r t'. raw_reserve G alloc L t additional hasher = Some (r, t') \<and> raw_inv G hf t'
    \<and> (case r of Inl e \<Rightarrow> grow_failure alloc Infallible hasher t e t'
        | Inr _ \<Rightarrow> elements t' = elements t \<and> additional \<le> growth_left t')"
  using reserve_rehash_spec [OF inv hs, of additional Infallible] inv by (auto simp: raw_reserve_def)

lemma raw_try_reserve_spec:
  assumes inv: "raw_inv G hf t" and hs: "hasher_ok hf hasher t"
  shows "\<exists>r t'. raw_try_reserve G alloc L t additional hasher = Some (r, t') \<and> raw_inv G hf t'
    \<and> (case r of Inl e \<Rightarrow> grow_failure alloc Fallible hasher t e t'
        | Inr _ \<Rightarrow> elements t' = elements t \<and> additional \<le> growth_left t')"
  using reserve_rehash_spec [OF inv hs, of additional Fallible] inv by (auto simp: raw_try_reserve_def)

lemma raw_shrink_to_spec:
  assumes inv: "raw_inv G hf t" and hs: "hasher_ok hf hasher t"
  shows "case raw_shrink_to G alloc L t min_size hasher of
      (Inl e, t') \<Rightarrow> t' = t \<and> grow_failure alloc Infallible hasher t e t'
    | (Inr _, t') \<Rightarrow> raw_inv G hf t' \<and> elements t' = elements t"
proof -
  let ?m = "max (items t) min_size"
  have it: "items t = size (elements t)" using inv by (rule raw_inv_items)
  consider (zero) "?m = 0" | (keep) "?m \<noteq> 0" "raw_shrink_to G alloc L t min_size hasher = (Ok (), t)"
    | (fresh) "?m \<noteq> 0" "items t = 0" "raw_shrink_to G alloc L t min_size hasher =
        (case raw_with_capacity G alloc L ?m of Inl e \<Rightarrow> (Err e, t) | Inr n \<Rightarrow> (Ok (), n))"
    | (move) "?m \<noteq> 0" "raw_shrink_to G alloc L t min_size hasher = resize_inner G alloc L t ?m hasher Infallible"
    unfolding raw_shrink_to_def Let_def
    by (cases "?m = 0"; cases "capacity_to_buckets (WIDTH G) ?m L"; cases "items t = 0";
        cases "the (capacity_to_buckets (WIDTH G) ?m L) < num_buckets t") simp_all
  then show ?thesis
  proof cases
    case zero
    then show ?thesis
      using it raw_table_new_inv [of hf] raw_table_new_elements by (simp add: raw_shrink_to_def)
  next
    case keep
    then show ?thesis using inv by simp
  next
    case fresh
    have "0 < ?m" using fresh(1) by linarith
    note sp = fallible_with_capacity_spec [OF this, where ?'t = 'a, of Infallible]
    show ?thesis
    proof (cases "raw_with_capacity G alloc L ?m :: raw_error + 'a raw_table")
      case (Inl e)
      then show ?thesis using sp fresh(3) by (auto simp: raw_with_capacity_def grow_failure_def)
    next
      case (Inr n)
      then obtain k where k: "2 \<le> k" "k \<le> 62" "n = fill_empty G (uninitialized_table G (2 ^ k))"
        using sp by (auto simp: raw_with_capacity_def)
      have k1: "1 \<le> k" using k(1) by simp
      have "raw_inv G hf n" "elements n = {#}" unfolding k(3) by (rule raw_inv_fill [OF k(2) k1])+
      then show ?thesis using Inr fresh it by simp
    qed
  next
    case move
    have "items t \<le> ?m" "0 < ?m" using move(1) by linarith+
    from resize_inner_spec [OF inv hs this, of Infallible] show ?thesis
      by (auto simp: move(2) grow_failure_def split: prod.splits sum.splits)
  qed
qed

section \<open>Inserting\<close>

lemma raw_inv_insert_index:
  assumes inv: "raw_inv G hf t"
  shows "\<exists>i. find_insert_index G t hash = Ok i \<and> insert_slot G t hash i"
proof -
  from inv have ok: "ctrl_ok G t" by (simp add: raw_inv_def)
  obtain i where i: "i < num_buckets t" "tags_of t ! i = EMPTY" using inv by (rule raw_inv_empty_bucket)
  show ?thesis by (rule find_insert_index_spec [OF ok i(1)]) (simp add: i(2))
qed

lemma raw_inv_deleted_mask:
  assumes "raw_inv G hf t" and "i < num_buckets t" and "tags_of t ! i \<noteq> EMPTY"
  shows "bucket_mask t \<noteq> 0"
proof
  assume "bucket_mask t = 0"
  then have n: "num_buckets t = 1" by (simp add: num_buckets_def)
  obtain j where "j < num_buckets t" "tags_of t ! j = EMPTY" using assms(1) by (rule raw_inv_empty_bucket)
  then show False using n assms(2,3) by simp
qed

text \<open>Inserting adds the element, or fails as a call that grows the table does.\<close>

lemma raw_insert_spec:
  assumes inv: "raw_inv G hf t" and hs: "hasher_ok hf hasher t"
  shows "\<exists>r t'. raw_insert G alloc L t (hf x) x hasher = Some (r, t') \<and> raw_inv G hf t'
    \<and> (case r of Inl e \<Rightarrow> grow_failure alloc Infallible hasher t e t'
        | Inr i \<Rightarrow> elements t' = add_mset x (elements t))"
proof -
  from inv have ok: "ctrl_ok G t" by (simp add: raw_inv_def)
  obtain i where i: "find_insert_index G t (hf x) = Ok i" "insert_slot G t (hf x) i"
    using raw_inv_insert_index [OF inv] by blast
  then have il: "i < num_buckets t" and free: "\<not> is_full (tags_of t ! i)" by (auto simp: insert_slot_def)
  have e: "special_is_empty (ctrl t ! i) \<longleftrightarrow> tags_of t ! i = EMPTY"
    using special_is_empty_iff [OF valid_tags_nth [OF ok il] free] il by (simp add: ctrl_nth)
  show ?thesis
  proof (cases "growth_left t = 0 \<and> tags_of t ! i = EMPTY")
    case False
    have "bucket_mask t \<noteq> 0"
      using False raw_inv_growth_mask [OF inv] raw_inv_deleted_mask [OF inv il] by auto
    from insert_at_index_inv [OF inv i(2) this] False obtain t' where
      "insert_at_index G t (hf x) i x = Ok (i, t')" "raw_inv G hf t'" "elements t' = add_mset x (elements t)" by auto
    then show ?thesis using False i(1) e by (auto simp: raw_insert_def finish_insert_def Let_def)
  next
    case True
    obtain r t1 where r: "raw_reserve G alloc L t 1 hasher = Some (r, t1)" "raw_inv G hf t1"
      "case r of Inl e \<Rightarrow> grow_failure alloc Infallible hasher t e t1
        | Inr _ \<Rightarrow> elements t1 = elements t \<and> 1 \<le> growth_left t1"
      using raw_reserve_spec [OF inv hs] by blast
    show ?thesis
    proof (cases r)
      case (Inl err)
      then show ?thesis using r True i(1) e by (simp add: raw_insert_def)
    next
      case (Inr u)
      then have r1: "elements t1 = elements t" "0 < growth_left t1" using r(3) by auto
      obtain j where j: "find_insert_index G t1 (hf x) = Ok j" "insert_slot G t1 (hf x) j"
        using raw_inv_insert_index [OF r(2)] by blast
      from insert_at_index_inv [OF r(2) j(2) raw_inv_growth_mask [OF r(2) r1(2)] r1(2)] obtain t' where
        "insert_at_index G t1 (hf x) j x = Ok (j, t')" "raw_inv G hf t'" "elements t' = add_mset x (elements t)"
        using r1(1) by auto
      then show ?thesis using True i(1) e r(1) Inr j(1) by (auto simp: raw_insert_def finish_insert_def)
    qed
  qed
qed

lemma raw_find_or_find_insert_index_spec:
  assumes inv: "raw_inv G hf t" and hs: "hasher_ok hf hasher t"
  shows "\<exists>r t'. raw_find_or_find_insert_index G alloc L t hash eq hasher = Some (r, t') \<and> raw_inv G hf t'
    \<and> (case r of Inl e \<Rightarrow> grow_failure alloc Infallible hasher t e t'
        | Inr s \<Rightarrow> elements t' = elements t \<and> 0 < growth_left t'
            \<and> (case s of Found i \<Rightarrow> found_spec hf t' hash eq (Some i)
                | Vacant i \<Rightarrow> found_spec hf t' hash eq None \<and> insert_slot G t' hash i))"
proof -
  obtain r t1 where r: "raw_reserve G alloc L t 1 hasher = Some (r, t1)" "raw_inv G hf t1"
    "case r of Inl e \<Rightarrow> grow_failure alloc Infallible hasher t e t1
      | Inr _ \<Rightarrow> elements t1 = elements t \<and> 1 \<le> growth_left t1"
    using raw_reserve_spec [OF inv hs] by blast
  show ?thesis
  proof (cases r)
    case (Inl e)
    then show ?thesis using r by (simp add: raw_find_or_find_insert_index_def)
  next
    case (Inr u)
    obtain s where "find_or_find_insert_index_inner G t1 hash (slot_eq t1 eq) = Ok s"
      "case s of Found i \<Rightarrow> found_spec hf t1 hash eq (Some i)
        | Vacant i \<Rightarrow> found_spec hf t1 hash eq None \<and> insert_slot G t1 hash i"
      using find_or_find_insert_index_spec [OF r(2)] by blast
    then show ?thesis using r Inr by (simp add: raw_find_or_find_insert_index_def Suc_le_eq)
  qed
qed

end

end
