(* ===== verification/Swiss_Map.thy ===== *)
theory Swiss_Map
  imports Swiss_Insert
begin

text \<open>
  The hash map (\<open>map.rs\<close>, \<open>HashMap\<close>) over the raw table, and its refinement of a partial map: every
  operation acts on \<open>hm_view\<close> as its name says.
\<close>

unbundle bit_operations_syntax

section \<open>The map\<close>

text \<open>
  A key type is equivalent to itself by equality. The hash builder maps a key to its hash, \<open>None\<close>
  when the key's \<open>Hash\<close> implementation panics.
\<close>

record ('k, 'v) hash_map =
  hash_builder :: "'k \<Rightarrow> u64 option"
  hm_table :: "('k \<times> 'v) raw_table"

definition make_hash :: "('k \<Rightarrow> u64 option) \<Rightarrow> 'k \<Rightarrow> raw_error + u64" where
  "make_hash hb k = ok_or (hb k) HasherPanic"

definition make_hasher :: "('k \<Rightarrow> u64 option) \<Rightarrow> 'k \<times> 'v \<Rightarrow> u64 option" where
  "make_hasher hb = (\<lambda>val. hb (fst val))"

definition equivalent_key :: "'k \<Rightarrow> 'k \<times> 'v \<Rightarrow> bool" where
  "equivalent_key k = (\<lambda>x. k = fst x)"

definition hm_with_hasher :: "('g, 'm::len word) group_impl \<Rightarrow> ('k \<Rightarrow> u64 option) \<Rightarrow> ('k, 'v) hash_map" where
  "hm_with_hasher G hb = \<lparr>hash_builder = hb, hm_table = raw_table_new G\<rparr>"

definition hm_with_capacity ::
  "('g, 'm::len word) group_impl \<Rightarrow> allocator \<Rightarrow> table_layout \<Rightarrow> nat \<Rightarrow> ('k \<Rightarrow> u64 option)
    \<Rightarrow> raw_error + ('k, 'v) hash_map" where
  "hm_with_capacity G alloc L capacity hb =
     and_then (raw_with_capacity G alloc L capacity) (\<lambda>t. Ok \<lparr>hash_builder = hb, hm_table = t\<rparr>)"

definition hm_len :: "('k, 'v) hash_map \<Rightarrow> nat" where
  "hm_len m = raw_len (hm_table m)"

definition hm_is_empty :: "('k, 'v) hash_map \<Rightarrow> bool" where
  "hm_is_empty m \<longleftrightarrow> hm_len m = 0"

definition hm_capacity :: "('k, 'v) hash_map \<Rightarrow> nat" where
  "hm_capacity m = raw_capacity (hm_table m)"

definition hm_clear :: "('g, 'm::len word) group_impl \<Rightarrow> ('k, 'v) hash_map \<Rightarrow> ('k, 'v) hash_map" where
  "hm_clear G m = m\<lparr>hm_table := raw_clear G (hm_table m)\<rparr>"

subsection \<open>Looking up\<close>

definition hm_get_key_value ::
  "('g, 'm::len word) group_impl \<Rightarrow> ('k, 'v) hash_map \<Rightarrow> 'k \<Rightarrow> raw_error + ('k \<times> 'v) option" where
  "hm_get_key_value G m k =
     (if raw_is_empty (hm_table m) then Ok None
      else
        and_then (make_hash (hash_builder m) k) (\<lambda>hash.
        and_then (raw_get G (hm_table m) hash (equivalent_key k)) (\<lambda>r.
        case r of Some (key, v) \<Rightarrow> Ok (Some (key, v)) | None \<Rightarrow> Ok None)))"

definition hm_get ::
  "('g, 'm::len word) group_impl \<Rightarrow> ('k, 'v) hash_map \<Rightarrow> 'k \<Rightarrow> raw_error + 'v option" where
  "hm_get G m k =
     (if raw_is_empty (hm_table m) then Ok None
      else
        and_then (make_hash (hash_builder m) k) (\<lambda>hash.
        and_then (raw_get G (hm_table m) hash (equivalent_key k)) (\<lambda>r.
        case r of Some (_, v) \<Rightarrow> Ok (Some v) | None \<Rightarrow> Ok None)))"

definition hm_contains_key ::
  "('g, 'm::len word) group_impl \<Rightarrow> ('k, 'v) hash_map \<Rightarrow> 'k \<Rightarrow> raw_error + bool" where
  "hm_contains_key G m k =
     (if raw_is_empty (hm_table m) then Ok False
      else
        and_then (make_hash (hash_builder m) k) (\<lambda>hash.
        and_then (raw_get G (hm_table m) hash (equivalent_key k)) (\<lambda>r. Ok (r \<noteq> None))))"

subsection \<open>Inserting\<close>

text \<open>\<open>mem::replace\<close> of the second component of the element in a bucket.\<close>

definition replace_value ::
  "('k \<times> 'v) raw_table \<Rightarrow> nat \<Rightarrow> 'v \<Rightarrow> raw_error + 'v \<times> ('k \<times> 'v) raw_table" where
  "replace_value t i v =
     and_then (read_slot t i) (\<lambda>(key, old). Ok (old, write_slot t i (key, v)))"

definition hm_insert ::
  "('g, 'm::len word) group_impl \<Rightarrow> allocator \<Rightarrow> table_layout \<Rightarrow> ('k, 'v) hash_map \<Rightarrow> 'k \<Rightarrow> 'v
    \<Rightarrow> ((raw_error + 'v option) \<times> ('k, 'v) hash_map) option" where
  "hm_insert G alloc L m k v =
     (case make_hash (hash_builder m) k of
        Inl e \<Rightarrow> Some (Err e, m)
      | Inr hash \<Rightarrow>
          (case raw_find_or_find_insert_index G alloc L (hm_table m) hash (equivalent_key k)
                  (make_hasher (hash_builder m)) of
             None \<Rightarrow> None
           | Some (r, t) \<Rightarrow>
               Some (case and_then r (\<lambda>s. case s of
                         Found i \<Rightarrow> and_then (replace_value t i v) (\<lambda>(old, t'). Ok (Some old, t'))
                       | Vacant i \<Rightarrow> and_then (insert_at_index G t hash i (k, v)) (\<lambda>(_, t'). Ok (None, t'))) of
                       Inl e \<Rightarrow> (Err e, m\<lparr>hm_table := t\<rparr>)
                     | Inr (old, t') \<Rightarrow> (Ok old, m\<lparr>hm_table := t'\<rparr>))))"

definition hm_insert_unique_unchecked ::
  "('g, 'm::len word) group_impl \<Rightarrow> allocator \<Rightarrow> table_layout \<Rightarrow> ('k, 'v) hash_map \<Rightarrow> 'k \<Rightarrow> 'v
    \<Rightarrow> ((raw_error + nat) \<times> ('k, 'v) hash_map) option" where
  "hm_insert_unique_unchecked G alloc L m k v =
     (case make_hash (hash_builder m) k of
        Inl e \<Rightarrow> Some (Err e, m)
      | Inr hash \<Rightarrow>
          map_option (\<lambda>(r, t). (r, m\<lparr>hm_table := t\<rparr>))
            (raw_insert G alloc L (hm_table m) hash (k, v) (make_hasher (hash_builder m))))"

subsection \<open>Removing\<close>

definition hm_remove_entry ::
  "('g, 'm::len word) group_impl \<Rightarrow> ('k, 'v) hash_map \<Rightarrow> 'k
    \<Rightarrow> raw_error + ('k \<times> 'v) option \<times> ('k, 'v) hash_map" where
  "hm_remove_entry G m k =
     and_then (make_hash (hash_builder m) k) (\<lambda>hash.
     and_then (remove_entry G (hm_table m) hash (equivalent_key k)) (\<lambda>(r, t). Ok (r, m\<lparr>hm_table := t\<rparr>)))"

definition hm_remove ::
  "('g, 'm::len word) group_impl \<Rightarrow> ('k, 'v) hash_map \<Rightarrow> 'k
    \<Rightarrow> raw_error + 'v option \<times> ('k, 'v) hash_map" where
  "hm_remove G m k =
     and_then (hm_remove_entry G m k) (\<lambda>(r, m').
     case r of Some (_, v) \<Rightarrow> Ok (Some v, m') | None \<Rightarrow> Ok (None, m'))"

subsection \<open>Capacity\<close>

definition hm_reserve ::
  "('g, 'm::len word) group_impl \<Rightarrow> allocator \<Rightarrow> table_layout \<Rightarrow> ('k, 'v) hash_map \<Rightarrow> nat
    \<Rightarrow> ((raw_error + unit) \<times> ('k, 'v) hash_map) option" where
  "hm_reserve G alloc L m additional =
     map_option (\<lambda>(r, t). (r, m\<lparr>hm_table := t\<rparr>))
       (raw_reserve G alloc L (hm_table m) additional (make_hasher (hash_builder m)))"

definition hm_try_reserve ::
  "('g, 'm::len word) group_impl \<Rightarrow> allocator \<Rightarrow> table_layout \<Rightarrow> ('k, 'v) hash_map \<Rightarrow> nat
    \<Rightarrow> ((raw_error + unit) \<times> ('k, 'v) hash_map) option" where
  "hm_try_reserve G alloc L m additional =
     map_option (\<lambda>(r, t). (r, m\<lparr>hm_table := t\<rparr>))
       (raw_try_reserve G alloc L (hm_table m) additional (make_hasher (hash_builder m)))"

definition hm_shrink_to ::
  "('g, 'm::len word) group_impl \<Rightarrow> allocator \<Rightarrow> table_layout \<Rightarrow> ('k, 'v) hash_map \<Rightarrow> nat
    \<Rightarrow> (raw_error + unit) \<times> ('k, 'v) hash_map" where
  "hm_shrink_to G alloc L m min_capacity =
     (let (r, t) = raw_shrink_to G alloc L (hm_table m) min_capacity (make_hasher (hash_builder m))
      in (r, m\<lparr>hm_table := t\<rparr>))"

definition hm_shrink_to_fit ::
  "('g, 'm::len word) group_impl \<Rightarrow> allocator \<Rightarrow> table_layout \<Rightarrow> ('k, 'v) hash_map
    \<Rightarrow> (raw_error + unit) \<times> ('k, 'v) hash_map" where
  "hm_shrink_to_fit G alloc L m =
     (let (r, t) = raw_shrink_to G alloc L (hm_table m) 0 (make_hasher (hash_builder m))
      in (r, m\<lparr>hm_table := t\<rparr>))"

text \<open>\<open>iter.for_each(|(k, v)| { map.insert(k, v); })\<close>, and the two functions that use it.\<close>

fun insert_all ::
  "('g, 'm::len word) group_impl \<Rightarrow> allocator \<Rightarrow> table_layout \<Rightarrow> ('k, 'v) hash_map \<Rightarrow> ('k \<times> 'v) list
    \<Rightarrow> ((raw_error + unit) \<times> ('k, 'v) hash_map) option" where
  "insert_all G alloc L m [] = Some (Ok (), m)"
| "insert_all G alloc L m ((k, v) # kvs) =
     (case hm_insert G alloc L m k v of
        None \<Rightarrow> None
      | Some (Inl e, m') \<Rightarrow> Some (Err e, m')
      | Some (Inr _, m') \<Rightarrow> insert_all G alloc L m' kvs)"

text \<open>The iterator is a list together with the lower bound its \<open>size_hint\<close> reports.\<close>

definition hm_extend ::
  "('g, 'm::len word) group_impl \<Rightarrow> allocator \<Rightarrow> table_layout \<Rightarrow> ('k, 'v) hash_map \<Rightarrow> nat \<Rightarrow> ('k \<times> 'v) list
    \<Rightarrow> ((raw_error + unit) \<times> ('k, 'v) hash_map) option" where
  "hm_extend G alloc L m hint iter =
     (let reserve = (if hm_is_empty m then hint else (hint + 1) div 2) in
      case hm_reserve G alloc L m reserve of
        None \<Rightarrow> None
      | Some (Inl e, m') \<Rightarrow> Some (Err e, m')
      | Some (Inr _, m') \<Rightarrow> insert_all G alloc L m' iter)"

definition hm_from_iter ::
  "('g, 'm::len word) group_impl \<Rightarrow> allocator \<Rightarrow> table_layout \<Rightarrow> ('k \<Rightarrow> u64 option) \<Rightarrow> nat \<Rightarrow> ('k \<times> 'v) list
    \<Rightarrow> ((raw_error + unit) \<times> ('k, 'v) hash_map) option" where
  "hm_from_iter G alloc L hb hint iter =
     (case hm_with_capacity G alloc L hint hb of
        Inl e \<Rightarrow> Some (Err e, hm_with_hasher G hb)
      | Inr m \<Rightarrow> insert_all G alloc L m iter)"

section \<open>The abstract map\<close>

text \<open>The entries in bucket order, and the partial map they are.\<close>

definition bucket_list :: "'t raw_table \<Rightarrow> 't list" where
  "bucket_list t = map (\<lambda>i. the (slots t ! i)) (filter (\<lambda>i. is_full (tags_of t ! i)) [0..<num_buckets t])"

definition hm_view :: "('k, 'v) hash_map \<Rightarrow> 'k \<rightharpoonup> 'v" where
  "hm_view m = map_of (bucket_list (hm_table m))"

text \<open>
  The invariant of a map whose keys hash with \<open>h\<close> unless hashing panics: that of its table, and no
  key has two entries.
\<close>

definition hm_inv :: "('g, 'm::len word) group_impl \<Rightarrow> ('k \<Rightarrow> u64) \<Rightarrow> ('k, 'v) hash_map \<Rightarrow> bool" where
  "hm_inv G h m \<longleftrightarrow> raw_inv G (h \<circ> fst) (hm_table m) \<and> distinct (map fst (bucket_list (hm_table m)))
     \<and> (\<forall>k. hash_builder m k = None \<or> hash_builder m k = Some (h k))"

lemma elements_bucket_list: "elements t = mset (bucket_list t)"
  unfolding bucket_list_def by (rule elements_list)

lemma map_of_mset_eq:
  assumes "mset xs = mset ys" and "distinct (map fst xs)"
  shows "distinct (map fst ys)" and "map_of xs = map_of ys"
proof -
  have m: "mset (map fst xs) = mset (map fst ys)" using assms(1) by simp
  then show d: "distinct (map fst ys)" using assms(2) mset_eq_imp_distinct_iff by blast
  show "map_of xs = map_of ys"
    using map_of_inject_set [OF assms(2) d] mset_eq_setD [OF assms(1)] by simp
qed

lemma map_of_pair:
  assumes "distinct (map fst xs)"
  shows "(k, v) \<in> set xs \<longleftrightarrow> map_of xs k = Some v"
  using assms by (simp add: map_of_eq_Some_iff)

lemma hm_len_card: "hm_inv G h m \<Longrightarrow> hm_len m = card (dom (hm_view m))"
proof -
  assume inv: "hm_inv G h m"
  then have "raw_len (hm_table m) = length (bucket_list (hm_table m))"
    using raw_inv_items [of G "h \<circ> fst" "hm_table m"]
    by (simp add: hm_inv_def raw_len_def elements_bucket_list)
  also have "\<dots> = card (set (map fst (bucket_list (hm_table m))))"
    using inv distinct_card [of "map fst (bucket_list (hm_table m))"] by (simp add: hm_inv_def)
  finally show ?thesis by (simp add: hm_len_def hm_view_def dom_map_of_conv_image_fst)
qed

text \<open>How the view changes with the elements.\<close>

lemma hm_inv_same:
  assumes inv: "hm_inv G h m" and t: "raw_inv G (h \<circ> fst) t" and el: "elements t = elements (hm_table m)"
  shows "hm_inv G h (m\<lparr>hm_table := t\<rparr>)" and "hm_view (m\<lparr>hm_table := t\<rparr>) = hm_view m"
  using map_of_mset_eq [of "bucket_list (hm_table m)" "bucket_list t"] assms
  by (auto simp: hm_inv_def hm_view_def elements_bucket_list)

lemma hm_inv_add:
  assumes inv: "hm_inv G h m" and t: "raw_inv G (h \<circ> fst) t"
    and el: "elements t = add_mset (k, v) (elements (hm_table m))" and new: "hm_view m k = None"
  shows "hm_inv G h (m\<lparr>hm_table := t\<rparr>)" and "hm_view (m\<lparr>hm_table := t\<rparr>) = (hm_view m)(k \<mapsto> v)"
proof -
  have e: "mset ((k, v) # bucket_list (hm_table m)) = mset (bucket_list t)"
    using el by (simp add: elements_bucket_list)
  have "distinct (map fst ((k, v) # bucket_list (hm_table m)))"
    using inv new by (simp add: hm_inv_def hm_view_def map_of_eq_None_iff)
  from map_of_mset_eq [OF e this]
  show "hm_inv G h (m\<lparr>hm_table := t\<rparr>)" "hm_view (m\<lparr>hm_table := t\<rparr>) = (hm_view m)(k \<mapsto> v)"
    using inv t by (auto simp: hm_inv_def hm_view_def)
qed

lemma hm_inv_remove:
  assumes inv: "hm_inv G h m" and t: "raw_inv G (h \<circ> fst) t"
    and el: "elements (hm_table m) = add_mset (k, v) (elements t)"
  shows "hm_inv G h (m\<lparr>hm_table := t\<rparr>)" and "hm_view (m\<lparr>hm_table := t\<rparr>) = (hm_view m)(k := None)"
    and "hm_view m k = Some v"
proof -
  have e: "mset (bucket_list (hm_table m)) = mset ((k, v) # bucket_list t)"
    using el by (simp add: elements_bucket_list)
  have d: "distinct (map fst (bucket_list (hm_table m)))" using inv by (simp add: hm_inv_def)
  note s = map_of_mset_eq [OF e d]
  then have "map_of (bucket_list t) k = None" by (simp add: map_of_eq_None_iff)
  then have "map_of (bucket_list t) = (map_of (bucket_list (hm_table m)))(k := None)" using s(2) by auto
  then show "hm_view (m\<lparr>hm_table := t\<rparr>) = (hm_view m)(k := None)" by (simp add: hm_view_def)
  show "hm_inv G h (m\<lparr>hm_table := t\<rparr>)" using s(1) inv t by (simp add: hm_inv_def)
  show "hm_view m k = Some v" using s(2) by (simp add: hm_view_def)
qed

lemma hm_inv_replace:
  assumes inv: "hm_inv G h m" and t: "raw_inv G (h \<circ> fst) t"
    and el: "elements (hm_table m) = add_mset (k, old) R" "elements t = add_mset (k, v) R"
  shows "hm_inv G h (m\<lparr>hm_table := t\<rparr>)" and "hm_view (m\<lparr>hm_table := t\<rparr>) = (hm_view m)(k \<mapsto> v)"
    and "hm_view m k = Some old"
proof -
  obtain xs where xs: "mset xs = R" using ex_mset by blast
  have e: "mset (bucket_list (hm_table m)) = mset ((k, old) # xs)" "mset ((k, v) # xs) = mset (bucket_list t)"
    using el xs by (simp_all add: elements_bucket_list [symmetric])
  have d: "distinct (map fst (bucket_list (hm_table m)))" using inv by (simp add: hm_inv_def)
  note s = map_of_mset_eq [OF e(1) d]
  then have "distinct (map fst ((k, v) # xs))" by simp
  note s' = map_of_mset_eq [OF e(2) this]
  show "hm_inv G h (m\<lparr>hm_table := t\<rparr>)" using s'(1) inv t by (simp add: hm_inv_def)
  show "hm_view (m\<lparr>hm_table := t\<rparr>) = (hm_view m)(k \<mapsto> v)" "hm_view m k = Some old"
    using s(2) s'(2) [symmetric] by (simp_all add: hm_view_def)
qed

section \<open>The operations refine those of the abstract map\<close>

lemma hm_inv_hasher_ok: "hm_inv G h m \<Longrightarrow> hasher_ok (h \<circ> fst) (make_hasher (hash_builder m)) (hm_table m)"
  by (auto simp: hm_inv_def hasher_ok_def make_hasher_def)

lemma make_hash_cases:
  assumes "hm_inv G h m"
  obtains (panic) "make_hash (hash_builder m) k = Err HasherPanic" "hash_builder m k = None"
    | (hash) "make_hash (hash_builder m) k = Ok (h k)" "hash_builder m k = Some (h k)"
proof (cases "hash_builder m k")
  case None
  then show thesis by (intro panic) (simp_all add: make_hash_def)
next
  case (Some x)
  then have "x = h k" using assms unfolding hm_inv_def by (metis option.distinct(1) option.inject)
  then show thesis using Some by (intro hash) (simp_all add: make_hash_def)
qed

lemma found_key:
  assumes inv: "hm_inv G h m" and f: "found_spec (h \<circ> fst) (hm_table m) (h k) (equivalent_key k) r"
  shows "case r of None \<Rightarrow> hm_view m k = None
    | Some i \<Rightarrow> i \<in> full_buckets (hm_table m) \<and> (\<exists>v. slots (hm_table m) ! i = Some (k, v) \<and> hm_view m k = Some v)"
proof -
  have d: "distinct (map fst (bucket_list (hm_table m)))" using inv by (simp add: hm_inv_def)
  note p = map_of_pair [OF d, of k, folded hm_view_def]
  show ?thesis
  proof (cases r)
    case None
    have "(k, v) \<notin># elements (hm_table m)" for v
      using f None by (auto simp: found_spec_def equivalent_key_def)
    then show ?thesis using None p by (cases "hm_view m k") (auto simp: elements_bucket_list)
  next
    case (Some i)
    then obtain v where i: "i \<in> full_buckets (hm_table m)" "slots (hm_table m) ! i = Some (k, v)"
      using f by (auto simp: found_spec_def equivalent_key_def)
    then have "(k, v) \<in># elements (hm_table m)" by (force simp: set_mset_elements)
    then show ?thesis using Some i p by (simp add: elements_bucket_list)
  qed
qed

lemma empty_view: "hm_inv G h m \<Longrightarrow> raw_is_empty (hm_table m) \<Longrightarrow> hm_view m = Map.empty"
  using raw_inv_items [of G "h \<circ> fst" "hm_table m"]
  by (auto simp: hm_inv_def raw_is_empty_def raw_len_def hm_view_def elements_bucket_list)

context group_laws
begin

lemma raw_get_key:
  assumes inv: "hm_inv G h m"
  shows "raw_get G (hm_table m) (h k) (equivalent_key k) = Ok (map_option (Pair k) (hm_view m k))"
proof -
  have "raw_inv G (h \<circ> fst) (hm_table m)" using inv by (simp add: hm_inv_def)
  from raw_find_spec [OF this] obtain r where
    r: "raw_find G (hm_table m) (h k) (equivalent_key k) = Ok r"
      "found_spec (h \<circ> fst) (hm_table m) (h k) (equivalent_key k) r" by blast
  from found_key [OF inv r(2)] r(1) show ?thesis
    by (cases r) (auto simp: raw_get_def read_slot_def)
qed

lemma hm_get_view:
  assumes inv: "hm_inv G h m" and k: "hash_builder m k = Some (h k)"
  shows "hm_get G m k = Ok (hm_view m k)"
    and "hm_get_key_value G m k = Ok (map_option (Pair k) (hm_view m k))"
    and "hm_contains_key G m k = Ok (k \<in> dom (hm_view m))"
  using k empty_view [OF inv] raw_get_key [OF inv, of k]
  by (auto simp: hm_get_def hm_get_key_value_def hm_contains_key_def make_hash_def split: option.split)

lemma hm_remove_view:
  assumes inv: "hm_inv G h m" and k: "hash_builder m k = Some (h k)"
  shows "\<exists>m'. hm_remove_entry G m k = Ok (map_option (Pair k) (hm_view m k), m')
    \<and> hm_remove G m k = Ok (hm_view m k, m') \<and> hm_inv G h m' \<and> hm_view m' = (hm_view m)(k := None)
    \<and> hash_builder m' = hash_builder m"
proof -
  let ?t = "hm_table m"
  have ri: "raw_inv G (h \<circ> fst) ?t" using inv by (simp add: hm_inv_def)
  obtain r t' where r: "remove_entry G ?t (h k) (equivalent_key k) = Ok (r, t')" "raw_inv G (h \<circ> fst) t'"
    "case r of Some x \<Rightarrow> equivalent_key k x \<and> elements ?t = add_mset x (elements t')
      | None \<Rightarrow> t' = ?t \<and> (\<forall>x\<in>#elements ?t. equivalent_key k x \<longrightarrow> (h \<circ> fst) x \<noteq> h k)"
    using remove_entry_spec [OF ri, of "h k" "equivalent_key k"] by blast
  have run: "hm_remove_entry G m k = Ok (r, m\<lparr>hm_table := t'\<rparr>)"
    using k r(1) by (simp add: hm_remove_entry_def make_hash_def)
  show ?thesis
  proof (cases r)
    case None
    then have "found_spec (h \<circ> fst) ?t (h k) (equivalent_key k) None" using r(3) by (simp add: found_spec_def)
    from found_key [OF inv this] have "hm_view m k = None" by simp
    then show ?thesis using run None r(3) inv by (simp add: hm_remove_def fun_upd_idem)
  next
    case (Some x)
    then obtain v where x: "x = (k, v)" using r(3) by (cases x) (auto simp: equivalent_key_def)
    then have "elements ?t = add_mset (k, v) (elements t')" using Some r(3) by simp
    from hm_inv_remove [OF inv r(2) this] show ?thesis using run Some x by (simp add: hm_remove_def)
  qed
qed

end

text \<open>
  How a call that grows the map may fail: the allocation, which leaves it as it was, or a panic of
  the hash function, which may lose entries.
\<close>

definition hm_failure :: "allocator \<Rightarrow> fallibility \<Rightarrow> ('k, 'v) hash_map \<Rightarrow> raw_error \<Rightarrow> ('k, 'v) hash_map \<Rightarrow> bool" where
  "hm_failure alloc f m e m' \<longleftrightarrow>
     (if e = HasherPanic then hm_view m' \<subseteq>\<^sub>m hm_view m \<and> (\<exists>k. hash_builder m k = None)
      else alloc_failure alloc f e \<and> m' = m)"

lemma hm_inv_subset:
  assumes inv: "hm_inv G h m" and t: "raw_inv G (h \<circ> fst) t" and el: "elements t \<subseteq># elements (hm_table m)"
  shows "hm_inv G h (m\<lparr>hm_table := t\<rparr>)" and "hm_view (m\<lparr>hm_table := t\<rparr>) \<subseteq>\<^sub>m hm_view m"
proof -
  obtain ys where "mset ys = elements (hm_table m) - elements t" using ex_mset by blast
  then have e: "mset (bucket_list (hm_table m)) = mset (bucket_list t @ ys)"
    using el by (simp add: elements_bucket_list [symmetric])
  have d: "distinct (map fst (bucket_list (hm_table m)))" using inv by (simp add: hm_inv_def)
  note s = map_of_mset_eq [OF e d]
  then show "hm_inv G h (m\<lparr>hm_table := t\<rparr>)" using inv t by (simp add: hm_inv_def)
  have "map_of (bucket_list t) \<subseteq>\<^sub>m map_of (bucket_list t @ ys)"
    unfolding map_le_def using s(1)
    by (auto simp: map_of_eq_None_iff dom_map_of_conv_image_fst map_add_def split: option.split)
  then show "hm_view (m\<lparr>hm_table := t\<rparr>) \<subseteq>\<^sub>m hm_view m" using s(2) by (simp add: hm_view_def)
qed

lemma grow_failure_hm:
  assumes inv: "hm_inv G h m" and t: "raw_inv G (h \<circ> fst) t"
    and f: "grow_failure alloc f (make_hasher (hash_builder m)) (hm_table m) e t"
  shows "hm_inv G h (m\<lparr>hm_table := t\<rparr>)" and "hm_failure alloc f m e (m\<lparr>hm_table := t\<rparr>)"
  using f hm_inv_subset [OF inv t] inv
  by (auto simp: grow_failure_def hm_failure_def make_hasher_def split: if_splits)

context raw_alloc
begin

lemma hm_insert_view:
  assumes inv: "hm_inv G h m"
  shows "\<exists>r m'. hm_insert G alloc L m k v = Some (r, m') \<and> hm_inv G h m' \<and> hash_builder m' = hash_builder m
    \<and> (case r of Inl e \<Rightarrow> hm_failure alloc Infallible m e m'
        | Inr old \<Rightarrow> old = hm_view m k \<and> hm_view m' = (hm_view m)(k \<mapsto> v))"
  using inv
proof (cases rule: make_hash_cases [where k = k])
  case panic
  then show ?thesis using inv by (auto simp: hm_insert_def hm_failure_def)
next
  case hash
  have ri: "raw_inv G (h \<circ> fst) (hm_table m)" using inv by (simp add: hm_inv_def)
  let ?hs = "make_hasher (hash_builder m)"
  obtain r t where r: "raw_find_or_find_insert_index G alloc L (hm_table m) (h k) (equivalent_key k) ?hs = Some (r, t)"
    "raw_inv G (h \<circ> fst) t"
    "case r of Inl e \<Rightarrow> grow_failure alloc Infallible ?hs (hm_table m) e t
      | Inr s \<Rightarrow> elements t = elements (hm_table m) \<and> 0 < growth_left t
          \<and> (case s of Found i \<Rightarrow> found_spec (h \<circ> fst) t (h k) (equivalent_key k) (Some i)
              | Vacant i \<Rightarrow> found_spec (h \<circ> fst) t (h k) (equivalent_key k) None \<and> insert_slot G t (h k) i)"
    using raw_find_or_find_insert_index_spec [OF ri hm_inv_hasher_ok [OF inv]] by blast
  let ?m = "m\<lparr>hm_table := t\<rparr>"
  show ?thesis
  proof (cases r)
    case (Inl e)
    then show ?thesis
      using hash r(1,3) grow_failure_hm [OF inv r(2)] by (simp add: hm_insert_def)
  next
    case (Inr s)
    then have el: "elements t = elements (hm_table m)" and g: "0 < growth_left t" using r(3) by auto
    note same = hm_inv_same [OF inv r(2) el]
    show ?thesis
    proof (cases s)
      case (Found i)
      from found_key [OF same(1), of k "Some i"] r(3) Inr Found obtain old where
        i: "i \<in> full_buckets t" "slots t ! i = Some (k, old)" by auto
      obtain R where R: "raw_inv G (h \<circ> fst) (write_slot t i (k, v))" "elements t = add_mset (k, old) R"
        "elements (write_slot t i (k, v)) = add_mset (k, v) R"
        using write_slot_full [OF r(2) i, of "(k, v)"] by auto
      from hm_inv_replace [OF same(1) _ _ R(3)] R(1,2) same(2)
      show ?thesis
        using hash r(1) Inr Found i(2) by (simp add: hm_insert_def replace_value_def read_slot_def)
    next
      case (Vacant i)
      then have sp: "found_spec (h \<circ> fst) t (h k) (equivalent_key k) None" "insert_slot G t ((h \<circ> fst) (k, v)) i"
        using r(3) Inr by auto
      have hk: "(h \<circ> fst) (k, v) = h k" by simp
      from found_key [OF same(1), of k None] sp(1) have new: "hm_view ?m k = None" by simp
      obtain t' where t': "insert_at_index G t (h k) i (k, v) = Ok (i, t')" "raw_inv G (h \<circ> fst) t'"
        "elements t' = add_mset (k, v) (elements t)"
        using insert_at_index_inv [OF r(2) sp(2) raw_inv_growth_mask [OF r(2) g] g, unfolded hk] by blast
      from hm_inv_add [OF same(1) t'(2) _ new] t'(3) same(2) new
      show ?thesis using hash r(1) Inr Vacant t'(1) by (simp add: hm_insert_def)
    qed
  qed
qed

lemma hm_insert_unique_view:
  assumes inv: "hm_inv G h m" and new: "hm_view m k = None"
  shows "\<exists>r m'. hm_insert_unique_unchecked G alloc L m k v = Some (r, m') \<and> hm_inv G h m'
    \<and> (case r of Inl e \<Rightarrow> hm_failure alloc Infallible m e m' | Inr _ \<Rightarrow> hm_view m' = (hm_view m)(k \<mapsto> v))"
  using inv
proof (cases rule: make_hash_cases [where k = k])
  case panic
  then show ?thesis using inv by (auto simp: hm_insert_unique_unchecked_def hm_failure_def)
next
  case hash
  have ri: "raw_inv G (h \<circ> fst) (hm_table m)" using inv by (simp add: hm_inv_def)
  obtain r t where r: "raw_insert G alloc L (hm_table m) (h k) (k, v) (make_hasher (hash_builder m)) = Some (r, t)"
    "raw_inv G (h \<circ> fst) t"
    "case r of Inl e \<Rightarrow> grow_failure alloc Infallible (make_hasher (hash_builder m)) (hm_table m) e t
      | Inr i \<Rightarrow> elements t = add_mset (k, v) (elements (hm_table m))"
    using raw_insert_spec [OF ri hm_inv_hasher_ok [OF inv], of "(k, v)"] by auto
  then show ?thesis
    using hash grow_failure_hm [OF inv r(2)] hm_inv_add [OF inv r(2) _ new]
    by (cases r) (auto simp: hm_insert_unique_unchecked_def)
qed

lemma hm_reserve_view:
  assumes inv: "hm_inv G h m"
  shows "\<exists>r m'. hm_reserve G alloc L m additional = Some (r, m') \<and> hm_inv G h m' \<and> hash_builder m' = hash_builder m
    \<and> (case r of Inl e \<Rightarrow> hm_failure alloc Infallible m e m'
        | Inr _ \<Rightarrow> hm_view m' = hm_view m \<and> hm_len m' + additional \<le> hm_capacity m')"
    and "\<exists>r m'. hm_try_reserve G alloc L m additional = Some (r, m') \<and> hm_inv G h m' \<and> hash_builder m' = hash_builder m
    \<and> (case r of Inl e \<Rightarrow> hm_failure alloc Fallible m e m'
        | Inr _ \<Rightarrow> hm_view m' = hm_view m \<and> hm_len m' + additional \<le> hm_capacity m')"
proof -
  have ri: "raw_inv G (h \<circ> fst) (hm_table m)" using inv by (simp add: hm_inv_def)
  let ?hs = "make_hasher (hash_builder m)"
  have ok: "hm_inv G h (m\<lparr>hm_table := t\<rparr>) \<and>
      (case r of Inl e \<Rightarrow> hm_failure alloc f m e (m\<lparr>hm_table := t\<rparr>)
        | Inr _ \<Rightarrow> hm_view (m\<lparr>hm_table := t\<rparr>) = hm_view m
            \<and> hm_len (m\<lparr>hm_table := t\<rparr>) + additional \<le> hm_capacity (m\<lparr>hm_table := t\<rparr>))"
    if "raw_inv G (h \<circ> fst) t" and "case r of Inl e \<Rightarrow> grow_failure alloc f ?hs (hm_table m) e t
      | Inr _ \<Rightarrow> elements t = elements (hm_table m) \<and> additional \<le> growth_left t" for r :: "raw_error + unit" and t f
    using that grow_failure_hm [OF inv that(1)] hm_inv_same [OF inv that(1)]
    by (cases r) (auto simp: hm_len_def hm_capacity_def raw_len_def raw_capacity_def)
  show "\<exists>r m'. hm_reserve G alloc L m additional = Some (r, m') \<and> hm_inv G h m' \<and> hash_builder m' = hash_builder m
    \<and> (case r of Inl e \<Rightarrow> hm_failure alloc Infallible m e m'
        | Inr _ \<Rightarrow> hm_view m' = hm_view m \<and> hm_len m' + additional \<le> hm_capacity m')"
    using raw_reserve_spec [OF ri hm_inv_hasher_ok [OF inv], of additional] ok
    by (fastforce simp: hm_reserve_def)
  show "\<exists>r m'. hm_try_reserve G alloc L m additional = Some (r, m') \<and> hm_inv G h m' \<and> hash_builder m' = hash_builder m
    \<and> (case r of Inl e \<Rightarrow> hm_failure alloc Fallible m e m'
        | Inr _ \<Rightarrow> hm_view m' = hm_view m \<and> hm_len m' + additional \<le> hm_capacity m')"
    using raw_try_reserve_spec [OF ri hm_inv_hasher_ok [OF inv], of additional] ok
    by (fastforce simp: hm_try_reserve_def)
qed

lemma hm_shrink_to_view:
  assumes inv: "hm_inv G h m"
  shows "case hm_shrink_to G alloc L m c of
      (Inl e, m') \<Rightarrow> m' = m \<and> hm_failure alloc Infallible m e m'
    | (Inr _, m') \<Rightarrow> hm_inv G h m' \<and> hm_view m' = hm_view m"
proof -
  have ri: "raw_inv G (h \<circ> fst) (hm_table m)" using inv by (simp add: hm_inv_def)
  obtain r t where rt: "raw_shrink_to G alloc L (hm_table m) c (make_hasher (hash_builder m)) = (r, t)" by fastforce
  from raw_shrink_to_spec [OF ri hm_inv_hasher_ok [OF inv], of c] rt show ?thesis
    using hm_inv_same [OF inv, of t] grow_failure_hm [OF inv, of t alloc Infallible] ri
    by (cases r) (auto simp: hm_shrink_to_def)
qed

text \<open>Inserting a list leaves the bindings of a prefix of it, all of it unless an insertion fails.\<close>

lemma insert_all_view:
  "hm_inv G h m \<Longrightarrow> \<forall>k. hash_builder m k = Some (h k) \<Longrightarrow>
    \<exists>r m'. insert_all G alloc L m kvs = Some (r, m') \<and> hm_inv G h m'
      \<and> (\<exists>n\<le>length kvs. hm_view m' = hm_view m ++ map_of (rev (take n kvs)) \<and> (r = Ok () \<longrightarrow> n = length kvs))
      \<and> (\<forall>e. r = Err e \<longrightarrow> alloc_failure alloc Infallible e)"
proof (induction kvs arbitrary: m)
  case Nil
  then show ?case by simp
next
  case (Cons kv kvs)
  obtain k v where kv: "kv = (k, v)" by force
  obtain r m1 where r: "hm_insert G alloc L m k v = Some (r, m1)" "hm_inv G h m1" "hash_builder m1 = hash_builder m"
    "case r of Inl e \<Rightarrow> hm_failure alloc Infallible m e m1
      | Inr old \<Rightarrow> old = hm_view m k \<and> hm_view m1 = (hm_view m)(k \<mapsto> v)"
    using hm_insert_view [OF Cons.prems(1)] by blast
  show ?case
  proof (cases r)
    case (Inl e)
    then have "alloc_failure alloc Infallible e \<and> m1 = m"
      using r(4) Cons.prems(2) by (auto simp: hm_failure_def split: if_splits)
    then show ?thesis using r(1,2) Inl kv by (auto intro!: exI [of _ 0])
  next
    case (Inr old)
    obtain r2 m2 n where r2: "insert_all G alloc L m1 kvs = Some (r2, m2)" "hm_inv G h m2" "n \<le> length kvs"
      "hm_view m2 = hm_view m1 ++ map_of (rev (take n kvs))" "r2 = Ok () \<longrightarrow> n = length kvs"
      "\<forall>e. r2 = Err e \<longrightarrow> alloc_failure alloc Infallible e"
      using Cons.IH [OF r(2)] r(3) Cons.prems(2) by auto
    have "hm_view m2 = hm_view m ++ map_of (rev (take (Suc n) (kv # kvs)))"
      using r2(4) r(4) Inr kv by (simp add: map_add_assoc)
    then show ?thesis using r r2 Inr kv by (auto intro!: exI [of _ "Suc n"])
  qed
qed

lemma hm_with_capacity_view:
  "case hm_with_capacity G alloc L c hb :: raw_error + ('k, 'v) hash_map of
      Inl e \<Rightarrow> alloc_failure alloc Infallible e
    | Inr m \<Rightarrow> raw_inv G (h \<circ> fst) (hm_table m) \<and> elements (hm_table m) = {#} \<and> hash_builder m = hb
        \<and> c \<le> hm_capacity m"
proof (cases "c = 0")
  case True
  then show ?thesis
    using raw_table_new_inv [of "h \<circ> fst :: 'k \<times> 'v \<Rightarrow> u64"] raw_table_new_elements
    by (simp add: hm_with_capacity_def raw_with_capacity_def fallible_with_capacity_def)
next
  case False
  then have c: "0 < c" by simp
  note sp = fallible_with_capacity_spec [OF c, where ?'t = "'k \<times> 'v", of Infallible]
  show ?thesis
  proof (cases "raw_with_capacity G alloc L c :: raw_error + ('k \<times> 'v) raw_table")
    case (Inl e)
    then show ?thesis using sp by (simp add: hm_with_capacity_def raw_with_capacity_def)
  next
    case (Inr n)
    then obtain k where k: "2 \<le> k" "k \<le> 62" "n = fill_empty G (uninitialized_table G (2 ^ k))"
      "c \<le> bucket_mask_to_capacity (2 ^ k - 1)"
      using sp by (auto simp: raw_with_capacity_def)
    have k1: "1 \<le> k" using k(1) by simp
    have "raw_inv G (h \<circ> fst) n" "elements n = {#}" "growth_left n = bucket_mask_to_capacity (2 ^ k - 1)"
      unfolding k(3) by (rule raw_inv_fill [OF k(2) k1])+
    then show ?thesis using Inr k(4) by (simp add: hm_with_capacity_def hm_capacity_def raw_capacity_def)
  qed
qed

lemma empty_hm_inv:
  assumes "raw_inv G (h \<circ> fst) (hm_table m)" and "elements (hm_table m) = {#}"
    and "\<forall>k. hash_builder m k = None \<or> hash_builder m k = Some (h k)"
  shows "hm_inv G h m" and "hm_view m = Map.empty"
  using assms by (simp_all add: hm_inv_def hm_view_def elements_bucket_list)

lemma hm_from_iter_view:
  assumes "\<forall>k. hb k = Some (h k)"
  shows "\<exists>r m. hm_from_iter G alloc L hb hint kvs = Some (r, m) \<and> hm_inv G h m
    \<and> (case r of Inl e \<Rightarrow> alloc_failure alloc Infallible e | Inr _ \<Rightarrow> hm_view m = map_of (rev kvs))"
proof (cases "hm_with_capacity G alloc L hint hb :: raw_error + ('a, 'b) hash_map")
  case (Inl e)
  have "hm_inv G h (hm_with_hasher G hb :: ('a, 'b) hash_map)"
    using raw_table_new_inv [of "h \<circ> fst"] raw_table_new_elements assms
    by (intro empty_hm_inv) (simp_all add: hm_with_hasher_def)
  then show ?thesis using Inl hm_with_capacity_view [where c = hint and hb = hb and h = h and ?'v = 'b]
    by (simp add: hm_from_iter_def)
next
  case (Inr m)
  then have m: "raw_inv G (h \<circ> fst) (hm_table m)" "elements (hm_table m) = {#}" "hash_builder m = hb"
    using hm_with_capacity_view [where c = hint and hb = hb and h = h and ?'v = 'b] by auto
  have b: "\<forall>k. hash_builder m k = Some (h k)" using m(3) assms by simp
  note e = empty_hm_inv [OF m(1,2)]
  from insert_all_view [OF e(1) b, of kvs] b obtain r m' n where
    r: "insert_all G alloc L m kvs = Some (r, m')" "hm_inv G h m'" "hm_view m' = hm_view m ++ map_of (rev (take n kvs))"
    "r = Ok () \<longrightarrow> n = length kvs" "\<forall>e. r = Err e \<longrightarrow> alloc_failure alloc Infallible e" by auto
  then show ?thesis using Inr e(2) b by (cases r) (auto simp: hm_from_iter_def)
qed

lemma hm_extend_view:
  assumes inv: "hm_inv G h m" and hb: "\<forall>k. hash_builder m k = Some (h k)"
  shows "\<exists>r m'. hm_extend G alloc L m hint kvs = Some (r, m') \<and> hm_inv G h m'
    \<and> (case r of Inl e \<Rightarrow> alloc_failure alloc Infallible e | Inr _ \<Rightarrow> hm_view m' = hm_view m ++ map_of (rev kvs))"
proof -
  let ?res = "if hm_is_empty m then hint else (hint + 1) div 2"
  obtain r1 m1 where r1: "hm_reserve G alloc L m ?res = Some (r1, m1)" "hm_inv G h m1" "hash_builder m1 = hash_builder m"
    "case r1 of Inl e \<Rightarrow> hm_failure alloc Infallible m e m1
      | Inr _ \<Rightarrow> hm_view m1 = hm_view m \<and> hm_len m1 + ?res \<le> hm_capacity m1"
    using hm_reserve_view(1) [OF inv] by blast
  show ?thesis
  proof (cases r1)
    case (Inl e)
    then show ?thesis using r1 hb by (auto simp: hm_extend_def hm_failure_def split: if_splits)
  next
    case (Inr u)
    from insert_all_view [OF r1(2), of kvs] r1(3) hb obtain r m' n where
      r: "insert_all G alloc L m1 kvs = Some (r, m')" "hm_inv G h m'" "hm_view m' = hm_view m1 ++ map_of (rev (take n kvs))"
      "r = Ok () \<longrightarrow> n = length kvs" "\<forall>e. r = Err e \<longrightarrow> alloc_failure alloc Infallible e" by auto
    then show ?thesis using Inr r1 by (cases r) (auto simp: hm_extend_def Let_def)
  qed
qed

end

end
