(* ===== verification/Swiss_Entry.thy ===== *)
theory Swiss_Entry
  imports Swiss_Map
begin

text \<open>
  Entries of a hash map (\<open>map.rs\<close>, \<open>Entry\<close>, \<open>OccupiedEntry\<close>, \<open>VacantEntry\<close>): the map stays with its
  caller instead of inside the entry, and a reference into the map is the index of its bucket.
\<close>

unbundle bit_operations_syntax

section \<open>Entries\<close>

datatype 'k entry = Occupied u64 nat | VacantEntry u64 'k

definition hm_entry :: "('g, 'm::len word) group_impl \<Rightarrow> ('k, 'v) hash_map \<Rightarrow> 'k \<Rightarrow> raw_error + 'k entry" where
  "hm_entry G m key =
     and_then (make_hash (hash_builder m) key) (\<lambda>hash.
     and_then (raw_find G (hm_table m) hash (equivalent_key key)) (\<lambda>r.
     case r of Some elem \<Rightarrow> Ok (Occupied hash elem) | None \<Rightarrow> Ok (VacantEntry hash key)))"

definition occupied_key :: "('k, 'v) hash_map \<Rightarrow> nat \<Rightarrow> raw_error + 'k" where
  "occupied_key m elem = and_then (read_slot (hm_table m) elem) (\<lambda>x. Ok (fst x))"

definition occupied_get :: "('k, 'v) hash_map \<Rightarrow> nat \<Rightarrow> raw_error + 'v" where
  "occupied_get m elem = and_then (read_slot (hm_table m) elem) (\<lambda>x. Ok (snd x))"

definition occupied_insert :: "('k, 'v) hash_map \<Rightarrow> nat \<Rightarrow> 'v \<Rightarrow> raw_error + 'v \<times> ('k, 'v) hash_map" where
  "occupied_insert m elem v =
     and_then (replace_value (hm_table m) elem v) (\<lambda>(old, t). Ok (old, m\<lparr>hm_table := t\<rparr>))"

definition occupied_remove_entry ::
  "('g, 'm::len word) group_impl \<Rightarrow> ('k, 'v) hash_map \<Rightarrow> nat \<Rightarrow> raw_error + ('k \<times> 'v) \<times> ('k, 'v) hash_map" where
  "occupied_remove_entry G m elem =
     and_then (raw_remove G (hm_table m) elem) (\<lambda>((x, _), t). Ok (x, m\<lparr>hm_table := t\<rparr>))"

definition occupied_remove ::
  "('g, 'm::len word) group_impl \<Rightarrow> ('k, 'v) hash_map \<Rightarrow> nat \<Rightarrow> raw_error + 'v \<times> ('k, 'v) hash_map" where
  "occupied_remove G m elem = and_then (occupied_remove_entry G m elem) (\<lambda>(x, m'). Ok (snd x, m'))"

text \<open>The closure that \<open>replace_bucket_with\<close> gets also keeps the key of an entry that it empties.\<close>

definition occupied_replace_entry_with ::
  "('g, 'm::len word) group_impl \<Rightarrow> ('k, 'v) hash_map \<Rightarrow> u64 \<Rightarrow> nat \<Rightarrow> ('k \<Rightarrow> 'v \<Rightarrow> 'v option)
    \<Rightarrow> raw_error + 'k entry \<times> ('k, 'v) hash_map" where
  "occupied_replace_entry_with G m hash elem f =
     and_then (read_slot (hm_table m) elem) (\<lambda>(key, v).
     and_then (replace_bucket_with G (hm_table m) elem
         (\<lambda>(key, v). case f key v of Some v' \<Rightarrow> Some (key, v') | None \<Rightarrow> None)) (\<lambda>(_, t).
     Ok (case f key v of None \<Rightarrow> VacantEntry hash key | Some _ \<Rightarrow> Occupied hash elem, m\<lparr>hm_table := t\<rparr>)))"

definition vacant_insert_entry ::
  "('g, 'm::len word) group_impl \<Rightarrow> allocator \<Rightarrow> table_layout \<Rightarrow> ('k, 'v) hash_map \<Rightarrow> u64 \<Rightarrow> 'k \<Rightarrow> 'v
    \<Rightarrow> ((raw_error + nat) \<times> ('k, 'v) hash_map) option" where
  "vacant_insert_entry G alloc L m hash key v =
     map_option (\<lambda>(r, t). (r, m\<lparr>hm_table := t\<rparr>))
       (raw_insert G alloc L (hm_table m) hash (key, v) (make_hasher (hash_builder m)))"

definition entry_insert ::
  "('g, 'm::len word) group_impl \<Rightarrow> allocator \<Rightarrow> table_layout \<Rightarrow> ('k, 'v) hash_map \<Rightarrow> 'k entry \<Rightarrow> 'v
    \<Rightarrow> ((raw_error + nat) \<times> ('k, 'v) hash_map) option" where
  "entry_insert G alloc L m e v =
     (case e of
        Occupied hash elem \<Rightarrow>
          Some (case occupied_insert m elem v of Inl e \<Rightarrow> (Err e, m) | Inr (_, m') \<Rightarrow> (Ok elem, m'))
      | VacantEntry hash key \<Rightarrow> vacant_insert_entry G alloc L m hash key v)"

text \<open>\<open>or_insert_with_key\<close>; \<open>or_insert\<close>, \<open>or_insert_with\<close> and \<open>or_default\<close> ignore the key.\<close>

definition entry_or_insert_with_key ::
  "('g, 'm::len word) group_impl \<Rightarrow> allocator \<Rightarrow> table_layout \<Rightarrow> ('k, 'v) hash_map \<Rightarrow> 'k entry \<Rightarrow> ('k \<Rightarrow> 'v)
    \<Rightarrow> ((raw_error + nat) \<times> ('k, 'v) hash_map) option" where
  "entry_or_insert_with_key G alloc L m e dflt =
     (case e of
        Occupied hash elem \<Rightarrow> Some (Ok elem, m)
      | VacantEntry hash key \<Rightarrow> vacant_insert_entry G alloc L m hash key (dflt key))"

definition entry_or_insert ::
  "('g, 'm::len word) group_impl \<Rightarrow> allocator \<Rightarrow> table_layout \<Rightarrow> ('k, 'v) hash_map \<Rightarrow> 'k entry \<Rightarrow> 'v
    \<Rightarrow> ((raw_error + nat) \<times> ('k, 'v) hash_map) option" where
  "entry_or_insert G alloc L m e dflt =
     (case e of
        Occupied hash elem \<Rightarrow> Some (Ok elem, m)
      | VacantEntry hash key \<Rightarrow> vacant_insert_entry G alloc L m hash key dflt)"

definition entry_key :: "('k, 'v) hash_map \<Rightarrow> 'k entry \<Rightarrow> raw_error + 'k" where
  "entry_key m e = (case e of Occupied hash elem \<Rightarrow> occupied_key m elem | VacantEntry hash key \<Rightarrow> Ok key)"

definition entry_and_modify ::
  "('k, 'v) hash_map \<Rightarrow> 'k entry \<Rightarrow> ('v \<Rightarrow> 'v) \<Rightarrow> raw_error + 'k entry \<times> ('k, 'v) hash_map" where
  "entry_and_modify m e f =
     (case e of
        Occupied hash elem \<Rightarrow>
          and_then (occupied_get m elem) (\<lambda>v.
          and_then (occupied_insert m elem (f v)) (\<lambda>(_, m'). Ok (Occupied hash elem, m')))
      | VacantEntry hash key \<Rightarrow> Ok (VacantEntry hash key, m))"

definition entry_and_replace_entry_with ::
  "('g, 'm::len word) group_impl \<Rightarrow> ('k, 'v) hash_map \<Rightarrow> 'k entry \<Rightarrow> ('k \<Rightarrow> 'v \<Rightarrow> 'v option)
    \<Rightarrow> raw_error + 'k entry \<times> ('k, 'v) hash_map" where
  "entry_and_replace_entry_with G m e f =
     (case e of
        Occupied hash elem \<Rightarrow> occupied_replace_entry_with G m hash elem f
      | VacantEntry hash key \<Rightarrow> Ok (VacantEntry hash key, m))"

text \<open>\<open>try_insert\<close>: \<open>Inl\<close> of the inner result is the occupied entry of an \<open>OccupiedError\<close>.\<close>

definition hm_try_insert ::
  "('g, 'm::len word) group_impl \<Rightarrow> allocator \<Rightarrow> table_layout \<Rightarrow> ('k, 'v) hash_map \<Rightarrow> 'k \<Rightarrow> 'v
    \<Rightarrow> ((raw_error + (nat + nat)) \<times> ('k, 'v) hash_map) option" where
  "hm_try_insert G alloc L m key v =
     (case hm_entry G m key of
        Inl e \<Rightarrow> Some (Err e, m)
      | Inr (Occupied hash elem) \<Rightarrow> Some (Ok (Inl elem), m)
      | Inr (VacantEntry hash key) \<Rightarrow>
          map_option (\<lambda>(r, m'). (and_then r (\<lambda>i. Ok (Inr i)), m')) (vacant_insert_entry G alloc L m hash key v))"

section \<open>Entries refer to the binding of their key\<close>

definition entry_at :: "('k \<Rightarrow> u64) \<Rightarrow> ('k, 'v) hash_map \<Rightarrow> 'k \<Rightarrow> 'k entry \<Rightarrow> bool" where
  "entry_at h m k e = (case e of
     Occupied hash i \<Rightarrow> hash = h k \<and> i \<in> full_buckets (hm_table m)
       \<and> (\<exists>v. slots (hm_table m) ! i = Some (k, v) \<and> hm_view m k = Some v)
   | VacantEntry hash key \<Rightarrow> hash = h k \<and> key = k \<and> hm_view m k = None)"

lemma entry_at_key: "entry_at h m k e \<Longrightarrow> entry_key m e = Ok k"
  by (auto simp: entry_at_def entry_key_def occupied_key_def read_slot_def split: entry.splits)

lemma occupied_get_view: "entry_at h m k (Occupied hash i) \<Longrightarrow> occupied_get m i = Ok (the (hm_view m k))"
  by (auto simp: entry_at_def occupied_get_def read_slot_def)

context group_laws
begin

lemma hm_entry_spec:
  assumes inv: "hm_inv G h m" and k: "hash_builder m k = Some (h k)"
  shows "\<exists>e. hm_entry G m k = Ok e \<and> entry_at h m k e"
proof -
  have "raw_inv G (h \<circ> fst) (hm_table m)" using inv by (simp add: hm_inv_def)
  from raw_find_spec [OF this] obtain r where
    r: "raw_find G (hm_table m) (h k) (equivalent_key k) = Ok r"
      "found_spec (h \<circ> fst) (hm_table m) (h k) (equivalent_key k) r" by blast
  from found_key [OF inv r(2)] r(1) k show ?thesis
    by (cases r) (auto simp: hm_entry_def make_hash_def entry_at_def)
qed

lemma occupied_insert_view:
  assumes inv: "hm_inv G h m" and e: "entry_at h m k (Occupied hash i)"
  shows "\<exists>m'. occupied_insert m i v = Ok (the (hm_view m k), m') \<and> hm_inv G h m' \<and> hm_view m' = (hm_view m)(k \<mapsto> v)
    \<and> entry_at h m' k (Occupied hash i) \<and> hash_builder m' = hash_builder m"
proof -
  let ?t = "hm_table m"
  have ri: "raw_inv G (h \<circ> fst) ?t" using inv by (simp add: hm_inv_def)
  obtain old where i: "i \<in> full_buckets ?t" "slots ?t ! i = Some (k, old)" "hm_view m k = Some old" "hash = h k"
    using e by (auto simp: entry_at_def)
  obtain R where R: "raw_inv G (h \<circ> fst) (write_slot ?t i (k, v))" "elements ?t = add_mset (k, old) R"
    "elements (write_slot ?t i (k, v)) = add_mset (k, v) R"
    using write_slot_full [OF ri i(1,2), of "(k, v)"] by auto
  let ?m = "m\<lparr>hm_table := write_slot ?t i (k, v)\<rparr>"
  have fb: "full_buckets (hm_table ?m) = full_buckets ?t"
    by (simp add: full_buckets_def tags_of_def num_buckets_def write_slot_def)
  have len: "length (slots ?t) = num_buckets ?t" using ri by (simp add: raw_inv_def)
  have "slots (hm_table ?m) ! i = Some (k, v)" using full_buckets_less [OF i(1)] len by (simp add: write_slot_def)
  then show ?thesis
    using hm_inv_replace [OF inv R] i fb
    by (simp add: occupied_insert_def replace_value_def read_slot_def entry_at_def)
qed

lemma occupied_remove_view:
  assumes inv: "hm_inv G h m" and e: "entry_at h m k (Occupied hash i)"
  shows "\<exists>m'. occupied_remove_entry G m i = Ok ((k, the (hm_view m k)), m')
    \<and> occupied_remove G m i = Ok (the (hm_view m k), m') \<and> hm_inv G h m' \<and> hm_view m' = (hm_view m)(k := None)"
proof -
  let ?t = "hm_table m"
  have ri: "raw_inv G (h \<circ> fst) ?t" using inv by (simp add: hm_inv_def)
  obtain v where i: "i \<in> full_buckets ?t" "slots ?t ! i = Some (k, v)" "hm_view m k = Some v"
    using e by (auto simp: entry_at_def)
  obtain t' where t': "raw_remove G ?t i = Ok (((k, v), i), t')" "raw_inv G (h \<circ> fst) t'"
    "elements ?t = add_mset (k, v) (elements t')"
    using raw_remove_spec [OF ri i(1)] i(2) by auto
  then show ?thesis
    using hm_inv_remove [OF inv t'(2,3)] i(3) by (simp add: occupied_remove_def occupied_remove_entry_def)
qed

lemma entry_and_modify_view:
  assumes inv: "hm_inv G h m" and e: "entry_at h m k e"
  shows "\<exists>m'. entry_and_modify m e f = Ok (e, m') \<and> hm_inv G h m' \<and> entry_at h m' k e
    \<and> hm_view m' = (hm_view m)(k := map_option f (hm_view m k))"
proof (cases e)
  case (Occupied hash i)
  have o: "entry_at h m k (Occupied hash i)" using e Occupied by simp
  then obtain v where v: "hm_view m k = Some v" by (auto simp: entry_at_def)
  from occupied_insert_view [OF inv o, of "f v"] show ?thesis
    using Occupied occupied_get_view [OF o] v by (auto simp: entry_and_modify_def)
next
  case (VacantEntry hash key)
  then have "hm_view m k = None" using e by (simp add: entry_at_def)
  then show ?thesis using VacantEntry inv e by (simp add: entry_and_modify_def fun_upd_idem)
qed

lemma entry_replace_view:
  assumes inv: "hm_inv G h m" and e: "entry_at h m k e"
  shows "\<exists>e' m'. entry_and_replace_entry_with G m e f = Ok (e', m') \<and> hm_inv G h m' \<and> entry_at h m' k e'
    \<and> hm_view m' = (hm_view m)(k := Option.bind (hm_view m k) (f k))"
proof (cases e)
  case (VacantEntry hash key)
  then have "hm_view m k = None" using e by (simp add: entry_at_def)
  then show ?thesis using VacantEntry inv e by (simp add: entry_and_replace_entry_with_def fun_upd_idem)
next
  case (Occupied hash i)
  let ?t = "hm_table m" and ?f = "\<lambda>(key, v). case f key v of Some v' \<Rightarrow> Some (key, v') | None \<Rightarrow> None"
  have ri: "raw_inv G (h \<circ> fst) ?t" and len: "length (slots ?t) = num_buckets ?t"
    using inv by (simp_all add: hm_inv_def raw_inv_def)
  obtain v where i: "i \<in> full_buckets ?t" "slots ?t ! i = Some (k, v)" "hm_view m k = Some v" "hash = h k"
    using e Occupied by (auto simp: entry_at_def)
  have fh: "(h \<circ> fst) y = (h \<circ> fst) (k, v)" if "?f (k, v) = Some y" for y
    using that by (auto split: option.splits)
  obtain r t' where r: "replace_bucket_with G ?t i ?f = Ok (r, t')" "raw_inv G (h \<circ> fst) t'"
    "case ?f (k, v) of
       Some y \<Rightarrow> r = None \<and> t' = write_slot ?t i y \<and> (\<exists>R. elements ?t = add_mset (k, v) R \<and> elements t' = add_mset y R)
     | None \<Rightarrow> r = Some (tag_full ((h \<circ> fst) (k, v))) \<and> elements ?t = add_mset (k, v) (elements t')"
    using replace_bucket_with_spec [OF ri i(1,2) fh] by blast
  have run: "entry_and_replace_entry_with G m e f =
      Ok (case f k v of None \<Rightarrow> VacantEntry hash k | Some _ \<Rightarrow> Occupied hash i, m\<lparr>hm_table := t'\<rparr>)"
    using Occupied i(2) r(1) by (simp add: entry_and_replace_entry_with_def occupied_replace_entry_with_def read_slot_def)
  show ?thesis
  proof (cases "f k v")
    case None
    then have "elements ?t = add_mset (k, v) (elements t')" using r(3) by simp
    from hm_inv_remove [OF inv r(2) this] show ?thesis using run None i by (simp add: entry_at_def)
  next
    case (Some v')
    then obtain R where R: "t' = write_slot ?t i (k, v')" "elements ?t = add_mset (k, v) R" "elements t' = add_mset (k, v') R"
      using r(3) by auto
    have "full_buckets t' = full_buckets ?t" "slots t' ! i = Some (k, v')"
      using full_buckets_less [OF i(1)] len R(1)
      by (simp_all add: full_buckets_def tags_of_def num_buckets_def write_slot_def)
    then show ?thesis using hm_inv_replace [OF inv r(2) R(2,3)] run Some i by (simp add: entry_at_def)
  qed
qed

end

context raw_alloc
begin

lemma vacant_insert_view:
  assumes inv: "hm_inv G h m" and e: "entry_at h m k (VacantEntry hash key)"
  shows "\<exists>r m'. vacant_insert_entry G alloc L m hash key v = Some (r, m') \<and> hm_inv G h m'
    \<and> (case r of Inl e \<Rightarrow> hm_failure alloc Infallible m e m' | Inr _ \<Rightarrow> hm_view m' = (hm_view m)(k \<mapsto> v))"
proof -
  have ri: "raw_inv G (h \<circ> fst) (hm_table m)" using inv by (simp add: hm_inv_def)
  have new: "hash = h k" "key = k" "hm_view m k = None" using e by (auto simp: entry_at_def)
  obtain r t where r: "raw_insert G alloc L (hm_table m) (h k) (k, v) (make_hasher (hash_builder m)) = Some (r, t)"
    "raw_inv G (h \<circ> fst) t"
    "case r of Inl e \<Rightarrow> grow_failure alloc Infallible (make_hasher (hash_builder m)) (hm_table m) e t
      | Inr i \<Rightarrow> elements t = add_mset (k, v) (elements (hm_table m))"
    using raw_insert_spec [OF ri hm_inv_hasher_ok [OF inv], of "(k, v)"] by auto
  then show ?thesis
    using new grow_failure_hm [OF inv r(2)] hm_inv_add [OF inv r(2) _ new(3)]
    by (cases r) (auto simp: vacant_insert_entry_def)
qed

text \<open>An entry is filled only where its key has no value; inserting through it always sets the value.\<close>

lemma entry_or_insert_view:
  assumes inv: "hm_inv G h m" and e: "entry_at h m k e"
  shows "\<exists>r m'. entry_or_insert_with_key G alloc L m e d = Some (r, m') \<and> hm_inv G h m'
    \<and> (case r of Inl e \<Rightarrow> hm_failure alloc Infallible m e m'
        | Inr _ \<Rightarrow> hm_view m' = (hm_view m)(k \<mapsto> (case hm_view m k of Some v \<Rightarrow> v | None \<Rightarrow> d k)))"
proof (cases e)
  case (Occupied hash i)
  then show ?thesis
    using inv e by (auto simp: entry_or_insert_with_key_def entry_at_def fun_upd_idem)
next
  case (VacantEntry hash key)
  then have v: "entry_at h m k (VacantEntry hash key)" "key = k" "hm_view m k = None" using e by (auto simp: entry_at_def)
  then have "(case hm_view m k of Some w \<Rightarrow> w | None \<Rightarrow> d k) = d k" by simp
  then show ?thesis
    unfolding VacantEntry using vacant_insert_view [OF inv v(1), of "d k"] v(2)
    by (simp only: entry_or_insert_with_key_def entry.case)
qed

lemma entry_insert_view:
  assumes inv: "hm_inv G h m" and e: "entry_at h m k e"
  shows "\<exists>r m'. entry_insert G alloc L m e v = Some (r, m') \<and> hm_inv G h m'
    \<and> (case r of Inl e \<Rightarrow> hm_failure alloc Infallible m e m' | Inr _ \<Rightarrow> hm_view m' = (hm_view m)(k \<mapsto> v))"
proof (cases e)
  case (Occupied hash i)
  then obtain m' where "occupied_insert m i v = Ok (the (hm_view m k), m')" "hm_inv G h m'" "hm_view m' = (hm_view m)(k \<mapsto> v)"
    using occupied_insert_view [OF inv, of k hash i v] e by auto
  then show ?thesis using Occupied by (simp add: entry_insert_def)
next
  case (VacantEntry hash key)
  then show ?thesis using vacant_insert_view [OF inv, of k hash key v] e by (simp add: entry_insert_def)
qed

lemma hm_try_insert_view:
  assumes inv: "hm_inv G h m" and k: "hash_builder m k = Some (h k)"
  shows "\<exists>r m'. hm_try_insert G alloc L m k v = Some (r, m') \<and> hm_inv G h m'
    \<and> (case r of
         Inl e \<Rightarrow> hm_failure alloc Infallible m e m'
       | Inr (Inl i) \<Rightarrow> m' = m \<and> k \<in> dom (hm_view m) \<and> occupied_get m i = Ok (the (hm_view m k))
       | Inr (Inr _) \<Rightarrow> k \<notin> dom (hm_view m) \<and> hm_view m' = (hm_view m)(k \<mapsto> v))"
proof -
  obtain e where e: "hm_entry G m k = Ok e" "entry_at h m k e" using hm_entry_spec [OF inv k] by blast
  show ?thesis
  proof (cases e)
    case (Occupied hash i)
    then show ?thesis
      using e inv occupied_get_view [of h m k hash i] by (auto simp: hm_try_insert_def entry_at_def)
  next
    case (VacantEntry hash key)
    then have v: "entry_at h m k (VacantEntry hash key)" and new: "hm_view m k = None"
      using e by (auto simp: entry_at_def)
    obtain r m' where r: "vacant_insert_entry G alloc L m hash key v = Some (r, m')" "hm_inv G h m'"
      "case r of Inl e \<Rightarrow> hm_failure alloc Infallible m e m' | Inr _ \<Rightarrow> hm_view m' = (hm_view m)(k \<mapsto> v)"
      using vacant_insert_view [OF inv v, of v] by blast
    then show ?thesis using e(1) VacantEntry new by (cases r) (auto simp: hm_try_insert_def)
  qed
qed

end

end
