(* ===== verification/Swiss_Iter.thy ===== *)
theory Swiss_Iter
  imports Swiss_Entry
begin

text \<open>
  Iterators over a table (\<open>raw.rs\<close>, \<open>RawIterRange\<close>, \<open>RawIter\<close>, \<open>RawDrain\<close>; \<open>map.rs\<close>, \<open>retain\<close>, \<open>extract_if\<close> and
  equality). A bucket pointer is its index. An iterator has read the control bytes of its
  current group, so erasing the bucket it just yielded does not disturb it.
\<close>

unbundle bit_operations_syntax

section \<open>Iterators\<close>

record 'm raw_iter_range =
  ir_group :: 'm
  ir_data :: nat
  ir_next_ctrl :: nat
  ir_end :: nat

record 'm raw_iter =
  it_range :: "'m raw_iter_range"
  it_items :: nat

text \<open>\<open>RawIterRange::new\<close> at control byte \<open>first\<close>; the first bucket of a range has the same index.\<close>

definition range_new ::
  "('g, 'm::len word) group_impl \<Rightarrow> 't raw_table \<Rightarrow> nat \<Rightarrow> nat \<Rightarrow> 'm word raw_iter_range" where
  "range_new G t first len =
     \<lparr>ir_group = bitmask_into_iter G (match_full G (load G (group_bytes G t first))), ir_data = first,
      ir_next_ctrl = first + WIDTH G, ir_end = first + len\<rparr>"

lemma range_next_measure: "f + WIDTH G \<le> n \<Longrightarrow> n - (f + WIDTH G) < n - f"
  using WIDTH_pos [of G] by linarith

function range_next ::
  "('g, 'm::len word) group_impl \<Rightarrow> bool \<Rightarrow> tag list \<Rightarrow> 'm word raw_iter_range
    \<Rightarrow> raw_error + nat option \<times> 'm word raw_iter_range" where
  "range_next G check cs r =
     (case bitmask_next G (ir_group r) of
        Some (index, m) \<Rightarrow> Ok (Some (ir_data r + index), r\<lparr>ir_group := m\<rparr>)
      | None \<Rightarrow>
          if check \<and> ir_next_ctrl r \<ge> ir_end r then Ok (None, r)
          else if ir_next_ctrl r + WIDTH G \<le> length cs then
            range_next G check cs
              (r\<lparr>ir_group := bitmask_into_iter G (match_full G (load G (take (WIDTH G) (drop (ir_next_ctrl r) cs)))),
                 ir_data := ir_data r + WIDTH G, ir_next_ctrl := ir_next_ctrl r + WIDTH G\<rparr>)
          else Err UndefinedBehavior)"
  by pat_completeness auto
termination
  by (relation "measure (\<lambda>(G, check, cs, r). length cs - ir_next_ctrl r)") (auto dest: range_next_measure)

declare range_next.simps [simp del]

definition raw_iter_new :: "('g, 'm::len word) group_impl \<Rightarrow> 't raw_table \<Rightarrow> 'm word raw_iter" where
  "raw_iter_new G t = \<lparr>it_range = range_new G t 0 (num_buckets t), it_items = items t\<rparr>"

definition raw_iter_next ::
  "('g, 'm::len word) group_impl \<Rightarrow> 't raw_table \<Rightarrow> 'm word raw_iter \<Rightarrow> raw_error + nat option \<times> 'm word raw_iter" where
  "raw_iter_next G t it =
     (if it_items it = 0 then Ok (None, it)
      else
        and_then (range_next G False (ctrl t) (it_range it)) (\<lambda>(nxt, r).
        require (nxt \<noteq> None) DebugAssertion
          (Ok (nxt, \<lparr>it_range = r, it_items = it_items it - 1\<rparr>))))"

text \<open>What \<open>for item in self.iter()\<close> visits when the loop does not change the table.\<close>

function raw_iter_collect ::
  "('g, 'm::len word) group_impl \<Rightarrow> 't raw_table \<Rightarrow> 'm word raw_iter \<Rightarrow> raw_error + nat list" where
  "raw_iter_collect G t it =
     (case raw_iter_next G t it of
        Inl e \<Rightarrow> Err e
      | Inr (None, _) \<Rightarrow> Ok []
      | Inr (Some i, it') \<Rightarrow> and_then (raw_iter_collect G t it') (\<lambda>is. Ok (i # is)))"
  by pat_completeness auto

lemma raw_iter_next_items:
  "raw_iter_next G t it = Ok (Some i, it') \<Longrightarrow> it_items it' < it_items it"
  by (auto simp: raw_iter_next_def and_then_def require_def split: if_splits sum.splits)

termination raw_iter_collect
  by (relation "measure (\<lambda>(G, t, it). it_items it)") (auto dest: raw_iter_next_items)

declare raw_iter_collect.simps [simp del]

text \<open>\<open>RawIterRange::fold_impl\<close>: the bits left in a group, then the next group while elements remain.\<close>

fun fold_group :: "('b \<Rightarrow> nat \<Rightarrow> 'b) \<Rightarrow> nat \<Rightarrow> nat list \<Rightarrow> nat \<Rightarrow> 'b \<Rightarrow> raw_error + nat \<times> 'b" where
  "fold_group f data [] n acc = Ok (n, acc)"
| "fold_group f data (index # bits) n acc =
     require (n \<noteq> 0) DebugAssertion (fold_group f data bits (n - 1) (f acc (data + index)))"

function fold_impl ::
  "('g, 'm::len word) group_impl \<Rightarrow> ('b \<Rightarrow> nat \<Rightarrow> 'b) \<Rightarrow> tag list \<Rightarrow> 'm word raw_iter_range \<Rightarrow> nat \<Rightarrow> 'b
    \<Rightarrow> raw_error + 'b" where
  "fold_impl G f cs r n acc =
     (case fold_group f (ir_data r) (bitmask_indices G (ir_group r)) n acc of
        Inl e \<Rightarrow> Err e
      | Inr (n', acc') \<Rightarrow>
          if n' = 0 then Ok acc'
          else if ir_next_ctrl r + WIDTH G \<le> length cs then
            fold_impl G f cs
              (r\<lparr>ir_group := bitmask_into_iter G (match_full G (load G (take (WIDTH G) (drop (ir_next_ctrl r) cs)))),
                 ir_data := ir_data r + WIDTH G, ir_next_ctrl := ir_next_ctrl r + WIDTH G\<rparr>) n' acc'
          else Err UndefinedBehavior)"
  by pat_completeness auto
termination
  by (relation "measure (\<lambda>(G, f, cs, r, n, acc). length cs - ir_next_ctrl r)") (auto dest: range_next_measure)

declare fold_impl.simps [simp del]

definition raw_iter_fold ::
  "('g, 'm::len word) group_impl \<Rightarrow> 't raw_table \<Rightarrow> ('b \<Rightarrow> nat \<Rightarrow> 'b) \<Rightarrow> 'b \<Rightarrow> raw_error + 'b" where
  "raw_iter_fold G t f init =
     (let it = raw_iter_new G t in fold_impl G f (ctrl t) (it_range it) (it_items it) init)"

section \<open>Loops that change the table\<close>

text \<open>
  The closure is a function of its own state \<open>'s\<close>, the key and the value; it answers whether to
  keep the entry, and gives the value it left there and its next state.
\<close>

function retain_loop ::
  "('g, 'm::len word) group_impl \<Rightarrow> ('s \<Rightarrow> 'k \<Rightarrow> 'v \<Rightarrow> bool \<times> 'v \<times> 's) \<Rightarrow> 's \<Rightarrow> ('k \<times> 'v) raw_table
    \<Rightarrow> 'm word raw_iter \<Rightarrow> (raw_error + unit) \<times> 's \<times> ('k \<times> 'v) raw_table" where
  "retain_loop G f s t it =
     (case raw_iter_next G t it of
        Inl e \<Rightarrow> (Err e, s, t)
      | Inr (None, _) \<Rightarrow> (Ok (), s, t)
      | Inr (Some i, it') \<Rightarrow>
          (case read_slot t i of
             Inl e \<Rightarrow> (Err e, s, t)
           | Inr (key, v) \<Rightarrow>
               (let (keep, v', s') = f s key v; t1 = write_slot t i (key, v') in
                if keep then retain_loop G f s' t1 it'
                else
                  (case erase_no_drop G t1 i of
                     Inl e \<Rightarrow> (Err e, s', t1)
                   | Inr t2 \<Rightarrow> retain_loop G f s' t2 it'))))"
  by pat_completeness auto
termination
  by (relation "measure (\<lambda>(G, f, s, t, it). it_items it)") (auto dest: raw_iter_next_items)

declare retain_loop.simps [simp del]

definition hm_retain ::
  "('g, 'm::len word) group_impl \<Rightarrow> ('s \<Rightarrow> 'k \<Rightarrow> 'v \<Rightarrow> bool \<times> 'v \<times> 's) \<Rightarrow> 's \<Rightarrow> ('k, 'v) hash_map
    \<Rightarrow> (raw_error + unit) \<times> 's \<times> ('k, 'v) hash_map" where
  "hm_retain G f s m =
     (let (r, s', t) = retain_loop G f s (hm_table m) (raw_iter_new G (hm_table m))
      in (r, s', m\<lparr>hm_table := t\<rparr>))"

text \<open>\<open>RawExtractIf::next\<close>: the loop runs on until the closure asks to extract an element.\<close>

function extract_next ::
  "('g, 'm::len word) group_impl \<Rightarrow> ('s \<Rightarrow> 't \<Rightarrow> bool \<times> 't \<times> 's) \<Rightarrow> 's \<Rightarrow> 't raw_table \<Rightarrow> 'm word raw_iter
    \<Rightarrow> (raw_error + 't option) \<times> 's \<times> 't raw_table \<times> 'm word raw_iter" where
  "extract_next G f s t it =
     (case raw_iter_next G t it of
        Inl e \<Rightarrow> (Err e, s, t, it)
      | Inr (None, it') \<Rightarrow> (Ok None, s, t, it')
      | Inr (Some i, it') \<Rightarrow>
          (case read_slot t i of
             Inl e \<Rightarrow> (Err e, s, t, it')
           | Inr x \<Rightarrow>
               (let (take_out, x', s') = f s x; t1 = write_slot t i x' in
                if take_out then
                  (case raw_remove G t1 i of
                     Inl e \<Rightarrow> (Err e, s', t1, it')
                   | Inr ((y, _), t2) \<Rightarrow> (Ok (Some y), s', t2, it'))
                else extract_next G f s' t1 it')))"
  by pat_completeness auto
termination
  by (relation "measure (\<lambda>(G, f, s, t, it). it_items it)") (auto dest: raw_iter_next_items)

declare extract_next.simps [simp del]

text \<open>
  Draining to the end: the elements in order; the table, emptied, goes back to its place when the
  \<open>RawDrain\<close> is dropped. Leaking it instead leaves the empty singleton there.
\<close>

definition raw_drain ::
  "('g, 'm::len word) group_impl \<Rightarrow> 't raw_table \<Rightarrow> raw_error + 't list \<times> 't raw_table" where
  "raw_drain G t =
     and_then (raw_iter_collect G t (raw_iter_new G t)) (\<lambda>is.
     Ok (map (\<lambda>i. the (slots t ! i)) is, raw_clear_no_drop G t))"

section \<open>Equality of maps\<close>

fun all_entries ::
  "('g, 'm::len word) group_impl \<Rightarrow> ('k, 'v) hash_map \<Rightarrow> ('k \<times> 'v) list \<Rightarrow> raw_error + bool" where
  "all_entries G other [] = Ok True"
| "all_entries G other ((key, v) # kvs) =
     and_then (hm_get G other key) (\<lambda>r.
     if (case r of Some v' \<Rightarrow> v = v' | None \<Rightarrow> False) then all_entries G other kvs else Ok False)"

definition hm_eq ::
  "('g, 'm::len word) group_impl \<Rightarrow> ('k, 'v) hash_map \<Rightarrow> ('k, 'v) hash_map \<Rightarrow> raw_error + bool" where
  "hm_eq G m other =
     (if hm_len m \<noteq> hm_len other then Ok False
      else
        and_then (raw_iter_collect G (hm_table m) (raw_iter_new G (hm_table m))) (\<lambda>is.
        all_entries G other (map (\<lambda>i. the (slots (hm_table m) ! i)) is)))"

section \<open>What an iterator still yields\<close>

lemma tags_write_slot [simp]: "tags_of (write_slot t i x) = tags_of t" "bucket_mask (write_slot t i x) = bucket_mask t"
  "num_buckets (write_slot t i x) = num_buckets t" "ctrl (write_slot t i x) = ctrl t"
  by (simp_all add: write_slot_def tags_of_def num_buckets_def)

text \<open>What retaining and extracting do to the elements in bucket order.\<close>

fun retain_list :: "('s \<Rightarrow> 'k \<Rightarrow> 'v \<Rightarrow> bool \<times> 'v \<times> 's) \<Rightarrow> 's \<Rightarrow> ('k \<times> 'v) list \<Rightarrow> ('k \<times> 'v) list \<times> 's" where
  "retain_list f s [] = ([], s)"
| "retain_list f s ((key, v) # kvs) =
     (let (keep, v', s') = f s key v; (kept, s'') = retain_list f s' kvs
      in (if keep then (key, v') # kept else kept, s''))"

fun extract_list :: "('s \<Rightarrow> 't \<Rightarrow> bool \<times> 't \<times> 's) \<Rightarrow> 's \<Rightarrow> 't list \<Rightarrow> 't option \<times> 't list \<times> 't list \<times> 's" where
  "extract_list f s [] = (None, [], [], s)"
| "extract_list f s (x # xs) =
     (let (take_out, x', s') = f s x in
      if take_out then (Some x', [], xs, s')
      else let (r, seen, rest, s'') = extract_list f s' xs in (r, x' # seen, rest, s''))"

lemma retain_list_keys: "fst ` set (fst (retain_list f s kvs)) \<subseteq> fst ` set kvs"
proof (induction kvs arbitrary: s)
  case (Cons kv kvs)
  obtain key v keep v' s' where kv: "kv = (key, v)" "f s key v = (keep, v', s')" by (metis surj_pair)
  obtain kept s2 where "retain_list f s' kvs = (kept, s2)" by force
  then show ?case using Cons.IH [of s'] kv by (simp add: subset_insertI2)
qed simp

lemma retain_list_distinct: "distinct (map fst kvs) \<Longrightarrow> distinct (map fst (fst (retain_list f s kvs)))"
proof (induction kvs arbitrary: s)
  case (Cons kv kvs)
  obtain key v keep v' s' where kv: "kv = (key, v)" "f s key v = (keep, v', s')" by (metis surj_pair)
  have "key \<notin> fst ` set (fst (retain_list f s' kvs))" using retain_list_keys [of f s' kvs] Cons.prems kv by auto
  moreover obtain kept s2 where "retain_list f s' kvs = (kept, s2)" by force
  ultimately show ?case using Cons.IH [of s'] Cons.prems kv by simp
qed simp

lemma retain_list_stateless:
  "distinct (map fst kvs) \<Longrightarrow> map_of (fst (retain_list (\<lambda>_ k v. (keep k v, upd k v, ())) s kvs))
    = (\<lambda>k. Option.bind (map_of kvs k) (\<lambda>v. if keep k v then Some (upd k v) else None))"
proof (induction kvs)
  case (Cons kv kvs)
  obtain key v where kv: "kv = (key, v)" by force
  obtain kept where kept: "retain_list (\<lambda>_ k v. (keep k v, upd k v, ())) () kvs = (kept, ())"
    by (cases "retain_list (\<lambda>_ k v. (keep k v, upd k v, ())) () kvs") simp
  have "map_of kvs key = None" using Cons.prems kv by (simp add: map_of_eq_None_iff)
  then show ?case using Cons kv kept by (auto simp: fun_eq_iff)
qed (simp add: fun_eq_iff)

lemma map_slots_kept: "i \<notin> set is \<Longrightarrow> map (\<lambda>j. the (slots (write_slot t i x) ! j)) is = map (\<lambda>j. the (slots t ! j)) is"
proof (rule map_cong)
  fix j assume "i \<notin> set is" and "j \<in> set is"
  then have "i \<noteq> j" by auto
  then show "the (slots (write_slot t i x) ! j) = the (slots t ! j)" by (simp add: write_slot_def)
qed simp

context group_laws
begin

definition range_at :: "'t raw_table \<Rightarrow> 'm word raw_iter_range \<Rightarrow> nat list \<Rightarrow> bool" where
  "range_at t r is \<longleftrightarrow> WIDTH G dvd ir_data r \<and> ir_next_ctrl r = ir_data r + WIDTH G
     \<and> set (bitmask_indices G (ir_group r)) \<subseteq> {..<WIDTH G} \<and> full_from t (ir_group r) (ir_data r) = is"

definition iter_at :: "'t raw_table \<Rightarrow> 'm word raw_iter \<Rightarrow> nat list \<Rightarrow> bool" where
  "iter_at t it is \<longleftrightarrow> range_at t (it_range it) is \<and> it_items it = length is \<and> (is \<noteq> [] \<longrightarrow> bucket_mask t \<noteq> 0)"

lemma full_indices_less: "ctrl_ok G t \<Longrightarrow> p < num_buckets t \<Longrightarrow>
    set (bitmask_indices G (bitmask_into_iter G (match_full G (load G (group_bytes G t p))))) \<subseteq> {..<WIDTH G}"
proof -
  assume "ctrl_ok G t" and "p < num_buckets t"
  then show ?thesis
    unfolding full_indices_def [symmetric] full_indices_eq [OF group_bytes_nth(1) [OF \<open>ctrl_ok G t\<close> \<open>p < num_buckets t\<close>]]
    by auto
qed

lemma range_step:
  assumes ok: "ctrl_ok G t" and bm: "bucket_mask t \<noteq> 0" and check: "check \<longrightarrow> ir_end r = num_buckets t"
  shows "range_at t r (i # is) \<Longrightarrow> \<exists>r'. range_next G check (ctrl t) r = Ok (Some i, r') \<and> range_at t r' is
    \<and> i < ir_data r' + WIDTH G \<and> ir_end r' = ir_end r"
  using check
proof (induction "num_buckets t - ir_data r" arbitrary: r rule: less_induct)
  case less
  have len: "length (ctrl t) = num_buckets t + WIDTH G" using ok bm by (simp add: ctrl_ok_def)
  let ?m = "ir_group r" and ?first = "ir_data r"
  show ?case
  proof (cases "bitmask_next G ?m")
    case (Some x)
    then obtain b m' where x: "bitmask_next G ?m = Some (b, m')" by (metis surj_pair)
    then have "bitmask_indices G ?m = b # bitmask_indices G m'" by (simp add: bitmask_indices.simps [of G ?m])
    then show ?thesis
      using less.prems(1) x by (auto simp: range_next.simps [of G check "ctrl t" r] range_at_def full_from_def)
  next
    case None
    then have "bitmask_indices G ?m = []" by (simp add: bitmask_indices.simps [of G ?m])
    with less.prems have f: "filter (\<lambda>i. is_full (tags_of t ! i)) [?first + WIDTH G..<num_buckets t] = i # is"
      and nc: "ir_next_ctrl r = ?first + WIDTH G" by (simp_all add: range_at_def full_from_def)
    let ?f = "?first + WIDTH G"
    have lt: "?f < num_buckets t"
    proof (rule ccontr)
      assume "\<not> ?f < num_buckets t"
      with f show False by simp
    qed
    let ?r = "r\<lparr>ir_group := bitmask_into_iter G (match_full G (load G (group_bytes G t ?f))),
      ir_data := ?f, ir_next_ctrl := ?f + WIDTH G\<rparr>"
    have dv: "WIDTH G dvd ?f" using less.prems(1) by (simp add: range_at_def)
    have "range_at t ?r (i # is)"
      using full_from_group [OF ok lt dv] f dv full_indices_less [OF ok lt] by (simp add: range_at_def)
    moreover have "num_buckets t - ir_data ?r < num_buckets t - ?first" using lt by (auto intro: range_next_measure)
    moreover have "range_next G check (ctrl t) r = range_next G check (ctrl t) ?r"
      unfolding range_next.simps [of G check "ctrl t" r] using None lt len nc less.prems(2)
      by (auto simp: group_bytes_def)
    moreover have "ir_end ?r = ir_end r" by simp
    ultimately show ?thesis using less.hyps [of ?r] less.prems(2) by auto
  qed
qed

lemma iter_step:
  assumes ok: "ctrl_ok G t" and it: "iter_at t it (i # is)"
  obtains it' where "raw_iter_next G t it = Ok (Some i, it')" and "iter_at t it' is"
    and "i < ir_data (it_range it') + WIDTH G"
proof -
  have bm: "bucket_mask t \<noteq> 0" and r: "range_at t (it_range it) (i # is)" using it by (auto simp: iter_at_def)
  obtain r' where "range_next G False (ctrl t) (it_range it) = Ok (Some i, r')" "range_at t r' is"
    "i < ir_data r' + WIDTH G" using range_step [OF ok bm _ r, of False] by auto
  then show thesis using that [of "\<lparr>it_range = r', it_items = length is\<rparr>"] it bm
    by (simp add: raw_iter_next_def iter_at_def)
qed

lemma iter_end: "iter_at t it [] \<Longrightarrow> raw_iter_next G t it = Ok (None, it)"
  by (simp add: iter_at_def raw_iter_next_def)

text \<open>An iterator does not see a change of the bucket it just yielded.\<close>

lemma iter_at_update:
  assumes it: "iter_at t it is" and i: "i < ir_data (it_range it) + WIDTH G"
    and t': "bucket_mask t' = bucket_mask t" "tags_of t' = (tags_of t)[i := c]"
  shows "iter_at t' it is"
proof -
  have n: "num_buckets t' = num_buckets t" by (simp add: num_buckets_def t'(1))
  have "filter (\<lambda>j. is_full (tags_of t' ! j)) [ir_data (it_range it) + WIDTH G..<num_buckets t']
      = filter (\<lambda>j. is_full (tags_of t ! j)) [ir_data (it_range it) + WIDTH G..<num_buckets t]"
    unfolding n t'(2) by (rule filter_cong) (use i in auto)
  then show ?thesis using it t'(1) by (simp add: iter_at_def range_at_def full_from_def)
qed

lemma raw_iter_new_at:
  assumes inv: "raw_inv G hf t"
  shows "iter_at t (raw_iter_new G t) (filter (\<lambda>i. is_full (tags_of t ! i)) [0..<num_buckets t])"
proof -
  from inv have ok: "ctrl_ok G t" and it: "items t = count_full t" by (auto simp: raw_inv_def)
  have len: "length (tags_of t) = num_buckets t" using ok by (simp add: ctrl_ok_def)
  have p: "0 < num_buckets t" by (simp add: num_buckets_def)
  have "items t = length (filter (\<lambda>i. is_full (tags_of t ! i)) [0..<num_buckets t])"
    by (simp add: it count_full_def length_filter_conv_card len cong: conj_cong)
  moreover have "bucket_mask t \<noteq> 0" if "filter (\<lambda>i. is_full (tags_of t ! i)) [0..<num_buckets t] \<noteq> []"
  proof
    assume b: "bucket_mask t = 0"
    have "tags_of t = [EMPTY]" by (rule tags_singleton [OF ok b])
    then show False using that b by (simp add: num_buckets_def)
  qed
  ultimately show ?thesis
    using full_from_group [OF ok p] full_indices_less [OF ok p]
    by (simp add: iter_at_def range_at_def raw_iter_new_def range_new_def)
qed

lemma raw_iter_collect_at:
  assumes ok: "ctrl_ok G t"
  shows "iter_at t it is \<Longrightarrow> raw_iter_collect G t it = Ok is"
proof (induction "is" arbitrary: it)
  case Nil
  then show ?case by (simp add: raw_iter_collect.simps [of G t it] iter_end)
next
  case (Cons i "is")
  then obtain it' where "raw_iter_next G t it = Ok (Some i, it')" "iter_at t it' is"
    using iter_step [OF ok Cons.prems] by metis
  then show ?case using Cons.IH by (simp add: raw_iter_collect.simps [of G t it])
qed

lemma raw_iter_collect_eq:
  assumes "raw_inv G hf t"
  shows "raw_iter_collect G t (raw_iter_new G t) = Ok (filter (\<lambda>i. is_full (tags_of t ! i)) [0..<num_buckets t])"
  using raw_iter_collect_at [OF _ raw_iter_new_at [OF assms]] assms by (simp add: raw_inv_def)

section \<open>Folding visits what iterating yields\<close>

lemma fold_group_eq:
  "length bits \<le> n \<Longrightarrow> fold_group f data bits n acc = Ok (n - length bits, foldl f acc (map (\<lambda>b. data + b) bits))"
  by (induction bits arbitrary: n acc) auto

lemma fold_impl_at:
  assumes ok: "ctrl_ok G t" and bm: "bucket_mask t \<noteq> 0"
  shows "range_at t r is \<Longrightarrow> fold_impl G f (ctrl t) r (length is) acc = Ok (foldl f acc is)"
proof (induction "num_buckets t - ir_data r" arbitrary: r "is" acc rule: less_induct)
  case less
  let ?m = "ir_group r" and ?first = "ir_data r"
  let ?f = "?first + WIDTH G"
  let ?bits = "bitmask_indices G ?m" and ?rest = "filter (\<lambda>i. is_full (tags_of t ! i)) [?f..<num_buckets t]"
  have len: "length (ctrl t) = num_buckets t + WIDTH G" using ok bm by (simp add: ctrl_ok_def)
  have "is": "is = map (\<lambda>b. ?first + b) ?bits @ ?rest" and nc: "ir_next_ctrl r = ?f"
    using less.prems by (simp_all add: range_at_def full_from_def)
  have g: "fold_group f ?first ?bits (length is) acc = Ok (length ?rest, foldl f acc (map (\<lambda>b. ?first + b) ?bits))"
    using fold_group_eq [of ?bits "length is" f ?first acc] "is" by simp
  show ?case
  proof (cases "?rest = []")
    case True
    then show ?thesis using g "is" by (simp add: fold_impl.simps [of G f "ctrl t" r])
  next
    case False
    then have lt: "?f < num_buckets t" by (rule contrapos_np) simp
    let ?r = "r\<lparr>ir_group := bitmask_into_iter G (match_full G (load G (group_bytes G t ?f))),
      ir_data := ?f, ir_next_ctrl := ?f + WIDTH G\<rparr>"
    have dv: "WIDTH G dvd ?f" using less.prems by (simp add: range_at_def)
    have "range_at t ?r ?rest"
      using full_from_group [OF ok lt dv] dv full_indices_less [OF ok lt] by (simp add: range_at_def)
    moreover have "num_buckets t - ir_data ?r < num_buckets t - ?first" using lt by (auto intro: range_next_measure)
    ultimately have "fold_impl G f (ctrl t) ?r (length ?rest) acc' = Ok (foldl f acc' ?rest)" for acc'
      using less.hyps [of ?r] by blast
    then show ?thesis
      unfolding fold_impl.simps [of G f "ctrl t" r] g using False lt len nc "is" by (simp add: group_bytes_def)
  qed
qed

lemma raw_iter_fold_eq:
  assumes inv: "raw_inv G hf t"
  shows "raw_iter_fold G t f init = Ok (foldl f init (filter (\<lambda>i. is_full (tags_of t ! i)) [0..<num_buckets t]))"
proof -
  from inv have ok: "ctrl_ok G t" by (simp add: raw_inv_def)
  let ?is = "filter (\<lambda>i. is_full (tags_of t ! i)) [0..<num_buckets t]"
  have at: "range_at t (it_range (raw_iter_new G t)) ?is" "it_items (raw_iter_new G t) = length ?is"
    "?is \<noteq> [] \<longrightarrow> bucket_mask t \<noteq> 0"
    using raw_iter_new_at [OF inv] by (auto simp: iter_at_def)
  show ?thesis
  proof (cases "bucket_mask t = 0")
    case False
    then show ?thesis using fold_impl_at [OF ok False at(1)] at(2) by (simp add: raw_iter_fold_def Let_def)
  next
    case True
    then have "?is = []" using at(3) by blast
    then show ?thesis using at
      by (simp add: raw_iter_fold_def Let_def fold_impl.simps [of G f "ctrl t"] range_at_def full_from_def)
  qed
qed

section \<open>Retaining\<close>

text \<open>
  The loops over a table visit buckets \<open>is\<close>; what they find there, and what the rest \<open>R\<close> of the
  table holds.
\<close>

definition visits :: "('t \<Rightarrow> u64) \<Rightarrow> 't raw_table \<Rightarrow> 'm word raw_iter \<Rightarrow> nat list \<Rightarrow> 't list \<Rightarrow> 't multiset \<Rightarrow> bool" where
  "visits hf t it is xs R \<longleftrightarrow> raw_inv G hf t \<and> iter_at t it is \<and> distinct is \<and> set is \<subseteq> full_buckets t
     \<and> xs = map (\<lambda>i. the (slots t ! i)) is \<and> elements t = mset xs + R"

lemma visits_new:
  assumes inv: "raw_inv G hf t"
  shows "visits hf t (raw_iter_new G t) (filter (\<lambda>i. is_full (tags_of t ! i)) [0..<num_buckets t]) (bucket_list t) {#}"
  using inv raw_iter_new_at [OF inv] elements_bucket_list [of t]
  by (auto simp: visits_def bucket_list_def full_buckets_def)

lemma visits_end: "visits hf t it is [] R \<Longrightarrow> raw_inv G hf t \<and> elements t = R \<and> raw_iter_next G t it = Ok (None, it)"
  by (auto simp: visits_def iter_end)

text \<open>Visiting the next bucket, replacing its element, and erasing it.\<close>

lemma visits_step:
  assumes v: "visits hf t it is0 (x # xs) R" and y: "hf y = hf x"
  obtains i "is" it' where "is0 = i # is" and "raw_iter_next G t it = Ok (Some i, it')" and "read_slot t i = Ok x"
    and "visits hf (write_slot t i y) it' is xs (add_mset y R)"
    and "\<exists>t2. erase_no_drop G (write_slot t i y) i = Ok t2 \<and> raw_remove G (write_slot t i y) i = Ok ((y, i), t2)
      \<and> visits hf t2 it' is xs R"
proof -
  from v obtain i "is" where is0: "is0 = i # is" and xs: "xs = map (\<lambda>i. the (slots t ! i)) is"
    and xi: "x = the (slots t ! i)" by (auto simp: visits_def)
  from v have inv: "raw_inv G hf t" and at: "iter_at t it (i # is)" and d: "i \<notin> set is" "distinct is"
    and fb: "i \<in> full_buckets t" "set is \<subseteq> full_buckets t" and el: "elements t = add_mset x (mset xs + R)"
    by (auto simp: visits_def is0)
  then have ok: "ctrl_ok G t" and x: "slots t ! i = Some x" using xi by (auto simp: raw_inv_def)
  have il: "i < num_buckets t" using fb(1) by (rule full_buckets_less)
  have tl: "length (tags_of t) = num_buckets t" using ok by (simp add: ctrl_ok_def)
  obtain it' where it': "raw_iter_next G t it = Ok (Some i, it')" "iter_at t it' is"
    "i < ir_data (it_range it') + WIDTH G" using iter_step [OF ok at] by metis
  let ?t1 = "write_slot t i y"
  obtain R0 where w: "raw_inv G hf ?t1" "elements t = add_mset x R0" "elements ?t1 = add_mset y R0"
    using write_slot_full [OF inv fb(1) x y] by blast
  have R0: "R0 = mset xs + R" using w(2) el by simp
  have fb1: "full_buckets ?t1 = full_buckets t" by (simp add: full_buckets_def)
  have it1: "iter_at ?t1 it' is"
    using iter_at_update [OF it'(2,3), of ?t1 "tags_of t ! i"] by simp
  have xs1: "xs = map (\<lambda>i. the (slots ?t1 ! i)) is" using map_slots_kept [OF d(1), of t y] xs by simp
  have v1: "visits hf ?t1 it' is xs (add_mset y R)"
    using w it1 d(2) fb(2) fb1 xs1 R0 by (simp add: visits_def)
  have i1: "i \<in> full_buckets ?t1" using fb(1) fb1 by simp
  have s1: "slots ?t1 ! i = Some y" using il inv by (simp add: write_slot_def raw_inv_def)
  obtain t2 where e: "erase G ?t1 i = Ok t2" "raw_inv G hf t2" "elements ?t1 = add_mset y (elements t2)"
    "bucket_mask t2 = bucket_mask t" "slots t2 = slots ?t1"
    "tags_of t2 = (tags_of t)[i := EMPTY] \<or> tags_of t2 = (tags_of t)[i := DELETED]"
    using erase_inv [OF w(1) i1, where thesis = thesis] s1 by fastforce
  have it2: "iter_at t2 it' is" using e(6) iter_at_update [OF it'(2,3) e(4)] by blast
  have "set is \<subseteq> full_buckets t2"
  proof
    fix j assume j: "j \<in> set is"
    then have "j \<noteq> i" using d(1) by auto
    then have "tags_of t2 ! j = tags_of t ! j" using e(6) by auto
    then show "j \<in> full_buckets t2" using j fb(2) e(4) by (auto simp: full_buckets_def num_buckets_def)
  qed
  moreover have "elements t2 = mset xs + R" using e(3) w(3) R0 by simp
  ultimately have "visits hf t2 it' is xs R" using e it2 d(2) xs1 by (simp add: visits_def)
  moreover have "raw_remove G ?t1 i = Ok ((y, i), t2)"
    using e s1 by (simp add: raw_remove_def erase_no_drop_def read_slot_def)
  ultimately show thesis
    using that [OF is0 it'(1) _ v1] x e(1) by (simp add: read_slot_def erase_no_drop_def)
qed

lemma retain_loop_spec:
  "visits (h \<circ> fst) t it is xs R \<Longrightarrow>
    \<exists>t'. retain_loop G f s t it = (Ok (), snd (retain_list f s xs), t') \<and> raw_inv G (h \<circ> fst) t'
      \<and> elements t' = mset (fst (retain_list f s xs)) + R"
proof (induction xs arbitrary: t it "is" s R)
  case Nil
  then show ?case using visits_end [OF Nil] by (simp add: retain_loop.simps [of G f s t it])
next
  case (Cons x xs)
  obtain key v where x: "x = (key, v)" by force
  obtain keep v' s' where f: "f s key v = (keep, v', s')" by (metis surj_pair)
  have "(h \<circ> fst) (key, v') = (h \<circ> fst) x" by (simp add: x)
  from visits_step [OF Cons.prems this] obtain i is' it' where
    st: "raw_iter_next G t it = Ok (Some i, it')" "read_slot t i = Ok x"
      "visits (h \<circ> fst) (write_slot t i (key, v')) it' is' xs (add_mset (key, v') R)"
      "\<exists>t2. erase_no_drop G (write_slot t i (key, v')) i = Ok t2 \<and> visits (h \<circ> fst) t2 it' is' xs R" by metis
  show ?case
  proof (cases keep)
    case True
    then have "retain_loop G f s t it = retain_loop G f s' (write_slot t i (key, v')) it'"
      using st(1,2) x f by (simp add: retain_loop.simps [of G f s t it])
    then show ?thesis using Cons.IH [OF st(3), of s'] True x f by (auto simp: Let_def split: prod.splits)
  next
    case False
    from st(4) obtain t2 where t2: "erase_no_drop G (write_slot t i (key, v')) i = Ok t2" "visits (h \<circ> fst) t2 it' is' xs R"
      by blast
    then have "retain_loop G f s t it = retain_loop G f s' t2 it'"
      using st(1,2) x f False by (simp add: retain_loop.simps [of G f s t it])
    then show ?thesis using Cons.IH [OF t2(2), of s'] False x f by (auto simp: Let_def split: prod.splits)
  qed
qed

text \<open>Retaining keeps, in the order of the buckets, the entries that the closure keeps.\<close>

lemma hm_retain_view:
  assumes inv: "hm_inv G h m"
  shows "\<exists>m'. hm_retain G f s m = (Ok (), snd (retain_list f s (bucket_list (hm_table m))), m')
    \<and> hm_inv G h m' \<and> hm_view m' = map_of (fst (retain_list f s (bucket_list (hm_table m))))"
proof -
  let ?t = "hm_table m" and ?xs = "bucket_list (hm_table m)"
  have ri: "raw_inv G (h \<circ> fst) ?t" and d: "distinct (map fst ?xs)" using inv by (simp_all add: hm_inv_def)
  obtain t' where t': "retain_loop G f s ?t (raw_iter_new G ?t) = (Ok (), snd (retain_list f s ?xs), t')"
    "raw_inv G (h \<circ> fst) t'" "elements t' = mset (fst (retain_list f s ?xs))"
    using retain_loop_spec [OF visits_new [OF ri], of f s] by auto
  have e: "mset (fst (retain_list f s ?xs)) = mset (bucket_list t')" using t'(3) by (simp add: elements_bucket_list)
  from map_of_mset_eq [OF e retain_list_distinct [OF d]] show ?thesis
    using t' inv by (simp add: hm_retain_def hm_inv_def hm_view_def)
qed

section \<open>Extracting\<close>

lemma extract_next_spec:
  assumes f: "\<And>s x out x' s'. f s x = (out, x', s') \<Longrightarrow> hf x' = hf x"
  shows "visits hf t it is xs R \<Longrightarrow> extract_list f s xs = (r, seen, rest, s') \<Longrightarrow>
    \<exists>t' it' is'. extract_next G f s t it = (Ok r, s', t', it') \<and> visits hf t' it' is' rest (mset seen + R)"
proof (induction xs arbitrary: t it "is" s R r seen rest)
  case Nil
  then have q: "r = None" "seen = []" "rest = []" "s' = s" by auto
  then show ?case
    using visits_end [OF Nil.prems(1)] Nil.prems(1)
    by (intro exI [of _ t] exI [of _ it] exI [of _ "is"]) (simp add: extract_next.simps [of G f s t it])
next
  case (Cons x xs)
  obtain out x' s1 where fx: "f s x = (out, x', s1)" by (metis surj_pair)
  from visits_step [OF Cons.prems(1) f [OF fx]] obtain i is' it' where
    st: "raw_iter_next G t it = Ok (Some i, it')" "read_slot t i = Ok x"
      "visits hf (write_slot t i x') it' is' xs (add_mset x' R)"
      "\<exists>t2. raw_remove G (write_slot t i x') i = Ok ((x', i), t2) \<and> visits hf t2 it' is' xs R" by metis
  show ?case
  proof (cases out)
    case True
    from st(4) obtain t2 where "raw_remove G (write_slot t i x') i = Ok ((x', i), t2)" "visits hf t2 it' is' xs R"
      by blast
    then show ?thesis
      using st(1,2) True fx Cons.prems(2) by (auto simp: extract_next.simps [of G f s t it])
  next
    case False
    obtain r1 seen1 rest1 s2 where e: "extract_list f s1 xs = (r1, seen1, rest1, s2)" by (metis surj_pair)
    with Cons.prems(2) fx False have q: "r = r1" "seen = x' # seen1" "rest = rest1" "s' = s2" by auto
    have "extract_next G f s t it = extract_next G f s1 (write_slot t i x') it'"
      using st(1,2) fx False by (simp add: extract_next.simps [of G f s t it])
    then show ?thesis using Cons.IH [OF st(3) e [folded q(4)]] q by simp
  qed
qed

section \<open>Draining and comparing\<close>

lemma raw_drain_spec:
  assumes inv: "raw_inv G hf t"
  shows "\<exists>t'. raw_drain G t = Ok (bucket_list t, t') \<and> raw_inv G hf t' \<and> elements t' = {#}
    \<and> num_buckets t' = num_buckets t"
  using raw_iter_collect_eq [OF inv] raw_clear_no_drop_spec [OF inv]
  by (simp add: raw_drain_def bucket_list_def num_buckets_def)

lemma all_entries_eq:
  assumes inv: "hm_inv G h m" and hb: "\<forall>k. hash_builder m k = Some (h k)"
  shows "all_entries G m kvs = Ok (\<forall>(k, v)\<in>set kvs. hm_view m k = Some v)"
proof (induction kvs)
  case (Cons kv kvs)
  obtain k v where kv: "kv = (k, v)" by force
  have "hm_get G m k = Ok (hm_view m k)" using hm_get_view(1) [OF inv] hb by blast
  then show ?case using Cons kv by (cases "hm_view m k") auto
qed simp

text \<open>Two maps are equal exactly when they represent the same partial map.\<close>

lemma hm_eq_view:
  assumes inv: "hm_inv G h m" and inv': "hm_inv G h' m'" and hb: "\<forall>k. hash_builder m' k = Some (h' k)"
  shows "hm_eq G m m' = Ok (hm_view m = hm_view m')"
proof -
  let ?xs = "bucket_list (hm_table m)"
  have d: "distinct (map fst ?xs)" and ri: "raw_inv G (h \<circ> fst) (hm_table m)" using inv by (simp_all add: hm_inv_def)
  have fin: "finite (dom (hm_view m))" "finite (dom (hm_view m'))" by (simp_all add: hm_view_def finite_dom_map_of)
  have "hm_eq G m m' = Ok (hm_len m = hm_len m' \<and> (\<forall>(k, v)\<in>set ?xs. hm_view m' k = Some v))"
    using raw_iter_collect_eq [OF ri] all_entries_eq [OF inv' hb, of ?xs]
    by (simp add: hm_eq_def bucket_list_def)
  also have "(\<forall>(k, v)\<in>set ?xs. hm_view m' k = Some v) \<longleftrightarrow> hm_view m \<subseteq>\<^sub>m hm_view m'"
    using map_of_pair [OF d, folded hm_view_def] by (force simp: map_le_def dom_def)
  also have "hm_len m = hm_len m' \<and> hm_view m \<subseteq>\<^sub>m hm_view m' \<longleftrightarrow> hm_view m = hm_view m'"
  proof
    assume a: "hm_len m = hm_len m' \<and> hm_view m \<subseteq>\<^sub>m hm_view m'"
    then have "dom (hm_view m) = dom (hm_view m')"
      using hm_len_card [OF inv] hm_len_card [OF inv'] fin by (metis card_subset_eq map_le_implies_dom_le)
    then show "hm_view m = hm_view m'" using a by (metis map_le_antisym map_le_def)
  qed (use hm_len_card [OF inv] hm_len_card [OF inv'] in auto)
  finally show ?thesis .
qed

end

end
