(* ===== verification/Swiss_Clone.thy ===== *)
theory Swiss_Clone
  imports Swiss_Iter
begin

text \<open>
  Cloning a table (\<open>raw.rs\<close>, \<open>Clone for RawTable\<close>): the control bytes are copied, and the elements
  cloned into the same buckets of a table of the same size. With an allocator that returns
  larger blocks than asked for, the new table may be larger, and the copy reads past the control
  bytes of the old one and even past its block.
\<close>

unbundle bit_operations_syntax

section \<open>Cloning\<close>

text \<open>\<open>None\<close> stands for a panic of \<open>Clone\<close>; the elements cloned so far are dropped then.\<close>

fun clone_loop ::
  "('t \<Rightarrow> 't option) \<Rightarrow> 't raw_table \<Rightarrow> nat list \<Rightarrow> 't raw_table \<Rightarrow> (raw_error + unit) \<times> 't raw_table" where
  "clone_loop cl source [] self = (Ok (), self)"
| "clone_loop cl source (index # is) self =
     (case and_then (read_slot source index) (\<lambda>x. ok_or (cl x) ClonePanic) of
        Inl e \<Rightarrow> (Err e, self)
      | Inr y \<Rightarrow>
          if bucket_mask self \<noteq> 0 \<and> index < num_buckets self
          then clone_loop cl source is (write_slot self index y)
          else (Err DebugAssertion, self))"

text \<open>
  The copy of the control bytes takes as many as the new table has. \<open>rest\<close> are the bytes of the
  source's block behind its control bytes, where the allocator returned more than the table
  needs: copying some of them is allowed, reading behind the block is undefined behaviour.
\<close>

definition clone_from_impl ::
  "('g, 'm::len word) group_impl \<Rightarrow> ('t \<Rightarrow> 't option) \<Rightarrow> 't raw_table \<Rightarrow> 't raw_table \<Rightarrow> tag list
    \<Rightarrow> (raw_error + unit) \<times> 't raw_table" where
  "clone_from_impl G cl self source rest =
     (if length (ctrl source @ rest) < num_ctrl_bytes G self then (Err UndefinedBehavior, self)
      else
        (let self1 = self\<lparr>ctrl := take (num_ctrl_bytes G self) (ctrl source @ rest)\<rparr> in
         case raw_iter_collect G source (raw_iter_new G source) of
           Inl e \<Rightarrow> (Err e, self1)
         | Inr is \<Rightarrow>
             (case clone_loop cl source is self1 of
                (Inl e, self2) \<Rightarrow> (Err e, self2)
              | (Inr _, self2) \<Rightarrow> (Ok (), self2\<lparr>items := items source, growth_left := growth_left source\<rparr>))))"

definition raw_clone ::
  "('g, 'm::len word) group_impl \<Rightarrow> allocator \<Rightarrow> table_layout \<Rightarrow> ('t \<Rightarrow> 't option) \<Rightarrow> 't raw_table \<Rightarrow> tag list
    \<Rightarrow> raw_error + 't raw_table" where
  "raw_clone G alloc L cl t rest =
     (if is_empty_singleton t then Ok (raw_table_new G)
      else
        and_then (new_uninitialized G alloc L (num_buckets t) Infallible) (\<lambda>new_table.
        case clone_from_impl G cl new_table t rest of (Inl e, _) \<Rightarrow> Err e | (Inr _, t') \<Rightarrow> Ok t'))"

text \<open>The guard of \<open>clone_from\<close> empties the table when it cannot be completed.\<close>

definition raw_clone_from ::
  "('g, 'm::len word) group_impl \<Rightarrow> allocator \<Rightarrow> table_layout \<Rightarrow> ('t \<Rightarrow> 't option) \<Rightarrow> 't raw_table \<Rightarrow> 't raw_table
    \<Rightarrow> tag list \<Rightarrow> (raw_error + unit) \<times> 't raw_table" where
  "raw_clone_from G alloc L cl self source rest =
     (if is_empty_singleton source then (Ok (), raw_table_new G)
      else
        (case (if num_buckets self \<noteq> num_buckets source
               then new_uninitialized G alloc L (num_buckets source) Infallible else Ok self) of
           Inl e \<Rightarrow> (Err e, raw_clear_no_drop G self)
         | Inr self1 \<Rightarrow>
             (case clone_from_impl G cl self1 source rest of
                (Inl e, self2) \<Rightarrow> (Err e, raw_clear_no_drop G self2)
              | (Inr _, self2) \<Rightarrow> (Ok (), self2))))"

text \<open>\<open>HashMap::clone\<close> and \<open>clone_from\<close>; the hash function of a cloned builder is that of the original.\<close>

definition hm_clone ::
  "('g, 'm::len word) group_impl \<Rightarrow> allocator \<Rightarrow> table_layout \<Rightarrow> ('k \<times> 'v \<Rightarrow> ('k \<times> 'v) option) \<Rightarrow> ('k, 'v) hash_map
    \<Rightarrow> tag list \<Rightarrow> raw_error + ('k, 'v) hash_map" where
  "hm_clone G alloc L cl m rest =
     and_then (raw_clone G alloc L cl (hm_table m) rest) (\<lambda>t. Ok \<lparr>hash_builder = hash_builder m, hm_table = t\<rparr>)"

definition hm_clone_from ::
  "('g, 'm::len word) group_impl \<Rightarrow> allocator \<Rightarrow> table_layout \<Rightarrow> ('k \<times> 'v \<Rightarrow> ('k \<times> 'v) option) \<Rightarrow> ('k, 'v) hash_map
    \<Rightarrow> ('k, 'v) hash_map \<Rightarrow> tag list \<Rightarrow> (raw_error + unit) \<times> ('k, 'v) hash_map" where
  "hm_clone_from G alloc L cl self source rest =
     (case raw_clone_from G alloc L cl (hm_table self) (hm_table source) rest of
        (Inl e, t) \<Rightarrow> (Err e, self\<lparr>hm_table := t\<rparr>)
      | (Inr _, t) \<Rightarrow> (Ok (), \<lparr>hash_builder = hash_builder source, hm_table = t\<rparr>))"

section \<open>Clones have the cloned elements\<close>

text \<open>
  The two ways in which the memory for \<open>b\<close> buckets is refused: its size is no valid layout, or the
  allocator does not provide it.
\<close>

definition layout_refused :: "allocator \<Rightarrow> nat \<Rightarrow> table_layout \<Rightarrow> nat \<Rightarrow> raw_error \<Rightarrow> bool" where
  "layout_refused alloc w L b e \<longleftrightarrow>
     (case calculate_layout_for w L b of
        None \<Rightarrow> e = PanicCapacityOverflow
      | Some (layout, _) \<Rightarrow> alloc layout = None \<and> e = AbortAllocError layout)"

text \<open>Cloning an element panics, or gives one with the same hash.\<close>

definition clone_ok :: "('t \<Rightarrow> u64) \<Rightarrow> ('t \<Rightarrow> 't option) \<Rightarrow> 't raw_table \<Rightarrow> bool" where
  "clone_ok hf cl t \<longleftrightarrow> (\<forall>x\<in>#elements t. \<forall>y. cl x = Some y \<longrightarrow> hf y = hf x)"

lemma clone_loop_spec:
  assumes src: "\<forall>i\<in>set is. \<exists>x. slots source ! i = Some x"
  shows "bucket_mask self \<noteq> 0 \<Longrightarrow> set is \<subseteq> {..<num_buckets self} \<Longrightarrow> length (slots self) = num_buckets self \<Longrightarrow>
    case clone_loop cl source is self of
      (Inl e, self') \<Rightarrow> e = ClonePanic \<and> (\<exists>i\<in>set is. cl (the (slots source ! i)) = None)
        \<and> (\<exists>ss. self' = self\<lparr>slots := ss\<rparr> \<and> length ss = length (slots self))
    | (Inr _, self') \<Rightarrow> (\<exists>ss. self' = self\<lparr>slots := ss\<rparr> \<and> length ss = length (slots self)
        \<and> (\<forall>i. ss ! i = (if i \<in> set is then cl (the (slots source ! i)) else slots self ! i))
        \<and> (\<forall>i\<in>set is. cl (the (slots source ! i)) \<noteq> None))"
  using src
proof (induction "is" arbitrary: self)
  case Nil
  then show ?case by (auto intro: exI [of _ "slots self"])
next
  case (Cons i "is")
  then obtain x where x: "slots source ! i = Some x" by auto
  show ?case
  proof (cases "cl x")
    case None
    then show ?thesis using x by (auto simp: read_slot_def intro: exI [of _ "slots self"])
  next
    case (Some y)
    let ?s = "write_slot self i y"
    have run: "clone_loop cl source (i # is) self = clone_loop cl source is ?s"
      using Some x Cons.prems(1,2) by (simp add: read_slot_def)
    have il: "i < length (slots self)" using Cons.prems by simp
    have s: "slots ?s = (slots self)[i := Some y]" "?s = self\<lparr>slots := (slots self)[i := Some y]\<rparr>"
      by (simp_all add: write_slot_def)
    have IH: "case clone_loop cl source is ?s of
        (Inl e, self') \<Rightarrow> e = ClonePanic \<and> (\<exists>i\<in>set is. cl (the (slots source ! i)) = None)
          \<and> (\<exists>ss. self' = ?s\<lparr>slots := ss\<rparr> \<and> length ss = length (slots ?s))
      | (Inr _, self') \<Rightarrow> (\<exists>ss. self' = ?s\<lparr>slots := ss\<rparr> \<and> length ss = length (slots ?s)
          \<and> (\<forall>i. ss ! i = (if i \<in> set is then cl (the (slots source ! i)) else slots ?s ! i))
          \<and> (\<forall>i\<in>set is. cl (the (slots source ! i)) \<noteq> None))"
      using Cons.prems by (intro Cons.IH) (auto simp: write_slot_def num_buckets_def)
    obtain r self' where r: "clone_loop cl source is ?s = (r, self')" by fastforce
    show ?thesis
    proof (cases r)
      case (Inl e)
      then show ?thesis using IH r run s by auto
    next
      case (Inr u)
      then obtain ss where ss: "self' = ?s\<lparr>slots := ss\<rparr>" "length ss = length (slots ?s)"
        "\<forall>j. ss ! j = (if j \<in> set is then cl (the (slots source ! j)) else slots ?s ! j)"
        "\<forall>j\<in>set is. cl (the (slots source ! j)) \<noteq> None" using IH r by auto
      have "ss ! j = (if j \<in> set (i # is) then cl (the (slots source ! j)) else slots self ! j)" for j
        using ss(3) x Some il by (cases "j = i") (auto simp: s)
      then show ?thesis using Inr r run ss s x Some by auto
    qed
  qed
qed

context group_laws
begin

lemma clone_from_impl_spec:
  assumes inv: "raw_inv G hf src" and cl: "clone_ok hf cl src" and bm: "bucket_mask src \<noteq> 0"
    and self: "bucket_mask self = bucket_mask src" "length (slots self) = num_buckets self"
  shows "case clone_from_impl G cl self src rest of
      (Inl e, self') \<Rightarrow> e = ClonePanic \<and> (\<exists>x\<in>#elements src. cl x = None)
        \<and> bucket_mask self' = bucket_mask self \<and> ctrl self' = ctrl src \<and> length (slots self') = length (slots self)
    | (Inr _, self') \<Rightarrow> raw_inv G hf self' \<and> bucket_mask self' = bucket_mask src \<and> items self' = items src
        \<and> growth_left self' = growth_left src
        \<and> elements self' = image_mset (\<lambda>x. the (cl x)) (elements src)"
proof -
  let ?is = "filter (\<lambda>i. is_full (tags_of src ! i)) [0..<num_buckets src]"
  let ?s1 = "self\<lparr>ctrl := ctrl src\<rparr>"
  from inv have ok: "ctrl_ok G src" and sl: "length (slots src) = num_buckets src" by (auto simp: raw_inv_def)
  have n: "num_buckets self = num_buckets src" by (simp add: num_buckets_def self)
  have len: "length (ctrl src) = num_ctrl_bytes G self"
    using ok bm self by (simp add: ctrl_ok_def num_ctrl_bytes_def num_buckets_def)
  have "set": "set ?is = full_buckets src" by (auto simp: full_buckets_def)
  have src: "\<forall>i\<in>set ?is. \<exists>x. slots src ! i = Some x" using inv "set" by (auto simp: raw_inv_def)
  have run: "clone_from_impl G cl self src rest = (case clone_loop cl src ?is ?s1 of
      (Inl e, self2) \<Rightarrow> (Err e, self2)
    | (Inr _, self2) \<Rightarrow> (Ok (), self2\<lparr>items := items src, growth_left := growth_left src\<rparr>))"
    using len raw_iter_collect_eq [OF inv] by (simp add: clone_from_impl_def Let_def)
  have lp: "case clone_loop cl src ?is ?s1 of
      (Inl e, self') \<Rightarrow> e = ClonePanic \<and> (\<exists>i\<in>set ?is. cl (the (slots src ! i)) = None)
        \<and> (\<exists>ss. self' = ?s1\<lparr>slots := ss\<rparr> \<and> length ss = length (slots ?s1))
    | (Inr _, self') \<Rightarrow> (\<exists>ss. self' = ?s1\<lparr>slots := ss\<rparr> \<and> length ss = length (slots ?s1)
        \<and> (\<forall>i. ss ! i = (if i \<in> set ?is then cl (the (slots src ! i)) else slots ?s1 ! i))
        \<and> (\<forall>i\<in>set ?is. cl (the (slots src ! i)) \<noteq> None))"
    by (rule clone_loop_spec [OF src]) (use bm self n in \<open>auto simp: num_buckets_def\<close>)
  obtain r self2 where r: "clone_loop cl src ?is ?s1 = (r, self2)" by fastforce
  have el: "the (slots src ! i) \<in># elements src" if "i \<in> full_buckets src" for i
    using that by (simp add: set_mset_elements)
  show ?thesis
  proof (cases r)
    case (Inl e)
    then show ?thesis using lp r run el "set" by auto
  next
    case (Inr u)
    from lp [unfolded r Inr prod.case sum.case "set"] obtain ss where ss0: "self2 = ?s1\<lparr>slots := ss\<rparr>"
      "length ss = length (slots ?s1)"
      "\<forall>i. ss ! i = (if i \<in> full_buckets src then cl (the (slots src ! i)) else slots ?s1 ! i)"
      "\<forall>i\<in>full_buckets src. cl (the (slots src ! i)) \<noteq> None" by blast
    then have ss: "self2 = ?s1\<lparr>slots := ss\<rparr>" "length ss = length (slots self)"
      "\<And>i. i \<in> full_buckets src \<Longrightarrow> ss ! i = cl (the (slots src ! i)) \<and> cl (the (slots src ! i)) \<noteq> None"
      by simp_all
    let ?t = "self2\<lparr>items := items src, growth_left := growth_left src\<rparr>"
    have f: "bucket_mask ?t = bucket_mask src" "ctrl ?t = ctrl src" "slots ?t = ss" using ss(1) self by simp_all
    have "raw_inv G hf ?t"
    proof (rule raw_inv_cong [OF inv])
      fix i assume i: "i \<in> full_buckets src"
      then obtain y where "ss ! i = Some y" "cl (the (slots src ! i)) = Some y" using ss(3) by fastforce
      then show "\<exists>y. slots ?t ! i = Some y \<and> hf y = hf (the (slots src ! i))"
        using el [OF i] cl f(3) unfolding clone_ok_def by blast
    qed (use f ss(2) self n sl in simp_all)
    moreover have "elements ?t = image_mset (\<lambda>x. the (cl x)) (elements src)"
    proof -
      have "full_buckets ?t = full_buckets src"
        using f by (simp add: full_buckets_def tags_of_def num_buckets_def)
      then have "elements ?t = image_mset (\<lambda>i. the (cl (the (slots src ! i)))) (mset_set (full_buckets src))"
        unfolding elements_def f(3) by (simp) (rule image_mset_cong, simp add: ss(3))
      then show ?thesis by (simp add: elements_def multiset.map_comp comp_def)
    qed
    ultimately show ?thesis using Inr r run f by simp
  qed
qed

end

context raw_alloc
begin

lemma new_uninitialized_exact:
  assumes exact: "\<forall>l z. alloc l = Some z \<longrightarrow> z = fst l" and k: "b = 2 ^ k"
  shows "case new_uninitialized G alloc L b Infallible :: raw_error + 't raw_table of
      Inl e \<Rightarrow> layout_refused alloc (WIDTH G) L b e | Inr t \<Rightarrow> t = uninitialized_table G b"
  using exact k
  by (auto simp: new_uninitialized_def is_power_of_two_pow layout_refused_def split: option.split prod.split)

lemma raw_clone_spec:
  assumes inv: "raw_inv G hf t" and cl: "clone_ok hf cl t" and exact: "\<forall>l z. alloc l = Some z \<longrightarrow> z = fst l"
  shows "case raw_clone G alloc L cl t rest of
      Inl e \<Rightarrow> layout_refused alloc (WIDTH G) L (num_buckets t) e \<or> e = ClonePanic \<and> (\<exists>x\<in>#elements t. cl x = None)
    | Inr t' \<Rightarrow> raw_inv G hf t' \<and> elements t' = image_mset (\<lambda>x. the (cl x)) (elements t)
        \<and> num_buckets t' = num_buckets t \<and> growth_left t' = growth_left t"
proof (cases "bucket_mask t = 0")
  case True
  have ok: "ctrl_ok G t" using inv by (simp add: raw_inv_def)
  have "full_buckets t = {}"
    using tags_singleton [OF ok True] True by (auto simp: full_buckets_def num_buckets_def)
  then have e: "elements t = {#}" by (simp add: elements_def)
  have g: "growth_left t = 0" using inv True by (simp add: raw_inv_def)
  have "raw_inv G hf (raw_table_new G)" "elements (raw_table_new G :: 'a raw_table) = {#}"
    by (rule raw_table_new_inv raw_table_new_elements)+
  then show ?thesis
    using True e g by (simp add: raw_clone_def is_empty_singleton_def raw_table_new_def num_buckets_def)
next
  case False
  have ok: "ctrl_ok G t" using inv by (simp add: raw_inv_def)
  obtain k where k: "num_buckets t = 2 ^ k" using ok by (rule ctrl_okD)
  show ?thesis
  proof (cases "new_uninitialized G alloc L (num_buckets t) Infallible :: raw_error + 'a raw_table")
    case (Inl e)
    then show ?thesis
      using new_uninitialized_exact [OF exact k, where ?'t = 'a] False
      by (simp add: raw_clone_def is_empty_singleton_def)
  next
    case (Inr nt)
    then have nt: "nt = uninitialized_table G (num_buckets t)"
      using new_uninitialized_exact [OF exact k, where ?'t = 'a] by simp
    then have s: "bucket_mask nt = bucket_mask t" "length (slots nt) = num_buckets nt"
      by (simp_all add: uninitialized_table_def num_buckets_def)
    obtain r t' where rt: "clone_from_impl G cl nt t rest = (r, t')" by fastforce
    then have "raw_clone G alloc L cl t rest = (case r of Inl e \<Rightarrow> Err e | Inr _ \<Rightarrow> Ok t')"
      using Inr False by (cases r) (simp_all add: raw_clone_def is_empty_singleton_def)
    then show ?thesis
      using clone_from_impl_spec [OF inv cl False s, of rest] rt by (cases r) (auto simp: num_buckets_def)
  qed
qed

lemma hm_clone_view:
  assumes inv: "hm_inv G h m" and exact: "\<forall>l z. alloc l = Some z \<longrightarrow> z = fst l"
  shows "case hm_clone G alloc L Some m rest of
      Inl e \<Rightarrow> layout_refused alloc (WIDTH G) L (num_buckets (hm_table m)) e
    | Inr m' \<Rightarrow> hm_inv G h m' \<and> hm_view m' = hm_view m \<and> hm_capacity m' = hm_capacity m
        \<and> hash_builder m' = hash_builder m"
proof -
  let ?t = "hm_table m"
  have ri: "raw_inv G (h \<circ> fst) ?t" and d: "distinct (map fst (bucket_list ?t))" using inv by (simp_all add: hm_inv_def)
  have "clone_ok (h \<circ> fst) Some ?t" by (simp add: clone_ok_def)
  note c = raw_clone_spec [OF ri this exact, of rest]
  show ?thesis
  proof (cases "raw_clone G alloc L Some ?t rest")
    case (Inl e)
    then show ?thesis using c by (simp add: hm_clone_def)
  next
    case (Inr t')
    then have t': "raw_inv G (h \<circ> fst) t'" "mset (bucket_list ?t) = mset (bucket_list t')" "growth_left t' = growth_left ?t"
      using c by (simp_all add: elements_bucket_list)
    then have "items t' = items ?t" using ri by (metis elements_bucket_list raw_inv_items)
    then show ?thesis
      using Inr t' map_of_mset_eq [OF t'(2) d] inv
      by (simp add: hm_clone_def hm_inv_def hm_view_def hm_capacity_def raw_capacity_def)
  qed
qed

text \<open>Cloning into a table gives the clone, or an empty table when it fails.\<close>

lemma raw_clone_from_spec:
  assumes inv: "raw_inv G hf t" and self: "raw_inv G hf self" and cl: "clone_ok hf cl t"
    and exact: "\<forall>l z. alloc l = Some z \<longrightarrow> z = fst l"
  shows "case raw_clone_from G alloc L cl self t rest of
      (Inl e, t') \<Rightarrow> (layout_refused alloc (WIDTH G) L (num_buckets t) e \<or> e = ClonePanic \<and> (\<exists>x\<in>#elements t. cl x = None))
        \<and> raw_inv G hf t' \<and> elements t' = {#}
    | (Inr _, t') \<Rightarrow> raw_inv G hf t' \<and> elements t' = image_mset (\<lambda>x. the (cl x)) (elements t)"
proof (cases "bucket_mask t = 0")
  case True
  have ok: "ctrl_ok G t" using inv by (simp add: raw_inv_def)
  have "full_buckets t = {}"
    using tags_singleton [OF ok True] True by (auto simp: full_buckets_def num_buckets_def)
  then have e: "elements t = {#}" by (simp add: elements_def)
  have "raw_inv G hf (raw_table_new G)" "elements (raw_table_new G :: 'a raw_table) = {#}"
    by (rule raw_table_new_inv raw_table_new_elements)+
  then show ?thesis using True e by (simp add: raw_clone_from_def is_empty_singleton_def)
next
  case False
  have ok: "ctrl_ok G t" using inv by (simp add: raw_inv_def)
  obtain k where k: "num_buckets t = 2 ^ k" using ok by (rule ctrl_okD)
  let ?n = "if num_buckets self \<noteq> num_buckets t
    then new_uninitialized G alloc L (num_buckets t) Infallible else Ok self"
  have n: "case ?n of Inl e \<Rightarrow> layout_refused alloc (WIDTH G) L (num_buckets t) e
      | Inr s1 \<Rightarrow> bucket_mask s1 = bucket_mask t \<and> length (slots s1) = num_buckets s1"
    using new_uninitialized_exact [OF exact k, where ?'t = 'a] self
    by (auto simp: uninitialized_table_def num_buckets_def raw_inv_def split: sum.splits)
  show ?thesis
  proof (cases ?n)
    case (Inl e)
    then show ?thesis
      using n raw_clear_no_drop_spec [OF self] False by (simp add: raw_clone_from_def is_empty_singleton_def)
  next
    case (Inr s1)
    with n have s: "bucket_mask s1 = bucket_mask t" "length (slots s1) = num_buckets s1" by simp_all
    obtain r t' where rt: "clone_from_impl G cl s1 t rest = (r, t')" by fastforce
    note sp = clone_from_impl_spec [OF inv cl False s, of rest, unfolded rt]
    have run: "raw_clone_from G alloc L cl self t rest = (case r of Inl e \<Rightarrow> (Err e, raw_clear_no_drop G t') | Inr _ \<Rightarrow> (Ok (), t'))"
      using Inr False rt by (cases r) (simp_all add: raw_clone_from_def is_empty_singleton_def)
    show ?thesis
    proof (cases r)
      case (Inl e)
      then have "ctrl_ok G t'" "length (slots t') = num_buckets t'"
        using sp ok s same_ctrl(3) [of t' t G] by (auto simp: num_buckets_def)
      from raw_clear_any_spec [OF this, of hf] show ?thesis using sp run Inl by simp
    next
      case (Inr u)
      then show ?thesis using sp run by simp
    qed
  qed
qed

end

section \<open>Blocks larger than asked for\<close>

text \<open>An allocator that keeps the contract of \<open>Allocator\<close> and returns twice what it was asked for.\<close>

definition doubling_allocate :: allocator where
  "doubling_allocate layout = (if fst layout \<le> 1000 \<and> snd layout \<le> 8 then Some (2 * fst layout) else None)"

interpretation generic64_doubling:
  raw_alloc "generic_group 3 :: (64 word, 64 word) group_impl" doubling_allocate 8 8
proof (intro raw_alloc.intro raw_alloc_axioms.intro generic64.group_laws_axioms rust_layout_8)
  fix s a z assume "doubling_allocate (s, a) = Some z"
  then show "z = s \<or> (WIDTH (generic_group 3 :: (64 word, 64 word) group_impl) = 4
      \<or> WIDTH (generic_group 3 :: (64 word, 64 word) group_impl) = 8) \<and> s \<le> z \<and> z + a \<le> isize_max + 1"
    by (auto simp: doubling_allocate_def isize_max_def WIDTH_def generic_group_def split: if_splits)
qed (simp_all add: isize_max_def)

lemma usize_and_not_7: "x < 2 ^ 64 \<Longrightarrow> usize_and_not x 7 = x - x mod 8"
  using align_down [of x 3] by simp

lemma layout_8_8:
  assumes "8 * b + 7 < 2 ^ 64" and "9 * b + 8 \<le> isize_max - 7"
  shows "calculate_layout_for 8 (table_layout_new 8 8 8) b = Some ((9 * b + 8, 8), 8 * b)"
proof -
  have m: "(8 * b + 7) mod 8 = 7" by presburger
  have "8 * b < 2 ^ 64" "9 * b + 8 < 2 ^ 64" using assms by (auto simp: isize_max_def)
  then show ?thesis
    using assms m usize_and_not_7 [of "8 * b + 7"]
    by (simp add: calculate_layout_for_def table_layout_new_def checked_usize_def usize_bound_def mult.commute [of b])
qed

lemma max_buckets_160: "maximum_buckets_in 160 (table_layout_new 8 8 8) 8 = 16"
    and max_buckets_304: "maximum_buckets_in 304 (table_layout_new 8 8 8) 8 = 32"
proof -
  have "bit_length 16 = 5" "bit_length 32 = 6"
    by (simp_all add: bit_length.simps [of 32] bit_length.simps [of 16] bit_length.simps [of 8] bit_length.simps [of 4]
        bit_length.simps [of 2] bit_length.simps [of "Suc 0"] bit_length.simps [of 0])
  then show "maximum_buckets_in 160 (table_layout_new 8 8 8) 8 = 16" "maximum_buckets_in 304 (table_layout_new 8 8 8) 8 = 32"
    by (simp_all add: maximum_buckets_in_def table_layout_new_def prev_pow2_def)
qed

lemma doubling_layouts:
  "calculate_layout_for 8 (table_layout_new 8 8 8) 8 = Some ((80, 8), 64)"
  "calculate_layout_for 8 (table_layout_new 8 8 8) 16 = Some ((152, 8), 128)"
  "calculate_layout_for 8 (table_layout_new 8 8 8) 32 = Some ((296, 8), 256)"
  "doubling_allocate (80, 8) = Some 160" "doubling_allocate (152, 8) = Some 304"
  using layout_8_8 [of 8] layout_8_8 [of 16] layout_8_8 [of 32]
  by (simp_all add: isize_max_def doubling_allocate_def)

text \<open>
  A table of capacity 7 asks for 8 buckets and gets 16, in a block of 160 bytes with 24 control
  bytes from offset 128. Its clone asks for 16 buckets and gets 32, with 40 control bytes.
\<close>

lemma clone_doubling:
  fixes G :: "(64 word, 64 word) group_impl" and t :: "'t raw_table"
  defines "G \<equiv> generic_group 3" and "L \<equiv> table_layout_new 8 8 8"
  defines "t \<equiv> fill_empty G (uninitialized_table G 16)"
  shows "raw_with_capacity G doubling_allocate L 7 = Ok t"
    and "num_buckets t = 16" and "length (ctrl t) = 24"
    and "new_uninitialized G doubling_allocate L 16 Infallible = Ok (uninitialized_table G 32 :: 't raw_table)"
    and "num_ctrl_bytes G (uninitialized_table G 32 :: 't raw_table) = 40"
    and "length rest < 16 \<Longrightarrow> raw_clone G doubling_allocate L cl t rest = Err UndefinedBehavior"
proof -
  have w: "WIDTH G = 8" by (simp add: G_def WIDTH_def generic_group_def)
  have p: "is_power_of_two 8" "is_power_of_two 16"
    using and_bucket_mask [of 8 3] and_bucket_mask [of 16 4] by (simp_all add: is_power_of_two_def)
  note d = doubling_layouts [folded L_def] and m = max_buckets_160 [folded L_def] max_buckets_304 [folded L_def]
  have "capacity_to_buckets 8 7 L = Some 8"
    by (simp add: capacity_to_buckets_def L_def min_cap_def table_layout_new_def)
  moreover have "new_uninitialized G doubling_allocate L 8 Infallible = Ok (uninitialized_table G 16 :: 't raw_table)"
    using p(1) d m(1) w by (simp add: new_uninitialized_def Let_def)
  ultimately show "raw_with_capacity G doubling_allocate L 7 = Ok t"
    using w by (simp add: raw_with_capacity_def fallible_with_capacity_def t_def)
  have n: "num_buckets t = 16" "bucket_mask t \<noteq> 0" "length (ctrl t) = 24"
    using w by (simp_all add: t_def fill_empty_def uninitialized_table_def num_buckets_def num_ctrl_bytes_def)
  then show "num_buckets t = 16" "length (ctrl t) = 24" by simp_all
  show u: "new_uninitialized G doubling_allocate L 16 Infallible = Ok (uninitialized_table G 32 :: 't raw_table)"
    using p(2) d m(2) w by (simp add: new_uninitialized_def Let_def)
  show c: "num_ctrl_bytes G (uninitialized_table G 32 :: 't raw_table) = 40"
    using w by (simp add: num_ctrl_bytes_def uninitialized_table_def)
  show "raw_clone G doubling_allocate L cl t rest = Err UndefinedBehavior" if "length rest < 16"
    using that n u c by (simp add: raw_clone_def is_empty_singleton_def clone_from_impl_def)
qed

end
