(* ===== verification/Swiss_Claims.thy ===== *)
theory Swiss_Claims
  imports Swiss_Clone
begin

text \<open>
  The properties of the tables and maps of \<open>patches/hashbrown\<close>, over any group implementation and
  allocator that keep the laws, and their application to SSE2 and the global allocator.
\<close>

unbundle bit_operations_syntax

section \<open>Reachable maps\<close>

text \<open>
  The maps that a program can build from a new one, by the operations below and in any order.
  Every outcome of an operation is a step, the panics and failed allocations included that leave a
  map behind. \<open>h\<close> gives the hash of a key; whether hashing a key panics instead may change from
  one operation to the next (\<open>panics_change\<close>), so that keys of the map panic when it grows or is
  rehashed. Cloning is a step for allocators that return blocks of the requested size and clones
  equal to their originals. \<open>clone_from\<close> and \<open>extract_if\<close> are not steps.
\<close>

inductive map_reachable ::
  "('g, 'm::len word) group_impl \<Rightarrow> allocator \<Rightarrow> table_layout \<Rightarrow> ('k \<Rightarrow> u64) \<Rightarrow> ('k, 'v) hash_map \<Rightarrow> bool"
  for G alloc L h where
  new: "\<forall>k. hb k = None \<or> hb k = Some (h k) \<Longrightarrow> map_reachable G alloc L h (hm_with_hasher G hb)"
| with_capacity: "\<forall>k. hb k = None \<or> hb k = Some (h k) \<Longrightarrow> hm_with_capacity G alloc L c hb = Ok m \<Longrightarrow>
    map_reachable G alloc L h m"
| panics_change: "map_reachable G alloc L h m \<Longrightarrow> \<forall>k. hb k = None \<or> hb k = Some (h k) \<Longrightarrow>
    map_reachable G alloc L h (m\<lparr>hash_builder := hb\<rparr>)"
| inserted: "map_reachable G alloc L h m \<Longrightarrow> hm_insert G alloc L m k v = Some (r, m') \<Longrightarrow> map_reachable G alloc L h m'"
| try_inserted: "map_reachable G alloc L h m \<Longrightarrow> hm_try_insert G alloc L m k v = Some (q, m') \<Longrightarrow>
    map_reachable G alloc L h m'"
| removed: "map_reachable G alloc L h m \<Longrightarrow> hm_remove_entry G m k = Ok (o', m') \<Longrightarrow> map_reachable G alloc L h m'"
| reserved: "map_reachable G alloc L h m \<Longrightarrow> hm_reserve G alloc L m c = Some (u, m') \<Longrightarrow> map_reachable G alloc L h m'"
| tried: "map_reachable G alloc L h m \<Longrightarrow> hm_try_reserve G alloc L m c = Some (u, m') \<Longrightarrow> map_reachable G alloc L h m'"
| shrunk: "map_reachable G alloc L h m \<Longrightarrow> hm_shrink_to G alloc L m c = (u, m') \<Longrightarrow> map_reachable G alloc L h m'"
| cleared: "map_reachable G alloc L h m \<Longrightarrow> map_reachable G alloc L h (hm_clear G m)"
| drained: "map_reachable G alloc L h m \<Longrightarrow> raw_drain G (hm_table m) = Ok (kvs, t) \<Longrightarrow>
    map_reachable G alloc L h (m\<lparr>hm_table := t\<rparr>)"
| retained: "map_reachable G alloc L h m \<Longrightarrow> hm_retain G keep (s :: nat) m = (u, s', m') \<Longrightarrow> map_reachable G alloc L h m'"
| cloned: "map_reachable G alloc L h m \<Longrightarrow> \<forall>l z. alloc l = Some z \<longrightarrow> z = fst l \<Longrightarrow>
    hm_clone G alloc L Some m rest = Ok m' \<Longrightarrow> map_reachable G alloc L h m'"
| entry_inserted: "map_reachable G alloc L h m \<Longrightarrow> hm_entry G m k = Ok e \<Longrightarrow>
    entry_insert G alloc L m e v = Some (i, m') \<Longrightarrow> map_reachable G alloc L h m'"
| or_inserted: "map_reachable G alloc L h m \<Longrightarrow> hm_entry G m k = Ok e \<Longrightarrow>
    entry_or_insert_with_key G alloc L m e d = Some (i, m') \<Longrightarrow> map_reachable G alloc L h m'"
| modified: "map_reachable G alloc L h m \<Longrightarrow> hm_entry G m k = Ok e \<Longrightarrow>
    entry_and_modify m e g = Ok (e', m') \<Longrightarrow> map_reachable G alloc L h m'"
| replaced: "map_reachable G alloc L h m \<Longrightarrow> hm_entry G m k = Ok e \<Longrightarrow>
    entry_and_replace_entry_with G m e f = Ok (e', m') \<Longrightarrow> map_reachable G alloc L h m'"
| occupied_inserted: "map_reachable G alloc L h m \<Longrightarrow> hm_entry G m k = Ok (Occupied hash b) \<Longrightarrow>
    occupied_insert m b v = Ok (old, m') \<Longrightarrow> map_reachable G alloc L h m'"
| occupied_removed: "map_reachable G alloc L h m \<Longrightarrow> hm_entry G m k = Ok (Occupied hash b) \<Longrightarrow>
    occupied_remove_entry G m b = Ok (kv, m') \<Longrightarrow> map_reachable G alloc L h m'"

context group_laws
begin

lemma hm_with_hasher_view:
  assumes "\<forall>k. hb k = None \<or> hb k = Some (h k)"
  shows "hm_inv G h (hm_with_hasher G hb :: ('k, 'v) hash_map)"
    and "hm_view (hm_with_hasher G hb :: ('k, 'v) hash_map) = Map.empty"
proof -
  have "raw_inv G (h \<circ> fst) (raw_table_new G :: ('k \<times> 'v) raw_table)"
    "elements (raw_table_new G :: ('k \<times> 'v) raw_table) = {#}"
    by (rule raw_table_new_inv raw_table_new_elements)+
  then show "hm_inv G h (hm_with_hasher G hb :: ('k, 'v) hash_map)"
    "hm_view (hm_with_hasher G hb :: ('k, 'v) hash_map) = Map.empty"
    using assms by (simp_all add: hm_inv_def hm_view_def hm_with_hasher_def elements_bucket_list)
qed

lemma hm_clear_view:
  assumes inv: "hm_inv G h m"
  shows "hm_inv G h (hm_clear G m)" and "hm_view (hm_clear G m) = Map.empty"
proof -
  have "raw_inv G (h \<circ> fst) (hm_table m)" using inv by (simp add: hm_inv_def)
  note c = raw_clear_spec [OF this]
  then show "hm_inv G h (hm_clear G m)" "hm_view (hm_clear G m) = Map.empty"
    using inv by (simp_all add: hm_inv_def hm_view_def hm_clear_def elements_bucket_list)
qed

lemma hm_remove_entry_panic: "hash_builder m k = None \<Longrightarrow> hm_remove_entry G m k = Err HasherPanic"
  by (simp add: hm_remove_entry_def make_hash_def)

lemma hm_entry_at:
  assumes "hm_inv G h m" and "hm_entry G m k = Ok e"
  shows "entry_at h m k e"
  using assms hm_entry_spec [OF assms(1), of k]
  by (cases rule: make_hash_cases [OF assms(1), where k = k]) (auto simp: hm_entry_def make_hash_def)

end

context raw_alloc
begin

lemma hm_try_insert_inv:
  assumes "hm_inv G h m" and "hm_try_insert G alloc L m k v = Some (q, m')"
  shows "hm_inv G h m'"
  using assms(1)
proof (cases rule: make_hash_cases [where k = k])
  case panic
  then show ?thesis using assms by (simp add: hm_try_insert_def hm_entry_def)
next
  case hash
  then have "hash_builder m k = Some (h k)" by (simp add: make_hash_def ok_or_eq_Ok)
  then show ?thesis using hm_try_insert_view [OF assms(1), of k v] assms(2) by auto
qed

lemma map_reachable_inv:
  fixes m :: "('k, 'v) hash_map"
  shows "map_reachable G alloc L h m \<Longrightarrow> hm_inv G h m"
proof (induction rule: map_reachable.induct)
  case (new hb)
  then show ?case by (rule hm_with_hasher_view(1))
next
  case (with_capacity hb c m)
  then show ?case
    using hm_with_capacity_view [where c = c and hb = hb and h = h and ?'v = 'v] empty_hm_inv(1) [of h m] by simp
next
  case (panics_change m hb)
  then show ?case by (simp add: hm_inv_def)
next
  case (inserted m k v r m')
  then show ?case using hm_insert_view [of h m k v] by auto
next
  case (try_inserted m k v q m')
  from hm_try_insert_inv [OF try_inserted.IH try_inserted(2)] show ?case .
next
  case (removed m k o' m')
  from removed.IH show ?case
    using removed hm_remove_view [of h m k] hm_remove_entry_panic [of m k]
    by (cases rule: make_hash_cases [where k = k]) auto
next
  case (reserved m c u m')
  then show ?case using hm_reserve_view(1) [of h m c] by auto
next
  case (tried m c u m')
  then show ?case using hm_reserve_view(2) [of h m c] by auto
next
  case (shrunk m c u m')
  then show ?case using hm_shrink_to_view [of h m c] by (cases u) auto
next
  case (cleared m)
  then show ?case using hm_clear_view(1) by blast
next
  case (drained m kvs t)
  then show ?case
    using raw_drain_spec [of "h \<circ> fst" "hm_table m"] by (auto simp: hm_inv_def elements_bucket_list)
next
  case (retained m keep s u s' m')
  then show ?case using hm_retain_view [of h m keep s] by auto
next
  case (cloned m rest m')
  then show ?case using hm_clone_view [of h m rest] by simp
next
  case (entry_inserted m k e v i m')
  then show ?case using hm_entry_at [of h m k e] entry_insert_view [of h m k e v] by auto
next
  case (or_inserted m k e d i m')
  then show ?case using hm_entry_at [of h m k e] entry_or_insert_view [of h m k e d] by auto
next
  case (modified m k e g e' m')
  then show ?case using hm_entry_at [of h m k e] entry_and_modify_view [of h m k e g] by auto
next
  case (replaced m k e f e' m')
  then show ?case using hm_entry_at [of h m k e] entry_replace_view [of h m k e f] by auto
next
  case (occupied_inserted m k hash b v old m')
  then show ?case using hm_entry_at [of h m k "Occupied hash b"] occupied_insert_view [of h m k hash b v] by auto
next
  case (occupied_removed m k hash b kv m')
  then show ?case using hm_entry_at [of h m k "Occupied hash b"] occupied_remove_view [of h m k hash b] by auto
qed

text \<open>An insertion into a map with room does not allocate and does not fail.\<close>

lemma hm_insert_room:
  assumes "hm_inv G h m" and "0 < growth_left (hm_table m)" and "hash_builder m k = Some (h k)"
  shows "\<exists>m'. hm_insert G alloc L m k v = Some (Ok (hm_view m k), m') \<and> hm_inv G h m'
    \<and> hm_view m' = (hm_view m)(k \<mapsto> v)"
proof -
  obtain r m' where r: "hm_insert G alloc L m k v = Some (r, m')" "hm_inv G h m'"
    "case r of Inl e \<Rightarrow> hm_failure alloc Infallible m e m'
      | Inr old \<Rightarrow> old = hm_view m k \<and> hm_view m' = (hm_view m)(k \<mapsto> v)"
    using hm_insert_view [OF assms(1), of k v] by blast
  show ?thesis
  proof (cases r)
    case (Inl e)
    let ?t = "hm_table m" and ?hs = "make_hasher (hash_builder m)"
    have "raw_inv G (h \<circ> fst) ?t" using assms(1) by (simp add: hm_inv_def)
    from find_or_find_insert_index_spec [OF this] obtain s where
      "find_or_find_insert_index_inner G ?t (h k) (slot_eq ?t (equivalent_key k)) = Ok s" by blast
    then have f: "raw_find_or_find_insert_index G alloc L ?t (h k) (equivalent_key k) ?hs = Some (Ok s, ?t)"
      using assms(2) by (simp add: raw_find_or_find_insert_index_def raw_reserve_def)
    have "e \<in> {UndefinedBehavior, ArithmeticOverflow, DebugAssertion}"
      using r(1) f assms(3) Inl
      by (cases s) (auto simp: hm_insert_def make_hash_def replace_value_def read_slot_def insert_at_index_def
          insert_tagged_at_index_def record_item_insert_at_def and_then_def ok_or_def require_def Let_def
          split: sum.splits option.splits if_splits prod.splits)
    then show ?thesis using r(3) Inl by (auto simp: hm_failure_def alloc_failure_def)
  next
    case (Inr old)
    then show ?thesis using r by auto
  qed
qed

end

section \<open>A table with one element\<close>

text \<open>Used to apply the properties below: four buckets, of which the first is full.\<close>

definition one_element :: "nat \<Rightarrow> 't \<Rightarrow> tag \<Rightarrow> 't raw_table" where
  "one_element w x c = \<lparr>bucket_mask = 3, ctrl = mirror w [c, EMPTY, EMPTY, EMPTY], growth_left = 2, items = 1,
     slots = [Some x, None, None, None]\<rparr>"

lemma one_element_inv:
  assumes "4 \<le> WIDTH G"
  shows "raw_inv G hf (one_element (WIDTH G) x (tag_full (hf x)))" (is "raw_inv G hf ?t")
    and "elements (one_element (WIDTH G) x (tag_full (hf x))) = {#x#}"
    and "0 \<in> full_buckets (one_element (WIDTH G) x (tag_full (hf x)))"
proof -
  let ?ts = "[tag_full (hf x), EMPTY, EMPTY, EMPTY]"
  have n: "num_buckets ?t = 4" by (simp add: one_element_def num_buckets_def)
  have tg: "tags_of ?t = ?ts" using n take_mirror [of ?ts 4 "WIDTH G"] by (simp add: tags_of_def one_element_def)
  have ok: "ctrl_ok G ?t"
    unfolding ctrl_ok_def n tg by (intro conjI exI [of _ 2]) (simp_all add: one_element_def)
  have fb: "full_buckets ?t = {0}"
    unfolding full_buckets_def n tg by (auto simp: less_Suc_eq numeral_eq_Suc)
  have "reach G ?t (hf x) 0"
    unfolding reach_def using in_window_small [of 4 "WIDTH G"] assms n by (intro exI [of _ 0]) simp
  then show "raw_inv G hf ?t"
    using ok n tg fb by (simp add: raw_inv_def count_full_def count_deleted_def one_element_def bucket_mask_to_capacity_def)
  show "elements ?t = {#x#}" by (simp add: elements_def fb) (simp add: one_element_def)
  show "0 \<in> full_buckets ?t" by (simp add: fb)
qed

abbreviation demo_alloc :: allocator where
  "demo_alloc \<equiv> global_allocate (\<lambda>_. True)"

abbreviation demo_map :: "(nat, nat) hash_map" where
  "demo_map \<equiv> hm_with_hasher sse2_group (\<lambda>k. Some (word_of_nat k))"

abbreviation demo_table :: "nat raw_table" where
  "demo_table \<equiv> one_element (WIDTH sse2_group) 5 (tag_full (word_of_nat 5))"

lemma demo_table_inv: "raw_inv sse2_group word_of_nat demo_table" and demo_table_elements: "elements demo_table = {#5#}"
    and demo_table_full: "0 \<in> full_buckets demo_table" and demo_table_mask: "bucket_mask demo_table \<noteq> 0"
proof -
  have "4 \<le> WIDTH sse2_group" by (simp add: WIDTH_def sse2_group_def)
  from one_element_inv [OF this, where hf = word_of_nat and x = "5 :: nat"]
  show "raw_inv sse2_group word_of_nat demo_table" "elements demo_table = {#5#}" "0 \<in> full_buckets demo_table" by auto
  show "bucket_mask demo_table \<noteq> 0" by (simp add: one_element_def)
qed

section \<open>What the tables guarantee\<close>

text \<open>
  The probe sequence of a table with a power of two of buckets, read in groups of a power of two
  of bytes, comes to a group that covers any given bucket, in fewer moves than the table has
  groups and without passing its end.
\<close>

theorem probe_sequence_covers:
  assumes "n = 2 ^ k" and "width = 2 ^ v" and "i < n"
  shows "\<exists>j ps. j < max 1 (n div width) \<and> probe_moves width (n - 1) hash j = Some ps \<and> in_window width n (ps_pos ps) i"
proof -
  obtain j where j: "width * j \<le> n - 1" "in_window width n (probe_pos width n hash j) i" "j < max 1 (n div width)"
    using probe_covers [OF assms] by metis
  have "ps_pos (probe_at width n hash j) = probe_pos width n hash j" by (simp add: probe_at_def)
  then show ?thesis using j probe_moves_at [OF assms(1) j(1)] by metis
qed

theorem probe_sequence_covers_witness:
  "\<exists>j ps. j < max 1 (64 div 16) \<and> probe_moves 16 (64 - 1) 12345 j = Some ps \<and> in_window 16 64 (ps_pos ps) 5"
  by (rule probe_sequence_covers [of _ 6 _ 4]) simp_all

text \<open>
  C33: A search always ends. What it finds is a full bucket whose element satisfies the test, and
  when it finds nothing, no element with this hash satisfies it.
\<close>

theorem find_is_complete:
  assumes "group_laws G" and "raw_inv G hf t"
  shows "\<exists>r. raw_find G t hash eq = Ok r
    \<and> (case r of
         Some i \<Rightarrow> i < num_buckets t \<and> is_full (ctrl t ! i) \<and> (\<exists>x. slots t ! i = Some x \<and> x \<in># elements t \<and> eq x)
       | None \<Rightarrow> (\<forall>x\<in>#elements t. hf x = hash \<longrightarrow> \<not> eq x))"
proof -
  obtain r where r: "raw_find G t hash eq = Ok r" "found_spec hf t hash eq r"
    using group_laws.raw_find_spec [OF assms] by blast
  show ?thesis
  proof (cases r)
    case None
    then show ?thesis using r by (auto simp: found_spec_def)
  next
    case (Some i)
    then obtain x where i: "i \<in> full_buckets t" "slots t ! i = Some x" "eq x" using r(2) by (auto simp: found_spec_def)
    then have "x \<in># elements t" by (force simp: set_mset_elements)
    then show ?thesis using r(1) Some i by (auto simp: full_buckets_def group_laws.ctrl_nth [OF assms(1)])
  qed
qed

theorem find_is_complete_witness:
  "\<exists>r. raw_find sse2_group demo_table 5 (\<lambda>x. x = 5) = Ok r
    \<and> (case r of
         Some i \<Rightarrow> i < num_buckets demo_table \<and> is_full (ctrl demo_table ! i)
           \<and> (\<exists>x. slots demo_table ! i = Some x \<and> x \<in># elements demo_table \<and> x = 5)
       | None \<Rightarrow> (\<forall>x\<in>#elements demo_table. \<not> (word_of_nat x = (5 :: u64) \<and> x = 5)))"
  using find_is_complete [OF sse2.group_laws_axioms demo_table_inv, of 5 "\<lambda>x. x = 5"]
  by (auto split: option.splits)

text \<open>
  C36: Erasing the element of a full bucket succeeds, takes exactly that element out, keeps the
  number of buckets and every other slot, and keeps the invariant, so that every other element
  stays within reach of its searches, whether the bucket becomes empty or a tombstone.
\<close>

theorem erase_keeps_table:
  assumes "group_laws G" and "raw_inv G hf t" and "i \<in> full_buckets t"
  shows "\<exists>x t'. erase G t i = Ok t' \<and> slots t ! i = Some x \<and> elements t = add_mset x (elements t')
    \<and> raw_inv G hf t' \<and> bucket_mask t' = bucket_mask t \<and> slots t' = slots t
    \<and> (ctrl t' ! i = EMPTY \<or> ctrl t' ! i = DELETED)"
proof -
  obtain t' x where e: "erase G t i = Ok t'" "raw_inv G hf t'" "slots t ! i = Some x"
    "elements t = add_mset x (elements t')" "bucket_mask t' = bucket_mask t" "slots t' = slots t"
    "tags_of t' = (tags_of t)[i := EMPTY] \<or> tags_of t' = (tags_of t)[i := DELETED]"
    using group_laws.erase_inv [OF assms] by metis
  have "i < num_buckets t'" "i < length (tags_of t)"
    using assms(2,3) e(5) by (auto simp: full_buckets_def raw_inv_def ctrl_ok_def num_buckets_def)
  then have "ctrl t' ! i = EMPTY \<or> ctrl t' ! i = DELETED" using e(7) by (auto simp: group_laws.ctrl_nth [OF assms(1)])
  with e show ?thesis by blast
qed

theorem erase_keeps_table_witness:
  "\<exists>x t'. erase sse2_group demo_table 0 = Ok t' \<and> slots demo_table ! 0 = Some x
    \<and> elements demo_table = add_mset x (elements t')
    \<and> raw_inv sse2_group word_of_nat t' \<and> bucket_mask t' = bucket_mask demo_table \<and> slots t' = slots demo_table
    \<and> (ctrl t' ! 0 = EMPTY \<or> ctrl t' ! 0 = DELETED)"
  by (rule erase_keeps_table [OF sse2.group_laws_axioms demo_table_inv demo_table_full])

definition demo_map1 :: "(nat, nat) hash_map" where
  "demo_map1 = \<lparr>hash_builder = (\<lambda>k. Some (word_of_nat k)),
     hm_table = one_element (WIDTH sse2_group) (5, 6) (tag_full (word_of_nat 5))\<rparr>"

lemma demo_map1_inv: "hm_inv sse2_group word_of_nat demo_map1"
proof -
  let ?t = "one_element (WIDTH sse2_group) (5::nat, 6::nat) (tag_full (word_of_nat 5))"
  have "raw_inv sse2_group (word_of_nat \<circ> fst) ?t" "elements ?t = {#(5, 6)#}"
    using one_element_inv [where G = sse2_group and x = "(5::nat, 6::nat)" and hf = "word_of_nat \<circ> fst"] by (simp_all add: WIDTH_def sse2_group_def)
  then show ?thesis by (simp add: hm_inv_def demo_map1_def elements_bucket_list)
qed

text \<open>
  C34: Rehashing in place always ends and leaves a table in its invariant without tombstones, of
  the same size. It keeps the elements. When the hash function panics, the table ends with exactly
  the elements that its loop had rehashed by then (those in full buckets of the table \<open>t2\<close> in which
  the loop stopped), and those still pending (in deleted buckets of \<open>t2\<close>), of which one made the
  hash function panic, are the ones that are dropped.
\<close>

theorem rehash_is_panic_safe:
  assumes "group_laws G" and "raw_inv G hf t" and "bucket_mask t \<noteq> 0" and "hasher_ok hf hasher t"
  shows "\<exists>r t'. rehash_in_place G hasher t = Some (r, t') \<and> raw_inv G hf t' \<and> DELETED \<notin> set (tags_of t')
    \<and> num_buckets t' = num_buckets t
    \<and> growth_left t' + items t' = bucket_mask_to_capacity (bucket_mask t')
    \<and> (case r of
         Inl e \<Rightarrow> e = HasherPanic \<and>
           (\<exists>t2. rehash_loop (num_buckets t + 1) G hasher (prepare_rehash_in_place G t) [0..<num_buckets t]
               = Some (Err HasherPanic, t2)
             \<and> elements t' = elements t2 \<and> elements t = elements t2 + pending_elements t2
             \<and> (\<exists>x\<in>#pending_elements t2. hasher x = None))
       | Inr _ \<Rightarrow> elements t' = elements t)"
proof -
  obtain r t' where r: "rehash_in_place G hasher t = Some (r, t')" "raw_inv G hf t'" "count_deleted t' = 0"
    "bucket_mask t' = bucket_mask t"
    "case r of
         Inl e \<Rightarrow> e = HasherPanic \<and>
           (\<exists>t2. rehash_loop (num_buckets t + 1) G hasher (prepare_rehash_in_place G t) [0..<num_buckets t]
               = Some (Err HasherPanic, t2)
             \<and> elements t' = elements t2 \<and> elements t = elements t2 + pending_elements t2
             \<and> (\<exists>x\<in>#pending_elements t2. hasher x = None))
       | Inr _ \<Rightarrow> elements t' = elements t"
    using group_laws.rehash_in_place_exact [OF assms] by blast
  moreover have "growth_left t' + items t' = bucket_mask_to_capacity (bucket_mask t')"
    using r(2,3) by (simp add: raw_inv_def)
  ultimately show ?thesis
    by (intro exI [of _ r] exI [of _ t']) (simp add: count_deleted_0 [symmetric] num_buckets_def)
qed

theorem rehash_is_panic_safe_witness:
  "\<exists>r t'. rehash_in_place sse2_group (\<lambda>_. None) demo_table = Some (r, t') \<and> raw_inv sse2_group word_of_nat t'
    \<and> DELETED \<notin> set (tags_of t') \<and> num_buckets t' = num_buckets demo_table
    \<and> growth_left t' + items t' = bucket_mask_to_capacity (bucket_mask t')
    \<and> (case r of
         Inl e \<Rightarrow> e = HasherPanic \<and>
           (\<exists>t2. rehash_loop (num_buckets demo_table + 1) sse2_group (\<lambda>_. None)
                 (prepare_rehash_in_place sse2_group demo_table) [0..<num_buckets demo_table]
               = Some (Err HasherPanic, t2)
             \<and> elements t' = elements t2 \<and> elements demo_table = elements t2 + pending_elements t2
             \<and> (\<exists>x\<in>#pending_elements t2. (None :: u64 option) = None))
       | Inr _ \<Rightarrow> elements t' = elements demo_table)"
  by (rule rehash_is_panic_safe [OF sse2.group_laws_axioms demo_table_inv demo_table_mask])
     (simp add: hasher_ok_def)

text \<open>
  C35: Reserving always ends. When it succeeds the table has the same elements and room for the
  additional ones; a capacity overflow or a refused allocation leaves the table as it was; and
  after a panic of the hash function the table is still in its invariant.
\<close>

theorem try_reserve_makes_room:
  assumes "raw_alloc G alloc sz al" and "raw_inv G hf t" and "hasher_ok hf hasher t"
  shows "\<exists>r t'. raw_try_reserve G alloc (table_layout_new (WIDTH G) sz al) t additional hasher = Some (r, t')
    \<and> raw_inv G hf t'
    \<and> (case r of
         Inr _ \<Rightarrow> elements t' = elements t \<and> additional \<le> growth_left t'
       | Inl e \<Rightarrow> t' = t \<and> (e = CapacityOverflow \<or> (\<exists>l. alloc l = None \<and> e = AllocError l))
           \<or> e = HasherPanic \<and> (\<exists>x\<in>#elements t. hasher x = None) \<and> elements t' \<subseteq># elements t)"
proof -
  obtain r t' where r: "raw_try_reserve G alloc (table_layout_new (WIDTH G) sz al) t additional hasher = Some (r, t')"
    "raw_inv G hf t'" "case r of Inl e \<Rightarrow> grow_failure alloc Fallible hasher t e t'
      | Inr _ \<Rightarrow> elements t' = elements t \<and> additional \<le> growth_left t'"
    using raw_alloc.raw_try_reserve_spec [OF assms] by blast
  then show ?thesis
    by (intro exI [of _ r] exI [of _ t']) (auto simp: grow_failure_def alloc_failure_def split: sum.splits if_splits)
qed

theorem try_reserve_makes_room_witness:
  "\<exists>r t'. raw_try_reserve sse2_group demo_alloc (table_layout_new (WIDTH sse2_group) 16 8) demo_table 9
      (\<lambda>x. Some (word_of_nat x)) = Some (r, t')
    \<and> raw_inv sse2_group word_of_nat t'
    \<and> (case r of
         Inr _ \<Rightarrow> elements t' = elements demo_table \<and> 9 \<le> growth_left t'
       | Inl e \<Rightarrow> t' = demo_table \<and> (e = CapacityOverflow \<or> (\<exists>l. demo_alloc l = None \<and> e = AllocError l))
           \<or> e = HasherPanic \<and> (\<exists>x\<in>#elements demo_table. Some (word_of_nat x :: u64) = None)
             \<and> elements t' \<subseteq># elements demo_table)"
  by (rule try_reserve_makes_room [OF sse2_global.raw_alloc_axioms demo_table_inv]) (simp add: hasher_ok_def)

text \<open>
  C30: Inserting into a hash map is inserting into the partial map it represents: the answer is
  the value the key had, the key then has the new value, and nothing else changes. It always ends;
  a failed allocation leaves the map as it was and a panic while hashing adds nothing.
\<close>

theorem insert_refines_map_update:
  assumes "raw_alloc G alloc sz al" and "hm_inv G h m"
  shows "\<exists>r m'. hm_insert G alloc (table_layout_new (WIDTH G) sz al) m k v = Some (r, m') \<and> hm_inv G h m'
    \<and> (case r of
         Inr old \<Rightarrow> old = hm_view m k \<and> hm_view m' = (hm_view m)(k \<mapsto> v)
       | Inl e \<Rightarrow> if e = HasherPanic then hm_view m' \<subseteq>\<^sub>m hm_view m \<and> (\<exists>k'. hash_builder m k' = None)
           else m' = m \<and> (e = PanicCapacityOverflow \<or> (\<exists>l. alloc l = None \<and> e = AbortAllocError l)))"
proof -
  obtain r m' where r: "hm_insert G alloc (table_layout_new (WIDTH G) sz al) m k v = Some (r, m')" "hm_inv G h m'"
    "case r of Inl e \<Rightarrow> hm_failure alloc Infallible m e m'
      | Inr old \<Rightarrow> old = hm_view m k \<and> hm_view m' = (hm_view m)(k \<mapsto> v)"
    using raw_alloc.hm_insert_view [OF assms] by blast
  then show ?thesis
    by (intro exI [of _ r] exI [of _ m']) (auto simp: hm_failure_def alloc_failure_def split: sum.splits)
qed

theorem insert_refines_map_update_witness:
  "\<exists>r m'. hm_insert sse2_group demo_alloc (table_layout_new (WIDTH sse2_group) 16 8) demo_map 1 2 = Some (r, m')
    \<and> hm_inv sse2_group word_of_nat m'
    \<and> (case r of
         Inr old \<Rightarrow> old = hm_view demo_map 1 \<and> hm_view m' = (hm_view demo_map)(1 \<mapsto> 2)
       | Inl e \<Rightarrow> if e = HasherPanic then hm_view m' \<subseteq>\<^sub>m hm_view demo_map \<and> (\<exists>k'. hash_builder demo_map k' = None)
           else m' = demo_map \<and> (e = PanicCapacityOverflow \<or> (\<exists>l. demo_alloc l = None \<and> e = AbortAllocError l)))"
  by (rule insert_refines_map_update [OF sse2_global.raw_alloc_axioms sse2.hm_with_hasher_view(1)]) simp

text \<open>
  C31: Looking up and removing follow the partial map that a hash map represents: \<open>get\<close> and
  \<open>contains_key\<close> read it, and \<open>remove\<close> answers with the value of the key and takes exactly this
  key out. The length is the number of keys.
\<close>

theorem lookup_and_remove_refine_map:
  assumes "group_laws G" and "hm_inv G h m" and "hash_builder m k = Some (h k)"
  shows "hm_get G m k = Ok (hm_view m k) \<and> hm_contains_key G m k = Ok (k \<in> dom (hm_view m))
    \<and> hm_len m = card (dom (hm_view m))
    \<and> (\<exists>m'. hm_remove G m k = Ok (hm_view m k, m') \<and> hm_inv G h m' \<and> hm_view m' = (hm_view m)(k := None)
          \<and> hash_builder m' = hash_builder m)"
  using group_laws.hm_get_view [OF assms] group_laws.hm_remove_view [OF assms] hm_len_card [OF assms(2)] by blast

theorem lookup_and_remove_refine_map_witness:
  "hm_get sse2_group demo_map 1 = Ok (hm_view demo_map 1)
    \<and> hm_contains_key sse2_group demo_map 1 = Ok (1 \<in> dom (hm_view demo_map))
    \<and> hm_len demo_map = card (dom (hm_view demo_map))
    \<and> (\<exists>m'. hm_remove sse2_group demo_map 1 = Ok (hm_view demo_map 1, m') \<and> hm_inv sse2_group word_of_nat m'
          \<and> hm_view m' = (hm_view demo_map)(1 := None) \<and> hash_builder m' = hash_builder demo_map)"
  by (rule lookup_and_remove_refine_map [OF sse2.group_laws_axioms sse2.hm_with_hasher_view(1)])
     (simp_all add: hm_with_hasher_def)

text \<open>
  C32: Every map that a program can build by the steps of \<open>map_reachable\<close> is in its invariant: no
  key has two entries, every entry is within reach of its searches, the counters count, and at
  least one bucket is empty, so every search ends. The steps are creating, inserting, trying to
  insert, removing, reserving, shrinking, clearing, draining, retaining and the operations on
  entries, and cloning where the allocator returns blocks of the requested size; they include
  failed allocations and panics of the hash function, on the key of the operation or on any key of
  the map while it grows or is rehashed.
\<close>

theorem reachable_map_invariant:
  assumes "raw_alloc G alloc sz al" and "map_reachable G alloc (table_layout_new (WIDTH G) sz al) h m"
  shows "hm_inv G h m \<and> EMPTY \<in> set (tags_of (hm_table m))"
proof -
  have inv: "hm_inv G h m" using raw_alloc.map_reachable_inv [OF assms] by simp
  then have ri: "raw_inv G (h \<circ> fst) (hm_table m)" by (simp add: hm_inv_def)
  obtain i where "i < num_buckets (hm_table m)" "tags_of (hm_table m) ! i = EMPTY" using ri by (rule raw_inv_empty_bucket)
  moreover have "length (tags_of (hm_table m)) = num_buckets (hm_table m)" using ri by (simp add: raw_inv_def ctrl_ok_def)
  ultimately show ?thesis using inv by (metis nth_mem)
qed

text \<open>A map made for three entries has room for one, so that it can be filled.\<close>

lemma demo_with_capacity:
  "\<exists>m :: (nat, nat) hash_map. hm_with_capacity sse2_group demo_alloc (table_layout_new (WIDTH sse2_group) 16 8) 3
      (\<lambda>k. Some (word_of_nat k)) = Ok m
    \<and> hm_inv sse2_group word_of_nat m \<and> hm_view m = Map.empty \<and> 0 < growth_left (hm_table m)
    \<and> hash_builder m = (\<lambda>k. Some (word_of_nat k))"
proof -
  let ?L = "table_layout_new (WIDTH sse2_group) 16 8" and ?hb = "\<lambda>k :: nat. Some (word_of_nat k :: u64)"
  have w: "WIDTH sse2_group = 16" by (simp add: WIDTH_def sse2_group_def)
  have pad: "usize_and_not x 15 = x - x mod 16" if "x < 2 ^ 64" for x
    using align_down [of x 4] that by simp
  have "calculate_layout_for 16 ?L 4 = Some ((84, 16), 64)"
    by (simp add: w calculate_layout_for_def table_layout_new_def checked_usize_def usize_bound_def isize_max_def pad)
  moreover have "is_power_of_two 4" using and_bucket_mask [of 4 2] by (simp add: is_power_of_two_def)
  moreover have "capacity_to_buckets 16 3 ?L = Some 4"
    by (simp add: w capacity_to_buckets_def min_cap_def table_layout_new_def)
  ultimately obtain m :: "(nat, nat) hash_map" where m: "hm_with_capacity sse2_group demo_alloc ?L 3 ?hb = Ok m"
    by (simp add: w hm_with_capacity_def raw_with_capacity_def fallible_with_capacity_def new_uninitialized_def
        global_allocate_def)
  from sse2_global.hm_with_capacity_view [where accepts = "\<lambda>_. True" and c = 3 and hb = ?hb and h = word_of_nat and ?'v = nat] m
  have v: "raw_inv sse2_group (word_of_nat \<circ> fst) (hm_table m)" "elements (hm_table m) = {#}" "hash_builder m = ?hb"
    "3 \<le> hm_capacity m" by simp_all
  have "items (hm_table m) = 0" using raw_inv_items [OF v(1)] v(2) by simp
  then have "0 < growth_left (hm_table m)" using v(4) by (simp add: hm_capacity_def raw_capacity_def)
  with m v sse2_global.empty_hm_inv [OF v(1,2)] show ?thesis by simp
qed

text \<open>
  An entry is inserted into a map made for three, and then space for 100 is reserved while every
  call of the hash function panics.
\<close>

theorem reachable_map_invariant_witness:
  "\<exists>m m1 r m2. hm_with_capacity sse2_group demo_alloc (table_layout_new (WIDTH sse2_group) 16 8) 3
      (\<lambda>k. Some (word_of_nat k)) = Ok (m :: (nat, nat) hash_map)
    \<and> hm_insert sse2_group demo_alloc (table_layout_new (WIDTH sse2_group) 16 8) m 5 6 = Some (Ok None, m1)
    \<and> hm_view m1 = [5 \<mapsto> 6]
    \<and> hm_reserve sse2_group demo_alloc (table_layout_new (WIDTH sse2_group) 16 8)
        (m1\<lparr>hash_builder := \<lambda>_. None\<rparr>) 100 = Some (r, m2)
    \<and> hm_inv sse2_group word_of_nat m2 \<and> EMPTY \<in> set (tags_of (hm_table m2))"
proof -
  let ?L = "table_layout_new (WIDTH sse2_group) 16 8" and ?hb = "\<lambda>k :: nat. Some (word_of_nat k :: u64)"
  obtain m :: "(nat, nat) hash_map" where m: "hm_with_capacity sse2_group demo_alloc ?L 3 ?hb = Ok m"
    "hm_inv sse2_group word_of_nat m" "hm_view m = Map.empty" "0 < growth_left (hm_table m)" "hash_builder m = ?hb"
    using demo_with_capacity by blast
  obtain m1 where m1: "hm_insert sse2_group demo_alloc ?L m 5 6 = Some (Ok None, m1)"
    "hm_inv sse2_group word_of_nat m1" "hm_view m1 = [5 \<mapsto> 6]"
    using sse2_global.hm_insert_room [OF m(2,4), of 5 "\<lambda>_. True" 6] m(3,5) by auto
  let ?m1 = "m1\<lparr>hash_builder := \<lambda>_. None\<rparr>"
  have "hm_inv sse2_group word_of_nat ?m1" using m1(2) by (simp add: hm_inv_def)
  then obtain r m2 where m2: "hm_reserve sse2_group demo_alloc ?L ?m1 100 = Some (r, m2)"
    using sse2_global.hm_reserve_view(1) by blast
  have "map_reachable sse2_group demo_alloc ?L word_of_nat m"
    by (rule map_reachable.with_capacity [OF _ m(1)]) simp
  then have "map_reachable sse2_group demo_alloc ?L word_of_nat m1"
    by (rule map_reachable.inserted [OF _ m1(1)])
  then have "map_reachable sse2_group demo_alloc ?L word_of_nat ?m1"
    by (rule map_reachable.panics_change) simp
  then have "map_reachable sse2_group demo_alloc ?L word_of_nat m2"
    by (rule map_reachable.reserved [OF _ m2])
  from reachable_map_invariant [OF sse2_global.raw_alloc_axioms this] m(1) m1(1,3) m2 show ?thesis by blast
qed

text \<open>
  Building a map from a list of pairs, with any size hint, gives the partial map in which the
  last pair of a key counts, unless an allocation fails.
\<close>

theorem from_iter_is_map_of:
  assumes "raw_alloc G alloc sz al" and "\<forall>k. hb k = Some (h k)"
  shows "\<exists>r m. hm_from_iter G alloc (table_layout_new (WIDTH G) sz al) hb hint kvs = Some (r, m) \<and> hm_inv G h m
    \<and> (case r of
         Inr _ \<Rightarrow> hm_view m = map_of (rev kvs)
       | Inl e \<Rightarrow> e = PanicCapacityOverflow \<or> (\<exists>l. alloc l = None \<and> e = AbortAllocError l))"
  using raw_alloc.hm_from_iter_view [OF assms] by (fastforce simp: alloc_failure_def split: sum.splits)

theorem from_iter_is_map_of_witness:
  "\<exists>r m. hm_from_iter sse2_group demo_alloc (table_layout_new (WIDTH sse2_group) 16 8) (\<lambda>k::nat. Some (word_of_nat k)) 2
      [(1, True), (1, False)] = Some (r, m) \<and> hm_inv sse2_group word_of_nat m
    \<and> (case r of
         Inr _ \<Rightarrow> hm_view m = map_of (rev [(1, True), (1, False)])
       | Inl e \<Rightarrow> e = PanicCapacityOverflow \<or> (\<exists>l. demo_alloc l = None \<and> e = AbortAllocError l))"
  by (rule from_iter_is_map_of [OF sse2_global.raw_alloc_axioms]) simp

text \<open>
  The number of buckets chosen for a capacity is a power of two whose load limit holds the
  capacity and whose elements fill at least one unit of alignment; it is refused only when eight
  times the capacity is no 64-bit number.
\<close>

theorem capacity_to_buckets_suffices:
  assumes "rust_layout sz al" and "w = 4 \<or> w = 8 \<or> w = 16" and "0 < cap"
  shows "case capacity_to_buckets w cap (table_layout_new w sz al) of
      None \<Rightarrow> 2 ^ 64 \<le> cap * 8
    | Some b \<Rightarrow> (\<exists>k. b = 2 ^ k \<and> 2 \<le> k \<and> k \<le> 62) \<and> cap \<le> bucket_mask_to_capacity (b - 1)
        \<and> bucket_mask_to_capacity (b - 1) < b \<and> bucket_bytes_at_least_ctrl_align (table_layout_new w sz al) b"
proof (cases "capacity_to_buckets w cap (table_layout_new w sz al)")
  case None
  then have "2 ^ 64 \<le> cap * 8" using capacity_to_buckets_None [of w cap] by (simp add: usize_bound_def)
  then show ?thesis using None by simp
next
  case (Some b)
  note c = capacity_to_buckets_Some [OF Some assms(3)]
  then have "0 < b" by auto
  then show ?thesis
    using Some c bucket_bytes_hold [OF assms Some] bucket_mask_to_capacity_less [of b] by simp
qed

theorem capacity_to_buckets_suffices_witness:
  "case capacity_to_buckets 16 100 (table_layout_new 16 24 8) of
      None \<Rightarrow> 2 ^ 64 \<le> 100 * (8 :: nat)
    | Some b \<Rightarrow> (\<exists>k. b = 2 ^ k \<and> 2 \<le> k \<and> k \<le> 62) \<and> 100 \<le> bucket_mask_to_capacity (b - 1)
        \<and> bucket_mask_to_capacity (b - 1) < b \<and> bucket_bytes_at_least_ctrl_align (table_layout_new 16 24 8) b"
  by (rule capacity_to_buckets_suffices) (simp_all add: rust_layout_8 isize_max_def)

text \<open>
  C39: With groups of 16 bytes, an allocator that returns a larger block than asked for breaks the
  growth of the table into the block: for elements of 5 bytes, 4 buckets need 52 bytes; for a
  block of 64 bytes the code computes 8 buckets, which need 72. The assertion that the
  larger layout fits the block fails.
\<close>

theorem oversized_block_overflow:
  "calculate_layout_for 16 (table_layout_new 16 5 1) 4 = Some ((52, 16), 32)
    \<and> maximum_buckets_in 64 (table_layout_new 16 5 1) 16 = 8
    \<and> calculate_layout_for 16 (table_layout_new 16 5 1) 8 = Some ((72, 16), 48)
    \<and> new_uninitialized sse2_group (\<lambda>_. Some 64) (table_layout_new 16 5 1) 4 Infallible = Err DebugAssertion"
proof -
  let ?L = "table_layout_new 16 5 1"
  have pad: "usize_and_not x 15 = x - x mod 16" if "x < 2 ^ 64" for x
    using align_down [of x 4] that by simp
  have c4: "calculate_layout_for 16 ?L 4 = Some ((52, 16), 32)"
    by (simp add: calculate_layout_for_def table_layout_new_def checked_usize_def usize_bound_def isize_max_def pad)
  moreover have "bit_length 8 = 4"
    by (simp add: bit_length.simps [of 8] bit_length.simps [of 4] bit_length.simps [of 2] bit_length.simps [of "Suc 0"]
        bit_length.simps [of 0])
  then have m: "maximum_buckets_in 64 ?L 16 = 8"
    by (simp add: maximum_buckets_in_def table_layout_new_def prev_pow2_def)
  moreover note m
  moreover have c8: "calculate_layout_for 16 ?L 8 = Some ((72, 16), 48)"
    by (simp add: calculate_layout_for_def table_layout_new_def checked_usize_def usize_bound_def isize_max_def pad)
  moreover have "WIDTH sse2_group = 16" by (simp add: WIDTH_def sse2_group_def)
  moreover have "is_power_of_two 4" using and_bucket_mask [of 4 2] by (simp add: is_power_of_two_def)
  ultimately show ?thesis by (simp add: new_uninitialized_def Let_def)
qed

text \<open>
  C37: \<open>retain\<close> calls its closure once for every entry, in the order of the buckets, and threads
  the closure's state through the calls; the map then has exactly the entries the closure kept, with
  the values it left. For a closure without state this filters the partial map and updates it.
\<close>

theorem retain_filters_map:
  assumes "group_laws G" and "hm_inv G h m"
  shows "(\<exists>kvs m'. map_of kvs = hm_view m \<and> distinct (map fst kvs) \<and> hm_retain G f s m = (Ok (), snd (retain_list f s kvs), m')
      \<and> hm_inv G h m' \<and> hm_view m' = map_of (fst (retain_list f s kvs)))
    \<and> (\<exists>m'. hm_retain G (\<lambda>_ k v. (keep k v, upd k v, ())) () m = (Ok (), (), m') \<and> hm_inv G h m'
      \<and> hm_view m' = (\<lambda>k. Option.bind (hm_view m k) (\<lambda>v. if keep k v then Some (upd k v) else None)))"
    (is "?stateful \<and> ?stateless")
proof
  let ?kvs = "bucket_list (hm_table m)"
  have d: "distinct (map fst ?kvs)" using assms(2) by (simp add: hm_inv_def)
  from group_laws.hm_retain_view [OF assms, of f s] d show ?stateful
    by (intro exI [of _ ?kvs]) (simp add: hm_view_def)
  from group_laws.hm_retain_view [OF assms, of "\<lambda>_ k v. (keep k v, upd k v, ())" "()"] retain_list_stateless [OF d]
  show ?stateless by (auto simp: hm_view_def)
qed

theorem retain_filters_map_witness:
  "(\<exists>kvs m'. map_of kvs = hm_view demo_map1 \<and> distinct (map fst kvs)
      \<and> hm_retain sse2_group (\<lambda>s k v. (k < s, v, Suc s)) 5 demo_map1
        = (Ok (), snd (retain_list (\<lambda>s k v. (k < s, v, Suc s)) 5 kvs), m')
      \<and> hm_inv sse2_group word_of_nat m' \<and> hm_view m' = map_of (fst (retain_list (\<lambda>s k v. (k < s, v, Suc s)) 5 kvs)))
    \<and> (\<exists>m'. hm_retain sse2_group (\<lambda>_ k v. (k < v, v + 1, ())) () demo_map1 = (Ok (), (), m')
      \<and> hm_inv sse2_group word_of_nat m'
      \<and> hm_view m' = (\<lambda>k. Option.bind (hm_view demo_map1 k) (\<lambda>v. if k < v then Some (v + 1) else None)))"
  by (rule retain_filters_map [OF sse2.group_laws_axioms demo_map1_inv])

text \<open>
  C38: With an allocator that returns blocks of exactly the size asked for and elements whose clones
  equal them, the clone of a map has the same entries, is in its invariant and has the same
  capacity. Cloning fails only when the memory of the original's number of buckets is refused: its
  size is no valid layout (a capacity-overflow panic), or the allocator does not provide it. With
  a hash function that does not panic, the clone compares equal to the map, and comparing any
  other map with it decides whether the two represent the same partial map.
\<close>

theorem clone_equals_original:
  assumes "raw_alloc G alloc sz al" and "hm_inv G h m" and "\<forall>k. hash_builder m k = Some (h k)"
    and "\<forall>l z. alloc l = Some z \<longrightarrow> z = fst l" and "hm_inv G h' other"
  shows "case hm_clone G alloc (table_layout_new (WIDTH G) sz al) Some m rest of
      Inr m' \<Rightarrow> hm_inv G h m' \<and> hm_view m' = hm_view m \<and> hm_capacity m' = hm_capacity m
        \<and> hm_eq G m m' = Ok True \<and> hm_eq G other m' = Ok (hm_view other = hm_view m)
    | Inl e \<Rightarrow> (case calculate_layout_for (WIDTH G) (table_layout_new (WIDTH G) sz al) (num_buckets (hm_table m)) of
          None \<Rightarrow> e = PanicCapacityOverflow
        | Some (l, _) \<Rightarrow> alloc l = None \<and> e = AbortAllocError l)"
proof -
  have eq: "hm_eq G x m' = Ok (hm_view x = hm_view m')"
    if "hm_inv G h m'" "hash_builder m' = hash_builder m" "hm_inv G g x" for m' x g
    using group_laws.hm_eq_view [OF raw_alloc.axioms(1) [OF assms(1)] that(3,1)] that(2) assms(3) by simp
  show ?thesis
  proof (cases "hm_clone G alloc (table_layout_new (WIDTH G) sz al) Some m rest")
    case (Inl e)
    then show ?thesis using raw_alloc.hm_clone_view [OF assms(1,2,4), of rest] by (simp add: layout_refused_def)
  next
    case (Inr m')
    then have m': "hm_inv G h m'" "hm_view m' = hm_view m" "hm_capacity m' = hm_capacity m" "hash_builder m' = hash_builder m"
      using raw_alloc.hm_clone_view [OF assms(1,2,4), of rest] by simp_all
    then show ?thesis using Inr eq [OF m'(1,4) assms(2)] eq [OF m'(1,4) assms(5)] by simp
  qed
qed

theorem clone_equals_original_witness:
  "case hm_clone sse2_group demo_alloc (table_layout_new (WIDTH sse2_group) 16 8) Some demo_map1 [] of
      Inr m' \<Rightarrow> hm_inv sse2_group word_of_nat m' \<and> hm_view m' = hm_view demo_map1
        \<and> hm_capacity m' = hm_capacity demo_map1
        \<and> hm_eq sse2_group demo_map1 m' = Ok True \<and> hm_eq sse2_group demo_map m' = Ok (hm_view demo_map = hm_view demo_map1)
    | Inl e \<Rightarrow> (case calculate_layout_for (WIDTH sse2_group) (table_layout_new (WIDTH sse2_group) 16 8)
          (num_buckets (hm_table demo_map1)) of
          None \<Rightarrow> e = PanicCapacityOverflow
        | Some (l, _) \<Rightarrow> demo_alloc l = None \<and> e = AbortAllocError l)"
  by (rule clone_equals_original [OF sse2_global.raw_alloc_axioms demo_map1_inv _ _ sse2.hm_with_hasher_view(1) [of _ word_of_nat]])
     (simp_all add: demo_map1_def global_allocate_def)

text \<open>
  C40: An allocator that returns more than it is asked for breaks cloning. With groups of 8 bytes,
  elements of 8 bytes and an allocator that doubles every request, a table made for 7 elements asks
  for 80 bytes (8 buckets), gets a block of 160 bytes and takes 16 buckets in it: 24 control bytes
  from offset 128, and 8 bytes behind them. Its clone asks for 16 buckets and takes 32, with 40
  control bytes, and as many are copied from offset 128 of the original: 8 bytes more than its
  block has, whatever the 8 bytes behind its control bytes are.
\<close>

theorem clone_reads_out_of_bounds:
  fixes rest :: "tag list"
  assumes "length rest = 8"
  shows "calculate_layout_for 8 (table_layout_new 8 8 8) 8 = Some ((80, 8), 64)
    \<and> doubling_allocate (80, 8) = Some 160
    \<and> calculate_layout_for 8 (table_layout_new 8 8 8) 16 = Some ((152, 8), 128)
    \<and> (\<exists>(t :: nat raw_table) (u :: nat raw_table).
        raw_with_capacity (generic_group 3 :: (64 word, 64 word) group_impl) doubling_allocate (table_layout_new 8 8 8) 7 = Ok t
        \<and> num_buckets t = 16 \<and> length (ctrl t) = 24 \<and> 128 + length (ctrl t) + length rest = 160
        \<and> new_uninitialized (generic_group 3 :: (64 word, 64 word) group_impl) doubling_allocate (table_layout_new 8 8 8)
            (num_buckets t) Infallible = Ok u
        \<and> 128 + num_ctrl_bytes (generic_group 3 :: (64 word, 64 word) group_impl) u = 160 + 8
        \<and> raw_clone (generic_group 3 :: (64 word, 64 word) group_impl) doubling_allocate (table_layout_new 8 8 8) Some t rest
            = Err UndefinedBehavior)"
proof -
  let ?G = "generic_group 3 :: (64 word, 64 word) group_impl"
  let ?t = "fill_empty ?G (uninitialized_table ?G 16) :: nat raw_table"
  note c = clone_doubling(1-5) [where ?'t = nat]
  have u: "raw_clone ?G doubling_allocate (table_layout_new 8 8 8) Some ?t rest = Err UndefinedBehavior"
    by (rule clone_doubling(6)) (simp add: assms)
  show ?thesis
    by (intro conjI; (rule exI [of _ ?t], rule exI [of _ "uninitialized_table ?G 32"])?;
        simp add: c u assms doubling_layouts)
qed

theorem clone_reads_out_of_bounds_witness:
  "\<exists>t :: nat raw_table.
      raw_with_capacity (generic_group 3 :: (64 word, 64 word) group_impl) doubling_allocate (table_layout_new 8 8 8) 7 = Ok t
    \<and> raw_clone (generic_group 3 :: (64 word, 64 word) group_impl) doubling_allocate (table_layout_new 8 8 8) Some t
        (replicate 8 EMPTY) = Err UndefinedBehavior"
  using clone_reads_out_of_bounds [of "replicate 8 EMPTY"] by auto

end
