(* ===== verification/Vow_State.thy ===== *)
theory Vow_State
  imports Vow_Prelude
begin

text \<open>
  The data of the program: its error codes (\<^verbatim>\<open>errors.rs\<close>), constants
  (\<^verbatim>\<open>constants.rs\<close>), events (\<^verbatim>\<open>events.rs\<close>) and the account structs of
  \<^verbatim>\<open>state/*.rs\<close> as records, a field \<open>f\<close> of a struct under the struct's prefix
  (\<open>vs_\<close> for \<open>VowState\<close>, \<open>pc_\<close> for \<open>ProtocolConfig\<close>, and so on).
  Every struct has its Borsh encoding (fields in declaration order, integers
  little-endian, a fixed array as its elements) and its \<open>LEN\<close>, and the lemmas show that
  the two agree. \<open>class_for_stake\<close> and \<open>lock_duration\<close> are the tier table.
\<close>

section \<open>Errors\<close>

datatype vow_error =
    InsufficientStake | StakeOverflow | NotMatured | AlreadyMatured | AlreadyUnstaking
  | NotUnstaking | InvalidAssetId | InvalidOwner | SessionExpired | SessionInactive
  | SessionInvalidated | ProgramNotAllowed | DailyLimitExceeded | LifetimeLimitExceeded
  | VelocityLimitExceeded | InsufficientYieldBalance | AppBlocked | SharePriceOverflow
  | SharesUnderflow | NoRewards | YieldModeUnchanged | ProfileNotFound | ProfileIdTaken
  | TooManyProgramIds | InvalidStakeAccount | Unauthorized | MathOverflow
  | StakeNotDeactivated | EmptyReserve | TreeCapacityExhausted | StakeAccountMismatch
  | IdentityInactive | IdentityAlreadyActive | AppRegistryMismatch | ReserveSufficient
  | SharePriceNotSynced

text \<open>
  The failures of the account constraints (Anchor), of the system program, of a call into
  the stake pool program, and of a Rust panic: arithmetic under
  \<^verbatim>\<open>overflow-checks = true\<close>, an index out of range, an \<open>unwrap\<close> of nothing.
\<close>

datatype anchor_error =
    ConstraintMut | ConstraintHasOne | ConstraintSeeds | ConstraintAddress | ConstraintClose
  | ConstraintTokenMint | ConstraintTokenOwner | AccountNotInitialized
  | AccountDiscriminatorMismatch | AccountNotSigner | AccountSysvarMismatch | InvalidProgramId

datatype system_error =
    AccountAlreadyInUse | ResultWithNegativeLamports | FromMustNotCarryData
  | LamportOverflow | MissingRequiredSignature

datatype error =
    VowErr vow_error
  | AnchorErr anchor_error
  | SystemErr system_error
  | CpiErr u32
  | Panicked

type_synonym 'a result = "error + 'a"

text \<open>The plain operators of a build with overflow checks: a panic instead of a wrap.\<close>

definition add_ov :: "'a::len word \<Rightarrow> 'a word \<Rightarrow> 'a word result" where
  "add_ov x y = ok_or (checked_add x y) Panicked"

definition sub_ov :: "'a::len word \<Rightarrow> 'a word \<Rightarrow> 'a word result" where
  "sub_ov x y = ok_or (checked_sub x y) Panicked"

definition mul_ov :: "'a::len word \<Rightarrow> 'a word \<Rightarrow> 'a word result" where
  "mul_ov x y = ok_or (checked_mul x y) Panicked"

definition signed_add_ov :: "'a::len word \<Rightarrow> 'a word \<Rightarrow> 'a word result" where
  "signed_add_ov x y = ok_or (signed_checked_add x y) Panicked"

definition signed_sub_ov :: "'a::len word \<Rightarrow> 'a word \<Rightarrow> 'a word result" where
  "signed_sub_ov x y = ok_or (signed_checked_sub x y) Panicked"

definition signed_mul_ov :: "'a::len word \<Rightarrow> 'a word \<Rightarrow> 'a word result" where
  "signed_mul_ov x y = ok_or (signed_checked_mul x y) Panicked"

lemma ov_eq_Ok [res_simps]:
  "add_ov x y = Inr z \<longleftrightarrow> unat z = unat x + unat y"
  "sub_ov x y = Inr z \<longleftrightarrow> unat x = unat z + unat y"
  "mul_ov x y = Inr z \<longleftrightarrow> unat z = unat x * unat y"
  by (simp_all add: add_ov_def sub_ov_def mul_ov_def res_simps)

lemma signed_ov_eq_Ok [res_simps]:
  "signed_add_ov x y = Inr z \<longleftrightarrow> sint z = sint x + sint y"
  "signed_sub_ov x y = Inr z \<longleftrightarrow> sint z = sint x - sint y"
  "signed_mul_ov x y = Inr z \<longleftrightarrow> sint z = sint x * sint y"
  by (simp_all add: signed_add_ov_def signed_sub_ov_def signed_mul_ov_def res_simps)

section \<open>Constants\<close>

definition SHARE_PRECISION :: u128 where
  "SHARE_PRECISION = 1000000000000"

definition SPL_STAKE_POOL_PROGRAM_ID :: string where
  "SPL_STAKE_POOL_PROGRAM_ID = ''XPoo1Fx6KNgeAzFcq2dPTo95bWGUSj5KdPVqYj9CZux''"

definition LAMPORTS_PER_XNT :: u64 where
  "LAMPORTS_PER_XNT = 1000000000"

definition MIN_STAKE_LAMPORTS :: u64 where
  "MIN_STAKE_LAMPORTS = LAMPORTS_PER_XNT"

definition LOCK_SECONDS :: "i64 list" where
  "LOCK_SECONDS =
     [30 * 86400, 90 * 86400, 180 * 86400, 365 * 86400,
      547 * 86400, 730 * 86400, 1095 * 86400, 1825 * 86400]"

definition CLASS_NAMES :: "string list" where
  "CLASS_NAMES =
     [''Ruby'', ''Opal'', ''Topaz'', ''Emerald'', ''Aquamarine'', ''Sapphire'',
      ''Amethyst'', ''Xenturion'']"

lemma unat_SHARE_PRECISION [simp]: "unat SHARE_PRECISION = 1000000000000"
  by (simp add: SHARE_PRECISION_def)

lemma SHARE_PRECISION_neq_0 [simp]: "SHARE_PRECISION \<noteq> 0"
  by (simp add: SHARE_PRECISION_def)

lemma unat_LAMPORTS_PER_XNT [simp]: "unat LAMPORTS_PER_XNT = 1000000000"
  by (simp add: LAMPORTS_PER_XNT_def)

section \<open>Account structs\<close>

datatype yield_mode = Compound | Hybrid | Treasury

fun yield_mode_to_u8 :: "yield_mode \<Rightarrow> u8" where
  "yield_mode_to_u8 Compound = 0"
| "yield_mode_to_u8 Hybrid = 1"
| "yield_mode_to_u8 Treasury = 2"

record vow_state =
  vs_asset_id :: pubkey
  vs_owner :: pubkey
  vs_class :: u8
  vs_nonce :: u64
  vs_principal_lamports :: u64
  vs_shares :: u128
  vs_last_share_price :: u128
  vs_accrued_gain :: i64
  vs_yield_mode :: yield_mode
  vs_yield_balance :: u64
  vs_total_harvested :: u64
  vs_created_at :: i64
  vs_unlock_at :: i64
  vs_matured :: bool
  vs_sessions_invalidated_at :: i64
  vs_active_stake :: bool
  vs_session_nonce :: u64
  vs_first_staked_at :: i64
  vs_current_stake_started_at :: i64
  vs_total_commitments :: u32
  vs_total_fulfilled :: u32
  vs_cumulative_stake_days :: u64
  vs_highest_class_ever :: u8
  vs_bump :: u8

record protocol_config =
  pc_admin :: pubkey
  pc_current_share_price :: u128
  pc_total_shares :: u128
  pc_total_yield_claims :: u64
  pc_last_pool_lamports :: u64
  pc_total_minted :: u64
  pc_merkle_tree :: pubkey
  pc_total_pending_unstake :: u64
  pc_spl_stake_pool :: pubkey
  pc_spl_pool_mint :: pubkey
  pc_reserve_bump :: u8
  pc_bump :: u8

record session_account =
  sa_vow_state :: pubkey
  sa_session_key :: pubkey
  sa_allowed_program_ids :: "pubkey list" \<comment> \<open>8 entries\<close>
  sa_program_count :: u8
  sa_session_index :: u32
  sa_creation_nonce :: u64
  sa_start_ts :: i64
  sa_expiry_ts :: i64
  sa_daily_limit :: u64
  sa_lifetime_limit :: u64
  sa_velocity_limit :: u32
  sa_spent_today :: u64
  sa_spent_total :: u64
  sa_tx_count_today :: u32
  sa_last_reset_day :: i64
  sa_active :: bool
  sa_bump :: u8

record unstake_escrow =
  ue_vow_state :: pubkey
  ue_owner :: pubkey
  ue_lamports_owed :: u64
  ue_deactivation_epoch :: u64
  ue_bump :: u8

record app_registry =
  ar_program_id :: pubkey
  ar_verified :: bool
  ar_blocked :: bool
  ar_registered_at :: i64
  ar_bump :: u8

record authority_profile =
  ap_wallet :: pubkey
  ap_profile_id :: "byte list" \<comment> \<open>8 bytes\<close>
  ap_default_daily_limit :: u64
  ap_default_lifetime_limit :: u64
  ap_default_expiry_days :: u32
  ap_default_allowed_program_ids :: "pubkey list" \<comment> \<open>8 entries\<close>
  ap_program_count :: u8
  ap_metadata_uri :: "byte list" \<comment> \<open>128 bytes\<close>
  ap_uri_len :: u8
  ap_created_at :: i64
  ap_bump :: u8

record commitment_record =
  cr_wallet :: pubkey
  cr_total_xnfts_minted :: u32
  cr_total_xnt_committed :: u64
  cr_total_xnt_fulfilled :: u64
  cr_highest_class_ever :: u8
  cr_total_commitment_days :: u64
  cr_commitment_score :: u32
  cr_last_updated :: i64
  cr_bump :: u8

record cr_gate =
  cg_bump :: u8

section \<open>Layout\<close>

text \<open>
  The Borsh encoding of each account and the \<open>LEN\<close> its \<open>init\<close> constraint allocates,
  the 8-byte discriminator of the account type included.
\<close>

definition enc_bool :: "bool \<Rightarrow> byte list" where
  "enc_bool b = [if b then 1 else 0]"

definition enc_pubkeys :: "pubkey list \<Rightarrow> byte list" where
  "enc_pubkeys ks = concat (map pubkey_bytes ks)"

definition enc_vow_state :: "vow_state \<Rightarrow> byte list" where
  "enc_vow_state v =
     pubkey_bytes (vs_asset_id v) @ pubkey_bytes (vs_owner v) @ [vs_class v] @
     u64_to_le_bytes (vs_nonce v) @ u64_to_le_bytes (vs_principal_lamports v) @
     u128_to_le_bytes (vs_shares v) @ u128_to_le_bytes (vs_last_share_price v) @
     u64_to_le_bytes (vs_accrued_gain v) @ [yield_mode_to_u8 (vs_yield_mode v)] @
     u64_to_le_bytes (vs_yield_balance v) @ u64_to_le_bytes (vs_total_harvested v) @
     u64_to_le_bytes (vs_created_at v) @ u64_to_le_bytes (vs_unlock_at v) @
     enc_bool (vs_matured v) @ u64_to_le_bytes (vs_sessions_invalidated_at v) @
     enc_bool (vs_active_stake v) @ u64_to_le_bytes (vs_session_nonce v) @
     u64_to_le_bytes (vs_first_staked_at v) @
     u64_to_le_bytes (vs_current_stake_started_at v) @
     u32_to_le_bytes (vs_total_commitments v) @ u32_to_le_bytes (vs_total_fulfilled v) @
     u64_to_le_bytes (vs_cumulative_stake_days v) @ [vs_highest_class_ever v] @ [vs_bump v]"

definition VowState_LEN :: nat where
  "VowState_LEN = 8 + 32 + 32 + 1 + 8 + 8 + 16 + 16 + 8 + 1 + 8 + 8 + 8 + 8 + 1 + 8 + 1 + 8
     + 8 + 8 + 4 + 4 + 8 + 1 + 1"

definition enc_protocol_config :: "protocol_config \<Rightarrow> byte list" where
  "enc_protocol_config c =
     pubkey_bytes (pc_admin c) @ u128_to_le_bytes (pc_current_share_price c) @
     u128_to_le_bytes (pc_total_shares c) @ u64_to_le_bytes (pc_total_yield_claims c) @
     u64_to_le_bytes (pc_last_pool_lamports c) @ u64_to_le_bytes (pc_total_minted c) @
     pubkey_bytes (pc_merkle_tree c) @ u64_to_le_bytes (pc_total_pending_unstake c) @
     pubkey_bytes (pc_spl_stake_pool c) @ pubkey_bytes (pc_spl_pool_mint c) @
     [pc_reserve_bump c] @ [pc_bump c]"

definition ProtocolConfig_LEN :: nat where
  "ProtocolConfig_LEN = 8 + 32 + 16 + 16 + 8 + 8 + 8 + 32 + 8 + 32 + 32 + 1 + 1"

definition enc_session_account :: "session_account \<Rightarrow> byte list" where
  "enc_session_account a =
     pubkey_bytes (sa_vow_state a) @ pubkey_bytes (sa_session_key a) @
     enc_pubkeys (sa_allowed_program_ids a) @ [sa_program_count a] @
     u32_to_le_bytes (sa_session_index a) @ u64_to_le_bytes (sa_creation_nonce a) @
     u64_to_le_bytes (sa_start_ts a) @ u64_to_le_bytes (sa_expiry_ts a) @
     u64_to_le_bytes (sa_daily_limit a) @ u64_to_le_bytes (sa_lifetime_limit a) @
     u32_to_le_bytes (sa_velocity_limit a) @ u64_to_le_bytes (sa_spent_today a) @
     u64_to_le_bytes (sa_spent_total a) @ u32_to_le_bytes (sa_tx_count_today a) @
     u64_to_le_bytes (sa_last_reset_day a) @ enc_bool (sa_active a) @ [sa_bump a]"

definition SessionAccount_LEN :: nat where
  "SessionAccount_LEN = 8 + 32 + 32 + 32 * 8 + 1 + 4 + 8 + 8 + 8 + 8 + 8 + 4 + 8 + 8 + 4 + 8
     + 1 + 1"

definition enc_unstake_escrow :: "unstake_escrow \<Rightarrow> byte list" where
  "enc_unstake_escrow e =
     pubkey_bytes (ue_vow_state e) @ pubkey_bytes (ue_owner e) @
     u64_to_le_bytes (ue_lamports_owed e) @ u64_to_le_bytes (ue_deactivation_epoch e) @
     [ue_bump e]"

definition UnstakeEscrow_LEN :: nat where
  "UnstakeEscrow_LEN = 8 + 32 + 32 + 8 + 8 + 1"

definition enc_app_registry :: "app_registry \<Rightarrow> byte list" where
  "enc_app_registry r =
     pubkey_bytes (ar_program_id r) @ enc_bool (ar_verified r) @ enc_bool (ar_blocked r) @
     u64_to_le_bytes (ar_registered_at r) @ [ar_bump r]"

definition AppRegistry_LEN :: nat where
  "AppRegistry_LEN = 8 + 32 + 1 + 1 + 8 + 1"

definition enc_authority_profile :: "authority_profile \<Rightarrow> byte list" where
  "enc_authority_profile p =
     pubkey_bytes (ap_wallet p) @ ap_profile_id p @
     u64_to_le_bytes (ap_default_daily_limit p) @ u64_to_le_bytes (ap_default_lifetime_limit p) @
     u32_to_le_bytes (ap_default_expiry_days p) @
     enc_pubkeys (ap_default_allowed_program_ids p) @ [ap_program_count p] @
     ap_metadata_uri p @ [ap_uri_len p] @ u64_to_le_bytes (ap_created_at p) @ [ap_bump p]"

definition AuthorityProfile_LEN :: nat where
  "AuthorityProfile_LEN = 8 + 32 + 8 + 8 + 8 + 4 + 32 * 8 + 1 + 128 + 1 + 8 + 1"

definition enc_commitment_record :: "commitment_record \<Rightarrow> byte list" where
  "enc_commitment_record r =
     pubkey_bytes (cr_wallet r) @ u32_to_le_bytes (cr_total_xnfts_minted r) @
     u64_to_le_bytes (cr_total_xnt_committed r) @ u64_to_le_bytes (cr_total_xnt_fulfilled r) @
     [cr_highest_class_ever r] @ u64_to_le_bytes (cr_total_commitment_days r) @
     u32_to_le_bytes (cr_commitment_score r) @ u64_to_le_bytes (cr_last_updated r) @ [cr_bump r]"

definition CommitmentRecord_LEN :: nat where
  "CommitmentRecord_LEN = 8 + 32 + 4 + 8 + 8 + 1 + 8 + 4 + 8 + 1"

definition enc_cr_gate :: "cr_gate \<Rightarrow> byte list" where
  "enc_cr_gate g = [cg_bump g]"

definition CrGate_LEN :: nat where
  "CrGate_LEN = 8 + 1"

text \<open>The arrays of a struct have the length of their type.\<close>

definition session_account_wf :: "session_account \<Rightarrow> bool" where
  "session_account_wf a \<longleftrightarrow>
     length (sa_allowed_program_ids a) = 8 \<and> unat (sa_program_count a) \<le> 8"

definition authority_profile_wf :: "authority_profile \<Rightarrow> bool" where
  "authority_profile_wf p \<longleftrightarrow>
     length (ap_profile_id p) = 8 \<and> length (ap_default_allowed_program_ids p) = 8 \<and>
     length (ap_metadata_uri p) = 128 \<and> unat (ap_program_count p) \<le> 8 \<and>
     unat (ap_uri_len p) \<le> 128"

lemma length_enc_bool [simp]: "length (enc_bool b) = 1"
  by (simp add: enc_bool_def)

lemma length_enc_pubkeys [simp]: "length (enc_pubkeys ks) = 32 * length ks"
  by (induction ks) (simp_all add: enc_pubkeys_def)

text \<open>What \<open>init\<close> leaves in an account before the handler runs: zero bytes.\<close>

definition zero_authority_profile :: authority_profile where
  "zero_authority_profile =
     \<lparr>ap_wallet = 0, ap_profile_id = replicate 8 0, ap_default_daily_limit = 0,
      ap_default_lifetime_limit = 0, ap_default_expiry_days = 0,
      ap_default_allowed_program_ids = replicate 8 0, ap_program_count = 0,
      ap_metadata_uri = replicate 128 0, ap_uri_len = 0, ap_created_at = 0, ap_bump = 0\<rparr>"

definition zero_commitment_record :: commitment_record where
  "zero_commitment_record =
     \<lparr>cr_wallet = 0, cr_total_xnfts_minted = 0, cr_total_xnt_committed = 0,
      cr_total_xnt_fulfilled = 0, cr_highest_class_ever = 0, cr_total_commitment_days = 0,
      cr_commitment_score = 0, cr_last_updated = 0, cr_bump = 0\<rparr>"

section \<open>Tiers\<close>

definition class_for_stake :: "u64 \<Rightarrow> u8 result" where
  "class_for_stake lamports =
     (let xnt = lamports div LAMPORTS_PER_XNT in
      if 1 \<le> xnt \<and> xnt \<le> 100 then Ok 0
      else if 101 \<le> xnt \<and> xnt \<le> 300 then Ok 1
      else if 301 \<le> xnt \<and> xnt \<le> 500 then Ok 2
      else if 501 \<le> xnt \<and> xnt \<le> 1000 then Ok 3
      else if 1001 \<le> xnt \<and> xnt \<le> 2000 then Ok 4
      else if 2001 \<le> xnt \<and> xnt \<le> 5000 then Ok 5
      else if 5001 \<le> xnt \<and> xnt \<le> 10000 then Ok 6
      else if 10001 \<le> xnt then Ok 7
      else Err (VowErr InsufficientStake))"

text \<open>Indexing the table panics beyond its eight entries.\<close>

definition lock_duration :: "u8 \<Rightarrow> i64 result" where
  "lock_duration c =
     (if unat c < length LOCK_SECONDS then Ok (LOCK_SECONDS ! unat c) else Err Panicked)"

section \<open>Session day counters\<close>

definition reset_daily_if_needed :: "session_account \<Rightarrow> i64 \<Rightarrow> session_account" where
  "reset_daily_if_needed a unix_ts =
     (let current_day = signed_div unix_ts 86400 in
      if sint (sa_last_reset_day a) < sint current_day
      then a\<lparr>sa_spent_today := 0, sa_tx_count_today := 0, sa_last_reset_day := current_day\<rparr>
      else a)"

section \<open>Events\<close>

datatype event =
    ProtocolInitialized pubkey pubkey \<comment> \<open>admin, merkle tree\<close>
  | VowMinted pubkey pubkey u8 u64 u128 i64
      \<comment> \<open>asset id, owner, class, stake lamports, shares, unlock at\<close>
  | VowMatured pubkey pubkey u8 \<comment> \<open>asset id, owner, class\<close>
  | VowUnstakeBegun pubkey pubkey u64 \<comment> \<open>asset id, owner, lamports owed\<close>
  | VowUnstaked pubkey pubkey u64 \<comment> \<open>asset id, owner, lamports returned\<close>
  | VowStakeActivated pubkey pubkey u8 u64 u128 i64
      \<comment> \<open>asset id, owner, new class, stake lamports, shares, unlock at\<close>
  | Harvested pubkey pubkey i64 u64 u128
      \<comment> \<open>asset id, owner, gain, yield credited, shares burned\<close>
  | YieldWithdrawn pubkey pubkey u64 \<comment> \<open>asset id, owner, amount\<close>
  | YieldDeposited pubkey pubkey u64 \<comment> \<open>asset id, depositor, amount\<close>
  | YieldSpent pubkey pubkey pubkey u64 pubkey
      \<comment> \<open>asset id, session key, program id, amount, destination\<close>
  | SessionCreated pubkey pubkey i64 u64 \<comment> \<open>vow state, session key, expiry, creation nonce\<close>
  | SessionRevoked pubkey pubkey \<comment> \<open>vow state, session key\<close>
  | SharePriceUpdated u128 u128 u64 u128
      \<comment> \<open>old price, new price, pool lamports, total shares\<close>
  | AppRegistered pubkey
  | AppBlockedEvent pubkey \<comment> \<open>the event \<open>AppBlocked\<close>, whose name the error code has\<close>
  | YieldModeUpdated pubkey u8 u8 \<comment> \<open>asset id, old mode, new mode\<close>
  | StakeAdded pubkey pubkey u64 u64 u8 u8 i64
      \<comment> \<open>asset id, owner, lamports added, new principal, old class, new class, new unlock at\<close>

section \<open>Facts about the data\<close>

lemmas length_layouts =
  enc_vow_state_def VowState_LEN_def enc_protocol_config_def ProtocolConfig_LEN_def
  enc_session_account_def SessionAccount_LEN_def enc_unstake_escrow_def UnstakeEscrow_LEN_def
  enc_app_registry_def AppRegistry_LEN_def enc_authority_profile_def AuthorityProfile_LEN_def
  enc_commitment_record_def CommitmentRecord_LEN_def enc_cr_gate_def CrGate_LEN_def

lemma layouts_fill_LEN:
  assumes "length disc = 8" and "session_account_wf a" and "authority_profile_wf p"
  shows "length (disc @ enc_vow_state v) = VowState_LEN"
    and "length (disc @ enc_protocol_config c) = ProtocolConfig_LEN"
    and "length (disc @ enc_session_account a) = SessionAccount_LEN"
    and "length (disc @ enc_unstake_escrow e) = UnstakeEscrow_LEN"
    and "length (disc @ enc_app_registry r) = AppRegistry_LEN"
    and "length (disc @ enc_authority_profile p) = AuthorityProfile_LEN"
    and "length (disc @ enc_commitment_record k) = CommitmentRecord_LEN"
    and "length (disc @ enc_cr_gate g) = CrGate_LEN"
  using assms
  by (simp_all add: length_layouts session_account_wf_def authority_profile_wf_def)

text \<open>
  The tier table of the documentation: a stake's class is the number of lower bounds it
  reaches, less one.
\<close>

definition tier_bounds :: "nat list" where
  "tier_bounds = [1, 101, 301, 501, 1001, 2001, 5001, 10001]"

definition tier_of_xnt :: "nat \<Rightarrow> nat" where
  "tier_of_xnt xnt = length (filter (\<lambda>b. b \<le> xnt) tier_bounds)"

lemma tier_of_xnt_mono: "x \<le> y \<Longrightarrow> tier_of_xnt x \<le> tier_of_xnt y"
  by (auto simp: tier_of_xnt_def tier_bounds_def)

lemma class_for_stake_table:
  "class_for_stake l =
     (if unat l < 1000000000 then Err (VowErr InsufficientStake)
      else Ok (word_of_nat (tier_of_xnt (unat l div 1000000000) - 1)))"
  by (auto simp: class_for_stake_def Let_def word_le_nat_alt unat_div tier_of_xnt_def
      tier_bounds_def not_less)

lemma class_for_stake_eq_Ok:
  "class_for_stake l = Inr c \<longleftrightarrow>
     1000000000 \<le> unat l \<and> unat c = tier_of_xnt (unat l div 1000000000) - 1"
proof -
  have "tier_of_xnt (unat l div 1000000000) - 1 < 8"
    by (simp add: tier_of_xnt_def tier_bounds_def)
  then show ?thesis
    by (auto simp: class_for_stake_table unat_of_nat word_unat_eq_iff)
qed

lemma class_for_stake_le_7: "class_for_stake l = Inr c \<Longrightarrow> unat c \<le> 7"
  by (auto simp: class_for_stake_eq_Ok tier_of_xnt_def tier_bounds_def)

lemma class_for_stake_mono:
  assumes "class_for_stake a = Inr c" and "unat a \<le> unat b"
  obtains d where "class_for_stake b = Inr d" and "unat c \<le> unat d"
proof -
  from assms have b: "1000000000 \<le> unat b" by (simp add: class_for_stake_eq_Ok)
  then obtain d where d: "class_for_stake b = Inr d"
    by (auto simp: class_for_stake_table)
  have "unat a div 1000000000 \<le> unat b div 1000000000"
    using assms(2) by (rule div_le_mono)
  then have "unat c \<le> unat d"
    using assms(1) d by (auto simp: class_for_stake_eq_Ok intro: diff_le_mono tier_of_xnt_mono)
  with d show ?thesis by (rule that)
qed

lemma length_LOCK_SECONDS [simp]: "length LOCK_SECONDS = 8"
  by (simp add: LOCK_SECONDS_def)

lemma lock_duration_Ok: "unat c \<le> 7 \<Longrightarrow> lock_duration c = Inr (LOCK_SECONDS ! unat c)"
  by (simp add: lock_duration_def)

lemma lock_seconds_bounds:
  assumes "i \<le> 7"
  shows "30 * 86400 \<le> sint (LOCK_SECONDS ! i)" and "sint (LOCK_SECONDS ! i) \<le> 1825 * 86400"
proof -
  from assms have "i \<in> {0, 1, 2, 3, 4, 5, 6, 7}" by auto
  then show "30 * 86400 \<le> sint (LOCK_SECONDS ! i)" and "sint (LOCK_SECONDS ! i) \<le> 1825 * 86400"
    by (auto simp: LOCK_SECONDS_def)
qed

lemma reset_daily_simps [simp]:
  "sa_vow_state (reset_daily_if_needed a t) = sa_vow_state a"
  "sa_session_key (reset_daily_if_needed a t) = sa_session_key a"
  "sa_allowed_program_ids (reset_daily_if_needed a t) = sa_allowed_program_ids a"
  "sa_program_count (reset_daily_if_needed a t) = sa_program_count a"
  "sa_session_index (reset_daily_if_needed a t) = sa_session_index a"
  "sa_start_ts (reset_daily_if_needed a t) = sa_start_ts a"
  "sa_expiry_ts (reset_daily_if_needed a t) = sa_expiry_ts a"
  "sa_daily_limit (reset_daily_if_needed a t) = sa_daily_limit a"
  "sa_lifetime_limit (reset_daily_if_needed a t) = sa_lifetime_limit a"
  "sa_velocity_limit (reset_daily_if_needed a t) = sa_velocity_limit a"
  "sa_spent_total (reset_daily_if_needed a t) = sa_spent_total a"
  "sa_active (reset_daily_if_needed a t) = sa_active a"
  "sa_bump (reset_daily_if_needed a t) = sa_bump a"
  by (simp_all add: reset_daily_if_needed_def Let_def)

section \<open>Properties of the data\<close>

text \<open>
  C10: the space an account is created with is exactly the size of its serialised contents:
  for every account struct, the 8-byte discriminator and the Borsh encoding fill \<open>LEN\<close>.
\<close>

theorem account_sizes_exact:
  assumes "length disc = 8" and "session_account_wf a" and "authority_profile_wf p"
  shows "length (disc @ enc_vow_state v) = VowState_LEN \<and>
    length (disc @ enc_protocol_config c) = ProtocolConfig_LEN \<and>
    length (disc @ enc_session_account a) = SessionAccount_LEN \<and>
    length (disc @ enc_unstake_escrow e) = UnstakeEscrow_LEN \<and>
    length (disc @ enc_app_registry r) = AppRegistry_LEN \<and>
    length (disc @ enc_authority_profile p) = AuthorityProfile_LEN \<and>
    length (disc @ enc_commitment_record k) = CommitmentRecord_LEN \<and>
    length (disc @ enc_cr_gate g) = CrGate_LEN"
  using layouts_fill_LEN [OF assms] by blast

theorem account_sizes_exact_witness:
  "length (replicate 8 1 @ enc_session_account
      \<lparr>sa_vow_state = 6, sa_session_key = 21, sa_allowed_program_ids = replicate 8 20,
       sa_program_count = 8, sa_session_index = 0, sa_creation_nonce = 0, sa_start_ts = 1,
       sa_expiry_ts = 2, sa_daily_limit = 3, sa_lifetime_limit = 4, sa_velocity_limit = 5,
       sa_spent_today = 0, sa_spent_total = 0, sa_tx_count_today = 0, sa_last_reset_day = 0,
       sa_active = True, sa_bump = 255\<rparr>) = SessionAccount_LEN"
  by (rule account_sizes_exact [THEN conjunct2, THEN conjunct2, THEN conjunct1,
        of _ _ zero_authority_profile])
    (simp_all add: session_account_wf_def authority_profile_wf_def zero_authority_profile_def)

text \<open>
  The tier table. A stake below 1 XNT is refused; any other gets the class counted by
  the lower bounds 1, 101, 301, 501, 1001, 2001, 5001 and 10001 XNT that it reaches, and a
  larger stake never gets a lower class.
\<close>

theorem class_for_stake_tiers:
  "class_for_stake l =
     (if unat l < 1000000000 then Err (VowErr InsufficientStake)
      else Ok (word_of_nat (tier_of_xnt (unat l div 1000000000) - 1)))"
  by (rule class_for_stake_table)

end
