(* ===== verification/Vow_Runtime.thy ===== *)
theory Vow_Runtime
  imports Vow_State
begin

text \<open>
  The chain the program runs on, as far as the program uses it: a ledger of lamport
  balances and typed account contents, the transaction that calls the program (clock,
  signers, writable accounts), the account constraints of Anchor (\<open>seeds\<close>, \<open>init\<close>,
  \<open>close\<close>, loading an account of a given type), and the system program's transfer.

  What is not source code of this repository is a parameter, a field of the record
  \<open>env\<close>: address derivation, rent, account discriminators, the well-known addresses,
  keccak, and the stake pool program behind \<open>invoke_signed\<close>. The documented laws of
  address derivation are the predicates \<open>pda_sound\<close> and \<open>pda_collision_free\<close>, which
  the theorems that need them name as hypotheses.

  The interface \<open>account_type\<close> states what an account type promises its clients; it is
  interpreted for every struct of the program.
\<close>

named_theorems ledger_simps \<comment> \<open>reading the ledger after an operation on it\<close>

section \<open>The ledger\<close>

record token_account =
  ta_mint :: pubkey
  ta_authority :: pubkey
  ta_amount :: u64

datatype acct =
    ConfigAcct protocol_config
  | VowAcct vow_state
  | SessionAcct session_account
  | EscrowAcct unstake_escrow
  | AppAcct app_registry
  | ProfileAcct authority_profile
  | RecordAcct commitment_record
  | GateAcct cr_gate
  | TokenAcct token_account
  | MintAcct "byte list"
  | ForeignAcct "byte list" \<comment> \<open>any other account, as its data\<close>

record ledger =
  lg_lamports :: "pubkey \<Rightarrow> u64"
  lg_accts :: "pubkey \<Rightarrow> acct option" \<comment> \<open>\<open>None\<close>: no data, a plain wallet or an unused address\<close>
  lg_executable :: "pubkey \<Rightarrow> bool"
  lg_logs :: "event list"

definition emit :: "event \<Rightarrow> ledger \<Rightarrow> ledger" where
  "emit ev s = s\<lparr>lg_logs := lg_logs s @ [ev]\<rparr>"

definition store :: "pubkey \<Rightarrow> acct \<Rightarrow> ledger \<Rightarrow> ledger" where
  "store k a s = s\<lparr>lg_accts := (lg_accts s)(k := Some a)\<rparr>"

section \<open>The transaction and the environment\<close>

record tx =
  tx_unix_timestamp :: i64
  tx_epoch :: u64
  tx_is_signer :: "pubkey \<Rightarrow> bool"
  tx_is_writable :: "pubkey \<Rightarrow> bool"

record cpi_instruction =
  ix_program_id :: pubkey
  ix_accounts :: "(pubkey \<times> bool \<times> bool) list" \<comment> \<open>key, is signer, is writable\<close>
  ix_data :: "byte list"

record env =
  en_program_id :: pubkey
  en_create_program_address :: "byte list list \<Rightarrow> pubkey \<Rightarrow> pubkey option"
  en_find_program_address :: "byte list list \<Rightarrow> pubkey \<Rightarrow> (pubkey \<times> u8) option"
  en_minimum_balance :: "nat \<Rightarrow> u64"
  en_discriminator :: "string \<Rightarrow> byte list"
  en_pubkey_try_from :: "string \<Rightarrow> pubkey option"
  en_keccak :: "byte list \<Rightarrow> byte list"
  en_system_program :: pubkey
  en_token_program :: pubkey
  en_stake_program :: pubkey
  en_sysvar_clock :: pubkey
  en_sysvar_stake_history :: pubkey
  en_invoke_signed :: "cpi_instruction \<Rightarrow> byte list list \<Rightarrow> ledger \<Rightarrow> ledger result"

text \<open>
  Address derivation as documented: a found address is the one created from the seeds with
  the bump appended, and no two seed lists (as the concatenation that is hashed) give the
  same address.
\<close>

definition pda_sound :: "env \<Rightarrow> bool" where
  "pda_sound E \<longleftrightarrow>
     (\<forall>seeds pid k b. en_find_program_address E seeds pid = Some (k, b) \<longrightarrow>
        en_create_program_address E (seeds @ [[b]]) pid = Some k)"

definition pda_collision_free :: "env \<Rightarrow> bool" where
  "pda_collision_free E \<longleftrightarrow>
     (\<forall>seeds seeds' pid k. en_create_program_address E seeds pid = Some k \<longrightarrow>
        en_create_program_address E seeds' pid = Some k \<longrightarrow> concat seeds = concat seeds')"

section \<open>Account data as bytes\<close>

fun acct_bytes :: "env \<Rightarrow> acct \<Rightarrow> byte list" where
  "acct_bytes E (ConfigAcct c) = en_discriminator E ''ProtocolConfig'' @ enc_protocol_config c"
| "acct_bytes E (VowAcct v) = en_discriminator E ''VowState'' @ enc_vow_state v"
| "acct_bytes E (SessionAcct a) = en_discriminator E ''SessionAccount'' @ enc_session_account a"
| "acct_bytes E (EscrowAcct e) = en_discriminator E ''UnstakeEscrow'' @ enc_unstake_escrow e"
| "acct_bytes E (AppAcct r) = en_discriminator E ''AppRegistry'' @ enc_app_registry r"
| "acct_bytes E (ProfileAcct p) =
     en_discriminator E ''AuthorityProfile'' @ enc_authority_profile p"
| "acct_bytes E (RecordAcct r) =
     en_discriminator E ''CommitmentRecord'' @ enc_commitment_record r"
| "acct_bytes E (GateAcct g) = en_discriminator E ''CrGate'' @ enc_cr_gate g"
| "acct_bytes E (TokenAcct t) =
     pubkey_bytes (ta_mint t) @ pubkey_bytes (ta_authority t) @ u64_to_le_bytes (ta_amount t)"
| "acct_bytes E (MintAcct bs) = bs"
| "acct_bytes E (ForeignAcct bs) = bs"

definition account_data :: "env \<Rightarrow> ledger \<Rightarrow> pubkey \<Rightarrow> byte list" where
  "account_data E s k = (case lg_accts s k of None \<Rightarrow> [] | Some a \<Rightarrow> acct_bytes E a)"

section \<open>Seeds\<close>

definition config_seeds :: "byte list list" where
  "config_seeds = [ascii_bytes ''config'']"

definition reserve_seeds :: "byte list list" where
  "reserve_seeds = [ascii_bytes ''reserve'']"

definition vow_asset_seeds :: "u64 \<Rightarrow> byte list list" where
  "vow_asset_seeds nonce = [ascii_bytes ''vow_asset'', u64_to_le_bytes nonce]"

definition vow_seeds :: "pubkey \<Rightarrow> byte list list" where
  "vow_seeds asset_id = [ascii_bytes ''vow'', pubkey_bytes asset_id]"

definition unstake_seeds :: "pubkey \<Rightarrow> byte list list" where
  "unstake_seeds vow = [ascii_bytes ''unstake'', pubkey_bytes vow]"

definition session_seeds :: "pubkey \<Rightarrow> u32 \<Rightarrow> byte list list" where
  "session_seeds vow i = [ascii_bytes ''session'', pubkey_bytes vow, u32_to_le_bytes i]"

definition app_seeds :: "pubkey \<Rightarrow> byte list list" where
  "app_seeds program = [ascii_bytes ''app'', pubkey_bytes program]"

definition profile_seeds :: "pubkey \<Rightarrow> byte list \<Rightarrow> byte list list" where
  "profile_seeds wallet profile_id =
     [ascii_bytes ''authority_profile'', pubkey_bytes wallet, profile_id]"

definition commitment_seeds :: "pubkey \<Rightarrow> byte list list" where
  "commitment_seeds wallet = [ascii_bytes ''commitment'', pubkey_bytes wallet]"

definition cr_commit_seeds :: "pubkey \<Rightarrow> pubkey \<Rightarrow> byte list list" where
  "cr_commit_seeds rec vow = [ascii_bytes ''cr_commit'', pubkey_bytes rec, pubkey_bytes vow]"

definition cr_fulfill_seeds :: "pubkey \<Rightarrow> pubkey \<Rightarrow> byte list list" where
  "cr_fulfill_seeds rec vow = [ascii_bytes ''cr_fulfill'', pubkey_bytes rec, pubkey_bytes vow]"

section \<open>Account constraints\<close>

text \<open>Loading \<open>Account<T>\<close>: the address holds an initialised account of that type.\<close>

definition load :: "(acct \<Rightarrow> 'a option) \<Rightarrow> ledger \<Rightarrow> pubkey \<Rightarrow> 'a result" where
  "load u s k =
     (case lg_accts s k of
        None \<Rightarrow> Err (AnchorErr AccountNotInitialized)
      | Some a \<Rightarrow> ok_or (u a) (AnchorErr AccountDiscriminatorMismatch))"

text \<open>\<open>seeds = [...], bump = b\<close>: the address is the one created from seeds and stored bump.\<close>

definition pda_with_bump :: "env \<Rightarrow> byte list list \<Rightarrow> u8 \<Rightarrow> pubkey \<Rightarrow> bool" where
  "pda_with_bump E seeds b k \<longleftrightarrow>
     en_create_program_address E (seeds @ [[b]]) (en_program_id E) = Some k"

text \<open>\<open>seeds = [...], bump\<close>: the address is the canonical one, whose bump is found.\<close>

definition find_bump :: "env \<Rightarrow> byte list list \<Rightarrow> pubkey \<Rightarrow> u8 result" where
  "find_bump E seeds k =
     (case en_find_program_address E seeds (en_program_id E) of
        None \<Rightarrow> Err Panicked
      | Some (k', b) \<Rightarrow> require (k = k') (AnchorErr ConstraintSeeds) (Ok b))"

text \<open>\<open>Program<T>\<close>: the account is that program, and executable.\<close>

definition is_program :: "ledger \<Rightarrow> pubkey \<Rightarrow> pubkey \<Rightarrow> bool" where
  "is_program s pid k \<longleftrightarrow> k = pid \<and> lg_executable s k"

section \<open>System program\<close>

definition debit :: "pubkey \<Rightarrow> u64 \<Rightarrow> ledger \<Rightarrow> ledger" where
  "debit k amount s = s\<lparr>lg_lamports := (lg_lamports s)(k := lg_lamports s k - amount)\<rparr>"

definition transfer :: "pubkey \<Rightarrow> pubkey \<Rightarrow> u64 \<Rightarrow> ledger \<Rightarrow> ledger result" where
  "transfer from to amount s =
     require (lg_accts s from = None) (SystemErr FromMustNotCarryData) (
     require (amount \<le> lg_lamports s from) (SystemErr ResultWithNegativeLamports) (
     let s1 = debit from amount s in
     and_then (ok_or (checked_add (lg_lamports s1 to) amount) (SystemErr LamportOverflow)) (\<lambda>b.
     Ok (s1\<lparr>lg_lamports := (lg_lamports s1)(to := b)\<rparr>))))"

text \<open>A transfer out of an address the program signs for with its seeds.\<close>

definition transfer_signed ::
    "env \<Rightarrow> byte list list \<Rightarrow> pubkey \<Rightarrow> pubkey \<Rightarrow> u64 \<Rightarrow> ledger \<Rightarrow> ledger result" where
  "transfer_signed E seeds from to amount s =
     require (en_create_program_address E seeds (en_program_id E) = Some from)
       (SystemErr MissingRequiredSignature) (transfer from to amount s)"

text \<open>
  The constraint \<open>init\<close>: the canonical address is unused, and the payer funds it up to
  the rent-exempt minimum of its size.
\<close>

definition init_account ::
    "env \<Rightarrow> byte list list \<Rightarrow> nat \<Rightarrow> pubkey \<Rightarrow> pubkey \<Rightarrow> ledger \<Rightarrow> (u8 \<times> ledger) result" where
  "init_account E seeds space payer k s =
     and_then (find_bump E seeds k) (\<lambda>b.
     require (lg_accts s k = None) (SystemErr AccountAlreadyInUse) (
     let rent = en_minimum_balance E space;
         funded = lg_lamports s k;
         needed = (if funded = 0 then rent else saturating_sub (max rent 1) funded)
     in and_then (if funded \<noteq> 0 \<and> needed = 0 then Ok s else transfer payer k needed s) (\<lambda>s1.
     Ok (b, s1))))"

text \<open>The constraint \<open>close\<close>: all lamports go to the destination, the data is gone.\<close>

definition close_account :: "pubkey \<Rightarrow> pubkey \<Rightarrow> ledger \<Rightarrow> ledger result" where
  "close_account k dest s =
     require (k \<noteq> dest) (AnchorErr ConstraintClose) (
     and_then (ok_or (checked_add (lg_lamports s dest) (lg_lamports s k)) Panicked) (\<lambda>b.
     Ok (s\<lparr>lg_lamports := (lg_lamports s)(dest := b, k := 0),
           lg_accts := (lg_accts s)(k := None)\<rparr>)))"

section \<open>Account types\<close>

fun un_config :: "acct \<Rightarrow> protocol_config option" where
  "un_config (ConfigAcct c) = Some c"
| "un_config _ = None"

fun un_vow :: "acct \<Rightarrow> vow_state option" where
  "un_vow (VowAcct v) = Some v"
| "un_vow _ = None"

fun un_session :: "acct \<Rightarrow> session_account option" where
  "un_session (SessionAcct a) = Some a"
| "un_session _ = None"

fun un_escrow :: "acct \<Rightarrow> unstake_escrow option" where
  "un_escrow (EscrowAcct e) = Some e"
| "un_escrow _ = None"

fun un_app :: "acct \<Rightarrow> app_registry option" where
  "un_app (AppAcct r) = Some r"
| "un_app _ = None"

fun un_profile :: "acct \<Rightarrow> authority_profile option" where
  "un_profile (ProfileAcct p) = Some p"
| "un_profile _ = None"

fun un_record :: "acct \<Rightarrow> commitment_record option" where
  "un_record (RecordAcct r) = Some r"
| "un_record _ = None"

fun un_gate :: "acct \<Rightarrow> cr_gate option" where
  "un_gate (GateAcct g) = Some g"
| "un_gate _ = None"

fun un_token :: "acct \<Rightarrow> token_account option" where
  "un_token (TokenAcct t) = Some t"
| "un_token _ = None"

fun un_mint :: "acct \<Rightarrow> byte list option" where
  "un_mint (MintAcct bs) = Some bs"
| "un_mint _ = None"

text \<open>
  The sum of a quantity over all accounts of one type. The addresses are finitely many,
  so the sum ranges over all of them.
\<close>

definition contribution :: "(acct \<Rightarrow> 'a option) \<Rightarrow> ('a \<Rightarrow> nat) \<Rightarrow> acct option \<Rightarrow> nat" where
  "contribution u f a = (case Option.bind a u of None \<Rightarrow> 0 | Some x \<Rightarrow> f x)"

definition total_over ::
    "(acct \<Rightarrow> 'a option) \<Rightarrow> ('a \<Rightarrow> nat) \<Rightarrow> (pubkey \<Rightarrow> acct option) \<Rightarrow> nat" where
  "total_over u f a = (\<Sum>k\<in>UNIV. contribution u f (a k))"

definition sum_lamports :: "ledger \<Rightarrow> nat" where
  "sum_lamports s = (\<Sum>k\<in>UNIV. unat (lg_lamports s k))"

lemma contribution_None [simp]: "contribution u f None = 0"
  by (simp add: contribution_def)

lemma contribution_Some: "contribution u f (Some a) = (case u a of None \<Rightarrow> 0 | Some x \<Rightarrow> f x)"
  by (simp add: contribution_def)

lemma total_over_upd:
  "total_over u f (a(k := x)) + contribution u f (a k) = total_over u f a + contribution u f x"
  using sum_fun_upd [of "contribution u f" a k x] by (simp add: total_over_def)

lemma total_over_empty: "total_over u f (\<lambda>_. None) = 0"
  by (simp add: total_over_def)

lemma total_over_eval:
  "total_over u f (a(k := x)) = total_over u f a + contribution u f x - contribution u f (a k)"
  using total_over_upd [of u f a k x] by linarith

lemma total_over_cong:
  assumes "\<And>k. contribution u f (a' k) = contribution u f (a k)"
  shows "total_over u f a' = total_over u f a"
  using assms by (simp add: total_over_def)

text \<open>
  What a client of an account type relies on: an account of the type is recognised with its
  contents, and nothing else is recognised as one.
\<close>

locale account_type =
  fixes wrap :: "'a \<Rightarrow> acct"
    and unwrap :: "acct \<Rightarrow> 'a option"
  assumes unwrap_wrap: "unwrap (wrap x) = Some x"
    and wrap_unwrap: "unwrap a = Some x \<Longrightarrow> a = wrap x"
begin

lemma load_eq_Ok: "load unwrap s k = Inr x \<longleftrightarrow> lg_accts s k = Some (wrap x)"
  by (auto simp: load_def res_simps unwrap_wrap dest: wrap_unwrap split: option.splits)

lemma load_store:
  "load unwrap (store k (wrap y) s) k' = (if k' = k then Inr y else load unwrap s k')"
  by (simp add: load_def store_def unwrap_wrap)

lemma contribution_wrap: "contribution unwrap f (Some (wrap x)) = f x"
  by (simp add: contribution_Some unwrap_wrap)

lemma contribution_le_total: "contribution unwrap f (a k) \<le> total_over unwrap f a"
  unfolding total_over_def by (rule member_le_sum) auto

lemma le_total: "a k = Some (wrap x) \<Longrightarrow> f x \<le> total_over unwrap f a"
  using contribution_le_total [of f a k] by (simp add: contribution_wrap)

text \<open>When there is one account of the type, a total is its value.\<close>

lemma total_single:
  assumes "a k = Some (wrap x)" and "\<And>j y. a j = Some (wrap y) \<Longrightarrow> j = k"
  shows "total_over unwrap f a = f x"
proof -
  have "contribution unwrap f (a j) = 0" if "j \<noteq> k" for j
    using that assms(2) by (auto simp: contribution_def dest: wrap_unwrap
        split: Option.bind_splits option.splits)
  then have "total_over unwrap f a = contribution unwrap f (a k)"
    unfolding total_over_def by (simp add: sum.remove [of UNIV k])
  with assms(1) show ?thesis by (simp add: contribution_wrap)
qed

end

interpretation config_acct: account_type ConfigAcct un_config
  by unfold_locales (auto elim: un_config.elims)

interpretation vow_acct: account_type VowAcct un_vow
  by unfold_locales (auto elim: un_vow.elims)

interpretation session_acct: account_type SessionAcct un_session
  by unfold_locales (auto elim: un_session.elims)

interpretation escrow_acct: account_type EscrowAcct un_escrow
  by unfold_locales (auto elim: un_escrow.elims)

interpretation app_acct: account_type AppAcct un_app
  by unfold_locales (auto elim: un_app.elims)

interpretation profile_acct: account_type ProfileAcct un_profile
  by unfold_locales (auto elim: un_profile.elims)

interpretation record_acct: account_type RecordAcct un_record
  by unfold_locales (auto elim: un_record.elims)

interpretation gate_acct: account_type GateAcct un_gate
  by unfold_locales (auto elim: un_gate.elims)

interpretation token_acct: account_type TokenAcct un_token
  by unfold_locales (auto elim: un_token.elims)

interpretation mint_acct: account_type MintAcct un_mint
  by unfold_locales (auto elim: un_mint.elims)

lemmas load_eq_Ok [res_simps] =
  config_acct.load_eq_Ok vow_acct.load_eq_Ok session_acct.load_eq_Ok escrow_acct.load_eq_Ok
  app_acct.load_eq_Ok profile_acct.load_eq_Ok record_acct.load_eq_Ok gate_acct.load_eq_Ok
  token_acct.load_eq_Ok mint_acct.load_eq_Ok

section \<open>Reading the ledger after an operation\<close>

lemma emit_simps [simp]:
  "lg_lamports (emit ev s) = lg_lamports s"
  "lg_accts (emit ev s) = lg_accts s"
  "lg_executable (emit ev s) = lg_executable s"
  "lg_logs (emit ev s) = lg_logs s @ [ev]"
  by (simp_all add: emit_def)

lemma store_simps [simp]:
  "lg_lamports (store k a s) = lg_lamports s"
  "lg_accts (store k a s) = (lg_accts s)(k := Some a)"
  "lg_executable (store k a s) = lg_executable s"
  "lg_logs (store k a s) = lg_logs s"
  by (simp_all add: store_def)

lemma find_bump_eq_Ok [res_simps]:
  "find_bump E seeds k = Inr b \<longleftrightarrow>
     en_find_program_address E seeds (en_program_id E) = Some (k, b)"
  by (auto simp: find_bump_def res_simps split: option.splits)

lemma sum_lamports_upd:
  "sum_lamports (s\<lparr>lg_lamports := (lg_lamports s)(k := b)\<rparr>) + unat (lg_lamports s k) =
     sum_lamports s + unat b"
  using sum_fun_upd [of unat "lg_lamports s" k b] by (simp add: sum_lamports_def)

lemma sum_lamports_cong: "lg_lamports s' = lg_lamports s \<Longrightarrow> sum_lamports s' = sum_lamports s"
  by (simp add: sum_lamports_def)

lemma transfer_eq_Ok:
  "transfer from to amount s = Inr s' \<longleftrightarrow>
     lg_accts s from = None \<and> amount \<le> lg_lamports s from \<and>
     (\<exists>b. unat b = unat (lg_lamports (debit from amount s) to) + unat amount \<and>
          s' = (debit from amount s)\<lparr>lg_lamports := (lg_lamports (debit from amount s))(to := b)\<rparr>)"
  by (auto simp: transfer_def Let_def res_simps)

lemma debit_simps [simp]:
  "lg_accts (debit k a s) = lg_accts s"
  "lg_executable (debit k a s) = lg_executable s"
  "lg_logs (debit k a s) = lg_logs s"
  "lg_lamports (debit k a s) = (lg_lamports s)(k := lg_lamports s k - a)"
  by (simp_all add: debit_def)

lemma transfer_frame:
  assumes "transfer from to amount s = Inr s'"
  shows "lg_accts s' = lg_accts s"
    and "lg_executable s' = lg_executable s"
    and "lg_logs s' = lg_logs s"
    and "lg_accts s from = None"
    and "k \<noteq> from \<Longrightarrow> k \<noteq> to \<Longrightarrow> lg_lamports s' k = lg_lamports s k"
  using assms by (auto simp: transfer_eq_Ok)

lemma transfer_pays:
  assumes "transfer from to amount s = Inr s'" and "from \<noteq> to"
  shows "unat (lg_lamports s from) = unat (lg_lamports s' from) + unat amount"
    and "unat (lg_lamports s' to) = unat (lg_lamports s to) + unat amount"
  using assms by (auto simp: transfer_eq_Ok unat_minus_le word_le_nat_alt)

lemma transfer_succeeds:
  assumes "lg_accts s from = None" and "amount \<le> lg_lamports s from" and "from \<noteq> to"
    and "unat (lg_lamports s to) + unat amount < 2 ^ 64"
  shows "\<exists>s'. transfer from to amount s = Inr s' \<and> lg_accts s' = lg_accts s \<and>
    unat (lg_lamports s' to) = unat (lg_lamports s to) + unat amount \<and>
    (\<forall>k. k \<noteq> from \<longrightarrow> k \<noteq> to \<longrightarrow> lg_lamports s' k = lg_lamports s k)"
proof -
  have "checked_add (lg_lamports s to) amount = Some (lg_lamports s to + amount)"
    using assms(4) by (simp add: checked_add_def)
  moreover from this have "unat (lg_lamports s to + amount) = unat (lg_lamports s to) + unat amount"
    by (simp only: checked_add_eq_Some)
  ultimately show ?thesis using assms(1-3) by (simp add: transfer_def debit_def)
qed

lemma transfer_self:
  assumes "transfer k k amount s = Inr s'"
  shows "s' = s"
proof -
  from assms obtain b where le: "amount \<le> lg_lamports s k"
    and b: "unat b = unat (lg_lamports s k - amount) + unat amount"
    and s': "s' = (debit k amount s)\<lparr>lg_lamports := (lg_lamports (debit k amount s))(k := b)\<rparr>"
    by (auto simp: transfer_eq_Ok)
  from le b have "unat b = unat (lg_lamports s k)"
    by (simp add: unat_minus_le word_le_nat_alt)
  then have "b = lg_lamports s k" by (simp add: word_unat_eq_iff)
  with s' show ?thesis by (simp add: debit_def)
qed

lemma transfer_sum_lamports:
  assumes "transfer from to amount s = Inr s'"
  shows "sum_lamports s' = sum_lamports s"
proof -
  let ?s1 = "debit from amount s"
  from assms obtain b where le: "amount \<le> lg_lamports s from"
    and b: "unat b = unat (lg_lamports ?s1 to) + unat amount"
    and s': "s' = ?s1\<lparr>lg_lamports := (lg_lamports ?s1)(to := b)\<rparr>"
    by (auto simp: transfer_eq_Ok)
  have "sum_lamports ?s1 + unat amount = sum_lamports s"
    using sum_lamports_upd [of s "from" "lg_lamports s from - amount"] le
    by (simp add: debit_def unat_minus_le word_le_nat_alt)
  moreover have "sum_lamports s' = sum_lamports ?s1 + unat amount"
    using sum_lamports_upd [of ?s1 to b] b s' by simp
  ultimately show ?thesis by simp
qed

lemma transfer_signed_eq_Ok [res_simps]:
  "transfer_signed E seeds from to amount s = Inr s' \<longleftrightarrow>
     en_create_program_address E seeds (en_program_id E) = Some from \<and>
     transfer from to amount s = Inr s'"
  by (simp add: transfer_signed_def res_simps)

lemma init_accountD:
  assumes "init_account E seeds space payer k s = Inr (b, s')"
  shows "en_find_program_address E seeds (en_program_id E) = Some (k, b)"
    and "lg_accts s k = None"
    and "lg_accts s' = lg_accts s"
    and "lg_executable s' = lg_executable s"
    and "lg_logs s' = lg_logs s"
    and "sum_lamports s' = sum_lamports s"
    and "j \<noteq> payer \<Longrightarrow> j \<noteq> k \<Longrightarrow> lg_lamports s' j = lg_lamports s j"
  using assms
  by (auto simp: init_account_def res_simps Let_def transfer_frame transfer_sum_lamports
      split: if_splits)

lemma close_accountD:
  assumes "close_account k dest s = Inr s'"
  shows "lg_accts s' = (lg_accts s)(k := None)"
    and "lg_executable s' = lg_executable s"
    and "lg_logs s' = lg_logs s"
    and "k \<noteq> dest"
    and "j \<noteq> k \<Longrightarrow> j \<noteq> dest \<Longrightarrow> lg_lamports s' j = lg_lamports s j"
    and "unat (lg_lamports s' dest) = unat (lg_lamports s dest) + unat (lg_lamports s k)"
    and "lg_lamports s' k = 0"
  using assms by (auto simp: close_account_def res_simps)

lemma close_account_sum_lamports:
  assumes "close_account k dest s = Inr s'"
  shows "sum_lamports s' = sum_lamports s"
proof -
  from assms obtain b where ne: "k \<noteq> dest"
    and b: "unat b = unat (lg_lamports s dest) + unat (lg_lamports s k)"
    and lam: "lg_lamports s' = (lg_lamports s)(dest := b, k := 0)"
    by (auto simp: close_account_def res_simps)
  let ?s1 = "s\<lparr>lg_lamports := (lg_lamports s)(dest := b)\<rparr>"
  have "sum_lamports ?s1 + unat (lg_lamports s dest) = sum_lamports s + unat b"
    by (rule sum_lamports_upd)
  moreover have "sum_lamports s' + unat (lg_lamports ?s1 k) = sum_lamports ?s1"
    using sum_lamports_upd [of ?s1 k 0] lam by (simp add: sum_lamports_def)
  ultimately show ?thesis using b ne by simp
qed

section \<open>Constraints that the instructions share\<close>

text \<open>
  \<open>#[account(mut?, seeds = [b"config"], bump = config.bump)] config: Account<ProtocolConfig>\<close>
  and its kin for the identity and the reserve; \<open>m\<close> says whether the account is \<open>mut\<close>.
\<close>

definition config_account :: "env \<Rightarrow> tx \<Rightarrow> bool \<Rightarrow> ledger \<Rightarrow> pubkey \<Rightarrow> protocol_config result" where
  "config_account E X m s k =
     and_then (load un_config s k) (\<lambda>c.
     require (pda_with_bump E config_seeds (pc_bump c) k) (AnchorErr ConstraintSeeds) (
     require (m \<longrightarrow> tx_is_writable X k) (AnchorErr ConstraintMut) (
     Ok c)))"

definition vow_account :: "env \<Rightarrow> tx \<Rightarrow> bool \<Rightarrow> ledger \<Rightarrow> pubkey \<Rightarrow> vow_state result" where
  "vow_account E X m s k =
     and_then (load un_vow s k) (\<lambda>v.
     require (pda_with_bump E (vow_seeds (vs_asset_id v)) (vs_bump v) k)
       (AnchorErr ConstraintSeeds) (
     require (m \<longrightarrow> tx_is_writable X k) (AnchorErr ConstraintMut) (
     Ok v)))"

definition reserve_account :: "env \<Rightarrow> tx \<Rightarrow> protocol_config \<Rightarrow> pubkey \<Rightarrow> unit result" where
  "reserve_account E X c k =
     require (pda_with_bump E reserve_seeds (pc_reserve_bump c) k) (AnchorErr ConstraintSeeds) (
     require (tx_is_writable X k) (AnchorErr ConstraintMut) (
     Ok ()))"

definition signer_account :: "tx \<Rightarrow> bool \<Rightarrow> pubkey \<Rightarrow> unit result" where
  "signer_account X m k =
     require (tx_is_signer X k) (AnchorErr AccountNotSigner) (
     require (m \<longrightarrow> tx_is_writable X k) (AnchorErr ConstraintMut) (
     Ok ()))"

definition program_account :: "ledger \<Rightarrow> pubkey \<Rightarrow> pubkey \<Rightarrow> unit result" where
  "program_account s pid k = require (is_program s pid k) (AnchorErr InvalidProgramId) (Ok ())"

lemma config_account_eq_Ok [res_simps]:
  "config_account E X m s k = Inr c \<longleftrightarrow>
     lg_accts s k = Some (ConfigAcct c) \<and> pda_with_bump E config_seeds (pc_bump c) k \<and>
     (m \<longrightarrow> tx_is_writable X k)"
  by (auto simp: config_account_def res_simps)

lemma vow_account_eq_Ok [res_simps]:
  "vow_account E X m s k = Inr v \<longleftrightarrow>
     lg_accts s k = Some (VowAcct v) \<and>
     pda_with_bump E (vow_seeds (vs_asset_id v)) (vs_bump v) k \<and> (m \<longrightarrow> tx_is_writable X k)"
  by (auto simp: vow_account_def res_simps)

lemma other_accounts_eq_Ok [res_simps]:
  "reserve_account E X c k = Inr r \<longleftrightarrow>
     pda_with_bump E reserve_seeds (pc_reserve_bump c) k \<and> tx_is_writable X k"
  "signer_account X m k = Inr r \<longleftrightarrow> tx_is_signer X k \<and> (m \<longrightarrow> tx_is_writable X k)"
  "program_account s pid k = Inr r \<longleftrightarrow> is_program s pid k"
  by (simp_all add: reserve_account_def signer_account_def program_account_def res_simps)

end
