(* ===== verification/Vow_Spec.thy ===== *)
theory Vow_Spec
  imports Vow_Runtime
begin

text \<open>
  The abstract protocol: what one instruction may do to the accounts, without saying how it
  computes it. A step of \<open>acct_step\<close> touches a bounded set of accounts and moves shares,
  yield claims and pending unstakes between them in a balanced way. Every instruction of
  the program is shown to be such a step (in the theory of its component), and the
  invariants of the protocol are proved once, on the abstract steps, by the locale
  \<open>step_invariant\<close>.
\<close>

type_synonym accts = "pubkey \<Rightarrow> acct option"

section \<open>Evolution of one account\<close>

text \<open>The accounts that carry the protocol's money and authority.\<close>

fun core :: "acct option \<Rightarrow> bool" where
  "core (Some (ConfigAcct _)) = True"
| "core (Some (VowAcct _)) = True"
| "core (Some (SessionAcct _)) = True"
| "core (Some (EscrowAcct _)) = True"
| "core _ = False"

text \<open>The accounts that belong to this program; other programs cannot write them.\<close>

fun program_owned :: "acct option \<Rightarrow> bool" where
  "program_owned (Some (TokenAcct _)) = False"
| "program_owned (Some (MintAcct _)) = False"
| "program_owned (Some (ForeignAcct _)) = False"
| "program_owned (Some _) = True"
| "program_owned None = False"

text \<open>The gates of recordings, which are written once.\<close>

fun is_gate :: "acct option \<Rightarrow> bool" where
  "is_gate (Some (GateAcct _)) = True"
| "is_gate _ = False"

lemma core_owned: "core a \<Longrightarrow> program_owned a"
  by (cases a rule: core.cases) simp_all

lemma gate_owned: "is_gate a \<Longrightarrow> program_owned a"
  by (cases a rule: is_gate.cases) simp_all

text \<open>An identity is bound to its owner: these fields are written by the mint only.\<close>

definition identity_kept :: "vow_state \<Rightarrow> vow_state \<Rightarrow> bool" where
  "identity_kept v v' \<longleftrightarrow>
     vs_asset_id v' = vs_asset_id v \<and> vs_owner v' = vs_owner v \<and> vs_nonce v' = vs_nonce v \<and>
     vs_created_at v' = vs_created_at v \<and> vs_first_staked_at v' = vs_first_staked_at v \<and>
     vs_bump v' = vs_bump v"

text \<open>What an identity has earned is never taken back.\<close>

definition standing_grows :: "vow_state \<Rightarrow> vow_state \<Rightarrow> bool" where
  "standing_grows v v' \<longleftrightarrow>
     unat (vs_total_commitments v) \<le> unat (vs_total_commitments v') \<and>
     unat (vs_total_fulfilled v) \<le> unat (vs_total_fulfilled v') \<and>
     unat (vs_cumulative_stake_days v) \<le> unat (vs_cumulative_stake_days v') \<and>
     unat (vs_highest_class_ever v) \<le> unat (vs_highest_class_ever v') \<and>
     unat (vs_total_harvested v) \<le> unat (vs_total_harvested v') \<and>
     unat (vs_session_nonce v) \<le> unat (vs_session_nonce v')"

text \<open>The class is the tier of the principal, and the best class ever is at least that.\<close>

definition tier_ok :: "vow_state \<Rightarrow> bool" where
  "tier_ok v \<longleftrightarrow> class_for_stake (vs_principal_lamports v) = Ok (vs_class v) \<and>
     unat (vs_class v) \<le> unat (vs_highest_class_ever v) \<and> unat (vs_highest_class_ever v) \<le> 7"

definition vow_evolves :: "vow_state \<Rightarrow> vow_state \<Rightarrow> bool" where
  "vow_evolves v v' \<longleftrightarrow> identity_kept v v' \<and> standing_grows v v' \<and> (tier_ok v \<longrightarrow> tier_ok v')"

text \<open>The grant of a session is fixed when it is created; only its use is recorded.\<close>

definition grant_kept :: "session_account \<Rightarrow> session_account \<Rightarrow> bool" where
  "grant_kept a a' \<longleftrightarrow>
     sa_vow_state a' = sa_vow_state a \<and> sa_session_key a' = sa_session_key a \<and>
     sa_allowed_program_ids a' = sa_allowed_program_ids a \<and>
     sa_program_count a' = sa_program_count a \<and> sa_session_index a' = sa_session_index a \<and>
     sa_creation_nonce a' = sa_creation_nonce a \<and> sa_start_ts a' = sa_start_ts a \<and>
     sa_expiry_ts a' = sa_expiry_ts a \<and> sa_daily_limit a' = sa_daily_limit a \<and>
     sa_lifetime_limit a' = sa_lifetime_limit a \<and>
     sa_velocity_limit a' = sa_velocity_limit a \<and> sa_bump a' = sa_bump a \<and>
     (sa_active a' \<longrightarrow> sa_active a)"

definition within_limits :: "session_account \<Rightarrow> bool" where
  "within_limits a \<longleftrightarrow>
     (0 < sa_daily_limit a \<longrightarrow> sa_spent_today a \<le> sa_daily_limit a) \<and>
     (0 < sa_lifetime_limit a \<longrightarrow> sa_spent_total a \<le> sa_lifetime_limit a) \<and>
     (0 < sa_velocity_limit a \<longrightarrow> sa_tx_count_today a \<le> sa_velocity_limit a)"

text \<open>A session after a spend of \<open>amount\<close>: recorded in full, and within the limits.\<close>

definition session_spends :: "session_account \<Rightarrow> session_account \<Rightarrow> u64 \<Rightarrow> bool" where
  "session_spends a a' amount \<longleftrightarrow>
     sa_active a \<and> sa_active a' \<and> grant_kept a a' \<and> within_limits a' \<and>
     unat (sa_spent_total a') = unat (sa_spent_total a) + unat amount"

section \<open>Balanced movement\<close>

text \<open>
  The position of an identity and the protocol's totals move together: \<open>b\<close> shares are
  burned and \<open>n\<close> issued, \<open>out\<close> lamports of yield are paid and \<open>y\<close> credited.
\<close>

definition position_moves ::
    "protocol_config \<Rightarrow> vow_state \<Rightarrow> protocol_config \<Rightarrow> vow_state \<Rightarrow> bool" where
  "position_moves c v c' v' \<longleftrightarrow>
     (\<exists>b n. b \<le> unat (vs_shares v) \<and>
        unat (vs_shares v') = unat (vs_shares v) - b + n \<and>
        unat (pc_total_shares c') = unat (pc_total_shares c) - b + n) \<and>
     (\<exists>out y. out \<le> vs_yield_balance v \<and>
        vs_yield_balance v' = saturating_add (vs_yield_balance v - out) y \<and>
        pc_total_yield_claims c' =
          saturating_add (saturating_sub (pc_total_yield_claims c) out) y)"

definition totals_kept :: "protocol_config \<Rightarrow> protocol_config \<Rightarrow> bool" where
  "totals_kept c c' \<longleftrightarrow>
     pc_total_shares c' = pc_total_shares c \<and>
     pc_total_yield_claims c' = pc_total_yield_claims c \<and>
     pc_total_pending_unstake c' = pc_total_pending_unstake c"

definition bumps_kept :: "protocol_config \<Rightarrow> protocol_config \<Rightarrow> bool" where
  "bumps_kept c c' \<longleftrightarrow> pc_bump c' = pc_bump c \<and> pc_reserve_bump c' = pc_reserve_bump c"

text \<open>A position that is being unstaked (active, with no shares) stays so.\<close>

definition parked :: "vow_state \<Rightarrow> bool" where
  "parked v \<longleftrightarrow> vs_active_stake v \<and> vs_shares v = 0"

lemma vow_evolvesI:
  assumes "vs_asset_id v' = vs_asset_id v" "vs_owner v' = vs_owner v" "vs_nonce v' = vs_nonce v"
    "vs_created_at v' = vs_created_at v" "vs_first_staked_at v' = vs_first_staked_at v"
    "vs_bump v' = vs_bump v" and "standing_grows v v'" and "tier_ok v \<Longrightarrow> tier_ok v'"
  shows "vow_evolves v v'"
  using assms by (simp add: vow_evolves_def identity_kept_def)

lemma position_movesI:
  assumes "b \<le> unat (vs_shares v)"
    and "unat (vs_shares v') = unat (vs_shares v) - b + n"
    and "unat (pc_total_shares c') = unat (pc_total_shares c) - b + n"
    and "out \<le> vs_yield_balance v"
    and "vs_yield_balance v' = saturating_add (vs_yield_balance v - out) y"
    and "pc_total_yield_claims c' = saturating_add (saturating_sub (pc_total_yield_claims c) out) y"
  shows "position_moves c v c' v'"
  using assms unfolding position_moves_def by blast

section \<open>Where accounts live\<close>

fun placed :: "env \<Rightarrow> pubkey \<Rightarrow> acct option \<Rightarrow> bool" where
  "placed E k (Some (ConfigAcct c)) \<longleftrightarrow>
     en_find_program_address E config_seeds (en_program_id E) = Some (k, pc_bump c)"
| "placed E k (Some (VowAcct v)) \<longleftrightarrow>
     en_find_program_address E (vow_seeds (vs_asset_id v)) (en_program_id E) = Some (k, vs_bump v)"
| "placed E k (Some (SessionAcct a)) \<longleftrightarrow>
     en_find_program_address E (session_seeds (sa_vow_state a) (sa_session_index a))
       (en_program_id E) = Some (k, sa_bump a)"
| "placed E k (Some (EscrowAcct e)) \<longleftrightarrow>
     en_find_program_address E (unstake_seeds (ue_vow_state e)) (en_program_id E) =
       Some (k, ue_bump e)"
| "placed E k _ \<longleftrightarrow> True"

section \<open>Steps\<close>

inductive acct_step :: "env \<Rightarrow> accts \<Rightarrow> accts \<Rightarrow> bool" for E where
  peripheral:
    "(\<And>k. a' k \<noteq> a k \<Longrightarrow> \<not> core (a k) \<and> \<not> core (a' k) \<and> \<not> is_gate (a k)) \<Longrightarrow>
     acct_step E a a'"
| open_config:
    "a k = None \<Longrightarrow> placed E k (Some (ConfigAcct c)) \<Longrightarrow>
     pc_total_shares c = 0 \<Longrightarrow> pc_total_yield_claims c = 0 \<Longrightarrow>
     pc_total_pending_unstake c = 0 \<Longrightarrow> acct_step E a (a(k := Some (ConfigAcct c)))"
| tune_config:
    "a k = Some (ConfigAcct c) \<Longrightarrow> totals_kept c c' \<Longrightarrow> bumps_kept c c' \<Longrightarrow>
     acct_step E a (a(k := Some (ConfigAcct c')))"
| mint:
    "a ck = Some (ConfigAcct c) \<Longrightarrow> a vk = None \<Longrightarrow> bumps_kept c c' \<Longrightarrow>
     unat (pc_total_shares c') = unat (pc_total_shares c) + unat (vs_shares v) \<Longrightarrow>
     pc_total_yield_claims c' = pc_total_yield_claims c \<Longrightarrow>
     pc_total_pending_unstake c' = pc_total_pending_unstake c \<Longrightarrow>
     vs_yield_balance v = 0 \<Longrightarrow> tier_ok v \<Longrightarrow> placed E vk (Some (VowAcct v)) \<Longrightarrow>
     acct_step E a (a(ck := Some (ConfigAcct c'), vk := Some (VowAcct v)))"
| position:
    "a ck = Some (ConfigAcct c) \<Longrightarrow> a vk = Some (VowAcct v) \<Longrightarrow> bumps_kept c c' \<Longrightarrow>
     position_moves c v c' v' \<Longrightarrow> vow_evolves v v' \<Longrightarrow> (parked v \<longrightarrow> parked v') \<Longrightarrow>
     pc_total_pending_unstake c' = pc_total_pending_unstake c \<Longrightarrow>
     acct_step E a (a(ck := Some (ConfigAcct c'), vk := Some (VowAcct v')))"
| spend:
    "a ck = Some (ConfigAcct c) \<Longrightarrow> a vk = Some (VowAcct v) \<Longrightarrow> a sk = Some (SessionAcct se) \<Longrightarrow>
     bumps_kept c c' \<Longrightarrow> sa_vow_state se = vk \<Longrightarrow>
     position_moves c v c' v' \<Longrightarrow> vow_evolves v v' \<Longrightarrow> (parked v \<longrightarrow> parked v') \<Longrightarrow>
     pc_total_pending_unstake c' = pc_total_pending_unstake c \<Longrightarrow>
     unat (vs_yield_balance v) = unat (vs_yield_balance v') + unat amount \<Longrightarrow>
     session_spends se se' amount \<Longrightarrow>
     acct_step E a (a(ck := Some (ConfigAcct c'), vk := Some (VowAcct v'),
       sk := Some (SessionAcct se')))"
| open_session:
    "a ck = Some (ConfigAcct c) \<Longrightarrow> a vk = Some (VowAcct v) \<Longrightarrow> a sk = None \<Longrightarrow>
     position_moves c v c v' \<Longrightarrow> vow_evolves v v' \<Longrightarrow> (parked v \<longrightarrow> parked v') \<Longrightarrow>
     sa_vow_state se = vk \<Longrightarrow> session_account_wf se \<Longrightarrow> within_limits se \<Longrightarrow>
     placed E sk (Some (SessionAcct se)) \<Longrightarrow>
     acct_step E a (a(vk := Some (VowAcct v'), sk := Some (SessionAcct se)))"
| revoke:
    "a sk = Some (SessionAcct se) \<Longrightarrow>
     acct_step E a (a(sk := Some (SessionAcct (se\<lparr>sa_active := False\<rparr>))))"
| close_session:
    "a sk = Some (SessionAcct se) \<Longrightarrow> acct_step E a (a(sk := None))"
| begin_unstake:
    "a ck = Some (ConfigAcct c) \<Longrightarrow> a vk = Some (VowAcct v) \<Longrightarrow> a ek = None \<Longrightarrow>
     bumps_kept c c' \<Longrightarrow> position_moves c v c' v' \<Longrightarrow> vow_evolves v v' \<Longrightarrow> parked v' \<Longrightarrow>
     unat (pc_total_pending_unstake c') =
       unat (pc_total_pending_unstake c) + unat (ue_lamports_owed e) \<Longrightarrow>
     ue_vow_state e = vk \<Longrightarrow> ue_owner e = vs_owner v \<Longrightarrow> placed E ek (Some (EscrowAcct e)) \<Longrightarrow>
     acct_step E a (a(ck := Some (ConfigAcct c'), vk := Some (VowAcct v'),
       ek := Some (EscrowAcct e)))"
| complete_unstake:
    "a ck = Some (ConfigAcct c) \<Longrightarrow> a vk = Some (VowAcct v) \<Longrightarrow> a ek = Some (EscrowAcct e) \<Longrightarrow>
     bumps_kept c c' \<Longrightarrow> pda_with_bump E (unstake_seeds vk) (ue_bump e) ek \<Longrightarrow>
     position_moves c v c' v' \<Longrightarrow> vow_evolves v v' \<Longrightarrow>
     unat (pc_total_pending_unstake c') =
       unat (pc_total_pending_unstake c) - unat (ue_lamports_owed e) \<Longrightarrow>
     acct_step E a (a(ck := Some (ConfigAcct c'), vk := Some (VowAcct v'), ek := None))"

section \<open>Placement\<close>

definition well_placed :: "env \<Rightarrow> accts \<Rightarrow> bool" where
  "well_placed E a \<longleftrightarrow> (\<forall>k. placed E k (a k))"

lemma not_core_placed: "\<not> core x \<Longrightarrow> placed E k x"
  by (cases "(E, k, x)" rule: placed.cases) auto

lemma placed_evolved:
  "vow_evolves v v' \<Longrightarrow> placed E k (Some (VowAcct v)) \<Longrightarrow> placed E k (Some (VowAcct v'))"
  "bumps_kept c c' \<Longrightarrow> placed E k (Some (ConfigAcct c)) \<Longrightarrow> placed E k (Some (ConfigAcct c'))"
  "grant_kept se se' \<Longrightarrow> placed E k (Some (SessionAcct se)) \<Longrightarrow> placed E k (Some (SessionAcct se'))"
  by (simp_all add: vow_evolves_def identity_kept_def bumps_kept_def grant_kept_def)

lemma well_placed_upd: "well_placed E a \<Longrightarrow> placed E k x \<Longrightarrow> well_placed E (a(k := x))"
  by (simp add: well_placed_def)

lemma well_placedD: "well_placed E a \<Longrightarrow> a k = x \<Longrightarrow> placed E k x"
  by (auto simp: well_placed_def)

lemma placed_after:
  assumes "well_placed E a"
  shows "a k = Some (VowAcct v) \<Longrightarrow> vow_evolves v v' \<Longrightarrow> placed E k (Some (VowAcct v'))"
    and "a k = Some (ConfigAcct c) \<Longrightarrow> bumps_kept c c' \<Longrightarrow> placed E k (Some (ConfigAcct c'))"
    and "a k = Some (SessionAcct se) \<Longrightarrow> grant_kept se se' \<Longrightarrow> placed E k (Some (SessionAcct se'))"
    and "a k = Some (SessionAcct se) \<Longrightarrow> session_spends se se' x \<Longrightarrow> placed E k (Some (SessionAcct se'))"
  using placed_evolved well_placedD [OF assms] unfolding session_spends_def by blast+

lemma grant_kept_revoked [simp]: "grant_kept se (se\<lparr>sa_active := False\<rparr>)"
  by (simp add: grant_kept_def)

lemma well_placed_step:
  assumes "acct_step E a a'" and "well_placed E a"
  shows "well_placed E a'"
  using assms(1)
proof cases
  case peripheral
  with assms(2) show ?thesis unfolding well_placed_def by (metis not_core_placed)
qed (use assms(2) in \<open>auto simp del: placed.simps(1-4) intro!: well_placed_upd
      intro: placed_after not_core_placed\<close>)

lemma config_unique:
  assumes "well_placed E a" and "a k = Some (ConfigAcct c)" and "a j = Some (ConfigAcct d)"
  shows "j = k"
  using well_placedD [OF assms(1,2)] well_placedD [OF assms(1,3)] by simp

lemma config_total:
  "well_placed E a \<Longrightarrow> a k = Some (ConfigAcct c) \<Longrightarrow> total_over un_config f a = f c"
  by (rule config_acct.total_single) (blast dest: config_unique)+

section \<open>Books\<close>

text \<open>A book is balanced when the configuration's total is the sum over the accounts.\<close>

definition shares_balanced :: "accts \<Rightarrow> bool" where
  "shares_balanced a \<longleftrightarrow>
     total_over un_config (\<lambda>c. unat (pc_total_shares c)) a =
     total_over un_vow (\<lambda>v. unat (vs_shares v)) a"

definition pending_balanced :: "accts \<Rightarrow> bool" where
  "pending_balanced a \<longleftrightarrow>
     total_over un_config (\<lambda>c. unat (pc_total_pending_unstake c)) a =
     total_over un_escrow (\<lambda>e. unat (ue_lamports_owed e)) a"

definition claims_covered :: "accts \<Rightarrow> bool" where
  "claims_covered a \<longleftrightarrow>
     total_over un_config (\<lambda>c. unat (pc_total_yield_claims c)) a \<le>
     total_over un_vow (\<lambda>v. unat (vs_yield_balance v)) a"

lemma peripheral_total:
  assumes "\<And>k. a' k \<noteq> a k \<Longrightarrow> \<not> core (a k) \<and> \<not> core (a' k) \<and> \<not> is_gate (a k)"
    and "\<And>x. \<not> core x \<Longrightarrow> contribution u f x = 0"
  shows "total_over u f a' = total_over u f a"
  by (rule total_over_cong) (metis assms)

lemma contribution_core:
  "\<not> core x \<Longrightarrow> contribution un_config f x = 0"
  "\<not> core x \<Longrightarrow> contribution un_vow g x = 0"
  "\<not> core x \<Longrightarrow> contribution un_escrow h x = 0"
  by (cases x rule: core.cases; simp add: contribution_def)+

lemma int_total_upd:
  "int (total_over u f (a(k := x))) =
     int (total_over u f a) - int (contribution u f (a k)) + int (contribution u f x)"
  using total_over_upd [of u f a k x] by linarith

lemma total_over_same:
  "contribution u f x = contribution u f (a k) \<Longrightarrow> total_over u f (a(k := x)) = total_over u f a"
  using total_over_upd [of u f a k x] by simp

lemma contribution_simps [simp]:
  "contribution un_config f (Some (ConfigAcct c)) = f c"
  "contribution un_vow g (Some (VowAcct v)) = g v"
  "contribution un_escrow h (Some (EscrowAcct e)) = h e"
  "contribution un_config f (Some (VowAcct v)) = 0"
  "contribution un_config f (Some (SessionAcct se)) = 0"
  "contribution un_config f (Some (EscrowAcct e)) = 0"
  "contribution un_vow g (Some (ConfigAcct c)) = 0"
  "contribution un_vow g (Some (SessionAcct se)) = 0"
  "contribution un_vow g (Some (EscrowAcct e)) = 0"
  "contribution un_escrow h (Some (ConfigAcct c)) = 0"
  "contribution un_escrow h (Some (VowAcct v)) = 0"
  "contribution un_escrow h (Some (SessionAcct se)) = 0"
  by (simp_all add: contribution_Some)

text \<open>
  The effect of a step on every total over configurations, identities and escrows, in five
  kinds of step.
\<close>

lemma step_totals:
  assumes "acct_step E a a'"
  obtains
    (quiet) "\<And>f. total_over un_config f a' = total_over un_config f a"
      "\<And>g. total_over un_vow g a' = total_over un_vow g a"
      "\<And>h. total_over un_escrow h a' = total_over un_escrow h a"
  | (opened) c where
      "\<And>f. int (total_over un_config f a') = int (total_over un_config f a) + int (f c)"
      "\<And>g. total_over un_vow g a' = total_over un_vow g a"
      "\<And>h. total_over un_escrow h a' = total_over un_escrow h a"
      "pc_total_shares c = 0" "pc_total_yield_claims c = 0" "pc_total_pending_unstake c = 0"
  | (tuned) c c' where
      "\<And>f. int (total_over un_config f a') = int (total_over un_config f a) - int (f c) + int (f c')"
      "\<And>g. total_over un_vow g a' = total_over un_vow g a"
      "\<And>h. total_over un_escrow h a' = total_over un_escrow h a"
      "totals_kept c c'"
  | (minted) c c' v where
      "\<And>f. int (total_over un_config f a') = int (total_over un_config f a) - int (f c) + int (f c')"
      "\<And>g. int (total_over un_vow g a') = int (total_over un_vow g a) + int (g v)"
      "\<And>h. total_over un_escrow h a' = total_over un_escrow h a"
      "unat (pc_total_shares c') = unat (pc_total_shares c) + unat (vs_shares v)"
      "pc_total_yield_claims c' = pc_total_yield_claims c" "vs_yield_balance v = 0"
      "pc_total_pending_unstake c' = pc_total_pending_unstake c"
  | (moved) ck c c' vk v v' x y where
      "a ck = Some (ConfigAcct c)" "a vk = Some (VowAcct v)"
      "\<And>f. int (total_over un_config f a') = int (total_over un_config f a) - int (f c) + int (f c')"
      "\<And>g. int (total_over un_vow g a') = int (total_over un_vow g a) - int (g v) + int (g v')"
      "\<And>h. int (total_over un_escrow h a') =
             int (total_over un_escrow h a) - int (contribution un_escrow h x) +
             int (contribution un_escrow h y)"
      "position_moves c v c' v'" "x = None \<or> (\<exists>ek. x = a ek)"
      "unat (pc_total_pending_unstake c') =
         unat (pc_total_pending_unstake c)
           - contribution un_escrow (\<lambda>e. unat (ue_lamports_owed e)) x
           + contribution un_escrow (\<lambda>e. unat (ue_lamports_owed e)) y"
  using assms
proof cases
  case peripheral
  show ?thesis by (rule quiet) (rule peripheral_total [OF peripheral], assumption, erule contribution_core)+
next
  case (open_config k c)
  then show ?thesis by (intro opened [of c]) (simp_all add: int_total_upd total_over_same)
next
  case (tune_config k c c')
  then show ?thesis by (intro tuned [of c c']) (simp_all add: int_total_upd total_over_same)
next
  case (mint ck c vk c' v)
  then have "ck \<noteq> vk" by auto
  with mint show ?thesis
    by (intro minted [of c c' v]) (simp_all add: int_total_upd total_over_same)
next
  case (position ck c vk v c' v')
  then have "ck \<noteq> vk" by auto
  with position show ?thesis
    by (intro moved [of ck c vk v c' v' None None]) (simp_all add: int_total_upd)
next
  case (spend ck c vk v sk se c' v' amount se')
  then have "ck \<noteq> vk" "sk \<noteq> ck" "sk \<noteq> vk" by auto
  with spend show ?thesis
    by (intro moved [of ck c vk v c' v' None None]) (simp_all add: int_total_upd)
next
  case (open_session ck c vk v sk v' se)
  then have "ck \<noteq> vk" "sk \<noteq> ck" "sk \<noteq> vk" by auto
  with open_session show ?thesis
    by (intro moved [of ck c vk v c v' None None]) (simp_all add: int_total_upd)
next
  case (begin_unstake ck c vk v ek c' v' e)
  then have "ck \<noteq> vk" "ek \<noteq> ck" "ek \<noteq> vk" by auto
  with begin_unstake show ?thesis
    by (intro moved [of ck c vk v c' v' None "Some (EscrowAcct e)"]) (simp_all add: int_total_upd)
next
  case (complete_unstake ck c vk v ek e c' v')
  then have "ck \<noteq> vk" "ek \<noteq> ck" "ek \<noteq> vk" by auto
  with complete_unstake show ?thesis
    by (intro moved [of ck c vk v c' v' "Some (EscrowAcct e)" None])
      (auto simp: int_total_upd intro: exI [of _ ek])
qed (rule quiet; simp add: total_over_same)+

definition claims_exact :: "accts \<Rightarrow> bool" where
  "claims_exact a \<longleftrightarrow>
     total_over un_config (\<lambda>c. unat (pc_total_yield_claims c)) a =
     total_over un_vow (\<lambda>v. unat (vs_yield_balance v)) a"

lemma shares_le_total:
  assumes "well_placed E a" and "shares_balanced a"
    and "a ck = Some (ConfigAcct c)" and "a vk = Some (VowAcct v)"
  shows "unat (vs_shares v) \<le> unat (pc_total_shares c)"
  using vow_acct.le_total [of a vk v "\<lambda>v. unat (vs_shares v)"]
    config_total [OF assms(1,3)] assms(2,4) by (simp add: shares_balanced_def)

lemma shares_moved:
  assumes "position_moves c v c' v'" and "unat (vs_shares v) \<le> unat (pc_total_shares c)"
  shows "unat (pc_total_shares c') + unat (vs_shares v) = unat (pc_total_shares c) + unat (vs_shares v')"
  using assms unfolding position_moves_def by auto

lemma shares_balanced_step:
  assumes "acct_step E a a'" and "well_placed E a" and "shares_balanced a"
  shows "shares_balanced a'"
  using assms(1)
proof (cases rule: step_totals)
  case quiet
  with assms(3) show ?thesis by (simp add: shares_balanced_def)
next
  case (opened c)
  from opened(1) [of "\<lambda>c. unat (pc_total_shares c)"] opened(2,4) assms(3) show ?thesis
    by (simp add: shares_balanced_def)
next
  case (tuned c c')
  from tuned(1) [of "\<lambda>c. unat (pc_total_shares c)"] tuned(2,4) assms(3) show ?thesis
    by (simp add: shares_balanced_def totals_kept_def)
next
  case (minted c c' v)
  from minted(1) [of "\<lambda>c. unat (pc_total_shares c)"] minted(2) [of "\<lambda>v. unat (vs_shares v)"]
    minted(4) assms(3)
  show ?thesis unfolding shares_balanced_def by linarith
next
  case (moved ck c c' vk v v' x y)
  from moved(3) [of "\<lambda>c. unat (pc_total_shares c)"] moved(4) [of "\<lambda>v. unat (vs_shares v)"]
    shares_moved [OF moved(6) shares_le_total [OF assms(2,3) moved(1,2)]] assms(3)
  show ?thesis unfolding shares_balanced_def by linarith
qed

lemma pending_balanced_step:
  assumes "acct_step E a a'" and "well_placed E a" and "pending_balanced a"
  shows "pending_balanced a'"
  using assms(1)
proof (cases rule: step_totals)
  case quiet
  with assms(3) show ?thesis by (simp add: pending_balanced_def)
next
  case (opened c)
  from opened(1) [of "\<lambda>c. unat (pc_total_pending_unstake c)"] opened(3,6) assms(3) show ?thesis
    by (simp add: pending_balanced_def)
next
  case (tuned c c')
  from tuned(1) [of "\<lambda>c. unat (pc_total_pending_unstake c)"] tuned(3,4) assms(3) show ?thesis
    by (simp add: pending_balanced_def totals_kept_def)
next
  case (minted c c' v)
  from minted(1) [of "\<lambda>c. unat (pc_total_pending_unstake c)"] minted(3,7) assms(3)
  show ?thesis by (simp add: pending_balanced_def)
next
  case (moved ck c c' vk v v' x y)
  let ?owed = "\<lambda>e. unat (ue_lamports_owed e)"
  have "contribution un_escrow ?owed x \<le> total_over un_escrow ?owed a"
    using moved(7) escrow_acct.contribution_le_total by auto
  also have "\<dots> = unat (pc_total_pending_unstake c)"
    using config_total [OF assms(2) moved(1), of "\<lambda>c. unat (pc_total_pending_unstake c)"] assms(3)
    by (simp add: pending_balanced_def)
  finally show ?thesis
    using moved(3) [of "\<lambda>c. unat (pc_total_pending_unstake c)"] moved(5) [of ?owed] moved(8) assms(3)
    unfolding pending_balanced_def by linarith
qed

lemma yield_moved:
  assumes "position_moves c v c' v'"
  obtains out y where "out \<le> unat (vs_yield_balance v)"
    "unat (vs_yield_balance v') = min 18446744073709551615 (unat (vs_yield_balance v) - out + y)"
    "unat (pc_total_yield_claims c') =
       min 18446744073709551615 (unat (pc_total_yield_claims c) - out + y)"
proof -
  from assms obtain out y where "out \<le> vs_yield_balance v"
    "vs_yield_balance v' = saturating_add (vs_yield_balance v - out) y"
    "pc_total_yield_claims c' = saturating_add (saturating_sub (pc_total_yield_claims c) out) y"
    unfolding position_moves_def by blast
  then show ?thesis
    by (intro that [of "unat out" "unat y"])
      (simp_all add: unat_saturating_add unat_saturating_sub unat_minus_le word_le_nat_alt min.commute)
qed

lemma claims_arith:
  fixes m b b' t t' out y total total' :: nat
  assumes "out \<le> b" and "b' = min m (b - out + y)" and "t' = min m (t - out + y)"
    and "total' + b = total + b'" and "b \<le> total"
  shows "t \<le> total \<Longrightarrow> t' \<le> total'" and "t = total \<Longrightarrow> total' < m \<Longrightarrow> t' = total'"
  using assms by (auto simp: min_def split: if_splits)

lemma claims_moved:
  assumes "well_placed E a" and "a ck = Some (ConfigAcct c)" and "a vk = Some (VowAcct v)"
    and "position_moves c v c' v'"
    and "\<And>f. int (total_over un_config f a') = int (total_over un_config f a) - int (f c) + int (f c')"
    and "\<And>g. int (total_over un_vow g a') = int (total_over un_vow g a) - int (g v) + int (g v')"
  shows "claims_covered a \<Longrightarrow> claims_covered a'"
    and "claims_exact a \<Longrightarrow> total_over un_vow (\<lambda>v. unat (vs_yield_balance v)) a' < 18446744073709551615
      \<Longrightarrow> claims_exact a'"
proof -
  let ?yb = "\<lambda>v. unat (vs_yield_balance v)" and ?yc = "\<lambda>c. unat (pc_total_yield_claims c)"
  from assms(4) obtain out y where o: "out \<le> ?yb v"
    and b: "?yb v' = min 18446744073709551615 (?yb v - out + y)"
    and t: "?yc c' = min 18446744073709551615 (?yc c - out + y)" by (rule yield_moved)
  have c: "total_over un_config ?yc a = ?yc c" using config_total [OF assms(1,2)] .
  have c': "total_over un_config ?yc a' = ?yc c'" using assms(5) [of ?yc] c by linarith
  have v': "total_over un_vow ?yb a' + ?yb v = total_over un_vow ?yb a + ?yb v'"
    using assms(6) [of ?yb] by linarith
  have v: "?yb v \<le> total_over un_vow ?yb a"
    using vow_acct.le_total [of a vk v ?yb] assms(3) by simp
  show "claims_covered a \<Longrightarrow> claims_covered a'"
    using claims_arith(1) [OF o b t v' v] c c' by (simp add: claims_covered_def)
  show "claims_exact a \<Longrightarrow> total_over un_vow ?yb a' < 18446744073709551615 \<Longrightarrow> claims_exact a'"
    using claims_arith(2) [OF o b t v' v] c c' by (simp add: claims_exact_def)
qed

lemma claims_step:
  assumes "acct_step E a a'" and "well_placed E a"
  shows "claims_covered a \<Longrightarrow> claims_covered a'"
    and "claims_exact a \<Longrightarrow> total_over un_vow (\<lambda>v. unat (vs_yield_balance v)) a' < 18446744073709551615
      \<Longrightarrow> claims_exact a'"
proof -
  let ?yb = "\<lambda>v. unat (vs_yield_balance v)" and ?yc = "\<lambda>c. unat (pc_total_yield_claims c)"
  have "(claims_covered a \<longrightarrow> claims_covered a') \<and>
    (claims_exact a \<longrightarrow> total_over un_vow ?yb a' < 18446744073709551615 \<longrightarrow> claims_exact a')"
    using assms(1)
  proof (cases rule: step_totals)
    case quiet
    then show ?thesis by (simp add: claims_covered_def claims_exact_def)
  next
    case (opened c)
    from opened(1) [of ?yc] opened(2,5) show ?thesis
      by (simp add: claims_covered_def claims_exact_def)
  next
    case (tuned c c')
    from tuned(1) [of ?yc] tuned(2,4) show ?thesis
      by (simp add: claims_covered_def claims_exact_def totals_kept_def)
  next
    case (minted c c' v)
    from minted(1) [of ?yc] minted(2) [of ?yb] minted(5,6) show ?thesis
      by (simp add: claims_covered_def claims_exact_def)
  next
    case (moved ck c c' vk v v' x y)
    from claims_moved [OF assms(2) moved(1,2,6,3,4)] show ?thesis by blast
  qed
  then show "claims_covered a \<Longrightarrow> claims_covered a'"
    and "claims_exact a \<Longrightarrow> total_over un_vow ?yb a' < 18446744073709551615 \<Longrightarrow> claims_exact a'"
    by blast+
qed

section \<open>Sessions, tiers and escrows\<close>

definition sessions_ok :: "accts \<Rightarrow> bool" where
  "sessions_ok a \<longleftrightarrow>
     (\<forall>k se. a k = Some (SessionAcct se) \<longrightarrow> session_account_wf se \<and> within_limits se)"

definition tiers_ok :: "accts \<Rightarrow> bool" where
  "tiers_ok a \<longleftrightarrow> (\<forall>k v. a k = Some (VowAcct v) \<longrightarrow> tier_ok v)"

definition escrows_ok :: "accts \<Rightarrow> bool" where
  "escrows_ok a \<longleftrightarrow>
     (\<forall>k e. a k = Some (EscrowAcct e) \<longrightarrow>
        (\<exists>v. a (ue_vow_state e) = Some (VowAcct v) \<and> parked v \<and> ue_owner e = vs_owner v))"

lemma peripheral_core:
  assumes "\<And>k. a' k \<noteq> a k \<Longrightarrow> \<not> core (a k) \<and> \<not> core (a' k) \<and> \<not> is_gate (a k)"
  shows "a' k = Some (ConfigAcct c) \<longleftrightarrow> a k = Some (ConfigAcct c)"
    and "a' k = Some (VowAcct v) \<longleftrightarrow> a k = Some (VowAcct v)"
    and "a' k = Some (SessionAcct se) \<longleftrightarrow> a k = Some (SessionAcct se)"
    and "a' k = Some (EscrowAcct e) \<longleftrightarrow> a k = Some (EscrowAcct e)"
  using assms [of k] by (metis core.simps)+

lemma sessions_ok_step:
  assumes "acct_step E a a'" and "sessions_ok a"
  shows "sessions_ok a'"
  using assms(1)
proof cases
  case peripheral
  have "\<And>k se. a' k = Some (SessionAcct se) \<longleftrightarrow> a k = Some (SessionAcct se)"
    by (rule peripheral_core [OF peripheral])
  then show ?thesis using assms(2) unfolding sessions_ok_def by simp
next
  case (spend ck c vk v sk se c' v' amount se')
  then have "session_account_wf se' \<and> within_limits se'"
    using assms(2)
    by (auto simp: sessions_ok_def session_spends_def grant_kept_def session_account_wf_def)
  with spend assms(2) show ?thesis by (auto simp: sessions_ok_def)
next
  case (revoke sk se)
  then show ?thesis
    using assms(2) by (auto simp: sessions_ok_def session_account_wf_def within_limits_def)
qed (use assms(2) in \<open>auto simp: sessions_ok_def\<close>)

lemma tiers_ok_step:
  assumes "acct_step E a a'" and "tiers_ok a"
  shows "tiers_ok a'"
  using assms(1)
proof cases
  case peripheral
  have "\<And>k v. a' k = Some (VowAcct v) \<longleftrightarrow> a k = Some (VowAcct v)"
    by (rule peripheral_core [OF peripheral])
  then show ?thesis using assms(2) unfolding tiers_ok_def by simp
qed (use assms(2) in \<open>auto simp: tiers_ok_def vow_evolves_def\<close>)

lemma unstake_seeds_inj:
  "concat (unstake_seeds v @ [[b]]) = concat (unstake_seeds w @ [[d]]) \<Longrightarrow> v = w"
  by (simp add: unstake_seeds_def pubkey_le.enc_append_eq_iff pubkey_le.enc_eq_iff)

lemma escrow_address:
  assumes "pda_sound E" and "pda_collision_free E" and "well_placed E a"
    and "a ek = Some (EscrowAcct e)" and "pda_with_bump E (unstake_seeds vk) (ue_bump e) ek"
  shows "ue_vow_state e = vk"
proof -
  have "en_create_program_address E (unstake_seeds (ue_vow_state e) @ [[ue_bump e]]) (en_program_id E) = Some ek"
    using well_placedD [OF assms(3,4)] assms(1) by (simp add: pda_sound_def)
  with assms(2,5) have "concat (unstake_seeds (ue_vow_state e) @ [[ue_bump e]]) = concat (unstake_seeds vk @ [[ue_bump e]])"
    unfolding pda_collision_free_def pda_with_bump_def by blast
  then show ?thesis by (rule unstake_seeds_inj)
qed

lemma escrow_unique:
  assumes "well_placed E a" and "a k = Some (EscrowAcct e)"
    and "placed E j (Some (EscrowAcct d))" and "ue_vow_state d = ue_vow_state e"
  shows "j = k"
  using well_placedD [OF assms(1,2)] assms(3,4) by simp

lemma escrows_upd_other:
  assumes "escrows_ok a" and "\<And>v. a k \<noteq> Some (VowAcct v)" and "\<And>e. x \<noteq> Some (EscrowAcct e)"
  shows "escrows_ok (a(k := x))"
  using assms unfolding escrows_ok_def by (metis fun_upd_apply)

lemma escrows_upd_vow:
  assumes "escrows_ok a" and "a k = Some (VowAcct v)" and "parked v \<longrightarrow> parked v'"
    and "vow_evolves v v'"
  shows "escrows_ok (a(k := Some (VowAcct v')))"
  using assms unfolding escrows_ok_def vow_evolves_def identity_kept_def
  by (metis fun_upd_apply option.inject acct.inject(2) acct.distinct(23))

lemma escrows_upd_position:
  assumes "escrows_ok a" and "a ck = Some (ConfigAcct c)" and "a vk = Some (VowAcct v)"
    and "parked v \<longrightarrow> parked v'" and "vow_evolves v v'"
  shows "escrows_ok (a(ck := Some (ConfigAcct c'), vk := Some (VowAcct v')))"
proof -
  have "escrows_ok (a(ck := Some (ConfigAcct c')))"
    using assms(1,2) by (intro escrows_upd_other) auto
  moreover have "ck \<noteq> vk" using assms(2,3) by auto
  ultimately show ?thesis using assms by (intro escrows_upd_vow [of _ _ v]) auto
qed

lemma escrows_add:
  assumes "escrows_ok a" and "\<And>v. a k \<noteq> Some (VowAcct v)"
    and "a (ue_vow_state e) = Some (VowAcct v)" and "parked v" and "ue_owner e = vs_owner v"
  shows "escrows_ok (a(k := Some (EscrowAcct e)))"
  using assms unfolding escrows_ok_def by (metis fun_upd_apply option.inject acct.inject(4))

lemma escrows_ok_step:
  assumes "pda_sound E" and "pda_collision_free E"
    and "acct_step E a a'" and "well_placed E a" and "escrows_ok a"
  shows "escrows_ok a'"
  using assms(3)
proof cases
  case peripheral
  have "\<And>k e. a' k = Some (EscrowAcct e) \<longleftrightarrow> a k = Some (EscrowAcct e)"
    by (rule peripheral_core [OF peripheral])
  moreover have "\<And>k v. a' k = Some (VowAcct v) \<longleftrightarrow> a k = Some (VowAcct v)"
    by (rule peripheral_core [OF peripheral])
  ultimately show ?thesis using assms(5) unfolding escrows_ok_def by simp
next
  case (complete_unstake ck c vk v ek e c' v')
  have "ue_vow_state d \<noteq> vk" if "a k = Some (EscrowAcct d)" "k \<noteq> ek" for k d
    using that escrow_address [OF assms(1,2,4) complete_unstake(4,6)]
      escrow_unique [OF assms(4) that(1) well_placedD [OF assms(4) complete_unstake(4)]] by auto
  moreover have "a (ue_vow_state d) \<noteq> Some (ConfigAcct c) \<and> a (ue_vow_state d) \<noteq> Some (EscrowAcct e)"
    if "a k = Some (EscrowAcct d)" for k d
    using assms(5) that unfolding escrows_ok_def by force
  ultimately show ?thesis
    using complete_unstake(1-4) assms(5) unfolding escrows_ok_def by (auto split: if_splits)
next
  case (begin_unstake ck c vk v ek c' v' e)
  then have "escrows_ok (a(ck := Some (ConfigAcct c'), vk := Some (VowAcct v')))"
    using assms(5) by (intro escrows_upd_position [of a ck c vk v]) auto
  moreover have "vs_owner v' = vs_owner v"
    using begin_unstake by (simp add: vow_evolves_def identity_kept_def)
  moreover have "ek \<noteq> ck" "ek \<noteq> vk" using begin_unstake by auto
  ultimately show ?thesis
    unfolding begin_unstake(1) using begin_unstake(4-) by (intro escrows_add [of _ _ _ v']) auto
next
  case (position ck c vk v c' v')
  then show ?thesis using assms(5) escrows_upd_position [of a ck c vk v] by simp
next
  case (spend ck c vk v sk se c' v' amount se')
  then have "escrows_ok (a(ck := Some (ConfigAcct c'), vk := Some (VowAcct v')))"
    using assms(5) by (intro escrows_upd_position [of a ck c vk v]) auto
  moreover have "sk \<noteq> ck" "sk \<noteq> vk" using spend by auto
  ultimately show ?thesis
    unfolding spend(1) using spend(4) by - (rule escrows_upd_other, auto)
next
  case (open_session ck c vk v sk v' se)
  then have "escrows_ok (a(vk := Some (VowAcct v')))" and "sk \<noteq> vk"
    using assms(5) escrows_upd_vow [of a vk v] by auto
  then show ?thesis unfolding open_session(1) using open_session(4) by - (rule escrows_upd_other, auto)
qed (use assms(5) in \<open>auto intro!: escrows_upd_other split: if_splits\<close>)

section \<open>Invariants along a run\<close>

text \<open>
  What it takes to be an invariant of the protocol: it holds while there is no core
  account, and every step to a state that satisfies the side condition keeps it. And what
  it takes to be a history: a preorder on the accounts that every step respects.
\<close>

locale step_invariant =
  fixes E :: env
    and ok :: "accts \<Rightarrow> bool"
    and P :: "accts \<Rightarrow> bool"
  assumes initially: "(\<And>k. \<not> core (a k)) \<Longrightarrow> P a"
    and step_keeps: "acct_step E a a' \<Longrightarrow> ok a' \<Longrightarrow> P a \<Longrightarrow> P a'"

locale step_history =
  fixes E :: env
    and R :: "accts \<Rightarrow> accts \<Rightarrow> bool"
  assumes refl: "R a a"
    and trans: "R a b \<Longrightarrow> R b d \<Longrightarrow> R a d"
    and step_respects: "acct_step E a a' \<Longrightarrow> R a a'"

lemma no_core_totals:
  assumes "\<And>k. \<not> core (a k)"
  shows "total_over un_config f a = 0" and "total_over un_vow g a = 0"
    and "total_over un_escrow h a = 0"
  using contribution_core [OF assms] by (simp_all add: total_over_def)

lemma no_core_ok:
  assumes "\<And>k. \<not> core (a k)"
  shows "sessions_ok a" and "tiers_ok a" and "escrows_ok a"
proof -
  have "a k \<noteq> Some (SessionAcct se)" "a k \<noteq> Some (VowAcct v)" "a k \<noteq> Some (EscrowAcct e)"
    for k se v e using assms [of k] by auto
  then show "sessions_ok a" and "tiers_ok a" and "escrows_ok a"
    unfolding sessions_ok_def tiers_ok_def escrows_ok_def by blast+
qed

interpretation placement: step_invariant E "\<lambda>_. True" "well_placed E" for E
  by unfold_locales (auto simp: well_placed_def not_core_placed dest: well_placed_step)

interpretation shares: step_invariant E "\<lambda>_. True" "\<lambda>a. well_placed E a \<and> shares_balanced a" for E
  by unfold_locales
    (auto simp: placement.initially shares_balanced_def no_core_totals
      dest: well_placed_step shares_balanced_step)

interpretation pending: step_invariant E "\<lambda>_. True" "\<lambda>a. well_placed E a \<and> pending_balanced a" for E
  by unfold_locales
    (auto simp: placement.initially pending_balanced_def no_core_totals
      dest: well_placed_step pending_balanced_step)

interpretation claims: step_invariant E "\<lambda>_. True" "\<lambda>a. well_placed E a \<and> claims_covered a" for E
  by unfold_locales
    (auto simp: placement.initially claims_covered_def no_core_totals
      dest: well_placed_step claims_step(1))

text \<open>Yield balances whose sum is within 64 bits: no addition of yield has saturated.\<close>

definition yield_bounded :: "accts \<Rightarrow> bool" where
  "yield_bounded a \<longleftrightarrow> total_over un_vow (\<lambda>v. unat (vs_yield_balance v)) a < 18446744073709551615"

interpretation exact_claims: step_invariant E yield_bounded "\<lambda>a. well_placed E a \<and> claims_exact a" for E
  by unfold_locales
    (auto simp: placement.initially claims_exact_def no_core_totals yield_bounded_def
      dest: well_placed_step claims_step(2))

interpretation sessions: step_invariant E "\<lambda>_. True" sessions_ok for E
  by unfold_locales (auto intro: no_core_ok sessions_ok_step)

interpretation tiers: step_invariant E "\<lambda>_. True" tiers_ok for E
  by unfold_locales (auto intro: no_core_ok tiers_ok_step)

interpretation escrows: step_invariant E "\<lambda>_. True"
    "\<lambda>a. well_placed E a \<and> (pda_sound E \<and> pda_collision_free E \<longrightarrow> escrows_ok a)" for E
  by unfold_locales
    (auto intro: no_core_ok placement.initially well_placed_step escrows_ok_step)

definition identities_persist :: "accts \<Rightarrow> accts \<Rightarrow> bool" where
  "identities_persist a a' \<longleftrightarrow>
     (\<forall>k v. a k = Some (VowAcct v) \<longrightarrow>
        (\<exists>v'. a' k = Some (VowAcct v') \<and> identity_kept v v' \<and> standing_grows v v'))"

lemma evolution_refl [simp]: "identity_kept v v" "standing_grows v v"
  by (simp_all add: identity_kept_def standing_grows_def)

lemma identities_persist_step:
  assumes "acct_step E a a'"
  shows "identities_persist a a'"
  using assms
proof cases
  case peripheral
  have "\<And>k v. a' k = Some (VowAcct v) \<longleftrightarrow> a k = Some (VowAcct v)"
    by (rule peripheral_core [OF peripheral])
  then show ?thesis unfolding identities_persist_def by simp
qed (auto simp: identities_persist_def vow_evolves_def)

lemma identities_persist_trans:
  assumes "identities_persist a b" and "identities_persist b d"
  shows "identities_persist a d"
  unfolding identities_persist_def
proof (intro allI impI)
  fix k v
  assume "a k = Some (VowAcct v)"
  then obtain v1 where v1: "b k = Some (VowAcct v1)" "identity_kept v v1" "standing_grows v v1"
    using assms(1) unfolding identities_persist_def by blast
  then obtain v2 where "d k = Some (VowAcct v2)" "identity_kept v1 v2" "standing_grows v1 v2"
    using assms(2) unfolding identities_persist_def by blast
  with v1 show "\<exists>v'. d k = Some (VowAcct v') \<and> identity_kept v v' \<and> standing_grows v v'"
    by (intro exI [of _ v2]) (auto simp: identity_kept_def standing_grows_def)
qed

interpretation identities: step_history E identities_persist for E
  by unfold_locales
    (auto simp: identities_persist_def [of a a for a] intro: identities_persist_trans identities_persist_step)

text \<open>A recording is never forgotten: a gate, once there, stays.\<close>

definition gates_persist :: "accts \<Rightarrow> accts \<Rightarrow> bool" where
  "gates_persist a a' \<longleftrightarrow> (\<forall>k. is_gate (a k) \<longrightarrow> a' k = a k)"

lemma gates_persist_step:
  assumes "acct_step E a a'"
  shows "gates_persist a a'"
  using assms by cases (auto simp: gates_persist_def)

interpretation gates: step_history E gates_persist for E
  by unfold_locales (auto simp: gates_persist_def gates_persist_step [unfolded gates_persist_def])

text \<open>
  A session that is not closed keeps its grant, and its record of spending only grows. (A
  closed session's address may be used for a new grant.)
\<close>

lemma session_step:
  assumes "acct_step E a a'" and "a k = Some (SessionAcct se)"
  shows "a' k = None \<or> (\<exists>se'. a' k = Some (SessionAcct se') \<and> grant_kept se se' \<and>
    unat (sa_spent_total se) \<le> unat (sa_spent_total se'))"
  using assms(1)
proof cases
  case peripheral
  have "\<And>k se. a' k = Some (SessionAcct se) \<longleftrightarrow> a k = Some (SessionAcct se)"
    by (rule peripheral_core [OF peripheral])
  then show ?thesis using assms(2) by (auto simp: grant_kept_def)
qed (use assms(2) in \<open>auto simp: session_spends_def grant_kept_def\<close>)

text \<open>A step that changes an identity alone.\<close>

lemma vow_only_step:
  assumes "a ck = Some (ConfigAcct c)" and "a vk = Some (VowAcct v)" and "vow_evolves v v'"
    and "vs_shares v' = vs_shares v" and "vs_yield_balance v' = vs_yield_balance v"
    and "vs_active_stake v' = vs_active_stake v"
  shows "acct_step E a (a(vk := Some (VowAcct v')))"
proof -
  have "position_moves c v c v'"
    by (rule position_movesI [where b = 0 and n = 0 and out = 0 and y = 0]) (simp_all add: assms)
  then have "acct_step E a (a(ck := Some (ConfigAcct c), vk := Some (VowAcct v')))"
    using assms by (intro acct_step.position) (auto simp: bumps_kept_def parked_def)
  moreover have "a(ck := Some (ConfigAcct c)) = a" using assms(1) by (metis fun_upd_triv)
  ultimately show ?thesis by simp
qed

lemma peripheral_upd:
  assumes "\<not> core (a k)" and "\<not> is_gate (a k)" and "\<not> core x"
  shows "acct_step E a (a(k := x))"
  by (rule acct_step.peripheral) (use assms in auto)

lemma init_peripheral:
  assumes "init_account E seeds space payer k s = Inr (b, s1)" and "\<not> core (Some x)"
  shows "acct_step E (lg_accts s) ((lg_accts s1)(k := Some x))"
  using init_accountD(2,3) [OF assms(1)] assms(2) by (simp add: peripheral_upd)

lemma stutter: "acct_step E a a"
  by (rule acct_step.peripheral) simp

lemma peripheral_two:
  assumes "\<not> core (a k)" and "\<not> core (a j)" and "\<not> is_gate (a k)" and "\<not> is_gate (a j)"
    and "\<not> core x" and "\<not> core y"
  shows "acct_step E a (a(k := x, j := y))"
  by (rule acct_step.peripheral) (use assms in auto)

end
