(* ===== verification/Vow_Demo.thy ===== *)
theory Vow_Demo
  imports Vow_Spec
begin

text \<open>
  A small concrete chain on which the witnesses of the development run: an environment
  whose address derivation is a table, one transaction and one ledger. Its addresses are
  small numbers; every assumption on the environment that the theorems name holds of it.
\<close>

definition demo_table :: "(byte list list \<times> pubkey) list" where
  "demo_table =
     [(config_seeds @ [[255]], 1), (reserve_seeds @ [[255]], 2),
      (vow_asset_seeds 0 @ [[255]], 5), (vow_seeds 5 @ [[255]], 6),
      (unstake_seeds 6 @ [[255]], 7), (session_seeds 6 0 @ [[255]], 8),
      (app_seeds 20 @ [[255]], 9), (commitment_seeds 4 @ [[255]], 10),
      (cr_commit_seeds 10 6 @ [[255]], 11), (cr_fulfill_seeds 10 6 @ [[255]], 12),
      (profile_seeds 4 (replicate 8 7) @ [[255]], 13)]"

definition demo_create :: "byte list list \<Rightarrow> pubkey \<Rightarrow> pubkey option" where
  "demo_create seeds pid = map_of demo_table seeds"

definition demo_find :: "byte list list \<Rightarrow> pubkey \<Rightarrow> (pubkey \<times> u8) option" where
  "demo_find seeds pid = map_option (\<lambda>k. (k, 255)) (demo_create (seeds @ [[255]]) pid)"

text \<open>Owner 4, system program 3, an application 20, a session key 21, a shop 22.\<close>

definition demo_env :: env where
  "demo_env =
     \<lparr>en_program_id = 1000, en_create_program_address = demo_create,
      en_find_program_address = demo_find, en_minimum_balance = (\<lambda>_. 890880),
      en_discriminator = (\<lambda>_. replicate 8 1), en_pubkey_try_from = (\<lambda>_. Some 30),
      en_keccak = (\<lambda>bs. bs), en_system_program = 3, en_token_program = 31,
      en_stake_program = 32, en_sysvar_clock = 33, en_sysvar_stake_history = 34,
      en_invoke_signed = (\<lambda>ix seeds s. Ok s)\<rparr>"

definition demo_tx :: tx where
  "demo_tx =
     \<lparr>tx_unix_timestamp = 1700000000, tx_epoch = 500, tx_is_signer = (\<lambda>_. True),
      tx_is_writable = (\<lambda>_. True)\<rparr>"

definition demo_ledger :: ledger where
  "demo_ledger =
     \<lparr>lg_lamports = (\<lambda>_. 0)(4 := 1000000000000), lg_accts = (\<lambda>_. None),
      lg_executable = (\<lambda>k. k = 3 \<or> k = 20), lg_logs = []\<rparr>"

lemma ascii_bytes_eq_iff [simp]: "ascii_bytes s = ascii_bytes t \<longleftrightarrow> s = t"
proof -
  have "unat (of_char c :: byte) = of_char c" for c
  proof -
    have "unat (of_char c :: byte) = unat (word_of_nat (of_char c) :: byte)"
      by (simp only: of_nat_of_char)
    also have "\<dots> = of_char c mod 256" by (simp add: unat_of_nat del: of_char_mod_256)
    also have "\<dots> = of_char c" by (rule of_char_mod_256)
    finally show ?thesis .
  qed
  then have "inj (of_char :: char \<Rightarrow> byte)"
    by (metis injI of_char_eq_iff)
  then show ?thesis by (simp add: ascii_bytes_def inj_map_eq_map)
qed

lemmas demo_seeds =
  config_seeds_def reserve_seeds_def vow_asset_seeds_def vow_seeds_def unstake_seeds_def
  session_seeds_def app_seeds_def commitment_seeds_def cr_commit_seeds_def cr_fulfill_seeds_def
  profile_seeds_def pubkey_le.enc_eq_iff u64_le.enc_eq_iff u32_le.enc_eq_iff

lemmas demo_eval =
  demo_env_def demo_tx_def demo_find_def demo_create_def demo_table_def demo_seeds

text \<open>
  A protocol in use: one identity of 5 XNT in treasury mode, past its lock period, with
  1 XNT of yield and a session that may spend half an XNT a day.
\<close>

definition demo_config :: protocol_config where
  "demo_config =
     \<lparr>pc_admin = 4, pc_current_share_price = 1000000000000, pc_total_shares = 5000000000,
      pc_total_yield_claims = 1000000000, pc_last_pool_lamports = 0, pc_total_minted = 1,
      pc_merkle_tree = 0, pc_total_pending_unstake = 0, pc_spl_stake_pool = 0,
      pc_spl_pool_mint = 0, pc_reserve_bump = 255, pc_bump = 255\<rparr>"

definition demo_vow :: vow_state where
  "demo_vow =
     \<lparr>vs_asset_id = 5, vs_owner = 4, vs_class = 0, vs_nonce = 0,
      vs_principal_lamports = 5000000000, vs_shares = 5000000000,
      vs_last_share_price = 1000000000000, vs_accrued_gain = 0, vs_yield_mode = Treasury,
      vs_yield_balance = 1000000000, vs_total_harvested = 0, vs_created_at = 1690000000,
      vs_unlock_at = 1692592000, vs_matured = False, vs_sessions_invalidated_at = 0,
      vs_active_stake = True, vs_session_nonce = 1, vs_first_staked_at = 1690000000,
      vs_current_stake_started_at = 1690000000, vs_total_commitments = 1,
      vs_total_fulfilled = 0, vs_cumulative_stake_days = 0, vs_highest_class_ever = 0,
      vs_bump = 255\<rparr>"

definition demo_session :: session_account where
  "demo_session =
     \<lparr>sa_vow_state = 6, sa_session_key = 21, sa_allowed_program_ids = 20 # replicate 7 0,
      sa_program_count = 1, sa_session_index = 0, sa_creation_nonce = 0,
      sa_start_ts = 1695000000, sa_expiry_ts = 1800000000, sa_daily_limit = 500000000,
      sa_lifetime_limit = 2000000000, sa_velocity_limit = 3, sa_spent_today = 0,
      sa_spent_total = 0, sa_tx_count_today = 0, sa_last_reset_day = 19618,
      sa_active = True, sa_bump = 255\<rparr>"

definition demo_escrow :: unstake_escrow where
  "demo_escrow =
     \<lparr>ue_vow_state = 6, ue_owner = 4, ue_lamports_owed = 6000000000,
      ue_deactivation_epoch = 499, ue_bump = 255\<rparr>"

definition demo_live :: ledger where
  "demo_live =
     \<lparr>lg_lamports = (\<lambda>_. 0)(4 := 1000000000000, 2 := 20000000000),
      lg_accts = (\<lambda>_. None)(1 := Some (ConfigAcct demo_config), 6 := Some (VowAcct demo_vow),
        8 := Some (SessionAcct demo_session)),
      lg_executable = (\<lambda>k. k = 3 \<or> k = 20), lg_logs = []\<rparr>"

lemmas demo_data =
  demo_ledger_def demo_config_def demo_vow_def demo_session_def demo_escrow_def demo_live_def

text \<open>The assumptions on the environment hold of this one.\<close>

lemma demo_pda_sound: "pda_sound demo_env"
  by (auto simp: pda_sound_def demo_env_def demo_find_def)

lemma demo_pda_collision_free: "pda_collision_free demo_env"
proof -
  have "x = y" if "(x, k) \<in> set demo_table" and "(y, k) \<in> set demo_table" for x y k
    using that by (auto simp: demo_table_def)
  then show ?thesis
    unfolding pda_collision_free_def demo_env_def by (auto simp: demo_create_def dest!: map_of_SomeD)
qed

lemma demo_day: "signed_div (1700000000 :: i64) 86400 = 19675"
  by (simp add: signed_div_def signed_divide_int_def)

text \<open>What evaluates an instruction on this chain.\<close>

lemmas demo_exec =
  demo_eval demo_data demo_day Let_def init_account_def find_bump_def signer_account_def
  program_account_def is_program_def transfer_def transfer_signed_def checked_add_def
  checked_sub_def checked_mul_def checked_div_def saturating_sub_def saturating_add_def
  store_def emit_def debit_def config_account_def vow_account_def reserve_account_def
  load_def pda_with_bump_def close_account_def account_data_def add_ov_def sub_ov_def mul_ov_def

end
