(* ===== verification/Vow_Shares.thy ===== *)
theory Vow_Shares
  imports Vow_Demo
begin

text \<open>
  Pool-share accounting: lamports become shares at the current price when they are staked
  (\<^verbatim>\<open>mint.rs\<close>, \<^verbatim>\<open>add_stake.rs\<close>, \<^verbatim>\<open>activate_stake.rs\<close>), shares become lamports
  when a position is valued (\<^verbatim>\<open>harvest.rs\<close>, \<^verbatim>\<open>begin_unstake.rs\<close>), and yield is
  paid for by burning shares (\<^verbatim>\<open>harvest.rs\<close>). All three divide and round down.
  The locale \<open>share_exchange\<close> is the contract the clients rely on; it is interpreted on
  the two functions the code computes.
\<close>

section \<open>The computations of the code\<close>

definition shares_for_lamports :: "u64 \<Rightarrow> u128 \<Rightarrow> u128 result" where
  "shares_for_lamports lamports price =
     and_then (ok_or (checked_mul (u64_as_u128 lamports) SHARE_PRECISION) (VowErr MathOverflow)) (\<lambda>m.
     ok_or (checked_div m price) (VowErr MathOverflow))"

definition shares_to_burn :: "u64 \<Rightarrow> u128 \<Rightarrow> u128 result" where
  "shares_to_burn amount price =
     and_then (ok_or (checked_mul (u64_as_u128 amount) SHARE_PRECISION) (VowErr MathOverflow)) (\<lambda>m.
     Ok (unwrap_or (checked_div m price) 0))"

definition position_value :: "u128 \<Rightarrow> u128 \<Rightarrow> u128 result" where
  "position_value shares price =
     and_then (ok_or (checked_mul shares price) (VowErr MathOverflow)) (\<lambda>m.
     Ok (unwrap_or (checked_div m SHARE_PRECISION) 0))"

section \<open>The exchange as a contract\<close>

definition issue :: "nat \<Rightarrow> nat \<Rightarrow> nat" where
  "issue lamports price = lamports * 1000000000000 div price"

definition redeem :: "nat \<Rightarrow> nat \<Rightarrow> nat" where
  "redeem shares price = shares * price div 1000000000000"

locale share_exchange =
  fixes issue :: "nat \<Rightarrow> nat \<Rightarrow> nat"
    and redeem :: "nat \<Rightarrow> nat \<Rightarrow> nat"
    and unit_cost :: "nat \<Rightarrow> nat" \<comment> \<open>what one share may cost, rounded up\<close>
  assumes redeem_issue_le: "redeem (issue x p) p \<le> x"
    and issue_loss: "0 < p \<Longrightarrow> x \<le> redeem (issue x p) p + unit_cost p"
    and redeem_mono: "a \<le> b \<Longrightarrow> p \<le> q \<Longrightarrow> redeem a p \<le> redeem b q"
    and redeem_add_ge: "redeem a p + redeem b p \<le> redeem (a + b) p"
    and redeem_split: "redeem (a + issue x p) p \<le> redeem a p + x"
    and redeem_add_le: "redeem (a + b) p \<le> redeem a p + redeem b p + 1"
begin

text \<open>Staking and redeeming at one price never gains, and loses at most one share.\<close>

lemma round_trip:
  "0 < p \<Longrightarrow> redeem (issue x p) p \<le> x \<and> x \<le> redeem (issue x p) p + unit_cost p"
  using redeem_issue_le issue_loss by simp

text \<open>
  Paying \<open>x\<close> out of a position against \<open>issue x p\<close> of its shares: the position and the
  payment together are worth no less than before, and at most one share (and one lamport
  of rounding) more.
\<close>

lemma burn_keeps_value:
  assumes "issue x p \<le> n"
  shows "redeem n p \<le> redeem (n - issue x p) p + x"
  using redeem_split [of "n - issue x p" x p] assms by simp

lemma burn_gain_bounded:
  assumes "0 < p" and "issue x p \<le> n"
  shows "redeem (n - issue x p) p + x \<le> redeem n p + unit_cost p"
proof -
  have "redeem (n - issue x p) p + redeem (issue x p) p \<le> redeem n p"
    using redeem_add_ge [of "n - issue x p" p "issue x p"] assms(2) by simp
  with issue_loss [OF assms(1), of x] show ?thesis by simp
qed

end

definition unit_cost :: "nat \<Rightarrow> nat" where
  "unit_cost price = (price + 999999999999) div 1000000000000"

lemma issue_mult_le: "issue x p * p \<le> x * 1000000000000"
  by (simp add: issue_def)

lemma issue_mult_gt: "0 < p \<Longrightarrow> x * 1000000000000 < issue x p * p + p"
  using mod_less_divisor [of p "x * 1000000000000"] div_mult_mod_eq [of "x * 1000000000000" p]
  unfolding issue_def by linarith

interpretation exchange: share_exchange issue redeem unit_cost
proof
  fix x p a b q :: nat
  show "redeem (issue x p) p \<le> x"
    using div_le_mono [OF issue_mult_le [of x p], of 1000000000000] by (simp add: redeem_def)
  show "redeem (a + issue x p) p \<le> redeem a p + x"
  proof -
    have "(a + issue x p) * p \<le> a * p + x * 1000000000000"
      using issue_mult_le [of x p] by (simp add: add_mult_distrib)
    then have "redeem (a + issue x p) p \<le> (a * p + x * 1000000000000) div 1000000000000"
      unfolding redeem_def by (rule div_le_mono)
    then show ?thesis by (simp add: redeem_def)
  qed
  show "redeem a p + redeem b p \<le> redeem (a + b) p"
    unfolding redeem_def add_mult_distrib by linarith
  show "redeem (a + b) p \<le> redeem a p + redeem b p + 1"
    unfolding redeem_def add_mult_distrib by linarith
next
  fix x p :: nat
  assume "0 < p"
  then have "x * 1000000000000 < issue x p * p + p" by (rule issue_mult_gt)
  then show "x \<le> redeem (issue x p) p + unit_cost p"
    unfolding redeem_def unit_cost_def by linarith
next
  fix a b p q :: nat
  assume "a \<le> b" and "p \<le> q"
  then show "redeem a p \<le> redeem b q"
    unfolding redeem_def by (intro div_le_mono mult_le_mono)
qed

section \<open>The code computes the exchange\<close>

lemma precise_mul_Ok: "\<exists>m. checked_mul (u64_as_u128 x) SHARE_PRECISION = Some m \<and>
    unat m = unat x * 1000000000000"
proof -
  have "unat x * 1000000000000 < 2 ^ 128" using unat_u64_bound [of x] by simp
  then have "checked_mul (u64_as_u128 x) SHARE_PRECISION = Some (u64_as_u128 x * SHARE_PRECISION)"
    by (simp add: checked_mul_def)
  then show ?thesis by (auto simp: checked_mul_eq_Some)
qed

lemma shares_for_lamports_eq_Ok [res_simps]:
  "shares_for_lamports x p = Inr n \<longleftrightarrow> p \<noteq> 0 \<and> unat n = issue (unat x) (unat p)"
proof -
  obtain m where "checked_mul (u64_as_u128 x) SHARE_PRECISION = Some m"
    and "unat m = unat x * 1000000000000" using precise_mul_Ok by blast
  then show ?thesis
    by (auto simp: shares_for_lamports_def issue_def res_simps)
qed

lemma shares_for_lamports_Err:
  "shares_for_lamports x p = Inl e \<longleftrightarrow> p = 0 \<and> e = VowErr MathOverflow"
proof -
  obtain m where "checked_mul (u64_as_u128 x) SHARE_PRECISION = Some m"
    using precise_mul_Ok by blast
  then show ?thesis
    by (auto simp: shares_for_lamports_def checked_div_def)
qed

lemma shares_to_burn_eq_Ok [res_simps]:
  "shares_to_burn x p = Inr n \<longleftrightarrow> unat n = issue (unat x) (unat p)"
proof -
  obtain m where "checked_mul (u64_as_u128 x) SHARE_PRECISION = Some m"
    and "unat m = unat x * 1000000000000" using precise_mul_Ok by blast
  then show ?thesis
    by (auto simp: shares_to_burn_def issue_def unat_unwrap_checked_div word_unat_eq_iff)
qed

lemma position_value_eq_Ok [res_simps]:
  "position_value n p = Inr v \<longleftrightarrow>
     unat n * unat p < 2 ^ 128 \<and> unat v = redeem (unat n) (unat p)"
proof (cases "unat n * unat p < 2 ^ 128")
  case True
  then have "checked_mul n p = Some (n * p)" by (simp add: checked_mul_def)
  moreover from this have "unat (n * p) = unat n * unat p" by (simp add: checked_mul_eq_Some)
  ultimately show ?thesis
    using True by (auto simp: position_value_def redeem_def unat_unwrap_checked_div word_unat_eq_iff)
next
  case False
  then show ?thesis by (simp add: position_value_def checked_mul_def)
qed

lemma position_value_Err: "position_value n p = Inl e \<Longrightarrow> e = VowErr MathOverflow"
  by (auto simp: position_value_def and_then_eq_Err ok_or_def split: option.splits)

lemma redeem_small: "unat n * unat p < 2 ^ 128 \<Longrightarrow> redeem (unat n) (unat p) < 2 ^ 89"
  unfolding redeem_def by simp

end
