(* ===== verification/Vow_Harvest.thy ===== *)
theory Vow_Harvest
  imports Vow_Shares
begin

text \<open>
  Yield settlement (\<^verbatim>\<open>instructions/harvest.rs\<close>): \<open>settle_idnft\<close> moves the change of
  the position's value since the last settlement into \<open>accrued_gain\<close>, and \<open>harvest\<close>
  distributes the accrued gain by yield mode, paying what goes to \<open>yield_balance\<close> by
  burning shares. The lemmas give the effect of both on every field, and that harvesting
  neither loses value of the position nor creates more than one share's worth.
\<close>

section \<open>Definitions\<close>

definition settle_idnft :: "vow_state \<Rightarrow> protocol_config \<Rightarrow> vow_state result" where
  "settle_idnft idnft config =
     (if vs_last_share_price idnft = pc_current_share_price config then Ok idnft else
      and_then (position_value (vs_shares idnft) (pc_current_share_price config)) (\<lambda>current_value.
      and_then (position_value (vs_shares idnft) (vs_last_share_price idnft)) (\<lambda>last_value.
      and_then (signed_sub_ov current_value last_value) (\<lambda>diff.
      let delta = (signed_clamp (sint diff) :: i64) in
      Ok (idnft\<lparr>vs_accrued_gain := signed_saturating_add (vs_accrued_gain idnft) delta,
                vs_last_share_price := pc_current_share_price config\<rparr>)))))"

text \<open>The lock period ends: harvest and begin-unstake set the flag and emit the event.\<close>

definition mark_matured :: "tx \<Rightarrow> vow_state \<times> ledger \<Rightarrow> vow_state \<times> ledger" where
  "mark_matured X = (\<lambda>(idnft, s).
     if \<not> vs_matured idnft \<and> sint (vs_unlock_at idnft) \<le> sint (tx_unix_timestamp X)
     then (idnft\<lparr>vs_matured := True\<rparr>,
           emit (VowMatured (vs_asset_id idnft) (vs_owner idnft) (vs_class idnft)) s)
     else (idnft, s))"

text \<open>The three branches on the yield mode; the result is what the event reports.\<close>

definition harvest_treasury ::
    "protocol_config \<Rightarrow> vow_state \<Rightarrow> u64 \<Rightarrow> (protocol_config \<times> vow_state \<times> u128) result" where
  "harvest_treasury config idnft treasury_amount =
     and_then (shares_to_burn treasury_amount (pc_current_share_price config)) (\<lambda>burn.
     require (burn \<le> vs_shares idnft) (VowErr SharesUnderflow) (
     and_then (sub_ov (vs_shares idnft) burn) (\<lambda>shares.
     Ok (config\<lparr>pc_total_shares := saturating_sub (pc_total_shares config) burn,
                pc_total_yield_claims :=
                  saturating_add (pc_total_yield_claims config) treasury_amount\<rparr>,
         idnft\<lparr>vs_shares := shares,
               vs_yield_balance := saturating_add (vs_yield_balance idnft) treasury_amount\<rparr>,
         burn))))"

definition harvest_split ::
    "protocol_config \<Rightarrow> vow_state \<Rightarrow> (protocol_config \<times> vow_state \<times> u64 \<times> u128) result" where
  "harvest_split config idnft =
     (let gain = vs_accrued_gain idnft in
      case vs_yield_mode idnft of
        Compound \<Rightarrow>
          Ok (config,
              idnft\<lparr>vs_total_harvested := saturating_add (vs_total_harvested idnft) (signed_max0 gain),
                    vs_accrued_gain := 0\<rparr>, 0, 0)
      | Treasury \<Rightarrow>
          if sint gain \<le> 0 then Ok (config, idnft\<lparr>vs_accrued_gain := 0\<rparr>, 0, 0)
          else
            let treasury_amount = gain in
            and_then (harvest_treasury config idnft treasury_amount) (\<lambda>(config, idnft, burn).
            Ok (config,
                idnft\<lparr>vs_total_harvested := saturating_add (vs_total_harvested idnft) treasury_amount,
                      vs_accrued_gain := 0\<rparr>, treasury_amount, burn))
      | Hybrid \<Rightarrow>
          if sint gain \<le> 0 then Ok (config, idnft\<lparr>vs_accrued_gain := 0\<rparr>, 0, 0)
          else
            let treasury_amount = gain div 2; remainder = gain mod 2 in
            and_then (harvest_treasury config idnft treasury_amount) (\<lambda>(config, idnft, burn).
            Ok (config,
                idnft\<lparr>vs_total_harvested := saturating_add (vs_total_harvested idnft) gain,
                      vs_accrued_gain := remainder\<rparr>, treasury_amount, burn)))"

definition harvest_handler ::
    "tx \<Rightarrow> protocol_config \<Rightarrow> vow_state \<Rightarrow> ledger \<Rightarrow> (protocol_config \<times> vow_state \<times> ledger) result" where
  "harvest_handler X config idnft s =
     (let (idnft, s) = mark_matured X (idnft, s) in
      and_then (settle_idnft idnft config) (\<lambda>idnft.
      let gain = vs_accrued_gain idnft in
      and_then (harvest_split config idnft) (\<lambda>(config, idnft, yield_credited, shares_burned).
      Ok (config, idnft,
          emit (Harvested (vs_asset_id idnft) (vs_owner idnft) gain yield_credited shares_burned) s))))"

definition Harvest_accounts ::
    "env \<Rightarrow> tx \<Rightarrow> pubkey \<Rightarrow> pubkey \<Rightarrow> ledger \<Rightarrow> (protocol_config \<times> vow_state) result" where
  "Harvest_accounts E X config vow_state s =
     and_then (config_account E X True s config) (\<lambda>c.
     and_then (vow_account E X True s vow_state) (\<lambda>v.
     Ok (c, v)))"

definition harvest :: "env \<Rightarrow> tx \<Rightarrow> pubkey \<Rightarrow> pubkey \<Rightarrow> ledger \<Rightarrow> ledger result" where
  "harvest E X config vow_state s =
     and_then (Harvest_accounts E X config vow_state s) (\<lambda>(c, v).
     and_then (harvest_handler X c v s) (\<lambda>(c', v', s').
     Ok (store vow_state (VowAcct v') (store config (ConfigAcct c') s'))))"

section \<open>Settlement\<close>

lemma vow_update_same:
  "vs_matured v = b \<Longrightarrow> v\<lparr>vs_matured := b\<rparr> = v"
  "vs_last_share_price v = p \<Longrightarrow> v\<lparr>vs_last_share_price := p\<rparr> = v"
  "vs_accrued_gain v = g \<Longrightarrow> v\<lparr>vs_accrued_gain := g\<rparr> = v"
  by (hypsubst, simp)+

lemma position_value_sint:
  assumes "position_value n p = Inr v"
  shows "sint v = int (redeem (unat n) (unat p))"
proof -
  from assms have v: "unat v = redeem (unat n) (unat p)" and "unat n * unat p < 2 ^ 128"
    by (simp_all add: position_value_eq_Ok)
  then have "unat v < 2 ^ 127" using redeem_small [of n p] by simp
  then show ?thesis using sint_small [of v] v by simp
qed

lemma sint_sub_ov_values:
  assumes "unat a < 2 ^ 89" and "unat b < 2 ^ 89"
  shows "\<exists>d. signed_sub_ov a b = Inr (d :: i128) \<and> sint d = int (unat a) - int (unat b)"
proof -
  have "sint a = int (unat a)" and "sint b = int (unat b)"
    using assms sint_small [of a] sint_small [of b] by simp_all
  moreover have "sint (word_of_int (int (unat a) - int (unat b)) :: i128) =
      int (unat a) - int (unat b)"
    using assms by (subst sint_word_of_int_iff) (simp del: of_nat_unat)
  ultimately show ?thesis by (auto simp: signed_ov_eq_Ok)
qed

lemma settle_idnft_eq:
  assumes "vs_last_share_price v \<noteq> pc_current_share_price c"
    and "position_value (vs_shares v) (pc_current_share_price c) = Inr a"
    and "position_value (vs_shares v) (vs_last_share_price v) = Inr b"
  obtains g where "settle_idnft v c =
      Inr (v\<lparr>vs_accrued_gain := g, vs_last_share_price := pc_current_share_price c\<rparr>)"
    and "sint g = clamp_i64 (sint (vs_accrued_gain v) + clamp_i64 (int (unat a) - int (unat b)))"
proof -
  from assms(2,3) have "unat a < 2 ^ 89" and "unat b < 2 ^ 89"
    using redeem_small by (auto simp: position_value_eq_Ok)
  then obtain d :: i128 where d: "signed_sub_ov a b = Inr d"
    and "sint d = int (unat a) - int (unat b)"
    using sint_sub_ov_values by blast
  then have "sint (signed_clamp (sint d) :: i64) = clamp_i64 (int (unat a) - int (unat b))"
    by (simp add: sint_signed_clamp_i64)
  with assms d show ?thesis
    by (intro that [of "signed_saturating_add (vs_accrued_gain v) (signed_clamp (sint d))"])
      (simp_all add: settle_idnft_def Let_def sint_signed_saturating_add)
qed

lemma settle_idnftD:
  assumes "settle_idnft v c = Inr v'"
  shows "v' = v\<lparr>vs_accrued_gain := vs_accrued_gain v',
                 vs_last_share_price := pc_current_share_price c\<rparr>" (is ?shape)
    and "sint (vs_accrued_gain v') = clamp_i64 (sint (vs_accrued_gain v) + clamp_i64
           (int (redeem (unat (vs_shares v)) (unat (pc_current_share_price c))) -
            int (redeem (unat (vs_shares v)) (unat (vs_last_share_price v)))))" (is ?gain)
proof -
  have "?shape \<and> ?gain"
  proof (cases "vs_last_share_price v = pc_current_share_price c")
    case True
    with assms have "v' = v" by (simp add: settle_idnft_def)
    moreover have "v\<lparr>vs_accrued_gain := vs_accrued_gain v, vs_last_share_price := pc_current_share_price c\<rparr> = v"
      using True by (simp add: vow_update_same)
    ultimately show ?thesis using True by simp
  next
    case False
    obtain a where a: "position_value (vs_shares v) (pc_current_share_price c) = Inr a"
      using assms False by (cases "position_value (vs_shares v) (pc_current_share_price c)")
        (simp_all add: settle_idnft_def)
    obtain b where b: "position_value (vs_shares v) (vs_last_share_price v) = Inr b"
      using assms False a by (cases "position_value (vs_shares v) (vs_last_share_price v)")
        (simp_all add: settle_idnft_def)
    from settle_idnft_eq [OF False a b] obtain g where
      g: "settle_idnft v c = Inr (v\<lparr>vs_accrued_gain := g, vs_last_share_price := pc_current_share_price c\<rparr>)"
      "sint g = clamp_i64 (sint (vs_accrued_gain v) + clamp_i64 (int (unat a) - int (unat b)))"
      by metis
    from assms g(1) have "v' = v\<lparr>vs_accrued_gain := g, vs_last_share_price := pc_current_share_price c\<rparr>"
      by simp
    moreover have "int (unat a) = int (redeem (unat (vs_shares v)) (unat (pc_current_share_price c)))"
      and "int (unat b) = int (redeem (unat (vs_shares v)) (unat (vs_last_share_price v)))"
      using a b by (simp_all only: position_value_eq_Ok)
    ultimately show ?thesis using g(2) by simp
  qed
  then show ?shape and ?gain by auto
qed

lemma settle_idnft_total:
  assumes "unat (vs_shares v) * unat (pc_current_share_price c) < 2 ^ 128"
    and "unat (vs_shares v) * unat (vs_last_share_price v) < 2 ^ 128"
  shows "\<exists>v'. settle_idnft v c = Inr v'"
proof (cases "vs_last_share_price v = pc_current_share_price c")
  case True
  then show ?thesis by (simp add: settle_idnft_def)
next
  case False
  have "\<exists>a. position_value (vs_shares v) p = Inr a" if "unat (vs_shares v) * unat p < 2 ^ 128" for p
    using that by (auto simp: position_value_def checked_mul_def)
  with assms obtain a b
    where a: "position_value (vs_shares v) (pc_current_share_price c) = Inr a"
      and b: "position_value (vs_shares v) (vs_last_share_price v) = Inr b" by blast
  from settle_idnft_eq [OF False a b] show ?thesis by metis
qed

lemma settle_idnft_idem: "settle_idnft v c = Inr v' \<Longrightarrow> settle_idnft v' c = Inr v'"
  by (subst (asm) settle_idnft_def)
    (auto simp: settle_idnft_def res_simps Let_def split: if_splits)

section \<open>Harvest\<close>

lemma mark_matured_eq:
  "mark_matured X (v, s) = (v', s') \<Longrightarrow>
     v' = v\<lparr>vs_matured := vs_matured v \<or> sint (vs_unlock_at v) \<le> sint (tx_unix_timestamp X)\<rparr> \<and>
     lg_accts s' = lg_accts s \<and> lg_lamports s' = lg_lamports s \<and>
     lg_executable s' = lg_executable s"
  by (cases "\<not> vs_matured v \<and> sint (vs_unlock_at v) \<le> sint (tx_unix_timestamp X)")
    (fastforce simp: mark_matured_def vow_update_same)+

text \<open>What goes to the yield balance, by mode, out of the settled gain.\<close>

fun credited_yield :: "yield_mode \<Rightarrow> int \<Rightarrow> int" where
  "credited_yield Compound gain = 0"
| "credited_yield Treasury gain = max 0 gain"
| "credited_yield Hybrid gain = max 0 gain div 2"

lemma credited_yield_nonneg: "0 \<le> credited_yield m g"
  by (cases m) auto

lemma harvest_treasury_eq_Ok [res_simps]:
  "harvest_treasury c v y = Inr (c', v', b) \<longleftrightarrow>
     unat b = issue (unat y) (unat (pc_current_share_price c)) \<and> b \<le> vs_shares v \<and>
     c' = c\<lparr>pc_total_shares := saturating_sub (pc_total_shares c) b,
            pc_total_yield_claims := saturating_add (pc_total_yield_claims c) y\<rparr> \<and>
     v' = v\<lparr>vs_shares := vs_shares v - b,
            vs_yield_balance := saturating_add (vs_yield_balance v) y\<rparr>"
proof -
  have "sub_ov (vs_shares v) b = Inr n \<longleftrightarrow> n = vs_shares v - b" if "b \<le> vs_shares v" for b n
    using that by (auto simp: sub_ov_def checked_sub_def)
  then show ?thesis
    by (auto simp: harvest_treasury_def res_simps(1-3) shares_to_burn_eq_Ok require_eq_Ok)
qed

lemma issue_0 [simp]: "issue 0 p = 0"
  by (simp add: issue_def)

lemma harvest_split_eq_Ok:
  assumes "harvest_split c v = Inr (c', v', y, b)"
  shows "int (unat y) = credited_yield (vs_yield_mode v) (sint (vs_accrued_gain v))"
    and "unat b = issue (unat y) (unat (pc_current_share_price c))"
    and "b \<le> vs_shares v"
    and "c' = c\<lparr>pc_total_shares := saturating_sub (pc_total_shares c) b,
                 pc_total_yield_claims := saturating_add (pc_total_yield_claims c) y\<rparr>"
    and "v' = v\<lparr>vs_shares := vs_shares v - b,
                 vs_yield_balance := saturating_add (vs_yield_balance v) y,
                 vs_total_harvested := vs_total_harvested v',
                 vs_accrued_gain := vs_accrued_gain v'\<rparr>"
    and "unat (vs_total_harvested v) \<le> unat (vs_total_harvested v')"
  using assms
  by (auto simp: harvest_split_def Let_def and_then_eq_Ok harvest_treasury_eq_Ok uint_nonneg
      uint_div_2 max_def split: yield_mode.splits if_splits)

text \<open>The gain after settlement at the current price.\<close>

definition settled_gain :: "vow_state \<Rightarrow> protocol_config \<Rightarrow> int" where
  "settled_gain v c =
     clamp_i64 (sint (vs_accrued_gain v) + clamp_i64
       (int (redeem (unat (vs_shares v)) (unat (pc_current_share_price c))) -
        int (redeem (unat (vs_shares v)) (unat (vs_last_share_price v)))))"

lemma harvest_handlerE:
  assumes "harvest_handler X c v s = Inr (c', v', s')"
  obtains m y b h g where "m \<longleftrightarrow> vs_matured v \<or> sint (vs_unlock_at v) \<le> sint (tx_unix_timestamp X)"
    and "int (unat y) = credited_yield (vs_yield_mode v) (settled_gain v c)"
    and "unat b = issue (unat y) (unat (pc_current_share_price c))"
    and "b \<le> vs_shares v"
    and "c' = c\<lparr>pc_total_shares := saturating_sub (pc_total_shares c) b,
                 pc_total_yield_claims := saturating_add (pc_total_yield_claims c) y\<rparr>"
    and "v' = v\<lparr>vs_matured := m, vs_shares := vs_shares v - b,
                 vs_last_share_price := pc_current_share_price c,
                 vs_yield_balance := saturating_add (vs_yield_balance v) y,
                 vs_total_harvested := h, vs_accrued_gain := g\<rparr>"
    and "unat (vs_total_harvested v) \<le> unat h"
    and "lg_accts s' = lg_accts s" and "lg_lamports s' = lg_lamports s"
    and "lg_executable s' = lg_executable s"
proof -
  let ?m = "vs_matured v \<or> sint (vs_unlock_at v) \<le> sint (tx_unix_timestamp X)"
  obtain v0 s0 where mm: "mark_matured X (v, s) = (v0, s0)" by fastforce
  from assms mm obtain v1 where v1: "settle_idnft v0 c = Inr v1"
    by (cases "settle_idnft v0 c") (simp_all add: harvest_handler_def)
  from assms mm v1 obtain y b where hs: "harvest_split c v1 = Inr (c', v', y, b)"
    and s': "s' = emit (Harvested (vs_asset_id v') (vs_owner v') (vs_accrued_gain v1) y b) s0"
    by (cases "harvest_split c v1") (auto simp: harvest_handler_def)
  from mark_matured_eq [OF mm] have v0: "v0 = v\<lparr>vs_matured := ?m\<rparr>" by simp
  obtain g1 where v1': "v1 = v0\<lparr>vs_accrued_gain := g1, vs_last_share_price := pc_current_share_price c\<rparr>"
    using settle_idnftD(1) [OF v1] by metis
  have g1: "sint g1 = settled_gain v c"
    using settle_idnftD(2) [OF v1] by (simp add: settled_gain_def v1' v0)
  note hs' = harvest_split_eq_Ok [OF hs]
  obtain g h where v': "v' = v1\<lparr>vs_shares := vs_shares v1 - b,
      vs_yield_balance := saturating_add (vs_yield_balance v1) y,
      vs_total_harvested := h, vs_accrued_gain := g\<rparr>"
    using hs'(5) by metis
  show ?thesis
  proof (rule that [OF refl])
    show "int (unat y) = credited_yield (vs_yield_mode v) (settled_gain v c)"
      using hs'(1) by (simp add: v1' v0 g1)
    show "v' = v\<lparr>vs_matured := ?m, vs_shares := vs_shares v - b,
                 vs_last_share_price := pc_current_share_price c,
                 vs_yield_balance := saturating_add (vs_yield_balance v) y,
                 vs_total_harvested := h, vs_accrued_gain := g\<rparr>"
      by (simp add: v' v1' v0)
    show "b \<le> vs_shares v" using hs'(3) by (simp add: v1' v0)
    show "unat (vs_total_harvested v) \<le> unat h" using hs'(6) by (simp add: v' v1' v0)
  qed (use hs' s' mark_matured_eq [OF mm] in simp_all)
qed

text \<open>
  The value of a position together with its yield balance, before and after: harvesting
  never takes value from the identity, and gives it at most one share's worth of rounding.
\<close>

lemma harvest_value:
  assumes "harvest_handler X c v s = Inr (c', v', s')"
    and "pc_current_share_price c \<noteq> 0"
    and "unat (vs_yield_balance v) < 2 ^ 63"
  defines "p \<equiv> unat (pc_current_share_price c)"
  shows "redeem (unat (vs_shares v)) p + unat (vs_yield_balance v) \<le>
           redeem (unat (vs_shares v')) p + unat (vs_yield_balance v')"
    and "redeem (unat (vs_shares v')) p + unat (vs_yield_balance v') \<le>
           redeem (unat (vs_shares v)) p + unat (vs_yield_balance v) + unit_cost p"
proof -
  from assms(1) obtain y b where y: "int (unat y) = credited_yield (vs_yield_mode v) (settled_gain v c)"
    and b: "unat b = issue (unat y) p" and le: "b \<le> vs_shares v"
    and sh: "vs_shares v' = vs_shares v - b"
    and yb: "vs_yield_balance v' = saturating_add (vs_yield_balance v) y"
    unfolding p_def by (elim harvest_handlerE) auto
  have p: "0 < p" using assms(2) by (simp add: p_def unat_gt_0)
  have "settled_gain v c \<le> 9223372036854775807"
    by (simp add: settled_gain_def clamp_i64_def)
  then have "credited_yield (vs_yield_mode v) (settled_gain v c) \<le> 9223372036854775807"
    by (cases "vs_yield_mode v") auto
  then have "unat y < 9223372036854775808" using y by linarith
  then have "unat (vs_yield_balance v') = unat (vs_yield_balance v) + unat y"
    using assms(3) by (simp add: yb unat_saturating_add)
  moreover have "unat (vs_shares v') = unat (vs_shares v) - issue (unat y) p"
    using le b by (simp add: sh unat_minus_le)
  moreover have "issue (unat y) p \<le> unat (vs_shares v)"
    using le b by (simp add: word_le_nat_alt)
  ultimately show
    "redeem (unat (vs_shares v)) p + unat (vs_yield_balance v) \<le>
       redeem (unat (vs_shares v')) p + unat (vs_yield_balance v')"
    "redeem (unat (vs_shares v')) p + unat (vs_yield_balance v') \<le>
       redeem (unat (vs_shares v)) p + unat (vs_yield_balance v) + unit_cost p"
    using exchange.burn_keeps_value [of "unat y" p "unat (vs_shares v)"]
      exchange.burn_gain_bounded [OF p, of "unat y" "unat (vs_shares v)"] by simp_all
qed

text \<open>Harvesting fails in two ways only, and never by a panic.\<close>

lemma settle_idnft_Err:
  assumes "settle_idnft v c = Inl e"
  shows "e = VowErr MathOverflow"
proof (rule ccontr)
  assume ne: "e \<noteq> VowErr MathOverflow"
  have neq: "vs_last_share_price v \<noteq> pc_current_share_price c"
    using assms by (auto simp: settle_idnft_def)
  obtain a where a: "position_value (vs_shares v) (pc_current_share_price c) = Inr a"
    using assms ne neq position_value_Err
    by (cases "position_value (vs_shares v) (pc_current_share_price c)")
      (auto simp: settle_idnft_def)
  obtain b where b: "position_value (vs_shares v) (vs_last_share_price v) = Inr b"
    using assms ne neq position_value_Err a
    by (cases "position_value (vs_shares v) (vs_last_share_price v)")
      (auto simp: settle_idnft_def)
  from settle_idnft_eq [OF neq a b] obtain v' where "settle_idnft v c = Inr v'" by metis
  with assms show False by simp
qed

lemma shares_to_burn_not_Err: "shares_to_burn x p \<noteq> Inl e"
proof -
  obtain m where "checked_mul (u64_as_u128 x) SHARE_PRECISION = Some m"
    using precise_mul_Ok by blast
  then show ?thesis by (simp add: shares_to_burn_def)
qed

lemma harvest_treasury_Err: "harvest_treasury c v y = Inl e \<Longrightarrow> e = VowErr SharesUnderflow"
  by (auto simp: harvest_treasury_def and_then_eq_Err shares_to_burn_not_Err require_def
      sub_ov_def checked_sub_def split: if_splits)

lemma harvest_split_Err: "harvest_split c v = Inl e \<Longrightarrow> e = VowErr SharesUnderflow"
  by (auto simp: harvest_split_def Let_def and_then_eq_Err dest: harvest_treasury_Err
      split: yield_mode.splits if_splits)

lemma harvest_handler_Err:
  assumes "harvest_handler X c v s = Inl e"
  shows "e = VowErr MathOverflow \<or> e = VowErr SharesUnderflow"
proof -
  obtain v0 s0 where mm: "mark_matured X (v, s) = (v0, s0)" by fastforce
  show ?thesis
  proof (cases "settle_idnft v0 c")
    case (Inl e')
    with assms mm settle_idnft_Err [of v0 c e'] show ?thesis by (simp add: harvest_handler_def)
  next
    case (Inr v1)
    with assms mm have "harvest_split c v1 = Inl e"
      by (cases "harvest_split c v1") (auto simp: harvest_handler_def)
    then show ?thesis using harvest_split_Err by blast
  qed
qed

section \<open>Harvest is a protocol step\<close>

lemma harvestE:
  assumes "harvest E X ck vk s = Inr s'"
  obtains c v c' v' s1 where "lg_accts s ck = Some (ConfigAcct c)"
    and "lg_accts s vk = Some (VowAcct v)"
    and "harvest_handler X c v s = Inr (c', v', s1)"
    and "s' = store vk (VowAcct v') (store ck (ConfigAcct c') s1)"
  using assms by (auto simp: harvest_def Harvest_accounts_def res_simps)

lemma harvest_step:
  assumes "harvest E X ck vk s = Inr s'"
  shows "acct_step E (lg_accts s) (lg_accts s')" and "sum_lamports s' = sum_lamports s"
proof -
  from assms obtain c v c' v' s1 where c: "lg_accts s ck = Some (ConfigAcct c)"
    and v: "lg_accts s vk = Some (VowAcct v)"
    and h: "harvest_handler X c v s = Inr (c', v', s1)"
    and s': "s' = store vk (VowAcct v') (store ck (ConfigAcct c') s1)"
    by (rule harvestE)
  from h obtain m y b hv g where b: "b \<le> vs_shares v"
    and c': "c' = c\<lparr>pc_total_shares := saturating_sub (pc_total_shares c) b,
                 pc_total_yield_claims := saturating_add (pc_total_yield_claims c) y\<rparr>"
    and v': "v' = v\<lparr>vs_matured := m, vs_shares := vs_shares v - b,
                 vs_last_share_price := pc_current_share_price c,
                 vs_yield_balance := saturating_add (vs_yield_balance v) y,
                 vs_total_harvested := hv, vs_accrued_gain := g\<rparr>"
    and hv: "unat (vs_total_harvested v) \<le> unat hv"
    and fr: "lg_accts s1 = lg_accts s" "lg_lamports s1 = lg_lamports s"
    by (rule harvest_handlerE)
  have "position_moves c v c' v'"
    by (rule position_movesI [where b = "unat b" and n = 0 and out = 0 and y = y])
      (use b in \<open>simp_all add: c' v' word_le_nat_alt unat_minus_le unat_saturating_sub\<close>)
  moreover have "vow_evolves v v'"
    by (rule vow_evolvesI) (simp_all add: v' standing_grows_def hv tier_ok_def)
  moreover have "parked v \<longrightarrow> parked v'" using b by (auto simp: parked_def v')
  moreover have "bumps_kept c c'" by (simp add: bumps_kept_def c')
  moreover have "pc_total_pending_unstake c' = pc_total_pending_unstake c" by (simp add: c')
  ultimately show "acct_step E (lg_accts s) (lg_accts s')"
    using acct_step.position [OF c v] by (simp add: s' fr)
  show "sum_lamports s' = sum_lamports s"
    by (rule sum_lamports_cong) (simp add: s' fr)
qed

section \<open>Properties of harvesting\<close>

text \<open>
  C11: harvesting is fair to the identity and to the pool: the value of the position at the
  current price plus the yield balance is never less than before, and never more than
  before by over the price of one share, where the price is not 0 and the yield balance is
  below \<open>2 ^ 63\<close> lamports.
\<close>

theorem harvest_is_fair:
  assumes "harvest_handler X c v s = Inr (c', v', s')"
    and "pc_current_share_price c \<noteq> 0" and "unat (vs_yield_balance v) < 2 ^ 63"
  shows "redeem (unat (vs_shares v)) (unat (pc_current_share_price c)) + unat (vs_yield_balance v)
      \<le> redeem (unat (vs_shares v')) (unat (pc_current_share_price c)) + unat (vs_yield_balance v') \<and>
    redeem (unat (vs_shares v')) (unat (pc_current_share_price c)) + unat (vs_yield_balance v')
      \<le> redeem (unat (vs_shares v)) (unat (pc_current_share_price c)) + unat (vs_yield_balance v)
        + unit_cost (unat (pc_current_share_price c))"
  using harvest_value [OF assms] by blast

definition grown_config :: protocol_config where
  "grown_config = demo_config\<lparr>pc_current_share_price := 1100000000000\<rparr>"

lemmas demo_harvest =
  harvest_handler_def mark_matured_def settle_idnft_def position_value_def
  harvest_split_def harvest_treasury_def shares_to_burn_def grown_config_def
  SHARE_PRECISION_def signed_sub_ov_def signed_checked_sub_def signed_of_int_def
  u64_as_u128_def signed_saturating_add_def signed_clamp_def

theorem harvest_is_fair_witness:
  "\<exists>c' v' s'. harvest_handler demo_tx grown_config demo_vow demo_live = Inr (c', v', s') \<and>
     redeem 5000000000 1100000000000 + 1000000000
       \<le> redeem (unat (vs_shares v')) 1100000000000 + unat (vs_yield_balance v')"
proof -
  obtain c' v' s' where
    h: "harvest_handler demo_tx grown_config demo_vow demo_live = Inr (c', v', s')"
    by (simp add: demo_harvest demo_exec)
  have "redeem (unat (vs_shares demo_vow)) (unat (pc_current_share_price grown_config)) +
      unat (vs_yield_balance demo_vow)
      \<le> redeem (unat (vs_shares v')) (unat (pc_current_share_price grown_config)) +
        unat (vs_yield_balance v')"
    by (rule harvest_is_fair [OF h, THEN conjunct1]) (simp_all add: grown_config_def demo_data)
  with h show ?thesis by (simp add: grown_config_def demo_data)
qed

text \<open>
  What a successful harvest does. The gain settled at the current price is credited by
  yield mode (nothing, half, or all of a positive gain), the credited yield is paid for with
  its worth of shares, both totals of the configuration follow, and the price is noted; the
  lock flag is set once the lock period is over, and no other financial field changes.
\<close>

theorem harvest_effect:
  assumes "harvest_handler X c v s = Inr (c', v', s')"
  shows "\<exists>y b h g.
    int (unat y) = credited_yield (vs_yield_mode v) (settled_gain v c) \<and>
    unat b = issue (unat y) (unat (pc_current_share_price c)) \<and> b \<le> vs_shares v \<and>
    c' = c\<lparr>pc_total_shares := saturating_sub (pc_total_shares c) b,
            pc_total_yield_claims := saturating_add (pc_total_yield_claims c) y\<rparr> \<and>
    v' = v\<lparr>vs_matured := (vs_matured v \<or> sint (vs_unlock_at v) \<le> sint (tx_unix_timestamp X)),
            vs_shares := vs_shares v - b, vs_last_share_price := pc_current_share_price c,
            vs_yield_balance := saturating_add (vs_yield_balance v) y,
            vs_total_harvested := h, vs_accrued_gain := g\<rparr>"
  using assms by (rule harvest_handlerE) blast

theorem harvest_effect_witness:
  "\<exists>c' v' s' y. harvest_handler demo_tx grown_config demo_vow demo_live = Inr (c', v', s') \<and>
     int (unat (y :: u64)) = credited_yield Treasury (settled_gain demo_vow grown_config)"
proof -
  obtain c' v' s' where
    "harvest_handler demo_tx grown_config demo_vow demo_live = Inr (c', v', s')"
    by (simp add: demo_harvest demo_exec)
  with harvest_effect [OF this] show ?thesis by (auto simp: demo_vow_def)
qed

text \<open>
  A harvest fails only with an arithmetic overflow of the valuation or for want of
  shares to pay with; it never panics.
\<close>

theorem harvest_errors:
  assumes "harvest_handler X c v s = Inl e"
  shows "e = VowErr MathOverflow \<or> e = VowErr SharesUnderflow"
  using assms by (rule harvest_handler_Err)

theorem harvest_errors_witness:
  "\<exists>e. harvest_handler demo_tx grown_config (demo_vow\<lparr>vs_shares := 0, vs_accrued_gain := 5\<rparr>)
      demo_live = Inl e \<and> (e = VowErr MathOverflow \<or> e = VowErr SharesUnderflow)"
proof -
  obtain e where "harvest_handler demo_tx grown_config
      (demo_vow\<lparr>vs_shares := 0, vs_accrued_gain := 5\<rparr>) demo_live = Inl e"
    by (simp add: demo_harvest demo_exec)
  with harvest_errors [OF this] show ?thesis by blast
qed

text \<open>
  Settling is idempotent, and it succeeds whenever the position can be valued in 128
  bits at both prices.
\<close>

theorem settle_idnft_settles:
  assumes "unat (vs_shares v) * unat (pc_current_share_price c) < 2 ^ 128"
    and "unat (vs_shares v) * unat (vs_last_share_price v) < 2 ^ 128"
  shows "\<exists>v'. settle_idnft v c = Inr v' \<and> settle_idnft v' c = Inr v' \<and>
    vs_last_share_price v' = pc_current_share_price c \<and>
    sint (vs_accrued_gain v') = settled_gain v c"
proof -
  obtain v' where v': "settle_idnft v c = Inr v'" using settle_idnft_total [OF assms] by blast
  moreover have "vs_last_share_price v' = pc_current_share_price c"
    by (subst settle_idnftD(1) [OF v']) simp
  ultimately show ?thesis
    using settle_idnft_idem [OF v'] settle_idnftD(2) [OF v'] by (auto simp: settled_gain_def)
qed

theorem settle_idnft_settles_witness:
  "\<exists>v'. settle_idnft demo_vow grown_config = Inr v' \<and> settle_idnft v' grown_config = Inr v' \<and>
    vs_last_share_price v' = pc_current_share_price grown_config \<and>
    sint (vs_accrued_gain v') = settled_gain demo_vow grown_config"
  by (rule settle_idnft_settles) (simp_all add: grown_config_def demo_data)

end
