(* ===== verification/Vow_Identity.thy ===== *)
theory Vow_Identity
  imports Vow_Harvest
begin

text \<open>
  The life of an identity (\<^verbatim>\<open>instructions/vow/*.rs\<close>): minting, topping up, changing
  the yield mode, the two steps of unstaking, and re-activation. Each instruction is three
  definitions: the account constraints of its \<open>Accounts\<close> struct, its handler on the
  loaded accounts, and the instruction itself, which loads, runs the handler and writes
  the mutated accounts back.
\<close>

section \<open>Mint\<close>

definition MintVow_accounts ::
    "env \<Rightarrow> tx \<Rightarrow> pubkey \<Rightarrow> pubkey \<Rightarrow> pubkey \<Rightarrow> pubkey \<Rightarrow> pubkey \<Rightarrow> pubkey \<Rightarrow> ledger
       \<Rightarrow> (protocol_config \<times> u8 \<times> ledger) result" where
  "MintVow_accounts E X config asset_id_account vow_state reserve owner system_program s =
     and_then (config_account E X True s config) (\<lambda>c.
     and_then (find_bump E (vow_asset_seeds (pc_total_minted c)) asset_id_account) (\<lambda>_.
     and_then (reserve_account E X c reserve) (\<lambda>_.
     and_then (signer_account X True owner) (\<lambda>_.
     and_then (program_account s (en_system_program E) system_program) (\<lambda>_.
     and_then (init_account E (vow_seeds asset_id_account) VowState_LEN owner vow_state s) (\<lambda>(b, s).
     Ok (c, b, s)))))))"

definition mint_handler ::
    "tx \<Rightarrow> pubkey \<Rightarrow> pubkey \<Rightarrow> pubkey \<Rightarrow> u8 \<Rightarrow> u64 \<Rightarrow> yield_mode \<Rightarrow> protocol_config \<Rightarrow> ledger
       \<Rightarrow> (protocol_config \<times> vow_state \<times> ledger) result" where
  "mint_handler X asset_id reserve owner bump stake_lamports yield_mode config s =
     and_then (class_for_stake stake_lamports) (\<lambda>cls.
     require (pc_spl_stake_pool config \<noteq> default_pubkey \<longrightarrow> 0 < pc_last_pool_lamports config)
       (VowErr SharePriceNotSynced) (
     let now = tx_unix_timestamp X in
     and_then (transfer owner reserve stake_lamports s) (\<lambda>s.
     and_then (shares_for_lamports stake_lamports (pc_current_share_price config)) (\<lambda>shares.
     and_then (lock_duration cls) (\<lambda>lock.
     and_then (signed_add_ov now lock) (\<lambda>unlock_at.
     let idnft =
       \<lparr>vs_asset_id = asset_id, vs_owner = owner, vs_class = cls,
        vs_nonce = pc_total_minted config, vs_principal_lamports = stake_lamports,
        vs_shares = shares, vs_last_share_price = pc_current_share_price config,
        vs_accrued_gain = 0, vs_yield_mode = yield_mode, vs_yield_balance = 0,
        vs_total_harvested = 0, vs_created_at = now, vs_unlock_at = unlock_at,
        vs_matured = False, vs_sessions_invalidated_at = 0, vs_active_stake = True,
        vs_session_nonce = 0, vs_first_staked_at = now, vs_current_stake_started_at = now,
        vs_total_commitments = 1, vs_total_fulfilled = 0, vs_cumulative_stake_days = 0,
        vs_highest_class_ever = cls, vs_bump = bump\<rparr> in
     and_then (ok_or (checked_add (pc_total_shares config) shares) (VowErr MathOverflow)) (\<lambda>total_shares.
     and_then (add_ov (pc_total_minted config) 1) (\<lambda>total_minted.
     Ok (config\<lparr>pc_total_shares := total_shares, pc_total_minted := total_minted\<rparr>,
         idnft,
         emit (VowMinted asset_id owner cls stake_lamports shares unlock_at) s)))))))))"

definition mint_vow ::
    "env \<Rightarrow> tx \<Rightarrow> pubkey \<Rightarrow> pubkey \<Rightarrow> pubkey \<Rightarrow> pubkey \<Rightarrow> pubkey \<Rightarrow> pubkey \<Rightarrow> u64 \<Rightarrow> yield_mode
       \<Rightarrow> ledger \<Rightarrow> ledger result" where
  "mint_vow E X config asset_id_account vow_state reserve owner system_program stake_lamports
       yield_mode s =
     and_then (MintVow_accounts E X config asset_id_account vow_state reserve owner
       system_program s) (\<lambda>(c, b, s).
     and_then (mint_handler X asset_id_account reserve owner b stake_lamports yield_mode c s)
       (\<lambda>(c, v, s).
     Ok (store vow_state (VowAcct v) (store config (ConfigAcct c) s))))"

section \<open>Add stake\<close>

definition AddStake_accounts ::
    "env \<Rightarrow> tx \<Rightarrow> pubkey \<Rightarrow> pubkey \<Rightarrow> pubkey \<Rightarrow> pubkey \<Rightarrow> pubkey \<Rightarrow> ledger
       \<Rightarrow> (protocol_config \<times> vow_state) result" where
  "AddStake_accounts E X config vow_state reserve owner system_program s =
     and_then (config_account E X True s config) (\<lambda>c.
     and_then (vow_account E X True s vow_state) (\<lambda>v.
     require (vs_owner v = owner) (VowErr InvalidOwner) (
     and_then (reserve_account E X c reserve) (\<lambda>_.
     and_then (signer_account X True owner) (\<lambda>_.
     and_then (program_account s (en_system_program E) system_program) (\<lambda>_.
     Ok (c, v)))))))"

text \<open>A top-up that reaches a higher class starts that class's lock period afresh.\<close>

definition upgrade_class :: "tx \<Rightarrow> u8 \<Rightarrow> vow_state \<Rightarrow> vow_state result" where
  "upgrade_class X new_class idnft =
     (if vs_class idnft < new_class then
        and_then (lock_duration new_class) (\<lambda>lock.
        and_then (signed_add_ov (tx_unix_timestamp X) lock) (\<lambda>unlock_at.
        Ok (idnft\<lparr>vs_unlock_at := unlock_at, vs_matured := False, vs_class := new_class,
                  vs_highest_class_ever :=
                    (if vs_highest_class_ever idnft < new_class then new_class
                     else vs_highest_class_ever idnft)\<rparr>)))
      else Ok idnft)"

definition add_stake_handler ::
    "tx \<Rightarrow> pubkey \<Rightarrow> pubkey \<Rightarrow> u64 \<Rightarrow> protocol_config \<Rightarrow> vow_state \<Rightarrow> ledger
       \<Rightarrow> (protocol_config \<times> vow_state \<times> ledger) result" where
  "add_stake_handler X reserve owner lamports_to_add config idnft s =
     require (0 < lamports_to_add) (VowErr InsufficientStake) (
     require (vs_active_stake idnft) (VowErr IdentityInactive) (
     require (0 < vs_shares idnft) (VowErr AlreadyUnstaking) (
     and_then (settle_idnft idnft config) (\<lambda>idnft.
     and_then (transfer owner reserve lamports_to_add s) (\<lambda>s.
     and_then (ok_or (checked_add (vs_principal_lamports idnft) lamports_to_add)
       (VowErr MathOverflow)) (\<lambda>new_principal.
     and_then (class_for_stake new_principal) (\<lambda>new_class.
     and_then (shares_for_lamports lamports_to_add (pc_current_share_price config)) (\<lambda>new_shares.
     let old_class = vs_class idnft in
     and_then (upgrade_class X new_class idnft) (\<lambda>idnft.
     and_then (ok_or (checked_add (vs_shares idnft) new_shares) (VowErr MathOverflow)) (\<lambda>shares.
     let idnft = idnft\<lparr>vs_principal_lamports := new_principal, vs_shares := shares\<rparr> in
     and_then (ok_or (checked_add (pc_total_shares config) new_shares) (VowErr MathOverflow))
       (\<lambda>total_shares.
     Ok (config\<lparr>pc_total_shares := total_shares\<rparr>, idnft,
         emit (StakeAdded (vs_asset_id idnft) (vs_owner idnft) lamports_to_add new_principal
           old_class new_class (vs_unlock_at idnft)) s))))))))))))"

definition add_stake ::
    "env \<Rightarrow> tx \<Rightarrow> pubkey \<Rightarrow> pubkey \<Rightarrow> pubkey \<Rightarrow> pubkey \<Rightarrow> pubkey \<Rightarrow> u64 \<Rightarrow> ledger \<Rightarrow> ledger result" where
  "add_stake E X config vow_state reserve owner system_program lamports_to_add s =
     and_then (AddStake_accounts E X config vow_state reserve owner system_program s) (\<lambda>(c, v).
     and_then (add_stake_handler X reserve owner lamports_to_add c v s) (\<lambda>(c, v, s).
     Ok (store vow_state (VowAcct v) (store config (ConfigAcct c) s))))"

section \<open>Yield mode\<close>

definition UpdateYieldMode_accounts ::
    "env \<Rightarrow> tx \<Rightarrow> pubkey \<Rightarrow> pubkey \<Rightarrow> pubkey \<Rightarrow> ledger \<Rightarrow> (protocol_config \<times> vow_state) result" where
  "UpdateYieldMode_accounts E X config vow_state owner s =
     and_then (config_account E X True s config) (\<lambda>c.
     and_then (vow_account E X True s vow_state) (\<lambda>v.
     require (vs_owner v = owner) (VowErr InvalidOwner) (
     and_then (signer_account X False owner) (\<lambda>_.
     Ok (c, v)))))"

definition update_yield_mode_handler ::
    "yield_mode \<Rightarrow> protocol_config \<Rightarrow> vow_state \<Rightarrow> ledger \<Rightarrow> (vow_state \<times> ledger) result" where
  "update_yield_mode_handler new_mode config idnft s =
     require (vs_active_stake idnft) (VowErr IdentityInactive) (
     require (vs_yield_mode idnft \<noteq> new_mode) (VowErr YieldModeUnchanged) (
     and_then (settle_idnft idnft config) (\<lambda>idnft.
     let old_mode = yield_mode_to_u8 (vs_yield_mode idnft) in
     Ok (idnft\<lparr>vs_yield_mode := new_mode\<rparr>,
         emit (YieldModeUpdated (vs_asset_id idnft) old_mode (yield_mode_to_u8 new_mode)) s))))"

definition update_yield_mode ::
    "env \<Rightarrow> tx \<Rightarrow> pubkey \<Rightarrow> pubkey \<Rightarrow> pubkey \<Rightarrow> yield_mode \<Rightarrow> ledger \<Rightarrow> ledger result" where
  "update_yield_mode E X config vow_state owner new_mode s =
     and_then (UpdateYieldMode_accounts E X config vow_state owner s) (\<lambda>(c, v).
     and_then (update_yield_mode_handler new_mode c v s) (\<lambda>(v, s).
     Ok (store vow_state (VowAcct v) s)))"

section \<open>Begin unstake\<close>

definition BeginUnstake_accounts ::
    "env \<Rightarrow> tx \<Rightarrow> pubkey \<Rightarrow> pubkey \<Rightarrow> pubkey \<Rightarrow> pubkey \<Rightarrow> pubkey \<Rightarrow> ledger
       \<Rightarrow> (protocol_config \<times> vow_state \<times> u8 \<times> ledger) result" where
  "BeginUnstake_accounts E X config vow_state unstake_escrow owner system_program s =
     and_then (config_account E X True s config) (\<lambda>c.
     and_then (vow_account E X True s vow_state) (\<lambda>v.
     require (vs_owner v = owner) (VowErr InvalidOwner) (
     and_then (signer_account X True owner) (\<lambda>_.
     and_then (program_account s (en_system_program E) system_program) (\<lambda>_.
     and_then (init_account E (unstake_seeds vow_state) UnstakeEscrow_LEN owner unstake_escrow s)
       (\<lambda>(b, s).
     Ok (c, v, b, s)))))))"

definition begin_unstake_handler ::
    "tx \<Rightarrow> pubkey \<Rightarrow> pubkey \<Rightarrow> u8 \<Rightarrow> protocol_config \<Rightarrow> vow_state \<Rightarrow> ledger
       \<Rightarrow> (protocol_config \<times> vow_state \<times> unstake_escrow \<times> ledger) result" where
  "begin_unstake_handler X vow_key owner bump config idnft s =
     require (vs_active_stake idnft) (VowErr IdentityInactive) (
     let (idnft, s) = mark_matured X (idnft, s) in
     require (vs_matured idnft) (VowErr NotMatured) (
     and_then (settle_idnft idnft config) (\<lambda>idnft.
     and_then (position_value (vs_shares idnft) (pc_current_share_price config)) (\<lambda>value.
     let position_value = u128_as_u64 value in
     and_then (ok_or (checked_add position_value (vs_yield_balance idnft)) (VowErr MathOverflow))
       (\<lambda>lamports_owed.
     and_then (ok_or (checked_add (pc_total_pending_unstake config) lamports_owed)
       (VowErr MathOverflow)) (\<lambda>total_pending.
     Ok (config\<lparr>pc_total_shares := saturating_sub (pc_total_shares config) (vs_shares idnft),
                pc_total_yield_claims :=
                  saturating_sub (pc_total_yield_claims config) (vs_yield_balance idnft),
                pc_total_pending_unstake := total_pending\<rparr>,
         idnft\<lparr>vs_shares := 0, vs_yield_balance := 0\<rparr>,
         \<lparr>ue_vow_state = vow_key, ue_owner = owner, ue_lamports_owed = lamports_owed,
          ue_deactivation_epoch = tx_epoch X, ue_bump = bump\<rparr>,
         emit (VowUnstakeBegun (vs_asset_id idnft) (vs_owner idnft) lamports_owed) s)))))))"

definition begin_unstake ::
    "env \<Rightarrow> tx \<Rightarrow> pubkey \<Rightarrow> pubkey \<Rightarrow> pubkey \<Rightarrow> pubkey \<Rightarrow> pubkey \<Rightarrow> ledger \<Rightarrow> ledger result" where
  "begin_unstake E X config vow_state unstake_escrow owner system_program s =
     and_then (BeginUnstake_accounts E X config vow_state unstake_escrow owner system_program s)
       (\<lambda>(c, v, b, s).
     and_then (begin_unstake_handler X vow_state owner b c v s) (\<lambda>(c, v, e, s).
     Ok (store unstake_escrow (EscrowAcct e)
          (store vow_state (VowAcct v) (store config (ConfigAcct c) s)))))"

section \<open>Complete unstake\<close>

definition CompleteUnstake_accounts ::
    "env \<Rightarrow> tx \<Rightarrow> pubkey \<Rightarrow> pubkey \<Rightarrow> pubkey \<Rightarrow> pubkey \<Rightarrow> pubkey \<Rightarrow> pubkey \<Rightarrow> pubkey \<Rightarrow> ledger
       \<Rightarrow> (protocol_config \<times> vow_state \<times> unstake_escrow) result" where
  "CompleteUnstake_accounts E X config vow_state unstake_escrow reserve owner system_program
       clock s =
     and_then (config_account E X True s config) (\<lambda>c.
     and_then (vow_account E X True s vow_state) (\<lambda>v.
     require (vs_owner v = owner) (VowErr InvalidOwner) (
     and_then (load un_escrow s unstake_escrow) (\<lambda>e.
     require (pda_with_bump E (unstake_seeds vow_state) (ue_bump e) unstake_escrow)
       (AnchorErr ConstraintSeeds) (
     require (tx_is_writable X unstake_escrow) (AnchorErr ConstraintMut) (
     require (ue_owner e = owner) (AnchorErr ConstraintHasOne) (
     and_then (reserve_account E X c reserve) (\<lambda>_.
     and_then (signer_account X True owner) (\<lambda>_.
     and_then (program_account s (en_system_program E) system_program) (\<lambda>_.
     require (clock = en_sysvar_clock E) (AnchorErr AccountSysvarMismatch) (
     Ok (c, v, e))))))))))))"

text \<open>Paid in full when the reserve covers every pending claim, pro rata otherwise.\<close>

definition unstake_payout :: "u64 \<Rightarrow> u64 \<Rightarrow> u64 \<Rightarrow> u64" where
  "unstake_payout lamports_owed reserve_lamports total_pending =
     (if total_pending = 0 \<or> total_pending \<le> reserve_lamports then lamports_owed
      else u128_as_u64 (unwrap_or
        (checked_div
          (unwrap_or (checked_mul (u64_as_u128 lamports_owed) (u64_as_u128 reserve_lamports)) 0)
          (u64_as_u128 total_pending)) 0))"

definition complete_unstake_handler ::
    "env \<Rightarrow> tx \<Rightarrow> pubkey \<Rightarrow> pubkey \<Rightarrow> protocol_config \<Rightarrow> vow_state \<Rightarrow> unstake_escrow \<Rightarrow> ledger
       \<Rightarrow> (protocol_config \<times> vow_state \<times> ledger) result" where
  "complete_unstake_handler E X reserve owner config idnft escrow s =
     require (ue_deactivation_epoch escrow < tx_epoch X) (VowErr StakeNotDeactivated) (
     let lamports_owed = ue_lamports_owed escrow;
         reserve_lamports = lg_lamports s reserve in
     require (0 < reserve_lamports) (VowErr InsufficientYieldBalance) (
     let pay_amount =
       unstake_payout lamports_owed reserve_lamports (pc_total_pending_unstake config) in
     require (0 < pay_amount) (VowErr InsufficientYieldBalance) (
     and_then (transfer_signed E (reserve_seeds @ [[pc_reserve_bump config]]) reserve owner
       pay_amount s) (\<lambda>s.
     let now = tx_unix_timestamp X;
         stake_seconds =
           signed_max0 (signed_saturating_sub now (vs_current_stake_started_at idnft));
         stake_days = stake_seconds div 86400 in
     Ok (config\<lparr>pc_total_pending_unstake :=
                  saturating_sub (pc_total_pending_unstake config) lamports_owed\<rparr>,
         idnft\<lparr>vs_cumulative_stake_days :=
                 saturating_add (vs_cumulative_stake_days idnft) stake_days,
               vs_total_fulfilled :=
                 (if vs_matured idnft then saturating_add (vs_total_fulfilled idnft) 1
                  else vs_total_fulfilled idnft),
               vs_active_stake := False,
               vs_sessions_invalidated_at := now\<rparr>,
         emit (VowUnstaked (vs_asset_id idnft) owner pay_amount) s)))))"

definition complete_unstake ::
    "env \<Rightarrow> tx \<Rightarrow> pubkey \<Rightarrow> pubkey \<Rightarrow> pubkey \<Rightarrow> pubkey \<Rightarrow> pubkey \<Rightarrow> pubkey \<Rightarrow> pubkey \<Rightarrow> ledger
       \<Rightarrow> ledger result" where
  "complete_unstake E X config vow_state unstake_escrow reserve owner system_program clock s =
     and_then (CompleteUnstake_accounts E X config vow_state unstake_escrow reserve owner
       system_program clock s) (\<lambda>(c, v, e).
     and_then (complete_unstake_handler E X reserve owner c v e s) (\<lambda>(c, v, s).
     close_account unstake_escrow owner
       (store vow_state (VowAcct v) (store config (ConfigAcct c) s))))"

section \<open>Activate stake\<close>

definition ActivateStake_accounts ::
    "env \<Rightarrow> tx \<Rightarrow> pubkey \<Rightarrow> pubkey \<Rightarrow> pubkey \<Rightarrow> pubkey \<Rightarrow> pubkey \<Rightarrow> ledger
       \<Rightarrow> (protocol_config \<times> vow_state) result" where
  "ActivateStake_accounts E X config vow_state reserve owner system_program s =
     and_then (config_account E X True s config) (\<lambda>c.
     and_then (vow_account E X True s vow_state) (\<lambda>v.
     require (vs_owner v = owner) (VowErr InvalidOwner) (
     and_then (reserve_account E X c reserve) (\<lambda>_.
     and_then (signer_account X True owner) (\<lambda>_.
     and_then (program_account s (en_system_program E) system_program) (\<lambda>_.
     Ok (c, v)))))))"

definition activate_stake_handler ::
    "tx \<Rightarrow> pubkey \<Rightarrow> pubkey \<Rightarrow> u64 \<Rightarrow> yield_mode \<Rightarrow> protocol_config \<Rightarrow> vow_state \<Rightarrow> ledger
       \<Rightarrow> (protocol_config \<times> vow_state \<times> ledger) result" where
  "activate_stake_handler X reserve owner stake_lamports yield_mode config idnft s =
     require (\<not> vs_active_stake idnft) (VowErr IdentityAlreadyActive) (
     and_then (settle_idnft idnft config) (\<lambda>idnft.
     and_then (class_for_stake stake_lamports) (\<lambda>new_class.
     let now = tx_unix_timestamp X in
     and_then (transfer owner reserve stake_lamports s) (\<lambda>s.
     and_then (shares_for_lamports stake_lamports (pc_current_share_price config)) (\<lambda>new_shares.
     and_then (lock_duration new_class) (\<lambda>lock.
     and_then (signed_add_ov now lock) (\<lambda>unlock_at.
     let old_shares = vs_shares idnft;
         idnft = idnft\<lparr>vs_class := new_class, vs_principal_lamports := stake_lamports,
           vs_shares := new_shares, vs_last_share_price := pc_current_share_price config,
           vs_accrued_gain := 0, vs_yield_mode := yield_mode, vs_unlock_at := unlock_at,
           vs_matured := False, vs_active_stake := True, vs_sessions_invalidated_at := now,
           vs_current_stake_started_at := now,
           vs_total_commitments := saturating_add (vs_total_commitments idnft) 1,
           vs_highest_class_ever :=
             (if vs_highest_class_ever idnft < new_class then new_class
              else vs_highest_class_ever idnft)\<rparr> in
     and_then (ok_or (checked_add (saturating_sub (pc_total_shares config) old_shares) new_shares)
       (VowErr MathOverflow)) (\<lambda>total_shares.
     Ok (config\<lparr>pc_total_shares := total_shares\<rparr>, idnft,
         emit (VowStakeActivated (vs_asset_id idnft) (vs_owner idnft) new_class stake_lamports
           new_shares unlock_at) s)))))))))"

definition activate_stake ::
    "env \<Rightarrow> tx \<Rightarrow> pubkey \<Rightarrow> pubkey \<Rightarrow> pubkey \<Rightarrow> pubkey \<Rightarrow> pubkey \<Rightarrow> u64 \<Rightarrow> yield_mode \<Rightarrow> ledger
       \<Rightarrow> ledger result" where
  "activate_stake E X config vow_state reserve owner system_program stake_lamports yield_mode s =
     and_then (ActivateStake_accounts E X config vow_state reserve owner system_program s)
       (\<lambda>(c, v).
     and_then (activate_stake_handler X reserve owner stake_lamports yield_mode c v s)
       (\<lambda>(c, v, s).
     Ok (store vow_state (VowAcct v) (store config (ConfigAcct c) s))))"

section \<open>What the handlers do\<close>

text \<open>
  The shape of every successful handler: which fields change, to what, and under which
  conditions.
\<close>

lemma mint_handlerE:
  assumes "mint_handler X asset_id reserve owner b stake mode c s = Inr (c', v', s')"
  obtains cls sh ts tm lock ua s1 where "class_for_stake stake = Inr cls"
    and "pc_spl_stake_pool c \<noteq> default_pubkey \<longrightarrow> 0 < pc_last_pool_lamports c"
    and "transfer owner reserve stake s = Inr s1"
    and "pc_current_share_price c \<noteq> 0"
    and "unat sh = issue (unat stake) (unat (pc_current_share_price c))"
    and "lock_duration cls = Inr lock" and "sint ua = sint (tx_unix_timestamp X) + sint lock"
    and "unat ts = unat (pc_total_shares c) + unat sh"
    and "unat tm = unat (pc_total_minted c) + 1"
    and "c' = c\<lparr>pc_total_shares := ts, pc_total_minted := tm\<rparr>"
    and "v' = \<lparr>vs_asset_id = asset_id, vs_owner = owner, vs_class = cls,
        vs_nonce = pc_total_minted c, vs_principal_lamports = stake,
        vs_shares = sh, vs_last_share_price = pc_current_share_price c,
        vs_accrued_gain = 0, vs_yield_mode = mode, vs_yield_balance = 0,
        vs_total_harvested = 0, vs_created_at = tx_unix_timestamp X, vs_unlock_at = ua,
        vs_matured = False, vs_sessions_invalidated_at = 0, vs_active_stake = True,
        vs_session_nonce = 0, vs_first_staked_at = tx_unix_timestamp X,
        vs_current_stake_started_at = tx_unix_timestamp X,
        vs_total_commitments = 1, vs_total_fulfilled = 0, vs_cumulative_stake_days = 0,
        vs_highest_class_ever = cls, vs_bump = b\<rparr>"
    and "s' = emit (VowMinted asset_id owner cls stake sh ua) s1"
  using assms
  by (elim that | clarsimp simp: mint_handler_def Let_def res_simps)+

lemma upgrade_classE:
  assumes "upgrade_class X cls v = Inr v'"
  obtains ua m where "v' = v\<lparr>vs_unlock_at := ua, vs_matured := m, vs_class := max (vs_class v) cls,
      vs_highest_class_ever :=
        (if vs_class v < cls then max (vs_highest_class_ever v) cls else vs_highest_class_ever v)\<rparr>"
    and "if vs_class v < cls
         then \<not> m \<and> (\<exists>lock. lock_duration cls = Inr lock \<and>
                      sint ua = sint (tx_unix_timestamp X) + sint lock)
         else m = vs_matured v \<and> ua = vs_unlock_at v"
proof (cases "vs_class v < cls")
  case True
  with assms obtain lock ua where l: "lock_duration cls = Inr lock"
    and u: "sint ua = sint (tx_unix_timestamp X) + sint lock"
    and v': "v' = v\<lparr>vs_unlock_at := ua, vs_matured := False, vs_class := cls,
      vs_highest_class_ever := (if vs_highest_class_ever v < cls then cls
        else vs_highest_class_ever v)\<rparr>"
    by (clarsimp simp: upgrade_class_def res_simps)
  have "(if vs_highest_class_ever v < cls then cls else vs_highest_class_ever v) =
      max (vs_highest_class_ever v) cls" by (rule if_less_max)
  with True l u v' show ?thesis by (intro that [where ua=ua and m=False]) auto
next
  case False
  then have "v = v\<lparr>vs_unlock_at := vs_unlock_at v, vs_matured := vs_matured v,
      vs_class := max (vs_class v) cls, vs_highest_class_ever := vs_highest_class_ever v\<rparr>"
    by (simp add: max_def)
  moreover have "v' = v" using assms False by (simp add: upgrade_class_def)
  ultimately show ?thesis using False by (intro that [where ua="vs_unlock_at v" and m="vs_matured v"]) auto
qed

lemma add_stake_handlerE:
  assumes "add_stake_handler X reserve owner amount c v s = Inr (c', v', s')"
  obtains g ua m pr cls and sh :: u128 and n ts s1 ev
  where "0 < amount" and "vs_active_stake v" and "0 < vs_shares v"
    and "sint g = settled_gain v c"
    and "transfer owner reserve amount s = Inr s1"
    and "unat pr = unat (vs_principal_lamports v) + unat amount"
    and "class_for_stake pr = Inr cls"
    and "pc_current_share_price c \<noteq> 0"
    and "unat sh = issue (unat amount) (unat (pc_current_share_price c))"
    and "unat n = unat (vs_shares v) + unat sh"
    and "unat ts = unat (pc_total_shares c) + unat sh"
    and "c' = c\<lparr>pc_total_shares := ts\<rparr>"
    and "if vs_class v < cls
         then \<not> m \<and> (\<exists>lock. lock_duration cls = Inr lock \<and>
                      sint ua = sint (tx_unix_timestamp X) + sint lock)
         else m = vs_matured v \<and> ua = vs_unlock_at v"
    and "v' = v\<lparr>vs_accrued_gain := g, vs_last_share_price := pc_current_share_price c,
           vs_unlock_at := ua, vs_matured := m, vs_class := max (vs_class v) cls,
           vs_highest_class_ever :=
             (if vs_class v < cls then max (vs_highest_class_ever v) cls
              else vs_highest_class_ever v),
           vs_principal_lamports := pr, vs_shares := n\<rparr>"
    and "s' = emit ev s1"
proof -
  from assms obtain v1 where v1: "settle_idnft v c = Inr v1"
    and pre: "0 < amount" "vs_active_stake v" "0 < vs_shares v"
    by (clarsimp simp: add_stake_handler_def Let_def res_simps)
  obtain g where v1': "v1 = v\<lparr>vs_accrued_gain := g, vs_last_share_price := pc_current_share_price c\<rparr>"
    using settle_idnftD(1) [OF v1] by metis
  have g: "sint g = settled_gain v c"
    using settle_idnftD(2) [OF v1] by (simp add: settled_gain_def v1')
  from assms v1 pre obtain s1 pr cls and sh :: u128 and v2 n ts ev
    where t: "transfer owner reserve amount s = Inr s1"
      and pr1: "unat pr = unat (vs_principal_lamports v1) + unat amount"
      and cls: "class_for_stake pr = Inr cls" and p0: "pc_current_share_price c \<noteq> 0"
      and sh: "unat sh = issue (unat amount) (unat (pc_current_share_price c))"
      and v2: "upgrade_class X cls v1 = Inr v2"
      and n: "unat n = unat (vs_shares v2) + unat sh"
      and ts: "unat ts = unat (pc_total_shares c) + unat sh"
      and c': "c' = c\<lparr>pc_total_shares := ts\<rparr>"
      and v': "v' = v2\<lparr>vs_principal_lamports := pr, vs_shares := n\<rparr>"
      and s': "s' = emit ev s1"
    by (simp add: add_stake_handler_def Let_def res_simps)
      (elim exE conjE, rule that, (assumption | rule refl | erule sym)+)
  from v2 obtain ua m where v2': "v2 = v1\<lparr>vs_unlock_at := ua, vs_matured := m,
        vs_class := max (vs_class v1) cls, vs_highest_class_ever :=
        (if vs_class v1 < cls then max (vs_highest_class_ever v1) cls else vs_highest_class_ever v1)\<rparr>"
    and um: "if vs_class v1 < cls
         then \<not> m \<and> (\<exists>lock. lock_duration cls = Inr lock \<and>
                      sint ua = sint (tx_unix_timestamp X) + sint lock)
         else m = vs_matured v1 \<and> ua = vs_unlock_at v1"
    by (rule upgrade_classE)
  show ?thesis
  proof (rule that [OF pre g t _ cls p0 sh _ ts c' _ _ s'])
    show "unat pr = unat (vs_principal_lamports v) + unat amount" using pr1 by (simp add: v1')
    show "unat n = unat (vs_shares v) + unat sh" using n by (simp add: v2' v1')
    show "if vs_class v < cls
         then \<not> m \<and> (\<exists>lock. lock_duration cls = Inr lock \<and>
                      sint ua = sint (tx_unix_timestamp X) + sint lock)
         else m = vs_matured v \<and> ua = vs_unlock_at v" using um by (simp add: v1')
    show "v' = v\<lparr>vs_accrued_gain := g, vs_last_share_price := pc_current_share_price c,
           vs_unlock_at := ua, vs_matured := m, vs_class := max (vs_class v) cls,
           vs_highest_class_ever :=
             (if vs_class v < cls then max (vs_highest_class_ever v) cls
              else vs_highest_class_ever v),
           vs_principal_lamports := pr, vs_shares := n\<rparr>"
      by (simp add: v' v2' v1')
  qed
qed

lemma update_yield_mode_handlerE:
  assumes "update_yield_mode_handler m c v s = Inr (v', s')"
  obtains g ev where "vs_active_stake v" and "vs_yield_mode v \<noteq> m"
    and "sint g = settled_gain v c"
    and "v' = v\<lparr>vs_accrued_gain := g, vs_last_share_price := pc_current_share_price c,
                 vs_yield_mode := m\<rparr>"
    and "s' = emit ev s"
proof -
  from assms obtain v1 where v1: "settle_idnft v c = Inr v1"
    and pre: "vs_active_stake v" "vs_yield_mode v \<noteq> m"
    and post: "v' = v1\<lparr>vs_yield_mode := m\<rparr>" "\<exists>ev. s' = emit ev s"
    by (auto simp: update_yield_mode_handler_def Let_def res_simps)
  obtain g where v1': "v1 = v\<lparr>vs_accrued_gain := g, vs_last_share_price := pc_current_share_price c\<rparr>"
    using settle_idnftD(1) [OF v1] by metis
  have "sint g = settled_gain v c"
    using settle_idnftD(2) [OF v1] by (simp add: settled_gain_def v1')
  with pre post v1' show ?thesis by (metis that)
qed

lemma begin_unstake_handlerE:
  assumes "begin_unstake_handler X vow_key owner b c v s = Inr (c', v', e, s')"
  obtains g val owed tp where "vs_active_stake v"
    and "vs_matured v \<or> sint (vs_unlock_at v) \<le> sint (tx_unix_timestamp X)"
    and "sint g = settled_gain v c"
    and "position_value (vs_shares v) (pc_current_share_price c) = Inr val"
    and "unat owed = unat (u128_as_u64 val) + unat (vs_yield_balance v)"
    and "unat tp = unat (pc_total_pending_unstake c) + unat owed"
    and "c' = c\<lparr>pc_total_shares := saturating_sub (pc_total_shares c) (vs_shares v),
                 pc_total_yield_claims :=
                   saturating_sub (pc_total_yield_claims c) (vs_yield_balance v),
                 pc_total_pending_unstake := tp\<rparr>"
    and "v' = v\<lparr>vs_matured := True, vs_accrued_gain := g,
                 vs_last_share_price := pc_current_share_price c,
                 vs_shares := 0, vs_yield_balance := 0\<rparr>"
    and "e = \<lparr>ue_vow_state = vow_key, ue_owner = owner, ue_lamports_owed = owed,
              ue_deactivation_epoch = tx_epoch X, ue_bump = b\<rparr>"
    and "lg_accts s' = lg_accts s" and "lg_lamports s' = lg_lamports s"
    and "lg_executable s' = lg_executable s"
proof -
  let ?m = "vs_matured v \<or> sint (vs_unlock_at v) \<le> sint (tx_unix_timestamp X)"
  obtain v0 s0 where mm: "mark_matured X (v, s) = (v0, s0)" by fastforce
  note m0 = mark_matured_eq [OF mm]
  then have v0: "v0 = v\<lparr>vs_matured := ?m\<rparr>" by simp
  from assms mm obtain v1 val owed tp ev where act: "vs_active_stake v" and mat: "vs_matured v0"
    and v1: "settle_idnft v0 c = Inr v1"
    and val: "position_value (vs_shares v1) (pc_current_share_price c) = Inr val"
    and owed: "unat owed = unat (u128_as_u64 val) + unat (vs_yield_balance v1)"
    and tp: "unat tp = unat (pc_total_pending_unstake c) + unat owed"
    and c': "c' = c\<lparr>pc_total_shares := saturating_sub (pc_total_shares c) (vs_shares v1),
                 pc_total_yield_claims :=
                   saturating_sub (pc_total_yield_claims c) (vs_yield_balance v1),
                 pc_total_pending_unstake := tp\<rparr>"
    and v': "v' = v1\<lparr>vs_shares := 0, vs_yield_balance := 0\<rparr>"
    and e: "e = \<lparr>ue_vow_state = vow_key, ue_owner = owner, ue_lamports_owed = owed,
              ue_deactivation_epoch = tx_epoch X, ue_bump = b\<rparr>"
    and s': "s' = emit ev s0"
    by (clarsimp simp: begin_unstake_handler_def Let_def and_then_eq_Ok require_eq_Ok ok_or_eq_Ok
        checked_add_eq_Some)
  obtain g where v1': "v1 = v0\<lparr>vs_accrued_gain := g, vs_last_share_price := pc_current_share_price c\<rparr>"
    using settle_idnftD(1) [OF v1] by metis
  have g: "sint g = settled_gain v c"
    using settle_idnftD(2) [OF v1] by (simp add: settled_gain_def v1' v0)
  from mat have m: ?m by (simp add: v0)
  show ?thesis
  proof (rule that [OF act m g _ _ tp _ _ e])
    show "v' = v\<lparr>vs_matured := True, vs_accrued_gain := g,
                 vs_last_share_price := pc_current_share_price c,
                 vs_shares := 0, vs_yield_balance := 0\<rparr>"
      using m by (simp add: v' v1' v0)
  qed (use val owed c' m0 in \<open>simp_all add: v1' v0 s'\<close>)
qed

lemma complete_unstake_handlerE:
  assumes "complete_unstake_handler E X reserve owner c v e s = Inr (c', v', s')"
  obtains pay d f s1 where "ue_deactivation_epoch e < tx_epoch X"
    and "pay = unstake_payout (ue_lamports_owed e) (lg_lamports s reserve)
           (pc_total_pending_unstake c)"
    and "0 < lg_lamports s reserve" and "0 < pay"
    and "transfer reserve owner pay s = Inr s1"
    and "c' = c\<lparr>pc_total_pending_unstake :=
                   saturating_sub (pc_total_pending_unstake c) (ue_lamports_owed e)\<rparr>"
    and "v' = v\<lparr>vs_cumulative_stake_days := saturating_add (vs_cumulative_stake_days v) d,
                 vs_total_fulfilled := f, vs_active_stake := False,
                 vs_sessions_invalidated_at := tx_unix_timestamp X\<rparr>"
    and "f = (if vs_matured v then saturating_add (vs_total_fulfilled v) 1
              else vs_total_fulfilled v)"
    and "s' = emit (VowUnstaked (vs_asset_id v) owner pay) s1"
  using assms
  by (simp add: complete_unstake_handler_def Let_def res_simps)
    (elim exE conjE, rule that, (assumption | rule refl | erule sym)+)

lemma activate_stake_handlerE:
  assumes "activate_stake_handler X reserve owner stake mode c v s = Inr (c', v', s')"
  obtains cls sh ts lock ua s1 ev where "\<not> vs_active_stake v"
    and "class_for_stake stake = Inr cls"
    and "transfer owner reserve stake s = Inr s1"
    and "pc_current_share_price c \<noteq> 0"
    and "unat sh = issue (unat stake) (unat (pc_current_share_price c))"
    and "lock_duration cls = Inr lock" and "sint ua = sint (tx_unix_timestamp X) + sint lock"
    and "unat ts = unat (pc_total_shares c) - unat (vs_shares v) + unat sh"
    and "c' = c\<lparr>pc_total_shares := ts\<rparr>"
    and "v' = v\<lparr>vs_class := cls, vs_principal_lamports := stake, vs_shares := sh,
           vs_last_share_price := pc_current_share_price c, vs_accrued_gain := 0,
           vs_yield_mode := mode, vs_unlock_at := ua,
           vs_matured := False, vs_active_stake := True,
           vs_sessions_invalidated_at := tx_unix_timestamp X,
           vs_current_stake_started_at := tx_unix_timestamp X,
           vs_total_commitments := saturating_add (vs_total_commitments v) 1,
           vs_highest_class_ever := max (vs_highest_class_ever v) cls\<rparr>"
    and "s' = emit ev s1"
proof -
  from assms obtain v1 where v1: "settle_idnft v c = Inr v1" and act: "\<not> vs_active_stake v"
    by (clarsimp simp: activate_stake_handler_def Let_def res_simps)
  obtain g where v1': "v1 = v\<lparr>vs_accrued_gain := g, vs_last_share_price := pc_current_share_price c\<rparr>"
    using settle_idnftD(1) [OF v1] by metis
  have mx: "(if vs_highest_class_ever v < cls then cls else vs_highest_class_ever v) =
      max (vs_highest_class_ever v) cls" for cls by (rule if_less_max)
  from assms v1 v1' act show ?thesis
    by (simp add: activate_stake_handler_def Let_def res_simps mx unat_saturating_sub cong: if_cong)
      (elim exE conjE, rule that, (assumption | rule refl | erule sym)+)
qed

section \<open>The instructions are protocol steps\<close>

lemma mint_vowE:
  assumes "mint_vow E X ck ak vk rk owner sp stake mode s = Inr s'"
  obtains c b s1 c' v' s2 where "lg_accts s ck = Some (ConfigAcct c)"
    and "pda_with_bump E reserve_seeds (pc_reserve_bump c) rk"
    and "\<exists>ab. en_find_program_address E (vow_asset_seeds (pc_total_minted c)) (en_program_id E) = Some (ak, ab)"
    and "tx_is_signer X owner"
    and "init_account E (vow_seeds ak) VowState_LEN owner vk s = Inr (b, s1)"
    and "mint_handler X ak rk owner b stake mode c s1 = Inr (c', v', s2)"
    and "s' = store vk (VowAcct v') (store ck (ConfigAcct c') s2)"
  using assms
  by (auto simp: mint_vow_def MintVow_accounts_def res_simps)

lemma mint_vow_step:
  assumes "mint_vow E X ck ak vk rk owner sp stake mode s = Inr s'"
  shows "acct_step E (lg_accts s) (lg_accts s')" and "sum_lamports s' = sum_lamports s"
proof -
  from assms obtain c b s1 c' v' s2 where c: "lg_accts s ck = Some (ConfigAcct c)"
    and i: "init_account E (vow_seeds ak) VowState_LEN owner vk s = Inr (b, s1)"
    and h: "mint_handler X ak rk owner b stake mode c s1 = Inr (c', v', s2)"
    and s': "s' = store vk (VowAcct v') (store ck (ConfigAcct c') s2)"
    by (rule mint_vowE)
  note i = init_accountD [OF i]
  from h obtain cls sh ts tm ua s3 where cls: "class_for_stake stake = Inr cls"
    and t: "transfer owner rk stake s1 = Inr s3"
    and ts: "unat ts = unat (pc_total_shares c) + unat sh"
    and c': "c' = c\<lparr>pc_total_shares := ts, pc_total_minted := tm\<rparr>"
    and v': "vs_shares v' = sh" "vs_yield_balance v' = 0" "vs_principal_lamports v' = stake"
      "vs_class v' = cls" "vs_highest_class_ever v' = cls" "vs_asset_id v' = ak" "vs_bump v' = b"
    and s2: "s2 = emit (VowMinted ak owner cls stake sh ua) s3"
    by - (erule mint_handlerE, rule that, assumption, assumption, assumption, assumption,
      (hypsubst, rule vow_state.select_convs)+, assumption)
  have "tier_ok v'" using cls class_for_stake_le_7 [OF cls] by (simp add: tier_ok_def v')
  moreover have "placed E vk (Some (VowAcct v'))" using i(1) by (simp add: v')
  ultimately show "acct_step E (lg_accts s) (lg_accts s')"
    using acct_step.mint [OF c i(2), of c' v' E] ts i(3) transfer_frame(1) [OF t]
    by (simp add: s' s2 c' v' bumps_kept_def)
  show "sum_lamports s' = sum_lamports s"
    using transfer_sum_lamports [OF t] i(6) by (simp add: s' s2 sum_lamports_def)
qed

lemma add_stakeE:
  assumes "add_stake E X ck vk rk owner sp amount s = Inr s'"
  obtains c v c' v' s1 where "lg_accts s ck = Some (ConfigAcct c)"
    and "lg_accts s vk = Some (VowAcct v)" and "vs_owner v = owner" and "tx_is_signer X owner"
    and "add_stake_handler X rk owner amount c v s = Inr (c', v', s1)"
    and "s' = store vk (VowAcct v') (store ck (ConfigAcct c') s1)"
  using assms by (auto simp: add_stake_def AddStake_accounts_def res_simps)

lemma tier_ok_upgrade:
  assumes "tier_ok v" and "class_for_stake pr = Inr cls"
    and "unat (vs_principal_lamports v) \<le> unat pr"
    and "vs_principal_lamports v' = pr" and "vs_class v' = max (vs_class v) cls"
    and "vs_highest_class_ever v' = (if vs_class v < cls then max (vs_highest_class_ever v) cls
              else vs_highest_class_ever v)"
  shows "tier_ok v'"
proof -
  from assms(1,3) obtain d where "class_for_stake pr = Inr d" and "unat (vs_class v) \<le> unat d"
    unfolding tier_ok_def by (metis class_for_stake_mono)
  with assms(2) have "vs_class v \<le> cls" by (simp add: word_le_nat_alt)
  then have "max (vs_class v) cls = cls" by (simp add: max_def)
  moreover have "\<not> vs_class v < cls \<Longrightarrow> cls = vs_class v" using \<open>vs_class v \<le> cls\<close> by simp
  ultimately show ?thesis
    using assms class_for_stake_le_7 [OF assms(2)]
    by (auto simp: tier_ok_def max_def word_le_nat_alt word_less_nat_alt)
qed

lemma add_stake_step:
  assumes "add_stake E X ck vk rk owner sp amount s = Inr s'"
  shows "acct_step E (lg_accts s) (lg_accts s')" and "sum_lamports s' = sum_lamports s"
proof -
  from assms obtain c v c' v' s1 where c: "lg_accts s ck = Some (ConfigAcct c)"
    and v: "lg_accts s vk = Some (VowAcct v)"
    and h: "add_stake_handler X rk owner amount c v s = Inr (c', v', s1)"
    and s': "s' = store vk (VowAcct v') (store ck (ConfigAcct c') s1)"
    by (rule add_stakeE)
  from h obtain g ua m pr cls and sh :: u128 and n ts s2 ev where sh0: "0 < vs_shares v"
    and t: "transfer owner rk amount s = Inr s2"
    and pr: "unat pr = unat (vs_principal_lamports v) + unat amount"
    and cls: "class_for_stake pr = Inr cls"
    and n: "unat n = unat (vs_shares v) + unat sh"
    and ts: "unat ts = unat (pc_total_shares c) + unat sh"
    and c': "c' = c\<lparr>pc_total_shares := ts\<rparr>"
    and v': "v' = v\<lparr>vs_accrued_gain := g, vs_last_share_price := pc_current_share_price c,
           vs_unlock_at := ua, vs_matured := m, vs_class := max (vs_class v) cls,
           vs_highest_class_ever :=
             (if vs_class v < cls then max (vs_highest_class_ever v) cls
              else vs_highest_class_ever v),
           vs_principal_lamports := pr, vs_shares := n\<rparr>"
    and s1: "s1 = emit ev s2"
    by (rule add_stake_handlerE)
  have "tier_ok v'" if "tier_ok v"
    by (rule tier_ok_upgrade [OF that cls]) (simp_all add: pr v')
  then have "vow_evolves v v'"
    by (intro vow_evolvesI) (simp_all add: v' standing_grows_def unat_max)
  moreover have "position_moves c v c' v'"
    by (rule position_movesI [where b = 0 and n = "unat sh" and out = 0 and y = 0])
      (simp_all add: c' v' n ts)
  moreover have "\<not> parked v" using sh0 by (auto simp: parked_def)
  ultimately show "acct_step E (lg_accts s) (lg_accts s')"
    using acct_step.position [OF c v, of c' v' E] transfer_frame(1) [OF t]
    by (simp add: s' s1 bumps_kept_def c')
  show "sum_lamports s' = sum_lamports s"
    using transfer_sum_lamports [OF t] by (simp add: s' s1 sum_lamports_def)
qed

lemma update_yield_modeE:
  assumes "update_yield_mode E X ck vk owner mode s = Inr s'"
  obtains c v v' s1 where "lg_accts s ck = Some (ConfigAcct c)"
    and "lg_accts s vk = Some (VowAcct v)" and "vs_owner v = owner" and "tx_is_signer X owner"
    and "update_yield_mode_handler mode c v s = Inr (v', s1)"
    and "s' = store vk (VowAcct v') s1"
  using assms by (auto simp: update_yield_mode_def UpdateYieldMode_accounts_def res_simps)

lemma update_yield_mode_step:
  assumes "update_yield_mode E X ck vk owner mode s = Inr s'"
  shows "acct_step E (lg_accts s) (lg_accts s')" and "sum_lamports s' = sum_lamports s"
proof -
  from assms obtain c v v' s1 where c: "lg_accts s ck = Some (ConfigAcct c)"
    and v: "lg_accts s vk = Some (VowAcct v)"
    and h: "update_yield_mode_handler mode c v s = Inr (v', s1)"
    and s': "s' = store vk (VowAcct v') s1"
    by (rule update_yield_modeE)
  from h obtain g ev where v': "v' = v\<lparr>vs_accrued_gain := g,
      vs_last_share_price := pc_current_share_price c, vs_yield_mode := mode\<rparr>"
    and s1: "s1 = emit ev s" by (rule update_yield_mode_handlerE)
  have "vow_evolves v v'"
    by (rule vow_evolvesI) (simp_all add: v' standing_grows_def tier_ok_def)
  then show "acct_step E (lg_accts s) (lg_accts s')"
    using vow_only_step [OF c v] by (simp add: s' s1 v')
  show "sum_lamports s' = sum_lamports s" by (simp add: s' s1 sum_lamports_def)
qed

lemma begin_unstakeE:
  assumes "begin_unstake E X ck vk ek owner sp s = Inr s'"
  obtains c v b s1 c' v' e s2 where "lg_accts s ck = Some (ConfigAcct c)"
    and "lg_accts s vk = Some (VowAcct v)" and "vs_owner v = owner" and "tx_is_signer X owner"
    and "init_account E (unstake_seeds vk) UnstakeEscrow_LEN owner ek s = Inr (b, s1)"
    and "begin_unstake_handler X vk owner b c v s1 = Inr (c', v', e, s2)"
    and "s' = store ek (EscrowAcct e) (store vk (VowAcct v') (store ck (ConfigAcct c') s2))"
  using assms by (auto simp: begin_unstake_def BeginUnstake_accounts_def res_simps)

lemma begin_unstake_step:
  assumes "begin_unstake E X ck vk ek owner sp s = Inr s'"
  shows "acct_step E (lg_accts s) (lg_accts s')" and "sum_lamports s' = sum_lamports s"
proof -
  from assms obtain c v b s1 c' v' e s2 where c: "lg_accts s ck = Some (ConfigAcct c)"
    and v: "lg_accts s vk = Some (VowAcct v)" and ow: "vs_owner v = owner"
    and i: "init_account E (unstake_seeds vk) UnstakeEscrow_LEN owner ek s = Inr (b, s1)"
    and h: "begin_unstake_handler X vk owner b c v s1 = Inr (c', v', e, s2)"
    and s': "s' = store ek (EscrowAcct e) (store vk (VowAcct v') (store ck (ConfigAcct c') s2))"
    by (rule begin_unstakeE)
  note i = init_accountD [OF i]
  from h obtain g val owed tp where act: "vs_active_stake v"
    and tp: "unat tp = unat (pc_total_pending_unstake c) + unat owed"
    and c': "c' = c\<lparr>pc_total_shares := saturating_sub (pc_total_shares c) (vs_shares v),
                 pc_total_yield_claims :=
                   saturating_sub (pc_total_yield_claims c) (vs_yield_balance v),
                 pc_total_pending_unstake := tp\<rparr>"
    and v': "v' = v\<lparr>vs_matured := True, vs_accrued_gain := g,
                 vs_last_share_price := pc_current_share_price c,
                 vs_shares := 0, vs_yield_balance := 0\<rparr>"
    and e: "e = \<lparr>ue_vow_state = vk, ue_owner = owner, ue_lamports_owed = owed,
              ue_deactivation_epoch = tx_epoch X, ue_bump = b\<rparr>"
    and fr: "lg_accts s2 = lg_accts s1" "lg_lamports s2 = lg_lamports s1"
    by (rule begin_unstake_handlerE)
  have "position_moves c v c' v'"
    by (rule position_movesI [where b = "unat (vs_shares v)" and n = 0
          and out = "vs_yield_balance v" and y = 0])
      (simp_all add: c' v' unat_saturating_sub)
  moreover have "vow_evolves v v'"
    by (rule vow_evolvesI) (simp_all add: v' standing_grows_def tier_ok_def)
  moreover have "parked v'" using act by (simp add: parked_def v')
  moreover have "bumps_kept c c'" by (simp add: bumps_kept_def c')
  ultimately show "acct_step E (lg_accts s) (lg_accts s')"
    using acct_step.begin_unstake [OF c v i(2), of c' v' e E] tp ow i(1,3)
    by (simp add: s' fr e c')
  show "sum_lamports s' = sum_lamports s"
    using i(6) by (simp add: s' fr sum_lamports_def)
qed

lemma complete_unstakeE:
  assumes "complete_unstake E X ck vk ek rk owner sp clk s = Inr s'"
  obtains c v e c' v' s1 where "lg_accts s ck = Some (ConfigAcct c)"
    and "lg_accts s vk = Some (VowAcct v)" and "vs_owner v = owner" and "tx_is_signer X owner"
    and "lg_accts s ek = Some (EscrowAcct e)" and "ue_owner e = owner"
    and "pda_with_bump E (unstake_seeds vk) (ue_bump e) ek"
    and "pda_with_bump E reserve_seeds (pc_reserve_bump c) rk"
    and "complete_unstake_handler E X rk owner c v e s = Inr (c', v', s1)"
    and "close_account ek owner (store vk (VowAcct v') (store ck (ConfigAcct c') s1)) = Inr s'"
  using assms by (auto simp: complete_unstake_def CompleteUnstake_accounts_def res_simps)

lemma complete_unstake_step:
  assumes "complete_unstake E X ck vk ek rk owner sp clk s = Inr s'"
  shows "acct_step E (lg_accts s) (lg_accts s')" and "sum_lamports s' = sum_lamports s"
proof -
  from assms obtain c v e c' v' s1 where c: "lg_accts s ck = Some (ConfigAcct c)"
    and v: "lg_accts s vk = Some (VowAcct v)" and e: "lg_accts s ek = Some (EscrowAcct e)"
    and p: "pda_with_bump E (unstake_seeds vk) (ue_bump e) ek"
    and h: "complete_unstake_handler E X rk owner c v e s = Inr (c', v', s1)"
    and cl: "close_account ek owner (store vk (VowAcct v') (store ck (ConfigAcct c') s1)) = Inr s'"
    by (rule complete_unstakeE)
  from h obtain pay d f s2 where t: "transfer rk owner pay s = Inr s2"
    and c': "c' = c\<lparr>pc_total_pending_unstake :=
                   saturating_sub (pc_total_pending_unstake c) (ue_lamports_owed e)\<rparr>"
    and v': "v' = v\<lparr>vs_cumulative_stake_days := saturating_add (vs_cumulative_stake_days v) d,
                 vs_total_fulfilled := f, vs_active_stake := False,
                 vs_sessions_invalidated_at := tx_unix_timestamp X\<rparr>"
    and f: "f = (if vs_matured v then saturating_add (vs_total_fulfilled v) 1
              else vs_total_fulfilled v)"
    and s1: "s1 = emit (VowUnstaked (vs_asset_id v) owner pay) s2"
    by (rule complete_unstake_handlerE)
  have "position_moves c v c' v'"
    by (rule position_movesI [where b = 0 and n = 0 and out = 0 and y = 0]) (simp_all add: c' v')
  moreover have "vow_evolves v v'"
    by (rule vow_evolvesI) (simp_all add: v' f standing_grows_def tier_ok_def)
  moreover have "bumps_kept c c'" by (simp add: bumps_kept_def c')
  ultimately show "acct_step E (lg_accts s) (lg_accts s')"
    using acct_step.complete_unstake [OF c v e, of c' E v'] p transfer_frame(1) [OF t]
      close_accountD(1) [OF cl]
    by (simp add: s1 c' unat_saturating_sub)
  show "sum_lamports s' = sum_lamports s"
    using transfer_sum_lamports [OF t] close_account_sum_lamports [OF cl]
    by (simp add: s1 sum_lamports_def)
qed

lemma activate_stakeE:
  assumes "activate_stake E X ck vk rk owner sp stake mode s = Inr s'"
  obtains c v c' v' s1 where "lg_accts s ck = Some (ConfigAcct c)"
    and "lg_accts s vk = Some (VowAcct v)" and "vs_owner v = owner" and "tx_is_signer X owner"
    and "activate_stake_handler X rk owner stake mode c v s = Inr (c', v', s1)"
    and "s' = store vk (VowAcct v') (store ck (ConfigAcct c') s1)"
  using assms by (auto simp: activate_stake_def ActivateStake_accounts_def res_simps)

lemma activate_stake_step:
  assumes "activate_stake E X ck vk rk owner sp stake mode s = Inr s'"
  shows "acct_step E (lg_accts s) (lg_accts s')" and "sum_lamports s' = sum_lamports s"
proof -
  from assms obtain c v c' v' s1 where c: "lg_accts s ck = Some (ConfigAcct c)"
    and v: "lg_accts s vk = Some (VowAcct v)"
    and h: "activate_stake_handler X rk owner stake mode c v s = Inr (c', v', s1)"
    and s': "s' = store vk (VowAcct v') (store ck (ConfigAcct c') s1)"
    by (rule activate_stakeE)
  from h obtain cls sh ts ua s2 ev where act: "\<not> vs_active_stake v"
    and cls: "class_for_stake stake = Inr cls"
    and t: "transfer owner rk stake s = Inr s2"
    and ts: "unat ts = unat (pc_total_shares c) - unat (vs_shares v) + unat sh"
    and c': "c' = c\<lparr>pc_total_shares := ts\<rparr>"
    and v': "v' = v\<lparr>vs_class := cls, vs_principal_lamports := stake, vs_shares := sh,
           vs_last_share_price := pc_current_share_price c, vs_accrued_gain := 0,
           vs_yield_mode := mode, vs_unlock_at := ua,
           vs_matured := False, vs_active_stake := True,
           vs_sessions_invalidated_at := tx_unix_timestamp X,
           vs_current_stake_started_at := tx_unix_timestamp X,
           vs_total_commitments := saturating_add (vs_total_commitments v) 1,
           vs_highest_class_ever := max (vs_highest_class_ever v) cls\<rparr>"
    and s1: "s1 = emit ev s2"
    by (rule activate_stake_handlerE)
  have "vow_evolves v v'"
    by (rule vow_evolvesI)
      (use cls class_for_stake_le_7 [OF cls] in \<open>simp_all add: v' standing_grows_def tier_ok_def unat_max\<close>)
  moreover have "position_moves c v c' v'"
    by (rule position_movesI [where b = "unat (vs_shares v)" and n = "unat sh" and out = 0 and y = 0])
      (simp_all add: c' v' ts)
  moreover have "\<not> parked v" using act by (auto simp: parked_def)
  ultimately show "acct_step E (lg_accts s) (lg_accts s')"
    using acct_step.position [OF c v, of c' v' E] transfer_frame(1) [OF t]
    by (simp add: s' s1 bumps_kept_def c')
  show "sum_lamports s' = sum_lamports s"
    using transfer_sum_lamports [OF t] by (simp add: s' s1 sum_lamports_def)
qed

section \<open>Properties of the life cycle\<close>

text \<open>What evaluates the handlers on the concrete chain.\<close>

lemmas demo_mint =
  mint_handler_def class_for_stake_def LAMPORTS_PER_XNT_def shares_for_lamports_def
  u64_as_u128_def lock_duration_def LOCK_SECONDS_def signed_add_ov_def signed_checked_add_def
  signed_of_int_def SHARE_PRECISION_def add_stake_handler_def upgrade_class_def
  begin_unstake_handler_def mark_matured_def settle_idnft_def position_value_def u128_as_u64_def
  activate_stake_handler_def complete_unstake_handler_def unstake_payout_def signed_max0_def
  signed_saturating_sub_def signed_clamp_def

text \<open>
  C12: a successful mint takes the stake from the owner's wallet, gives the identity shares
  at the current price and the class of the stake, locks it for the duration of that class
  (30 days to 5 years from now), starts its record at one commitment, and counts it.
\<close>

theorem mint_effect:
  assumes "mint_handler X asset_id reserve owner b stake mode c s = Inr (c', v', s')"
    and "owner \<noteq> reserve"
  shows "unat (lg_lamports s owner) = unat (lg_lamports s' owner) + unat stake \<and>
    unat (lg_lamports s' reserve) = unat (lg_lamports s reserve) + unat stake \<and>
    unat (vs_shares v') = issue (unat stake) (unat (pc_current_share_price c)) \<and>
    unat (pc_total_shares c') = unat (pc_total_shares c) + unat (vs_shares v') \<and>
    unat (pc_total_minted c') = unat (pc_total_minted c) + 1 \<and>
    vs_nonce v' = pc_total_minted c \<and> vs_owner v' = owner \<and> vs_asset_id v' = asset_id \<and>
    class_for_stake stake = Inr (vs_class v') \<and> vs_principal_lamports v' = stake \<and>
    sint (vs_unlock_at v') =
      sint (tx_unix_timestamp X) + sint (LOCK_SECONDS ! unat (vs_class v')) \<and>
    30 * 86400 \<le> sint (LOCK_SECONDS ! unat (vs_class v')) \<and>
    sint (LOCK_SECONDS ! unat (vs_class v')) \<le> 1825 * 86400 \<and>
    \<not> vs_matured v' \<and> vs_active_stake v' \<and> vs_total_commitments v' = 1 \<and>
    vs_yield_balance v' = 0"
proof -
  from assms(1) obtain cls sh ts tm lock ua s1 where cls: "class_for_stake stake = Inr cls"
    and t: "transfer owner reserve stake s = Inr s1"
    and sh: "unat sh = issue (unat stake) (unat (pc_current_share_price c))"
    and lock: "lock_duration cls = Inr lock"
    and ua: "sint ua = sint (tx_unix_timestamp X) + sint lock"
    and ts: "unat ts = unat (pc_total_shares c) + unat sh"
    and tm: "unat tm = unat (pc_total_minted c) + 1"
    and c': "c' = c\<lparr>pc_total_shares := ts, pc_total_minted := tm\<rparr>"
    and v': "v' = \<lparr>vs_asset_id = asset_id, vs_owner = owner, vs_class = cls,
        vs_nonce = pc_total_minted c, vs_principal_lamports = stake,
        vs_shares = sh, vs_last_share_price = pc_current_share_price c,
        vs_accrued_gain = 0, vs_yield_mode = mode, vs_yield_balance = 0,
        vs_total_harvested = 0, vs_created_at = tx_unix_timestamp X, vs_unlock_at = ua,
        vs_matured = False, vs_sessions_invalidated_at = 0, vs_active_stake = True,
        vs_session_nonce = 0, vs_first_staked_at = tx_unix_timestamp X,
        vs_current_stake_started_at = tx_unix_timestamp X,
        vs_total_commitments = 1, vs_total_fulfilled = 0, vs_cumulative_stake_days = 0,
        vs_highest_class_ever = cls, vs_bump = b\<rparr>"
    and s': "s' = emit (VowMinted asset_id owner cls stake sh ua) s1"
    by (rule mint_handlerE)
  have c7: "unat cls \<le> 7" using class_for_stake_le_7 [OF cls] .
  then have "lock = LOCK_SECONDS ! unat cls" using lock lock_duration_Ok by simp
  then show ?thesis
    using transfer_pays [OF t assms(2)] cls sh ts tm ua lock_seconds_bounds [OF c7]
    by (simp add: v' c' s')
qed

theorem mint_effect_witness:
  "\<exists>c' v' s'. mint_handler demo_tx 5 2 4 255 150000000000 Hybrid demo_config demo_live =
     Inr (c', v', s') \<and> unat (lg_lamports s' 2) = 20000000000 + 150000000000"
proof -
  obtain c' v' s' where "mint_handler demo_tx 5 2 4 255 150000000000 Hybrid demo_config demo_live =
     Inr (c', v', s')" by (simp add: demo_exec demo_mint)
  moreover from mint_effect [OF this] have "unat (lg_lamports s' 2) =
      unat (lg_lamports demo_live 2) + unat (150000000000 :: u64)" by simp
  ultimately show ?thesis by (simp add: demo_live_def)
qed

text \<open>
  C13: staking and unstaking at one price is a round trip: what the escrow of a freshly
  minted identity is owed is at most the stake, and short of it by at most the price of one
  share.
\<close>

theorem stake_round_trip:
  assumes "mint_handler X asset_id reserve owner b stake mode c s = Inr (c1, v1, s1)"
    and "begin_unstake_handler X' vow_key owner b' c1 v1 s2 = Inr (c2, v2, e, s3)"
  shows "unat (ue_lamports_owed e) \<le> unat stake \<and>
    unat stake \<le> unat (ue_lamports_owed e) + unit_cost (unat (pc_current_share_price c))"
proof -
  let ?p = "unat (pc_current_share_price c)"
  from assms(1) have p: "0 < ?p" and sh: "unat (vs_shares v1) = issue (unat stake) ?p"
    and y: "vs_yield_balance v1 = 0" and c1: "pc_current_share_price c1 = pc_current_share_price c"
    by (auto elim!: mint_handlerE simp: unat_gt_0)
  from assms(2) obtain val owed where
    val: "position_value (vs_shares v1) (pc_current_share_price c1) = Inr val"
    and owed: "unat owed = unat (u128_as_u64 val) + unat (vs_yield_balance v1)"
    and e: "ue_lamports_owed e = owed"
    by (auto elim!: begin_unstake_handlerE)
  have v: "unat val = redeem (issue (unat stake) ?p) ?p"
    using val by (simp add: position_value_eq_Ok sh c1)
  then have "unat val \<le> unat stake" using exchange.redeem_issue_le by simp
  then have "unat (u128_as_u64 val) = unat val"
    using unat_u64_bound [of stake] by (simp add: unat_u128_as_u64)
  then show ?thesis using exchange.round_trip [OF p, of "unat stake"] owed y v by (simp add: e)
qed

definition demo_later :: tx where
  "demo_later = demo_tx\<lparr>tx_unix_timestamp := 1702592000, tx_epoch := 520\<rparr>"

theorem stake_round_trip_witness:
  "\<exists>c1 v1 s1 c2 v2 e s3.
     mint_handler demo_tx 5 2 4 255 7000000000 Compound grown_config demo_live = Inr (c1, v1, s1) \<and>
     begin_unstake_handler demo_later 6 4 255 c1 v1 s1 = Inr (c2, v2, e, s3) \<and>
     unat (ue_lamports_owed e) \<le> 7000000000 \<and> 7000000000 \<le> unat (ue_lamports_owed e) + 2"
proof -
  obtain c1 v1 s1 where
    m: "mint_handler demo_tx 5 2 4 255 7000000000 Compound grown_config demo_live = Inr (c1, v1, s1)"
    and b: "\<exists>c2 v2 e s3. begin_unstake_handler demo_later 6 4 255 c1 v1 s1 = Inr (c2, v2, e, s3)"
    by (simp add: demo_exec demo_mint demo_later_def grown_config_def)
  then obtain c2 v2 e s3 where
    b: "begin_unstake_handler demo_later 6 4 255 c1 v1 s1 = Inr (c2, v2, e, s3)" by blast
  from stake_round_trip [OF m b] m b show ?thesis
    by (auto simp: grown_config_def unit_cost_def)
qed

text \<open>
  A top-up of an identity whose class is the tier of its principal adds the lamports
  and their shares, never lowers the class, and restarts the lock exactly when the class
  rises.
\<close>

theorem add_stake_effect:
  assumes "add_stake_handler X reserve owner amount c v s = Inr (c', v', s')" and "tier_ok v"
  shows "unat (vs_principal_lamports v') = unat (vs_principal_lamports v) + unat amount \<and>
    unat (vs_shares v') =
      unat (vs_shares v) + issue (unat amount) (unat (pc_current_share_price c)) \<and>
    class_for_stake (vs_principal_lamports v') = Inr (vs_class v') \<and>
    vs_class v \<le> vs_class v' \<and>
    (if vs_class v < vs_class v'
     then \<not> vs_matured v' \<and> sint (vs_unlock_at v') =
       sint (tx_unix_timestamp X) + sint (LOCK_SECONDS ! unat (vs_class v'))
     else vs_matured v' = vs_matured v \<and> vs_unlock_at v' = vs_unlock_at v)"
proof -
  from assms(1) obtain g ua m pr cls and sh :: u128 and n where
    pr: "unat pr = unat (vs_principal_lamports v) + unat amount"
    and cls: "class_for_stake pr = Inr cls"
    and sh: "unat sh = issue (unat amount) (unat (pc_current_share_price c))"
    and n: "unat n = unat (vs_shares v) + unat sh"
    and um: "if vs_class v < cls
         then \<not> m \<and> (\<exists>lock. lock_duration cls = Inr lock \<and>
                      sint ua = sint (tx_unix_timestamp X) + sint lock)
         else m = vs_matured v \<and> ua = vs_unlock_at v"
    and v': "v' = v\<lparr>vs_accrued_gain := g, vs_last_share_price := pc_current_share_price c,
           vs_unlock_at := ua, vs_matured := m, vs_class := max (vs_class v) cls,
           vs_highest_class_ever :=
             (if vs_class v < cls then max (vs_highest_class_ever v) cls
              else vs_highest_class_ever v),
           vs_principal_lamports := pr, vs_shares := n\<rparr>"
    by (rule add_stake_handlerE)
  have "tier_ok v'" by (rule tier_ok_upgrade [OF assms(2) cls]) (simp_all add: pr v')
  then have "max (vs_class v) cls = cls" using cls by (simp add: tier_ok_def v')
  moreover have "lock_duration cls = Inr (LOCK_SECONDS ! unat cls)"
    by (rule lock_duration_Ok [OF class_for_stake_le_7 [OF cls]])
  ultimately show ?thesis using pr cls sh n um by (auto simp: v' max_def split: if_splits)
qed

theorem add_stake_effect_witness:
  "\<exists>c' v' s'. add_stake_handler demo_tx 2 4 200000000000 demo_config demo_vow demo_live =
     Inr (c', v', s') \<and> class_for_stake (vs_principal_lamports v') = Inr (vs_class v')"
proof -
  obtain c' v' s' where "add_stake_handler demo_tx 2 4 200000000000 demo_config demo_vow demo_live =
     Inr (c', v', s')" by (simp add: demo_exec demo_mint)
  moreover have "tier_ok demo_vow" by (simp add: tier_ok_def demo_vow_def demo_mint Let_def)
  ultimately show ?thesis using add_stake_effect by blast
qed

text \<open>
  C14: unstaking begins only after the lock period, and moves the whole position into the
  escrow: it owes the position's value (as a 64-bit number) and the yield balance, which
  the pending total takes over while the identity and the other totals give them up.
\<close>

theorem begin_unstake_effect:
  assumes "begin_unstake_handler X vow_key owner b c v s = Inr (c', v', e, s')"
  shows "vs_active_stake v \<and>
    (vs_matured v \<or> sint (vs_unlock_at v) \<le> sint (tx_unix_timestamp X)) \<and>
    unat (ue_lamports_owed e) =
      redeem (unat (vs_shares v)) (unat (pc_current_share_price c)) mod 2 ^ 64 +
      unat (vs_yield_balance v) \<and>
    ue_vow_state e = vow_key \<and> ue_owner e = owner \<and> ue_deactivation_epoch e = tx_epoch X \<and>
    vs_shares v' = 0 \<and> vs_yield_balance v' = 0 \<and> vs_matured v' \<and> vs_active_stake v' \<and>
    unat (pc_total_pending_unstake c') =
      unat (pc_total_pending_unstake c) + unat (ue_lamports_owed e) \<and>
    pc_total_shares c' = saturating_sub (pc_total_shares c) (vs_shares v) \<and>
    pc_total_yield_claims c' =
      saturating_sub (pc_total_yield_claims c) (vs_yield_balance v) \<and>
    lg_lamports s' = lg_lamports s"
  using assms
  by (rule begin_unstake_handlerE) (simp add: position_value_eq_Ok unat_u128_as_u64)

theorem begin_unstake_effect_witness:
  "\<exists>c' v' e s'. begin_unstake_handler demo_tx 6 4 255 demo_config demo_vow demo_live =
     Inr (c', v', e, s') \<and> unat (ue_lamports_owed e) = 6000000000"
proof -
  obtain c' v' e s' where "begin_unstake_handler demo_tx 6 4 255 demo_config demo_vow demo_live =
     Inr (c', v', e, s')" by (simp add: demo_exec demo_mint)
  with begin_unstake_effect [OF this] show ?thesis by (simp add: demo_data redeem_def)
qed

lemma unstake_payout_eq:
  "unat (unstake_payout owed reserve pending) =
     (if unat pending \<le> unat reserve then unat owed
      else unat owed * unat reserve div unat pending)"
proof (cases "unat pending \<le> unat reserve")
  case True
  then show ?thesis by (simp add: unstake_payout_def word_le_nat_alt)
next
  case False
  have "unat owed * unat reserve < 2 ^ 64 * 2 ^ 64"
    by (rule mult_strict_mono) (use unat_u64_bound [of owed] unat_u64_bound [of reserve] in simp_all)
  then have m: "checked_mul (u64_as_u128 owed) (u64_as_u128 reserve) =
      Some (u64_as_u128 owed * u64_as_u128 reserve)"
    by (simp add: checked_mul_def)
  then have u: "unat (u64_as_u128 owed * u64_as_u128 reserve) = unat owed * unat reserve"
    by (simp add: checked_mul_eq_Some)
  have "unat owed * unat reserve div unat pending \<le> unat owed"
    using False by (simp add: mult_div_le)
  then have "unat owed * unat reserve div unat pending < 2 ^ 64"
    using unat_u64_bound [of owed] by simp
  then show ?thesis
    using False m u
    by (auto simp: unstake_payout_def word_le_nat_alt unat_u128_as_u64 unat_unwrap_checked_div)
qed

text \<open>
  C15: the payout of an unstake, for a claim that the pending total includes: never more
  than the claim or the reserve, in full when the reserve covers all pending claims, and
  otherwise the claim's share of the reserve rounded down.
\<close>

theorem unstake_payout_bounds:
  assumes "unat owed \<le> unat pending"
  shows "unat (unstake_payout owed reserve pending) \<le> unat owed \<and>
    unat (unstake_payout owed reserve pending) \<le> unat reserve \<and>
    (unat pending \<le> unat reserve \<longrightarrow> unstake_payout owed reserve pending = owed) \<and>
    (unat reserve < unat pending \<longrightarrow>
       unat (unstake_payout owed reserve pending) = unat owed * unat reserve div unat pending)"
proof (cases "unat pending \<le> unat reserve")
  case True
  then show ?thesis using assms unstake_payout_eq [of owed reserve pending]
    by (auto simp: word_unat_eq_iff)
next
  case False
  then have "unat owed * unat reserve div unat pending \<le> unat owed"
    and "unat reserve * unat owed div unat pending \<le> unat reserve"
    using assms by (simp_all add: mult_div_le)
  then show ?thesis using False by (simp add: unstake_payout_eq mult.commute)
qed

theorem unstake_payout_bounds_witness:
  "unat (unstake_payout 6000000000 20000000000 40000000000) = 3000000000"
  using unstake_payout_bounds [of 6000000000 40000000000 20000000000] by simp

text \<open>
  Paying one claim leaves the others no worse off. After a payout the reserve covers
  the remaining claims in at least the same proportion as before, so the order in which
  claims are completed does not favour the first.
\<close>

theorem unstake_payout_keeps_coverage:
  assumes "unat owed \<le> unat pending"
  shows "(unat reserve < unat pending \<longrightarrow>
      unat reserve * (unat pending - unat owed) \<le>
      (unat reserve - unat (unstake_payout owed reserve pending)) * unat pending) \<and>
    (unat pending \<le> unat reserve \<longrightarrow>
      unat pending - unat owed \<le>
      unat reserve - unat (unstake_payout owed reserve pending))"
proof (cases "unat pending \<le> unat reserve")
  case True
  then show ?thesis by (simp add: unstake_payout_eq diff_le_mono)
next
  case False
  let ?q = "unat owed * unat reserve div unat pending"
  have "?q * unat pending \<le> unat owed * unat reserve" by simp
  then have "unat reserve * unat pending - unat owed * unat reserve \<le>
      unat reserve * unat pending - ?q * unat pending" by (rule diff_le_mono2)
  then show ?thesis
    using False by (simp add: unstake_payout_eq diff_mult_distrib diff_mult_distrib2 mult.commute)
qed

theorem unstake_payout_keeps_coverage_witness:
  "20000000000 * (40000000000 - 6000000000) \<le>
     (20000000000 - unat (unstake_payout 6000000000 20000000000 40000000000)) * (40000000000 :: nat)"
  using unstake_payout_keeps_coverage [of 6000000000 40000000000 20000000000] by simp

text \<open>
  C16: an unstake completes only in a later epoch than it began. It pays the payout from the
  reserve to the owner, takes the full claim off the pending total, adds the days of the
  stake and, for a matured one, a fulfilment to the record, makes the identity dormant, and
  invalidates every session started before now.
\<close>

theorem complete_unstake_effect:
  assumes "complete_unstake_handler E X reserve owner c v e s = Inr (c', v', s')"
    and "reserve \<noteq> owner"
  defines "pay \<equiv> unstake_payout (ue_lamports_owed e) (lg_lamports s reserve)
    (pc_total_pending_unstake c)"
  shows "ue_deactivation_epoch e < tx_epoch X \<and> 0 < pay \<and>
    unat (lg_lamports s reserve) = unat (lg_lamports s' reserve) + unat pay \<and>
    unat (lg_lamports s' owner) = unat (lg_lamports s owner) + unat pay \<and>
    unat (pc_total_pending_unstake c') =
      unat (pc_total_pending_unstake c) - unat (ue_lamports_owed e) \<and>
    \<not> vs_active_stake v' \<and> vs_sessions_invalidated_at v' = tx_unix_timestamp X \<and>
    vs_total_fulfilled v' =
      (if vs_matured v then saturating_add (vs_total_fulfilled v) 1 else vs_total_fulfilled v) \<and>
    vs_cumulative_stake_days v \<le> vs_cumulative_stake_days v' \<and> identity_kept v v'"
  using assms(1)
proof (rule complete_unstake_handlerE)
  fix p d f s1
  assume "ue_deactivation_epoch e < tx_epoch X" and p: "p = unstake_payout (ue_lamports_owed e)
      (lg_lamports s reserve) (pc_total_pending_unstake c)" and "0 < p"
    and t: "transfer reserve owner p s = Inr s1"
    and "c' = c\<lparr>pc_total_pending_unstake :=
            saturating_sub (pc_total_pending_unstake c) (ue_lamports_owed e)\<rparr>"
    and "v' = v\<lparr>vs_cumulative_stake_days := saturating_add (vs_cumulative_stake_days v) d,
            vs_total_fulfilled := f, vs_active_stake := False,
            vs_sessions_invalidated_at := tx_unix_timestamp X\<rparr>"
    and "f = (if vs_matured v then saturating_add (vs_total_fulfilled v) 1
            else vs_total_fulfilled v)"
    and "s' = emit (VowUnstaked (vs_asset_id v) owner p) s1"
  then show ?thesis
    using transfer_pays [OF t assms(2)]
    by (simp add: pay_def unat_saturating_sub identity_kept_def word_le_nat_alt)
qed

definition pending_config :: protocol_config where
  "pending_config = demo_config\<lparr>pc_total_pending_unstake := 6000000000\<rparr>"

theorem complete_unstake_effect_witness:
  "\<exists>c' v' s'. complete_unstake_handler demo_env demo_tx 2 4 pending_config demo_vow demo_escrow
      demo_live = Inr (c', v', s') \<and> \<not> vs_active_stake v'"
proof -
  obtain c' v' s' where "complete_unstake_handler demo_env demo_tx 2 4 pending_config demo_vow
      demo_escrow demo_live = Inr (c', v', s')"
    by (simp add: demo_exec demo_mint pending_config_def)
  moreover from complete_unstake_effect [OF this] have "\<not> vs_active_stake v'" by simp
  ultimately show ?thesis by blast
qed

text \<open>
  An unstake of a positive amount succeeds and pays in full when the reserve covers it and all
  that the configuration counts as pending.
\<close>

lemma complete_unstake_succeeds:
  assumes accounts: "CompleteUnstake_accounts E X ck vk ek rk owner sp clk s = Inr (c, v, e)"
    and epoch: "ue_deactivation_epoch e < tx_epoch X"
    and reserve: "lg_accts s rk = None" "rk \<noteq> owner" "ek \<noteq> owner"
    and owed: "0 < ue_lamports_owed e" "ue_lamports_owed e \<le> lg_lamports s rk"
      "pc_total_pending_unstake c \<le> lg_lamports s rk"
    and fits: "unat (lg_lamports s owner) + unat (lg_lamports s ek) + unat (ue_lamports_owed e) < 2 ^ 64"
  shows "\<exists>s'. complete_unstake E X ck vk ek rk owner sp clk s = Inr s' \<and>
    unat (lg_lamports s' owner) =
      unat (lg_lamports s owner) + unat (ue_lamports_owed e) + unat (lg_lamports s ek)"
proof -
  have pda: "en_create_program_address E (reserve_seeds @ [[pc_reserve_bump c]]) (en_program_id E) = Some rk"
    and ek: "lg_accts s ek = Some (EscrowAcct e)"
    using accounts by (auto simp: CompleteUnstake_accounts_def res_simps pda_with_bump_def)
  have pay: "unstake_payout (ue_lamports_owed e) (lg_lamports s rk) (pc_total_pending_unstake c) =
      ue_lamports_owed e"
    using owed(3) by (simp add: unstake_payout_def Let_def)
  have pos: "0 < lg_lamports s rk" using owed by (auto simp: word_less_nat_alt word_le_nat_alt)
  note owed(2)
  moreover from fits have "unat (lg_lamports s owner) + unat (ue_lamports_owed e) < 2 ^ 64" by linarith
  moreover have "ek \<noteq> rk" using reserve(1) ek by auto
  ultimately obtain s1 where t: "transfer rk owner (ue_lamports_owed e) s = Inr s1"
    and s1: "unat (lg_lamports s1 owner) = unat (lg_lamports s owner) + unat (ue_lamports_owed e)"
      "lg_lamports s1 ek = lg_lamports s ek"
    using transfer_succeeds [of s rk "ue_lamports_owed e" owner] reserve by blast
  from t pda have "transfer_signed E (reserve_seeds @ [[pc_reserve_bump c]]) rk owner
      (ue_lamports_owed e) s = Inr s1" by (simp add: transfer_signed_def)
  then obtain c' v' ev where h: "complete_unstake_handler E X rk owner c v e s = Inr (c', v', emit ev s1)"
    using epoch pos owed(1) by (simp add: complete_unstake_handler_def pay Let_def)
  have "checked_add (lg_lamports s1 owner) (lg_lamports s1 ek) =
      Some (lg_lamports s1 owner + lg_lamports s1 ek)"
    using fits s1 by (simp add: checked_add_def)
  moreover from this have "unat (lg_lamports s1 owner + lg_lamports s1 ek) =
      unat (lg_lamports s1 owner) + unat (lg_lamports s1 ek)" by (simp only: checked_add_eq_Some)
  ultimately show ?thesis
    using accounts h s1 reserve(3) by (simp add: complete_unstake_def close_account_def)
qed

text \<open>
  Re-activation needs a dormant identity; it stakes anew at the current price and class,
  clears the gain, restarts the lock, counts one more commitment, and invalidates the
  sessions of the past, while the class record keeps its maximum.
\<close>

theorem activate_stake_effect:
  assumes "activate_stake_handler X reserve owner stake mode c v s = Inr (c', v', s')"
  shows "\<not> vs_active_stake v \<and> vs_active_stake v' \<and>
    class_for_stake stake = Inr (vs_class v') \<and> vs_principal_lamports v' = stake \<and>
    unat (vs_shares v') = issue (unat stake) (unat (pc_current_share_price c)) \<and>
    unat (pc_total_shares c') =
      unat (pc_total_shares c) - unat (vs_shares v) + unat (vs_shares v') \<and>
    vs_accrued_gain v' = 0 \<and> \<not> vs_matured v' \<and>
    sint (vs_unlock_at v') =
      sint (tx_unix_timestamp X) + sint (LOCK_SECONDS ! unat (vs_class v')) \<and>
    vs_total_commitments v' = saturating_add (vs_total_commitments v) 1 \<and>
    vs_highest_class_ever v' = max (vs_highest_class_ever v) (vs_class v') \<and>
    vs_sessions_invalidated_at v' = tx_unix_timestamp X \<and> identity_kept v v'"
  using assms
proof (rule activate_stake_handlerE)
  fix cls sh ts lock ua s1 ev
  assume cls: "class_for_stake stake = Inr cls" and lock: "lock_duration cls = Inr lock"
    and "\<not> vs_active_stake v" "sint ua = sint (tx_unix_timestamp X) + sint lock"
    "unat sh = issue (unat stake) (unat (pc_current_share_price c))"
    "unat ts = unat (pc_total_shares c) - unat (vs_shares v) + unat sh"
    "c' = c\<lparr>pc_total_shares := ts\<rparr>"
    "v' = v\<lparr>vs_class := cls, vs_principal_lamports := stake, vs_shares := sh,
           vs_last_share_price := pc_current_share_price c, vs_accrued_gain := 0,
           vs_yield_mode := mode, vs_unlock_at := ua,
           vs_matured := False, vs_active_stake := True,
           vs_sessions_invalidated_at := tx_unix_timestamp X,
           vs_current_stake_started_at := tx_unix_timestamp X,
           vs_total_commitments := saturating_add (vs_total_commitments v) 1,
           vs_highest_class_ever := max (vs_highest_class_ever v) cls\<rparr>"
  moreover have "lock = LOCK_SECONDS ! unat cls"
    using lock lock_duration_Ok [OF class_for_stake_le_7 [OF cls]] by simp
  ultimately show ?thesis using cls by (simp add: identity_kept_def)
qed

theorem activate_stake_effect_witness:
  "\<exists>c' v' s'. activate_stake_handler demo_tx 2 4 3000000000 Hybrid demo_config
      (demo_vow\<lparr>vs_active_stake := False, vs_shares := 0\<rparr>) demo_live = Inr (c', v', s') \<and>
      vs_active_stake v'"
proof -
  obtain c' v' s' where "activate_stake_handler demo_tx 2 4 3000000000 Hybrid demo_config
      (demo_vow\<lparr>vs_active_stake := False, vs_shares := 0\<rparr>) demo_live = Inr (c', v', s')"
    by (simp add: demo_exec demo_mint)
  moreover from activate_stake_effect [OF this] have "vs_active_stake v'" by simp
  ultimately show ?thesis by blast
qed

end
