(* ===== verification/Vow_Session.thy ===== *)
theory Vow_Session
  imports Vow_Identity
begin

text \<open>
  Session keys and the dApp defaults they may start from
  (\<^verbatim>\<open>instructions/session/*.rs\<close>, \<^verbatim>\<open>instructions/authority_profile/*.rs\<close>):
  creating, revoking and closing a session, and publishing an authority profile.
\<close>

section \<open>Program lists\<close>

text \<open>
  The two loops that copy a list of program ids into the fixed array of eight, and clear
  the entries beyond it.
\<close>

definition fill_program_ids :: "pubkey list \<Rightarrow> pubkey list \<Rightarrow> pubkey list" where
  "fill_program_ids arr ids =
     (let arr = foldl (\<lambda>arr (i, pid). arr[i := pid]) arr (enumerate 0 ids)
      in foldl (\<lambda>arr i. arr[i := default_pubkey]) arr [length ids..<8])"

section \<open>Create session\<close>

record session_params =
  sp_expiry_ts :: i64
  sp_daily_limit :: u64
  sp_lifetime_limit :: u64
  sp_velocity_limit :: u32

definition CreateSession_accounts ::
    "env \<Rightarrow> tx \<Rightarrow> pubkey \<Rightarrow> pubkey \<Rightarrow> pubkey \<Rightarrow> pubkey option \<Rightarrow> pubkey \<Rightarrow> pubkey \<Rightarrow> u32 \<Rightarrow> ledger
       \<Rightarrow> (vow_state \<times> authority_profile option \<times> u8 \<times> ledger) result" where
  "CreateSession_accounts E X config vow_state session_account authority_profile owner
       system_program session_index s =
     and_then (config_account E X False s config) (\<lambda>_.
     and_then (vow_account E X True s vow_state) (\<lambda>v.
     require (vs_owner v = owner) (VowErr InvalidOwner) (
     and_then (case authority_profile of
         None \<Rightarrow> Ok None
       | Some k \<Rightarrow> and_then (load un_profile s k) (\<lambda>p. Ok (Some p))) (\<lambda>profile.
     and_then (signer_account X True owner) (\<lambda>_.
     and_then (program_account s (en_system_program E) system_program) (\<lambda>_.
     and_then (init_account E (session_seeds vow_state session_index) SessionAccount_LEN owner
       session_account s) (\<lambda>(b, s).
     Ok (v, profile, b, s))))))))"

text \<open>Limits of the new session: the parameters, zeros replaced by a profile's defaults.\<close>

definition session_limits ::
    "tx \<Rightarrow> pubkey \<Rightarrow> authority_profile option \<Rightarrow> session_params
       \<Rightarrow> (u64 \<times> u64 \<times> i64 \<times> u32) result" where
  "session_limits X owner authority_profile params =
     (case authority_profile of
        Some profile \<Rightarrow>
          require (ap_wallet profile = owner) (VowErr Unauthorized) (
          and_then (if sp_expiry_ts params = 0
              then and_then (signed_mul_ov (ucast (ap_default_expiry_days profile)) 86400)
                     (\<lambda>span. signed_add_ov (tx_unix_timestamp X) span)
              else Ok (sp_expiry_ts params)) (\<lambda>expiry.
          Ok (if sp_daily_limit params = 0 then ap_default_daily_limit profile
                else sp_daily_limit params,
              if sp_lifetime_limit params = 0 then ap_default_lifetime_limit profile
                else sp_lifetime_limit params,
              expiry,
              if sp_velocity_limit params = 0 then 0 else sp_velocity_limit params)))
      | None \<Rightarrow>
          Ok (sp_daily_limit params, sp_lifetime_limit params, sp_expiry_ts params,
              sp_velocity_limit params))"

definition create_session_handler ::
    "tx \<Rightarrow> pubkey \<Rightarrow> pubkey \<Rightarrow> u8 \<Rightarrow> authority_profile option \<Rightarrow> pubkey \<Rightarrow> pubkey list
       \<Rightarrow> session_params \<Rightarrow> u32 \<Rightarrow> vow_state \<Rightarrow> ledger
       \<Rightarrow> (vow_state \<times> session_account \<times> ledger) result" where
  "create_session_handler X vow_key owner bump authority_profile session_key
       allowed_program_ids params session_index vow s =
     require (length allowed_program_ids \<le> 8) (VowErr TooManyProgramIds) (
     require (session_key \<noteq> default_pubkey) (VowErr SessionInactive) (
     require (vs_active_stake vow) (VowErr IdentityInactive) (
     let creation_nonce = vs_session_nonce vow;
         now = tx_unix_timestamp X in
     and_then (session_limits X owner authority_profile params)
       (\<lambda>(daily_limit, lifetime_limit, expiry_ts, velocity_limit).
     let session =
       \<lparr>sa_vow_state = vow_key, sa_session_key = session_key,
        sa_allowed_program_ids = fill_program_ids (replicate 8 0) allowed_program_ids,
        sa_program_count = word_of_nat (length allowed_program_ids),
        sa_session_index = session_index, sa_creation_nonce = creation_nonce,
        sa_start_ts = now, sa_expiry_ts = expiry_ts, sa_daily_limit = daily_limit,
        sa_lifetime_limit = lifetime_limit, sa_velocity_limit = velocity_limit,
        sa_spent_today = 0, sa_spent_total = 0, sa_tx_count_today = 0,
        sa_last_reset_day = signed_div now 86400, sa_active = True, sa_bump = bump\<rparr> in
     and_then (ok_or (checked_add creation_nonce 1) (VowErr MathOverflow)) (\<lambda>nonce.
     Ok (vow\<lparr>vs_session_nonce := nonce\<rparr>, session,
         emit (SessionCreated vow_key session_key expiry_ts creation_nonce) s))))))"

definition create_session ::
    "env \<Rightarrow> tx \<Rightarrow> pubkey \<Rightarrow> pubkey \<Rightarrow> pubkey \<Rightarrow> pubkey option \<Rightarrow> pubkey \<Rightarrow> pubkey
       \<Rightarrow> pubkey \<Rightarrow> pubkey list \<Rightarrow> session_params \<Rightarrow> u32 \<Rightarrow> ledger \<Rightarrow> ledger result" where
  "create_session E X config vow_state session_account authority_profile owner system_program
       session_key allowed_program_ids params session_index s =
     and_then (CreateSession_accounts E X config vow_state session_account authority_profile
       owner system_program session_index s) (\<lambda>(v, profile, b, s).
     and_then (create_session_handler X vow_state owner b profile session_key
       allowed_program_ids params session_index v s) (\<lambda>(v, a, s).
     Ok (store session_account (SessionAcct a) (store vow_state (VowAcct v) s))))"

section \<open>Revoke and close\<close>

definition session_of_vow ::
    "env \<Rightarrow> tx \<Rightarrow> ledger \<Rightarrow> pubkey \<Rightarrow> pubkey \<Rightarrow> session_account result" where
  "session_of_vow E X s vow_state k =
     and_then (load un_session s k) (\<lambda>a.
     require (pda_with_bump E (session_seeds vow_state (sa_session_index a)) (sa_bump a) k)
       (AnchorErr ConstraintSeeds) (
     require (tx_is_writable X k) (AnchorErr ConstraintMut) (
     require (sa_vow_state a = vow_state) (VowErr SessionInactive) (
     Ok a))))"

definition RevokeSession_accounts ::
    "env \<Rightarrow> tx \<Rightarrow> pubkey \<Rightarrow> pubkey \<Rightarrow> pubkey \<Rightarrow> ledger \<Rightarrow> (vow_state \<times> session_account) result" where
  "RevokeSession_accounts E X vow_state session_account owner s =
     and_then (vow_account E X False s vow_state) (\<lambda>v.
     require (vs_owner v = owner) (VowErr InvalidOwner) (
     and_then (session_of_vow E X s vow_state session_account) (\<lambda>a.
     and_then (signer_account X False owner) (\<lambda>_.
     Ok (v, a)))))"

definition revoke_session ::
    "env \<Rightarrow> tx \<Rightarrow> pubkey \<Rightarrow> pubkey \<Rightarrow> pubkey \<Rightarrow> ledger \<Rightarrow> ledger result" where
  "revoke_session E X vow_state session_account owner s =
     and_then (RevokeSession_accounts E X vow_state session_account owner s) (\<lambda>(v, a).
     Ok (store session_account (SessionAcct (a\<lparr>sa_active := False\<rparr>))
          (emit (SessionRevoked vow_state (sa_session_key a)) s)))"

definition CloseSession_accounts ::
    "env \<Rightarrow> tx \<Rightarrow> pubkey \<Rightarrow> pubkey \<Rightarrow> pubkey \<Rightarrow> ledger \<Rightarrow> (vow_state \<times> session_account) result" where
  "CloseSession_accounts E X vow_state session_account owner s =
     and_then (vow_account E X False s vow_state) (\<lambda>v.
     require (vs_owner v = owner) (VowErr InvalidOwner) (
     and_then (session_of_vow E X s vow_state session_account) (\<lambda>a.
     and_then (signer_account X True owner) (\<lambda>_.
     Ok (v, a)))))"

definition session_closable :: "tx \<Rightarrow> vow_state \<Rightarrow> session_account \<Rightarrow> bool" where
  "session_closable X idnft session =
     (let expired = 0 < sint (sa_expiry_ts session) \<and>
            sint (sa_expiry_ts session) \<le> sint (tx_unix_timestamp X);
          inactive = (\<not> sa_active session);
          invalidated = sint (sa_start_ts session) \<le> sint (vs_sessions_invalidated_at idnft);
          identity_unstaked = (\<not> vs_active_stake idnft)
      in expired \<or> inactive \<or> invalidated \<or> identity_unstaked)"

definition close_session ::
    "env \<Rightarrow> tx \<Rightarrow> pubkey \<Rightarrow> pubkey \<Rightarrow> pubkey \<Rightarrow> ledger \<Rightarrow> ledger result" where
  "close_session E X vow_state session_account owner s =
     and_then (CloseSession_accounts E X vow_state session_account owner s) (\<lambda>(v, a).
     require (session_closable X v a) (VowErr SessionInactive) (
     close_account session_account owner s))"

section \<open>Authority profiles\<close>

record authority_profile_params =
  pp_default_daily_limit :: u64
  pp_default_lifetime_limit :: u64
  pp_default_expiry_days :: u32
  pp_default_allowed_program_ids :: "pubkey list"
  pp_metadata_uri :: "byte list"

text \<open>\<open>uri[..n].copy_from_slice(..)\<close>: the first \<open>n\<close> bytes change, the rest stays.\<close>

definition copy_uri :: "byte list \<Rightarrow> byte list \<Rightarrow> nat \<Rightarrow> byte list" where
  "copy_uri dst src n = take n src @ drop n dst"

definition create_authority_profile_handler ::
    "tx \<Rightarrow> pubkey \<Rightarrow> u8 \<Rightarrow> byte list \<Rightarrow> authority_profile_params \<Rightarrow> authority_profile
       \<Rightarrow> authority_profile result" where
  "create_authority_profile_handler X wallet bump profile_id params profile =
     require (length (pp_default_allowed_program_ids params) \<le> 8) (VowErr TooManyProgramIds) (
     require (length (pp_metadata_uri params) \<le> 128) (VowErr TooManyProgramIds) (
     let uri_len = min (length (pp_metadata_uri params)) 128 in
     Ok (profile\<lparr>ap_wallet := wallet, ap_profile_id := profile_id,
           ap_default_daily_limit := pp_default_daily_limit params,
           ap_default_lifetime_limit := pp_default_lifetime_limit params,
           ap_default_expiry_days := pp_default_expiry_days params,
           ap_program_count := word_of_nat (length (pp_default_allowed_program_ids params)),
           ap_created_at := tx_unix_timestamp X, ap_bump := bump,
           ap_default_allowed_program_ids :=
             fill_program_ids (ap_default_allowed_program_ids profile)
               (pp_default_allowed_program_ids params),
           ap_uri_len := word_of_nat uri_len,
           ap_metadata_uri :=
             copy_uri (ap_metadata_uri profile) (pp_metadata_uri params) uri_len\<rparr>)))"

definition create_authority_profile ::
    "env \<Rightarrow> tx \<Rightarrow> pubkey \<Rightarrow> pubkey \<Rightarrow> pubkey \<Rightarrow> byte list \<Rightarrow> authority_profile_params \<Rightarrow> ledger
       \<Rightarrow> ledger result" where
  "create_authority_profile E X authority_profile wallet system_program profile_id params s =
     and_then (signer_account X True wallet) (\<lambda>_.
     and_then (program_account s (en_system_program E) system_program) (\<lambda>_.
     and_then (init_account E (profile_seeds wallet profile_id) AuthorityProfile_LEN wallet
       authority_profile s) (\<lambda>(b, s).
     and_then (create_authority_profile_handler X wallet b profile_id params
       zero_authority_profile) (\<lambda>p.
     Ok (store authority_profile (ProfileAcct p) s)))))"

definition profile_of_wallet ::
    "env \<Rightarrow> tx \<Rightarrow> ledger \<Rightarrow> pubkey \<Rightarrow> pubkey \<Rightarrow> authority_profile result" where
  "profile_of_wallet E X s wallet k =
     and_then (load un_profile s k) (\<lambda>p.
     require (pda_with_bump E (profile_seeds wallet (ap_profile_id p)) (ap_bump p) k)
       (AnchorErr ConstraintSeeds) (
     require (tx_is_writable X k) (AnchorErr ConstraintMut) (
     require (ap_wallet p = wallet) (VowErr Unauthorized) (
     Ok p))))"

definition update_authority_profile_handler ::
    "authority_profile_params \<Rightarrow> authority_profile \<Rightarrow> authority_profile result" where
  "update_authority_profile_handler params profile =
     require (length (pp_default_allowed_program_ids params) \<le> 8) (VowErr TooManyProgramIds) (
     let profile = profile\<lparr>
           ap_default_daily_limit := pp_default_daily_limit params,
           ap_default_lifetime_limit := pp_default_lifetime_limit params,
           ap_default_expiry_days := pp_default_expiry_days params,
           ap_program_count := word_of_nat (length (pp_default_allowed_program_ids params)),
           ap_default_allowed_program_ids :=
             fill_program_ids (ap_default_allowed_program_ids profile)
               (pp_default_allowed_program_ids params)\<rparr> in
     if pp_metadata_uri params = [] then Ok profile
     else
       let uri_len = min (length (pp_metadata_uri params)) 128 in
       Ok (profile\<lparr>ap_uri_len := word_of_nat uri_len,
             ap_metadata_uri :=
               copy_uri (ap_metadata_uri profile) (pp_metadata_uri params) uri_len\<rparr>))"

definition update_authority_profile ::
    "env \<Rightarrow> tx \<Rightarrow> pubkey \<Rightarrow> pubkey \<Rightarrow> authority_profile_params \<Rightarrow> ledger \<Rightarrow> ledger result" where
  "update_authority_profile E X authority_profile wallet params s =
     and_then (profile_of_wallet E X s wallet authority_profile) (\<lambda>p.
     and_then (signer_account X False wallet) (\<lambda>_.
     and_then (update_authority_profile_handler params p) (\<lambda>p.
     Ok (store authority_profile (ProfileAcct p) s))))"

definition close_authority_profile ::
    "env \<Rightarrow> tx \<Rightarrow> pubkey \<Rightarrow> pubkey \<Rightarrow> ledger \<Rightarrow> ledger result" where
  "close_authority_profile E X authority_profile wallet s =
     and_then (profile_of_wallet E X s wallet authority_profile) (\<lambda>_.
     and_then (signer_account X True wallet) (\<lambda>_.
     close_account authority_profile wallet s))"

section \<open>Copying program lists\<close>

lemma foldl_copy:
  assumes "length ids \<le> length arr"
  shows "foldl (\<lambda>arr (i, pid). arr[i := pid]) arr (enumerate 0 ids) = ids @ drop (length ids) arr"
  using assms
proof (induction ids rule: rev_induct)
  case (snoc x xs)
  then have "drop (length xs) arr = arr ! length xs # drop (Suc (length xs)) arr"
    by (simp add: Cons_nth_drop_Suc)
  with snoc show ?case by (simp add: enumerate_append_eq list_update_append)
qed simp

lemma foldl_clear:
  "n \<le> m \<Longrightarrow> m \<le> length arr \<Longrightarrow>
   foldl (\<lambda>arr i. arr[i := z]) arr [n..<m] = take n arr @ replicate (m - n) z @ drop m arr"
proof (induction m)
  case (Suc m)
  show ?case
  proof (cases "n \<le> m")
    case True
    have "drop m arr = arr ! m # drop (Suc m) arr" using Suc.prems by (simp add: Cons_nth_drop_Suc)
    with True Suc show ?thesis
      by (simp add: list_update_append Suc_diff_le replicate_append_same)
  next
    case False
    with Suc.prems have "n = Suc m" by simp
    then show ?thesis by simp
  qed
qed simp

lemma fill_program_ids_eq:
  assumes "length ids \<le> 8" and "length arr = 8"
  shows "fill_program_ids arr ids = ids @ replicate (8 - length ids) default_pubkey"
  using assms foldl_copy [of ids arr]
    foldl_clear [of "length ids" 8 "ids @ drop (length ids) arr" default_pubkey]
  by (simp add: fill_program_ids_def)

lemma unat_count8: "n \<le> 8 \<Longrightarrow> unat (word_of_nat n :: u8) = n"
  by (simp add: unat_of_nat)

section \<open>Session instructions are protocol steps\<close>

lemma create_session_handlerE:
  assumes "create_session_handler X vk owner b prof key ids params idx v s = Inr (v', se, s')"
  obtains d l ex ve n ev where "length ids \<le> 8" and "key \<noteq> default_pubkey" and "vs_active_stake v"
    and "session_limits X owner prof params = Inr (d, l, ex, ve)"
    and "unat n = unat (vs_session_nonce v) + 1"
    and "v' = v\<lparr>vs_session_nonce := n\<rparr>"
    and "se = \<lparr>sa_vow_state = vk, sa_session_key = key,
        sa_allowed_program_ids = ids @ replicate (8 - length ids) default_pubkey,
        sa_program_count = word_of_nat (length ids),
        sa_session_index = idx, sa_creation_nonce = vs_session_nonce v,
        sa_start_ts = tx_unix_timestamp X, sa_expiry_ts = ex, sa_daily_limit = d,
        sa_lifetime_limit = l, sa_velocity_limit = ve,
        sa_spent_today = 0, sa_spent_total = 0, sa_tx_count_today = 0,
        sa_last_reset_day = signed_div (tx_unix_timestamp X) 86400, sa_active = True,
        sa_bump = b\<rparr>"
    and "s' = emit ev s"
proof -
  from assms have l: "length ids \<le> 8"
    by (simp add: create_session_handler_def Let_def res_simps)
  show ?thesis
    using assms fill_program_ids_eq [OF l, of "replicate 8 0"]
    by (simp add: create_session_handler_def Let_def res_simps split: prod.splits)
      (clarify, rule that, (assumption | rule refl | erule sym | simp)+)
qed

lemma create_sessionE:
  assumes "create_session E X ck vk sk pk owner sp key ids params idx s = Inr s'"
  obtains c v prof b s1 v' se s2 where "lg_accts s ck = Some (ConfigAcct c)"
    and "lg_accts s vk = Some (VowAcct v)" and "vs_owner v = owner" and "tx_is_signer X owner"
    and "init_account E (session_seeds vk idx) SessionAccount_LEN owner sk s = Inr (b, s1)"
    and "create_session_handler X vk owner b prof key ids params idx v s1 = Inr (v', se, s2)"
    and "s' = store sk (SessionAcct se) (store vk (VowAcct v') s2)"
  using assms
  by (simp add: create_session_def CreateSession_accounts_def res_simps split: prod.splits)
   (clarify, rule that, (assumption | rule refl | erule sym | simp)+)

lemma create_session_step:
  assumes "create_session E X ck vk sk pk owner sp key ids params idx s = Inr s'"
  shows "acct_step E (lg_accts s) (lg_accts s')" and "sum_lamports s' = sum_lamports s"
proof -
  from assms obtain c v prof b s1 v' se s2 where c: "lg_accts s ck = Some (ConfigAcct c)"
    and v: "lg_accts s vk = Some (VowAcct v)"
    and i: "init_account E (session_seeds vk idx) SessionAccount_LEN owner sk s = Inr (b, s1)"
    and h: "create_session_handler X vk owner b prof key ids params idx v s1 = Inr (v', se, s2)"
    and s': "s' = store sk (SessionAcct se) (store vk (VowAcct v') s2)"
    by (rule create_sessionE)
  note i = init_accountD [OF i]
  from h obtain d l ex ve n ev where ids: "length ids \<le> 8"
    and n: "unat n = unat (vs_session_nonce v) + 1"
    and v': "v' = v\<lparr>vs_session_nonce := n\<rparr>"
    and se: "se = \<lparr>sa_vow_state = vk, sa_session_key = key,
        sa_allowed_program_ids = ids @ replicate (8 - length ids) default_pubkey,
        sa_program_count = word_of_nat (length ids),
        sa_session_index = idx, sa_creation_nonce = vs_session_nonce v,
        sa_start_ts = tx_unix_timestamp X, sa_expiry_ts = ex, sa_daily_limit = d,
        sa_lifetime_limit = l, sa_velocity_limit = ve,
        sa_spent_today = 0, sa_spent_total = 0, sa_tx_count_today = 0,
        sa_last_reset_day = signed_div (tx_unix_timestamp X) 86400, sa_active = True,
        sa_bump = b\<rparr>"
    and s2: "s2 = emit ev s1"
    by (rule create_session_handlerE)
  have "vow_evolves v v'"
    by (rule vow_evolvesI) (simp_all add: v' standing_grows_def tier_ok_def n)
  moreover have "position_moves c v c v'"
    by (rule position_movesI [where b = 0 and n = 0 and out = 0 and y = 0]) (simp_all add: v')
  moreover have "session_account_wf se"
    using ids by (simp add: session_account_wf_def se unat_count8)
  moreover have "within_limits se" by (simp add: within_limits_def se)
  moreover have "parked v \<longrightarrow> parked v'" by (simp add: parked_def v')
  ultimately show "acct_step E (lg_accts s) (lg_accts s')"
    using acct_step.open_session [OF c v i(2), of v' se E] i(1,3) by (simp add: s' s2 se)
  show "sum_lamports s' = sum_lamports s"
    using i(6) by (simp add: s' s2 sum_lamports_def)
qed

lemma session_of_vow_eq_Ok [res_simps]:
  "session_of_vow E X s vk k = Inr a \<longleftrightarrow>
     lg_accts s k = Some (SessionAcct a) \<and>
     pda_with_bump E (session_seeds vk (sa_session_index a)) (sa_bump a) k \<and>
     tx_is_writable X k \<and> sa_vow_state a = vk"
  by (auto simp: session_of_vow_def res_simps)

lemma revoke_sessionE:
  assumes "revoke_session E X vk sk owner s = Inr s'"
  obtains v se where "lg_accts s vk = Some (VowAcct v)" and "vs_owner v = owner"
    and "tx_is_signer X owner" and "lg_accts s sk = Some (SessionAcct se)"
    and "sa_vow_state se = vk"
    and "s' = store sk (SessionAcct (se\<lparr>sa_active := False\<rparr>))
           (emit (SessionRevoked vk (sa_session_key se)) s)"
  using assms by (auto simp: revoke_session_def RevokeSession_accounts_def res_simps)

lemma revoke_session_step:
  assumes "revoke_session E X vk sk owner s = Inr s'"
  shows "acct_step E (lg_accts s) (lg_accts s')" and "sum_lamports s' = sum_lamports s"
  using assms
  by (auto elim!: revoke_sessionE intro: acct_step.revoke simp: sum_lamports_def)

lemma close_sessionE:
  assumes "close_session E X vk sk owner s = Inr s'"
  obtains v se where "lg_accts s vk = Some (VowAcct v)" and "vs_owner v = owner"
    and "tx_is_signer X owner" and "lg_accts s sk = Some (SessionAcct se)"
    and "sa_vow_state se = vk" and "session_closable X v se"
    and "close_account sk owner s = Inr s'"
  using assms by (auto simp: close_session_def CloseSession_accounts_def res_simps)

lemma close_session_step:
  assumes "close_session E X vk sk owner s = Inr s'"
  shows "acct_step E (lg_accts s) (lg_accts s')" and "sum_lamports s' = sum_lamports s"
  using assms
  by (auto elim!: close_sessionE intro: acct_step.close_session
      simp: close_accountD(1) close_account_sum_lamports)

section \<open>Profile instructions are protocol steps\<close>

lemma create_authority_profileE:
  assumes "create_authority_profile E X pk wallet sp pid params s = Inr s'"
  obtains b s1 p where "tx_is_signer X wallet"
    and "init_account E (profile_seeds wallet pid) AuthorityProfile_LEN wallet pk s = Inr (b, s1)"
    and "create_authority_profile_handler X wallet b pid params zero_authority_profile = Inr p"
    and "s' = store pk (ProfileAcct p) s1"
  using assms by (auto simp: create_authority_profile_def res_simps)

lemma create_authority_profile_step:
  assumes "create_authority_profile E X pk wallet sp pid params s = Inr s'"
  shows "acct_step E (lg_accts s) (lg_accts s')" and "sum_lamports s' = sum_lamports s"
proof -
  from assms obtain b s1 p
    where i: "init_account E (profile_seeds wallet pid) AuthorityProfile_LEN wallet pk s = Inr (b, s1)"
      and s': "s' = store pk (ProfileAcct p) s1" by (rule create_authority_profileE)
  show "acct_step E (lg_accts s) (lg_accts s')" using init_peripheral [OF i] by (simp add: s')
  show "sum_lamports s' = sum_lamports s"
    using init_accountD(6) [OF i] by (simp add: s' sum_lamports_def)
qed

lemma profile_of_wallet_eq_Ok [res_simps]:
  "profile_of_wallet E X s wallet k = Inr p \<longleftrightarrow>
     lg_accts s k = Some (ProfileAcct p) \<and>
     pda_with_bump E (profile_seeds wallet (ap_profile_id p)) (ap_bump p) k \<and>
     tx_is_writable X k \<and> ap_wallet p = wallet"
  by (auto simp: profile_of_wallet_def res_simps)

lemma update_authority_profile_step:
  assumes "update_authority_profile E X pk wallet params s = Inr s'"
  shows "acct_step E (lg_accts s) (lg_accts s')" and "sum_lamports s' = sum_lamports s"
  using assms
  by (auto simp: update_authority_profile_def res_simps sum_lamports_def intro!: peripheral_upd)

lemma close_authority_profile_step:
  assumes "close_authority_profile E X pk wallet s = Inr s'"
  shows "acct_step E (lg_accts s) (lg_accts s')" and "sum_lamports s' = sum_lamports s"
  using assms
  by (auto simp: close_authority_profile_def res_simps close_accountD(1)
      close_account_sum_lamports intro!: peripheral_upd)

section \<open>What a grant holds\<close>

text \<open>
  A new session has exactly the granted programs, in order, then zeros, with their
  count; it starts now, unspent and active, at the identity's next nonce; and its limits are
  those requested, a zero replaced by the default of the owner's own profile when one is
  given.
\<close>

theorem create_session_effect:
  assumes "create_session_handler X vk owner b prof key ids params idx v s = Inr (v', a, s')"
  shows "sa_allowed_program_ids a = ids @ replicate (8 - length ids) default_pubkey \<and>
    unat (sa_program_count a) = length ids \<and> session_account_wf a \<and> within_limits a \<and>
    sa_session_key a = key \<and> key \<noteq> default_pubkey \<and> sa_active a \<and> sa_spent_total a = 0 \<and>
    sa_start_ts a = tx_unix_timestamp X \<and> sa_creation_nonce a = vs_session_nonce v \<and>
    unat (vs_session_nonce v') = unat (vs_session_nonce v) + 1 \<and> vs_active_stake v \<and>
    (\<forall>p. prof = Some p \<longrightarrow> ap_wallet p = owner) \<and>
    sa_daily_limit a =
      (case prof of Some p \<Rightarrow> if sp_daily_limit params = 0 then ap_default_daily_limit p
         else sp_daily_limit params | None \<Rightarrow> sp_daily_limit params) \<and>
    sa_lifetime_limit a =
      (case prof of Some p \<Rightarrow> if sp_lifetime_limit params = 0 then ap_default_lifetime_limit p
         else sp_lifetime_limit params | None \<Rightarrow> sp_lifetime_limit params) \<and>
    sa_velocity_limit a = sp_velocity_limit params"
  using assms
proof (rule create_session_handlerE)
  fix d l ex ve n ev
  assume "length ids \<le> 8" "key \<noteq> default_pubkey" "vs_active_stake v"
    "session_limits X owner prof params = Inr (d, l, ex, ve)"
    "unat n = unat (vs_session_nonce v) + 1" "v' = v\<lparr>vs_session_nonce := n\<rparr>"
    "a = \<lparr>sa_vow_state = vk, sa_session_key = key,
        sa_allowed_program_ids = ids @ replicate (8 - length ids) default_pubkey,
        sa_program_count = word_of_nat (length ids),
        sa_session_index = idx, sa_creation_nonce = vs_session_nonce v,
        sa_start_ts = tx_unix_timestamp X, sa_expiry_ts = ex, sa_daily_limit = d,
        sa_lifetime_limit = l, sa_velocity_limit = ve,
        sa_spent_today = 0, sa_spent_total = 0, sa_tx_count_today = 0,
        sa_last_reset_day = signed_div (tx_unix_timestamp X) 86400, sa_active = True,
        sa_bump = b\<rparr>"
  then show ?thesis
    by (auto simp: session_limits_def res_simps unat_count8 session_account_wf_def
        within_limits_def split: option.splits)
qed

theorem create_session_effect_witness:
  "\<exists>v' a s'. create_session_handler demo_tx 6 4 255 None 21 [20, 19]
      \<lparr>sp_expiry_ts = 0, sp_daily_limit = 7, sp_lifetime_limit = 9, sp_velocity_limit = 1\<rparr> 0
      demo_vow demo_live = Inr (v', a, s') \<and>
      sa_allowed_program_ids a = [20, 19] @ replicate 6 default_pubkey"
proof -
  obtain v' a s' where c: "create_session_handler demo_tx 6 4 255 None 21 [20, 19]
      \<lparr>sp_expiry_ts = 0, sp_daily_limit = 7, sp_lifetime_limit = 9, sp_velocity_limit = 1\<rparr> 0
      demo_vow demo_live = Inr (v', a, s')"
    by (simp add: create_session_handler_def session_limits_def demo_exec)
  with create_session_effect [OF this] show ?thesis by simp
qed

lemma copy_uri_length: "n \<le> length src \<Longrightarrow> n \<le> length dst \<Longrightarrow> length (copy_uri dst src n) = length dst"
  by (simp add: copy_uri_def)

lemma unat_uri_len: "unat (word_of_nat (min n 128) :: u8) \<le> 128"
  by (simp add: unat_of_nat min_def)

text \<open>
  Profiles stay well formed: creating one from an 8-byte id and updating one keep the
  array lengths and counts of the struct.
\<close>

theorem profile_wf_kept:
  assumes "update_authority_profile_handler params p = Inr p'" and "authority_profile_wf p"
  shows "authority_profile_wf p' \<and> ap_wallet p' = ap_wallet p \<and> ap_profile_id p' = ap_profile_id p \<and>
    ap_default_allowed_program_ids p' = pp_default_allowed_program_ids params @
      replicate (8 - length (pp_default_allowed_program_ids params)) default_pubkey \<and>
    (pp_metadata_uri params = [] \<longrightarrow>
       ap_metadata_uri p' = ap_metadata_uri p \<and> ap_uri_len p' = ap_uri_len p)"
  using assms unat_uri_len [of "length (pp_metadata_uri params)"]
  by (auto simp: update_authority_profile_handler_def authority_profile_wf_def res_simps Let_def
      fill_program_ids_eq copy_uri_length unat_count8 split: if_splits)

theorem profile_wf_kept_witness:
  "\<exists>p'. update_authority_profile_handler
      \<lparr>pp_default_daily_limit = 1, pp_default_lifetime_limit = 2, pp_default_expiry_days = 3,
       pp_default_allowed_program_ids = [20], pp_metadata_uri = [104, 105]\<rparr>
      zero_authority_profile = Inr p' \<and> authority_profile_wf p'"
proof -
  obtain p' where u: "update_authority_profile_handler
      \<lparr>pp_default_daily_limit = 1, pp_default_lifetime_limit = 2, pp_default_expiry_days = 3,
       pp_default_allowed_program_ids = [20], pp_metadata_uri = [104, 105]\<rparr>
      zero_authority_profile = Inr p'"
    by (simp add: update_authority_profile_handler_def Let_def)
  moreover have "authority_profile_wf zero_authority_profile"
    by (simp add: authority_profile_wf_def zero_authority_profile_def)
  ultimately show ?thesis using profile_wf_kept [OF u] by blast
qed

end
