(* ===== verification/Vow_Treasury.thy ===== *)
theory Vow_Treasury
  imports Vow_Session
begin

text \<open>
  Money against \<open>yield_balance\<close> (\<^verbatim>\<open>instructions/treasury/*.rs\<close>): a deposit into it,
  a withdrawal by the owner, and the spending of a session key under its limits.
\<close>

section \<open>Deposit\<close>

definition DepositYieldBalance_accounts ::
    "env \<Rightarrow> tx \<Rightarrow> pubkey \<Rightarrow> pubkey \<Rightarrow> pubkey \<Rightarrow> pubkey \<Rightarrow> pubkey \<Rightarrow> pubkey \<Rightarrow> ledger
       \<Rightarrow> (protocol_config \<times> vow_state) result" where
  "DepositYieldBalance_accounts E X config vow_state reserve depositor system_program
       unstake_escrow s =
     and_then (config_account E X True s config) (\<lambda>c.
     and_then (vow_account E X True s vow_state) (\<lambda>v.
     and_then (reserve_account E X c reserve) (\<lambda>_.
     and_then (signer_account X True depositor) (\<lambda>_.
     and_then (program_account s (en_system_program E) system_program) (\<lambda>_.
     and_then (find_bump E (unstake_seeds vow_state) unstake_escrow) (\<lambda>_.
     Ok (c, v)))))))"

definition deposit_yield_balance_handler ::
    "env \<Rightarrow> pubkey \<Rightarrow> pubkey \<Rightarrow> pubkey \<Rightarrow> u64 \<Rightarrow> protocol_config \<Rightarrow> vow_state \<Rightarrow> ledger
       \<Rightarrow> (protocol_config \<times> vow_state \<times> ledger) result" where
  "deposit_yield_balance_handler E reserve depositor unstake_escrow amount c v s =
     require (0 < amount) (VowErr InsufficientYieldBalance) (
     require (vs_active_stake v) (VowErr IdentityInactive) (
     require (account_data E s unstake_escrow = []) (VowErr AlreadyUnstaking) (
     and_then (transfer depositor reserve amount s) (\<lambda>s.
     Ok (c\<lparr>pc_total_yield_claims := saturating_add (pc_total_yield_claims c) amount\<rparr>,
         v\<lparr>vs_yield_balance := saturating_add (vs_yield_balance v) amount\<rparr>,
         emit (YieldDeposited (vs_asset_id v) depositor amount) s)))))"

definition deposit_yield_balance ::
    "env \<Rightarrow> tx \<Rightarrow> pubkey \<Rightarrow> pubkey \<Rightarrow> pubkey \<Rightarrow> pubkey \<Rightarrow> pubkey \<Rightarrow> pubkey \<Rightarrow> u64 \<Rightarrow> ledger
       \<Rightarrow> ledger result" where
  "deposit_yield_balance E X config vow_state reserve depositor system_program unstake_escrow
       amount s =
     and_then (DepositYieldBalance_accounts E X config vow_state reserve depositor
       system_program unstake_escrow s) (\<lambda>(c, v).
     and_then (deposit_yield_balance_handler E reserve depositor unstake_escrow amount c v s)
       (\<lambda>(c, v, s).
     Ok (store vow_state (VowAcct v) (store config (ConfigAcct c) s))))"

section \<open>Withdraw\<close>

definition WithdrawYield_accounts ::
    "env \<Rightarrow> tx \<Rightarrow> pubkey \<Rightarrow> pubkey \<Rightarrow> pubkey \<Rightarrow> pubkey \<Rightarrow> pubkey \<Rightarrow> ledger
       \<Rightarrow> (protocol_config \<times> vow_state) result" where
  "WithdrawYield_accounts E X config vow_state reserve owner system_program s =
     and_then (config_account E X True s config) (\<lambda>c.
     and_then (vow_account E X True s vow_state) (\<lambda>v.
     require (vs_owner v = owner) (VowErr InvalidOwner) (
     and_then (reserve_account E X c reserve) (\<lambda>_.
     and_then (signer_account X True owner) (\<lambda>_.
     and_then (program_account s (en_system_program E) system_program) (\<lambda>_.
     Ok (c, v)))))))"

definition withdraw_yield_handler ::
    "env \<Rightarrow> pubkey \<Rightarrow> pubkey \<Rightarrow> u64 option \<Rightarrow> protocol_config \<Rightarrow> vow_state \<Rightarrow> ledger
       \<Rightarrow> (protocol_config \<times> vow_state \<times> ledger) result" where
  "withdraw_yield_handler E reserve owner amount c idnft s =
     (let withdraw_amount = unwrap_or amount (vs_yield_balance idnft) in
      require (withdraw_amount \<le> vs_yield_balance idnft) (VowErr InsufficientYieldBalance) (
      require (0 < withdraw_amount) (VowErr InsufficientYieldBalance) (
      require (withdraw_amount \<le> lg_lamports s reserve) (VowErr InsufficientYieldBalance) (
      and_then (sub_ov (vs_yield_balance idnft) withdraw_amount) (\<lambda>balance.
      and_then (transfer_signed E (reserve_seeds @ [[pc_reserve_bump c]]) reserve owner
        withdraw_amount s) (\<lambda>s.
      Ok (c\<lparr>pc_total_yield_claims := saturating_sub (pc_total_yield_claims c) withdraw_amount\<rparr>,
          idnft\<lparr>vs_yield_balance := balance\<rparr>,
          emit (YieldWithdrawn (vs_asset_id idnft) owner withdraw_amount) s)))))))"

definition withdraw_yield ::
    "env \<Rightarrow> tx \<Rightarrow> pubkey \<Rightarrow> pubkey \<Rightarrow> pubkey \<Rightarrow> pubkey \<Rightarrow> pubkey \<Rightarrow> u64 option \<Rightarrow> ledger
       \<Rightarrow> ledger result" where
  "withdraw_yield E X config vow_state reserve owner system_program amount s =
     and_then (WithdrawYield_accounts E X config vow_state reserve owner system_program s)
       (\<lambda>(c, v).
     and_then (withdraw_yield_handler E reserve owner amount c v s) (\<lambda>(c, v, s).
     Ok (store vow_state (VowAcct v) (store config (ConfigAcct c) s))))"

section \<open>Spend by session key\<close>

definition YieldSpend_accounts ::
    "env \<Rightarrow> tx \<Rightarrow> pubkey \<Rightarrow> pubkey \<Rightarrow> pubkey \<Rightarrow> pubkey \<Rightarrow> pubkey option \<Rightarrow> pubkey \<Rightarrow> pubkey
       \<Rightarrow> pubkey \<Rightarrow> pubkey \<Rightarrow> ledger
       \<Rightarrow> (protocol_config \<times> vow_state \<times> session_account \<times> app_registry option) result" where
  "YieldSpend_accounts E X config vow_state session_account calling_program app_registry reserve
       destination session_signer system_program s =
     and_then (config_account E X True s config) (\<lambda>c.
     and_then (vow_account E X True s vow_state) (\<lambda>v.
     and_then (session_of_vow E X s vow_state session_account) (\<lambda>a.
     and_then (case app_registry of
         None \<Rightarrow> Ok None
       | Some k \<Rightarrow>
           and_then (load un_app s k) (\<lambda>r.
           and_then (find_bump E (app_seeds calling_program) k) (\<lambda>_. Ok (Some r)))) (\<lambda>reg.
     and_then (reserve_account E X c reserve) (\<lambda>_.
     require (tx_is_writable X destination) (AnchorErr ConstraintMut) (
     and_then (signer_account X False session_signer) (\<lambda>_.
     and_then (program_account s (en_system_program E) system_program) (\<lambda>_.
     Ok (c, v, a, reg)))))))))"

text \<open>The checks on the session and the calling program, before any counter is read.\<close>

definition session_authorises ::
    "tx \<Rightarrow> pubkey \<Rightarrow> pubkey \<Rightarrow> app_registry option \<Rightarrow> vow_state \<Rightarrow> session_account \<Rightarrow> ledger
       \<Rightarrow> unit result" where
  "session_authorises X session_signer calling_program reg idnft session s =
     require (session_signer = sa_session_key session) (VowErr SessionInactive) (
     require (sa_active session) (VowErr SessionInactive) (
     require (sa_expiry_ts session = 0 \<or>
         sint (tx_unix_timestamp X) < sint (sa_expiry_ts session)) (VowErr SessionExpired) (
     require (sint (vs_sessions_invalidated_at idnft) \<le> sint (sa_start_ts session))
       (VowErr SessionInvalidated) (
     require (vs_active_stake idnft) (VowErr IdentityInactive) (
     require (lg_executable s calling_program) (VowErr ProgramNotAllowed) (
     and_then (if 0 < sa_program_count session then
         require (unat (sa_program_count session) \<le> length (sa_allowed_program_ids session))
           Panicked (
         require (calling_program \<in>
             set (take (unat (sa_program_count session)) (sa_allowed_program_ids session)))
           (VowErr ProgramNotAllowed) (Ok ()))
       else Ok ()) (\<lambda>_.
     case reg of
       None \<Rightarrow> Ok ()
     | Some r \<Rightarrow> require (\<not> ar_blocked r) (VowErr AppBlocked) (Ok ()))))))))"

text \<open>The limits, each enforced when it is not zero, on the counters of the current day.\<close>

definition session_limits_allow :: "session_account \<Rightarrow> u64 \<Rightarrow> unit result" where
  "session_limits_allow session amount =
     require (0 < sa_velocity_limit session \<longrightarrow>
         sa_tx_count_today session < sa_velocity_limit session)
       (VowErr VelocityLimitExceeded) (
     require (0 < sa_daily_limit session \<longrightarrow>
         saturating_add (sa_spent_today session) amount \<le> sa_daily_limit session)
       (VowErr DailyLimitExceeded) (
     require (0 < sa_lifetime_limit session \<longrightarrow>
         saturating_add (sa_spent_total session) amount \<le> sa_lifetime_limit session)
       (VowErr LifetimeLimitExceeded) (
     Ok ())))"

definition yield_spend_handler ::
    "env \<Rightarrow> tx \<Rightarrow> pubkey \<Rightarrow> pubkey \<Rightarrow> pubkey \<Rightarrow> pubkey \<Rightarrow> app_registry option \<Rightarrow> u64
       \<Rightarrow> protocol_config \<Rightarrow> vow_state \<Rightarrow> session_account \<Rightarrow> ledger
       \<Rightarrow> (protocol_config \<times> vow_state \<times> session_account \<times> ledger) result" where
  "yield_spend_handler E X calling_program reserve destination session_signer reg amount c idnft
       session s =
     and_then (session_authorises X session_signer calling_program reg idnft session s) (\<lambda>_.
     let session = reset_daily_if_needed session (tx_unix_timestamp X) in
     and_then (session_limits_allow session amount) (\<lambda>_.
     require (amount \<le> vs_yield_balance idnft) (VowErr InsufficientYieldBalance) (
     require (amount \<le> lg_lamports s reserve) (VowErr InsufficientYieldBalance) (
     and_then (sub_ov (vs_yield_balance idnft) amount) (\<lambda>balance.
     and_then (add_ov (sa_spent_today session) amount) (\<lambda>spent_today.
     and_then (add_ov (sa_spent_total session) amount) (\<lambda>spent_total.
     and_then (add_ov (sa_tx_count_today session) 1) (\<lambda>tx_count.
     and_then (transfer_signed E (reserve_seeds @ [[pc_reserve_bump c]]) reserve destination
       amount s) (\<lambda>s.
     Ok (c\<lparr>pc_total_yield_claims := saturating_sub (pc_total_yield_claims c) amount\<rparr>,
         idnft\<lparr>vs_yield_balance := balance\<rparr>,
         session\<lparr>sa_spent_today := spent_today, sa_spent_total := spent_total,
                 sa_tx_count_today := tx_count\<rparr>,
         emit (YieldSpent (vs_asset_id idnft) (sa_session_key session) calling_program amount
           destination) s))))))))))"

definition yield_spend ::
    "env \<Rightarrow> tx \<Rightarrow> pubkey \<Rightarrow> pubkey \<Rightarrow> pubkey \<Rightarrow> pubkey \<Rightarrow> pubkey option \<Rightarrow> pubkey \<Rightarrow> pubkey
       \<Rightarrow> pubkey \<Rightarrow> pubkey \<Rightarrow> u64 \<Rightarrow> ledger \<Rightarrow> ledger result" where
  "yield_spend E X config vow_state session_account calling_program app_registry reserve
       destination session_signer system_program amount s =
     and_then (YieldSpend_accounts E X config vow_state session_account calling_program
       app_registry reserve destination session_signer system_program s) (\<lambda>(c, v, a, reg).
     and_then (yield_spend_handler E X calling_program reserve destination session_signer reg
       amount c v a s) (\<lambda>(c, v, a, s).
     Ok (store session_account (SessionAcct a)
          (store vow_state (VowAcct v) (store config (ConfigAcct c) s)))))"

section \<open>The instructions are protocol steps\<close>

lemma deposit_yield_balanceE:
  assumes "deposit_yield_balance E X ck vk rk dep sp ek amount s = Inr s'"
  obtains c v b s1 ev where "lg_accts s ck = Some (ConfigAcct c)"
    and "lg_accts s vk = Some (VowAcct v)"
    and "pda_with_bump E reserve_seeds (pc_reserve_bump c) rk" and "tx_is_signer X dep"
    and "en_find_program_address E (unstake_seeds vk) (en_program_id E) = Some (ek, b)"
    and "0 < amount" and "vs_active_stake v" and "account_data E s ek = []"
    and "transfer dep rk amount s = Inr s1"
    and "s' = store vk (VowAcct (v\<lparr>vs_yield_balance := saturating_add (vs_yield_balance v) amount\<rparr>))
          (store ck (ConfigAcct (c\<lparr>pc_total_yield_claims :=
             saturating_add (pc_total_yield_claims c) amount\<rparr>)) (emit ev s1))"
  using assms
  by (simp add: deposit_yield_balance_def DepositYieldBalance_accounts_def
      deposit_yield_balance_handler_def res_simps)
    (clarify, rule that, (assumption | rule refl | erule sym | simp)+)

lemma deposit_yield_balance_step:
  assumes "deposit_yield_balance E X ck vk rk dep sp ek amount s = Inr s'"
  shows "acct_step E (lg_accts s) (lg_accts s')" and "sum_lamports s' = sum_lamports s"
proof -
  from assms obtain c v s1 ev where c: "lg_accts s ck = Some (ConfigAcct c)"
    and v: "lg_accts s vk = Some (VowAcct v)" and t: "transfer dep rk amount s = Inr s1"
    and s': "s' = store vk (VowAcct (v\<lparr>vs_yield_balance := saturating_add (vs_yield_balance v) amount\<rparr>))
          (store ck (ConfigAcct (c\<lparr>pc_total_yield_claims :=
             saturating_add (pc_total_yield_claims c) amount\<rparr>)) (emit ev s1))"
    by (rule deposit_yield_balanceE)
  let ?v = "v\<lparr>vs_yield_balance := saturating_add (vs_yield_balance v) amount\<rparr>"
  let ?c = "c\<lparr>pc_total_yield_claims := saturating_add (pc_total_yield_claims c) amount\<rparr>"
  have "position_moves c v ?c ?v"
    by (rule position_movesI [where b = 0 and n = 0 and out = 0 and y = amount]) simp_all
  moreover have "vow_evolves v ?v"
    by (rule vow_evolvesI) (simp_all add: standing_grows_def tier_ok_def)
  ultimately show "acct_step E (lg_accts s) (lg_accts s')"
    using acct_step.position [OF c v, of ?c ?v E] transfer_frame(1) [OF t]
    by (simp add: s' bumps_kept_def parked_def)
  show "sum_lamports s' = sum_lamports s"
    using transfer_sum_lamports [OF t] by (simp add: s' sum_lamports_def)
qed

lemma withdraw_yieldE:
  assumes "withdraw_yield E X ck vk rk owner sp amount s = Inr s'"
  obtains c v w y s1 ev where "lg_accts s ck = Some (ConfigAcct c)"
    and "lg_accts s vk = Some (VowAcct v)" and "vs_owner v = owner" and "tx_is_signer X owner"
    and "w = unwrap_or amount (vs_yield_balance v)" and "0 < w" and "w \<le> lg_lamports s rk"
    and "unat (vs_yield_balance v) = unat y + unat w"
    and "transfer rk owner w s = Inr s1"
    and "s' = store vk (VowAcct (v\<lparr>vs_yield_balance := y\<rparr>))
          (store ck (ConfigAcct (c\<lparr>pc_total_yield_claims :=
             saturating_sub (pc_total_yield_claims c) w\<rparr>)) (emit ev s1))"
  using assms
  by (simp add: withdraw_yield_def WithdrawYield_accounts_def withdraw_yield_handler_def
      Let_def res_simps)
    (clarify, rule that, (assumption | rule refl | erule sym | simp)+)

text \<open>Paying yield out of a position.\<close>

lemma yield_paid:
  assumes "unat (vs_yield_balance v) = unat y + unat w"
  shows "position_moves c v (c\<lparr>pc_total_yield_claims := saturating_sub (pc_total_yield_claims c) w\<rparr>)
      (v\<lparr>vs_yield_balance := y\<rparr>)"
    and "vow_evolves v (v\<lparr>vs_yield_balance := y\<rparr>)"
proof -
  have le: "w \<le> vs_yield_balance v" using assms by (simp add: word_le_nat_alt)
  then have "vs_yield_balance v - w = y"
    using assms by (simp add: word_unat_eq_iff unat_minus_le)
  with le show "position_moves c v (c\<lparr>pc_total_yield_claims := saturating_sub (pc_total_yield_claims c) w\<rparr>)
      (v\<lparr>vs_yield_balance := y\<rparr>)"
    by (intro position_movesI [where b = 0 and n = 0 and out = w and y = 0]) simp_all
  show "vow_evolves v (v\<lparr>vs_yield_balance := y\<rparr>)"
    by (rule vow_evolvesI) (simp_all add: standing_grows_def tier_ok_def)
qed

lemma withdraw_yield_step:
  assumes "withdraw_yield E X ck vk rk owner sp amount s = Inr s'"
  shows "acct_step E (lg_accts s) (lg_accts s')" and "sum_lamports s' = sum_lamports s"
proof -
  from assms obtain c v w y s1 ev where c: "lg_accts s ck = Some (ConfigAcct c)"
    and v: "lg_accts s vk = Some (VowAcct v)"
    and y: "unat (vs_yield_balance v) = unat y + unat w"
    and t: "transfer rk owner w s = Inr s1"
    and s': "s' = store vk (VowAcct (v\<lparr>vs_yield_balance := y\<rparr>))
          (store ck (ConfigAcct (c\<lparr>pc_total_yield_claims :=
             saturating_sub (pc_total_yield_claims c) w\<rparr>)) (emit ev s1))"
    by (rule withdraw_yieldE)
  show "acct_step E (lg_accts s) (lg_accts s')"
    using acct_step.position [OF c v _ yield_paid [OF y], of E] transfer_frame(1) [OF t]
    by (simp add: s' bumps_kept_def parked_def)
  show "sum_lamports s' = sum_lamports s"
    using transfer_sum_lamports [OF t] by (simp add: s' sum_lamports_def)
qed

lemma yield_spend_handlerE:
  assumes "yield_spend_handler E X cp rk dest signer reg amount c v a s = Inr (c', v', a', s')"
  obtains y td tt n s1 where "session_authorises X signer cp reg v a s = Inr ()"
    and "session_limits_allow (reset_daily_if_needed a (tx_unix_timestamp X)) amount = Inr ()"
    and "amount \<le> lg_lamports s rk"
    and "unat (vs_yield_balance v) = unat y + unat amount"
    and "unat td = unat (sa_spent_today (reset_daily_if_needed a (tx_unix_timestamp X))) + unat amount"
    and "unat tt = unat (sa_spent_total a) + unat amount"
    and "unat n = Suc (unat (sa_tx_count_today (reset_daily_if_needed a (tx_unix_timestamp X))))"
    and "transfer rk dest amount s = Inr s1"
    and "c' = c\<lparr>pc_total_yield_claims := saturating_sub (pc_total_yield_claims c) amount\<rparr>"
    and "v' = v\<lparr>vs_yield_balance := y\<rparr>"
    and "a' = (reset_daily_if_needed a (tx_unix_timestamp X))
           \<lparr>sa_spent_today := td, sa_spent_total := tt, sa_tx_count_today := n\<rparr>"
    and "s' = emit (YieldSpent (vs_asset_id v) (sa_session_key a) cp amount dest) s1"
  using assms
  by (simp add: yield_spend_handler_def Let_def res_simps)
    (elim exE conjE, rule that, (assumption | rule refl | erule sym)+)

lemma session_limits_allow_eq_Ok [res_simps]:
  "session_limits_allow a amount = Inr u \<longleftrightarrow>
     (0 < sa_velocity_limit a \<longrightarrow> sa_tx_count_today a < sa_velocity_limit a) \<and>
     (0 < sa_daily_limit a \<longrightarrow> saturating_add (sa_spent_today a) amount \<le> sa_daily_limit a) \<and>
     (0 < sa_lifetime_limit a \<longrightarrow> saturating_add (sa_spent_total a) amount \<le> sa_lifetime_limit a)"
  by (simp add: session_limits_allow_def res_simps)

text \<open>An exact sum is not above what its saturating sum is not above.\<close>

lemma spent_within:
  assumes "unat z = unat x + unat y" and "saturating_add x y \<le> l"
  shows "z \<le> l"
  using assms unat_less_pow [of z] by (simp add: word_le_nat_alt unat_saturating_add)

lemma spend_within_limits:
  assumes "session_limits_allow a amount = Inr ()"
    and "unat td = unat (sa_spent_today a) + unat amount"
    and "unat tt = unat (sa_spent_total a) + unat amount"
    and "unat n = Suc (unat (sa_tx_count_today a))"
  shows "within_limits (a\<lparr>sa_spent_today := td, sa_spent_total := tt, sa_tx_count_today := n\<rparr>)"
  using assms spent_within [OF assms(2)] spent_within [OF assms(3)]
  by (auto simp: within_limits_def res_simps word_le_nat_alt [of n] word_less_nat_alt)

lemma yield_spendE:
  assumes "yield_spend E X ck vk sk cp ak rk dest signer sp amount s = Inr s'"
  obtains c v a reg c' v' a' s1 where "lg_accts s ck = Some (ConfigAcct c)"
    and "lg_accts s vk = Some (VowAcct v)" and "lg_accts s sk = Some (SessionAcct a)"
    and "sa_vow_state a = vk" and "tx_is_signer X signer"
    and "case ak of None \<Rightarrow> reg = None
         | Some k \<Rightarrow> (\<exists>r b. reg = Some r \<and> lg_accts s k = Some (AppAcct r) \<and>
             en_find_program_address E (app_seeds cp) (en_program_id E) = Some (k, b))"
    and "yield_spend_handler E X cp rk dest signer reg amount c v a s = Inr (c', v', a', s1)"
    and "s' = store sk (SessionAcct a') (store vk (VowAcct v') (store ck (ConfigAcct c') s1))"
proof -
  from assms obtain c v a reg where acc: "YieldSpend_accounts E X ck vk sk cp ak rk dest signer sp s = Inr (c, v, a, reg)"
    and "\<exists>c' v' a' s1. yield_spend_handler E X cp rk dest signer reg amount c v a s = Inr (c', v', a', s1) \<and>
      s' = store sk (SessionAcct a') (store vk (VowAcct v') (store ck (ConfigAcct c') s1))"
    by (auto simp: yield_spend_def and_then_eq_Ok)
  moreover from acc have "lg_accts s ck = Some (ConfigAcct c) \<and> lg_accts s vk = Some (VowAcct v) \<and>
      lg_accts s sk = Some (SessionAcct a) \<and> sa_vow_state a = vk \<and> tx_is_signer X signer \<and>
      (case ak of None \<Rightarrow> reg = None
         | Some k \<Rightarrow> (\<exists>r b. reg = Some r \<and> lg_accts s k = Some (AppAcct r) \<and>
             en_find_program_address E (app_seeds cp) (en_program_id E) = Some (k, b)))"
    by (auto simp: YieldSpend_accounts_def res_simps split: option.splits)
  ultimately show ?thesis using that by blast
qed

lemma yield_spend_step:
  assumes "yield_spend E X ck vk sk cp ak rk dest signer sp amount s = Inr s'"
  shows "acct_step E (lg_accts s) (lg_accts s')" and "sum_lamports s' = sum_lamports s"
proof -
  from assms obtain c v a reg c' v' a' s1 where c: "lg_accts s ck = Some (ConfigAcct c)"
    and v: "lg_accts s vk = Some (VowAcct v)" and a: "lg_accts s sk = Some (SessionAcct a)"
    and vk: "sa_vow_state a = vk"
    and h: "yield_spend_handler E X cp rk dest signer reg amount c v a s = Inr (c', v', a', s1)"
    and s': "s' = store sk (SessionAcct a') (store vk (VowAcct v') (store ck (ConfigAcct c') s1))"
    by (rule yield_spendE)
  let ?r = "reset_daily_if_needed a (tx_unix_timestamp X)"
  from h obtain y td tt n s2 where au: "session_authorises X signer cp reg v a s = Inr ()"
    and l: "session_limits_allow ?r amount = Inr ()"
    and y: "unat (vs_yield_balance v) = unat y + unat amount"
    and td: "unat td = unat (sa_spent_today ?r) + unat amount"
    and tt: "unat tt = unat (sa_spent_total a) + unat amount"
    and n: "unat n = Suc (unat (sa_tx_count_today ?r))"
    and t: "transfer rk dest amount s = Inr s2"
    and c': "c' = c\<lparr>pc_total_yield_claims := saturating_sub (pc_total_yield_claims c) amount\<rparr>"
    and v': "v' = v\<lparr>vs_yield_balance := y\<rparr>"
    and a': "a' = ?r\<lparr>sa_spent_today := td, sa_spent_total := tt, sa_tx_count_today := n\<rparr>"
    and s1: "s1 = emit (YieldSpent (vs_asset_id v) (sa_session_key a) cp amount dest) s2"
    by (rule yield_spend_handlerE)
  have act: "sa_active a" using au by (simp add: session_authorises_def res_simps)
  have "within_limits a'"
    unfolding a' by (rule spend_within_limits [OF l td _ n]) (simp add: tt)
  moreover have "grant_kept a a'"
    by (simp add: a' grant_kept_def reset_daily_if_needed_def Let_def)
  ultimately have "session_spends a a' amount"
    using act tt by (simp add: session_spends_def a')
  then show "acct_step E (lg_accts s) (lg_accts s')"
    using acct_step.spend [OF c v a _ vk, of c' v' amount a' E] yield_paid [OF y] y
      transfer_frame(1) [OF t]
    by (simp add: s' s1 c' v' bumps_kept_def parked_def)
  show "sum_lamports s' = sum_lamports s"
    using transfer_sum_lamports [OF t] by (simp add: s' s1 sum_lamports_def)
qed

section \<open>Spending and withdrawing\<close>

lemma session_authorises_eq_Ok:
  "session_authorises X signer cp reg v a s = Inr () \<longleftrightarrow>
     signer = sa_session_key a \<and> sa_active a \<and>
     (sa_expiry_ts a = 0 \<or> sint (tx_unix_timestamp X) < sint (sa_expiry_ts a)) \<and>
     sint (vs_sessions_invalidated_at v) \<le> sint (sa_start_ts a) \<and> vs_active_stake v \<and>
     lg_executable s cp \<and>
     (0 < sa_program_count a \<longrightarrow>
        unat (sa_program_count a) \<le> length (sa_allowed_program_ids a) \<and>
        cp \<in> set (take (unat (sa_program_count a)) (sa_allowed_program_ids a))) \<and>
     (\<forall>r. reg = Some r \<longrightarrow> \<not> ar_blocked r)"
  by (auto simp: session_authorises_def res_simps split: option.splits)

text \<open>
  C17: what a successful spend by session key required and did. The signer is the session's
  key, the session is active, unexpired and not invalidated, the identity is staked, the
  calling program is executable and on a non-empty list, and a registry entry that was
  passed does not block it; the amount came out of the yield balance and the reserve,
  reached the destination, and was recorded within all three limits.
\<close>

theorem yield_spend_authorised:
  assumes "yield_spend E X ck vk sk cp ak rk dest signer sp amount s = Inr s'"
    and "rk \<noteq> dest"
  shows "\<exists>c v a v' a'. lg_accts s ck = Some (ConfigAcct c) \<and>
    lg_accts s vk = Some (VowAcct v) \<and> lg_accts s sk = Some (SessionAcct a) \<and>
    lg_accts s' vk = Some (VowAcct v') \<and> lg_accts s' sk = Some (SessionAcct a') \<and>
    sa_vow_state a = vk \<and> tx_is_signer X (sa_session_key a) \<and> signer = sa_session_key a \<and>
    sa_active a \<and>
    (sa_expiry_ts a = 0 \<or> sint (tx_unix_timestamp X) < sint (sa_expiry_ts a)) \<and>
    sint (vs_sessions_invalidated_at v) \<le> sint (sa_start_ts a) \<and> vs_active_stake v \<and>
    lg_executable s cp \<and>
    (0 < sa_program_count a \<longrightarrow>
       cp \<in> set (take (unat (sa_program_count a)) (sa_allowed_program_ids a))) \<and>
    (\<forall>k r. ak = Some k \<longrightarrow> lg_accts s k = Some (AppAcct r) \<longrightarrow> \<not> ar_blocked r) \<and>
    unat (vs_yield_balance v) = unat (vs_yield_balance v') + unat amount \<and>
    unat (lg_lamports s rk) = unat (lg_lamports s' rk) + unat amount \<and>
    unat (lg_lamports s' dest) = unat (lg_lamports s dest) + unat amount \<and>
    unat (sa_spent_total a') = unat (sa_spent_total a) + unat amount \<and> within_limits a'"
proof -
  from assms(1) obtain c v a reg c' v' a' s1 where c: "lg_accts s ck = Some (ConfigAcct c)"
    and v: "lg_accts s vk = Some (VowAcct v)" and a: "lg_accts s sk = Some (SessionAcct a)"
    and vk: "sa_vow_state a = vk" and sg: "tx_is_signer X signer"
    and reg: "case ak of None \<Rightarrow> reg = None
         | Some k \<Rightarrow> (\<exists>r b. reg = Some r \<and> lg_accts s k = Some (AppAcct r) \<and>
             en_find_program_address E (app_seeds cp) (en_program_id E) = Some (k, b))"
    and h: "yield_spend_handler E X cp rk dest signer reg amount c v a s = Inr (c', v', a', s1)"
    and s': "s' = store sk (SessionAcct a') (store vk (VowAcct v') (store ck (ConfigAcct c') s1))"
    by (rule yield_spendE)
  let ?r = "reset_daily_if_needed a (tx_unix_timestamp X)"
  from h obtain y td tt n s2 where au: "session_authorises X signer cp reg v a s = Inr ()"
    and l: "session_limits_allow ?r amount = Inr ()"
    and y: "unat (vs_yield_balance v) = unat y + unat amount"
    and td: "unat td = unat (sa_spent_today ?r) + unat amount"
    and tt: "unat tt = unat (sa_spent_total a) + unat amount"
    and n: "unat n = Suc (unat (sa_tx_count_today ?r))"
    and t: "transfer rk dest amount s = Inr s2"
    and v': "v' = v\<lparr>vs_yield_balance := y\<rparr>"
    and a': "a' = ?r\<lparr>sa_spent_today := td, sa_spent_total := tt, sa_tx_count_today := n\<rparr>"
    and s1: "s1 = emit (YieldSpent (vs_asset_id v) (sa_session_key a) cp amount dest) s2"
    by (rule yield_spend_handlerE)
  have w: "within_limits a'"
    unfolding a' by (rule spend_within_limits [OF l td _ n]) (simp add: tt)
  have "\<forall>k r. ak = Some k \<longrightarrow> lg_accts s k = Some (AppAcct r) \<longrightarrow> \<not> ar_blocked r"
    using reg au by (auto simp: session_authorises_eq_Ok)
  moreover have "sk \<noteq> vk" using v a by auto
  ultimately show ?thesis
    using c v a vk sg au transfer_pays [OF t assms(2)] y tt w
    by (intro exI [of _ c] exI [of _ v] exI [of _ a] exI [of _ v'] exI [of _ a'])
      (simp add: s' s1 v' a' session_authorises_eq_Ok)
qed

lemmas demo_spending =
  yield_spend_def YieldSpend_accounts_def yield_spend_handler_def session_of_vow_def
  session_authorises_def reset_daily_if_needed_def session_limits_allow_def

theorem yield_spend_authorised_witness:
  "\<exists>s'. yield_spend demo_env demo_tx 1 6 8 20 None 2 22 21 3 300000000 demo_live = Inr s' \<and>
     unat (lg_lamports s' 22) = 300000000"
proof -
  obtain s' where y: "yield_spend demo_env demo_tx 1 6 8 20 None 2 22 21 3 300000000 demo_live =
      Inr s'" by (simp add: demo_exec demo_spending)
  from yield_spend_authorised [OF this] have "unat (lg_lamports s' 22) =
      unat (lg_lamports demo_live 22) + unat (300000000 :: u64)" by auto
  with y show ?thesis by (simp add: demo_live_def)
qed

text \<open>
  A session that is revoked, expired, or older than the last invalidation spends
  nothing, whatever else the transaction contains; nor does any session of a dormant
  identity.
\<close>

theorem dead_session_cannot_spend:
  assumes "lg_accts s vk = Some (VowAcct v)" and "lg_accts s sk = Some (SessionAcct a)"
    and "\<not> sa_active a \<or> \<not> vs_active_stake v \<or>
      (sa_expiry_ts a \<noteq> 0 \<and> sint (sa_expiry_ts a) \<le> sint (tx_unix_timestamp X)) \<or>
      sint (sa_start_ts a) < sint (vs_sessions_invalidated_at v)"
  shows "\<exists>e. yield_spend E X ck vk sk cp ak rk dest signer sp amount s = Inl e"
proof (cases "yield_spend E X ck vk sk cp ak rk dest signer sp amount s")
  case (Inr s')
  then obtain v1 a1 reg c c' v' a' s1 where "lg_accts s vk = Some (VowAcct v1)"
    and "lg_accts s sk = Some (SessionAcct a1)"
    and h: "yield_spend_handler E X cp rk dest signer reg amount c v1 a1 s = Inr (c', v', a', s1)"
    by (rule yield_spendE)
  with assms(1,2) have "v1 = v" "a1 = a" by simp_all
  with h have "session_authorises X signer cp reg v a s = Inr ()"
    by (auto elim!: yield_spend_handlerE)
  with assms(3) show ?thesis by (auto simp: session_authorises_eq_Ok)
qed simp

theorem dead_session_cannot_spend_witness:
  "\<exists>e. yield_spend demo_env (demo_tx\<lparr>tx_unix_timestamp := 1800000000\<rparr>) 1 6 8 20 None 2 22 21 3 1
     demo_live = Inl e"
  by (rule dead_session_cannot_spend [of _ _ demo_vow _ demo_session]) (simp_all add: demo_data demo_tx_def)

text \<open>
  The owner withdraws yield, all of it by default: the amount is positive, within the
  yield balance and the reserve, reaches the owner, and leaves both books.
\<close>

theorem withdraw_yield_effect:
  assumes "withdraw_yield E X ck vk rk owner sp amount s = Inr s'" and "rk \<noteq> owner"
  shows "\<exists>v v' w. lg_accts s vk = Some (VowAcct v) \<and> lg_accts s' vk = Some (VowAcct v') \<and>
    vs_owner v = owner \<and> tx_is_signer X owner \<and> w = unwrap_or amount (vs_yield_balance v) \<and>
    0 < unat w \<and> unat (vs_yield_balance v) = unat (vs_yield_balance v') + unat w \<and>
    v' = v\<lparr>vs_yield_balance := vs_yield_balance v'\<rparr> \<and>
    unat (lg_lamports s rk) = unat (lg_lamports s' rk) + unat w \<and>
    unat (lg_lamports s' owner) = unat (lg_lamports s owner) + unat w"
  using assms(1)
proof (rule withdraw_yieldE)
  fix c v w y s1 ev
  assume "lg_accts s vk = Some (VowAcct v)" "vs_owner v = owner" "tx_is_signer X owner"
    "w = unwrap_or amount (vs_yield_balance v)" "0 < w"
    "unat (vs_yield_balance v) = unat y + unat w"
    and t: "transfer rk owner w s = Inr s1"
    and "s' = store vk (VowAcct (v\<lparr>vs_yield_balance := y\<rparr>))
          (store ck (ConfigAcct (c\<lparr>pc_total_yield_claims :=
             saturating_sub (pc_total_yield_claims c) w\<rparr>)) (emit ev s1))"
  with transfer_pays [OF t assms(2)] show ?thesis
    by (intro exI [of _ v] exI [of _ "v\<lparr>vs_yield_balance := y\<rparr>"] exI [of _ w])
      (simp add: word_less_nat_alt)
qed

lemmas demo_withdrawing =
  withdraw_yield_def WithdrawYield_accounts_def withdraw_yield_handler_def

theorem withdraw_yield_effect_witness:
  "\<exists>s'. withdraw_yield demo_env demo_tx 1 6 2 4 3 None demo_live = Inr s' \<and>
     unat (lg_lamports s' 4) = 1001000000000"
proof -
  obtain s' where w: "withdraw_yield demo_env demo_tx 1 6 2 4 3 None demo_live = Inr s'"
    by (simp add: demo_exec demo_withdrawing)
  from withdraw_yield_effect [OF this] have "unat (lg_lamports s' 4) =
      unat (lg_lamports demo_live 4) + unat (vs_yield_balance demo_vow)"
    by (auto simp: demo_live_def)
  with w show ?thesis by (simp add: demo_data)
qed

text \<open>
  No deposit while an unstake is pending: with an escrow at the identity's escrow
  address, a deposit fails, so nothing is added that the escrow does not owe.
\<close>

theorem no_deposit_while_unstaking:
  assumes "lg_accts s ek = Some (EscrowAcct e)"
  shows "\<exists>err. deposit_yield_balance E X ck vk rk dep sp ek amount s = Inl err"
proof (cases "deposit_yield_balance E X ck vk rk dep sp ek amount s")
  case (Inr s')
  then have "account_data E s ek = []" by (rule deposit_yield_balanceE)
  with assms show ?thesis by (simp add: account_data_def enc_unstake_escrow_def)
qed simp

theorem no_deposit_while_unstaking_witness:
  "\<exists>err. deposit_yield_balance demo_env demo_tx 1 6 2 4 3 7 5
     (store 7 (EscrowAcct demo_escrow) demo_live) = Inl err"
  by (rule no_deposit_while_unstaking) (simp add: demo_data)

end
