(* ===== verification/Vow_Pool.thy ===== *)
theory Vow_Pool
  imports Vow_Demo
begin

text \<open>
  The cranks against the external stake pool (\<^verbatim>\<open>instructions/pool/*.rs\<close>): reading the
  share price from the pool account's bytes, depositing the idle reserve, and redeeming
  pool tokens for a pending unstake. The stake pool program itself is the parameter
  \<open>en_invoke_signed\<close>; the model builds the very instruction the code passes to it.
\<close>

section \<open>The pool account's layout\<close>

definition pool_reserve_stake_key :: "byte list \<Rightarrow> pubkey" where
  "pool_reserve_stake_key data = pubkey_of_bytes (slice 131 163 data)"

definition pool_manager_fee_key :: "byte list \<Rightarrow> pubkey" where
  "pool_manager_fee_key data = pubkey_of_bytes (slice 195 227 data)"

definition pool_total_lamports :: "byte list \<Rightarrow> u64" where
  "pool_total_lamports data = u64_from_le_bytes (slice 259 267 data)"

definition pool_token_supply :: "byte list \<Rightarrow> u64" where
  "pool_token_supply data = u64_from_le_bytes (slice 267 275 data)"

section \<open>Share price\<close>

definition UpdateSharePrice_accounts ::
    "env \<Rightarrow> tx \<Rightarrow> pubkey \<Rightarrow> pubkey \<Rightarrow> ledger \<Rightarrow> protocol_config result" where
  "UpdateSharePrice_accounts E X config spl_pool s =
     and_then (config_account E X True s config) (\<lambda>c.
     require (spl_pool = pc_spl_stake_pool c) (VowErr StakeAccountMismatch) (
     Ok c))"

definition pool_share_price :: "u64 \<Rightarrow> u64 \<Rightarrow> u128 result" where
  "pool_share_price total_lamports token_supply =
     and_then (ok_or (checked_mul (u64_as_u128 total_lamports) SHARE_PRECISION)
       (VowErr SharePriceOverflow)) (\<lambda>m.
     Ok (max (unwrap_or (checked_div m (u64_as_u128 token_supply)) 1) 1))"

definition update_share_price_handler ::
    "byte list \<Rightarrow> protocol_config \<Rightarrow> ledger \<Rightarrow> (protocol_config \<times> ledger) result" where
  "update_share_price_handler data config s =
     (if pc_spl_stake_pool config = default_pubkey then Ok (config, s) else
      require (275 \<le> length data) (VowErr InvalidStakeAccount) (
      let total_lamports = pool_total_lamports data;
          token_supply = pool_token_supply data;
          old_price = pc_current_share_price config in
      and_then (if 0 < token_supply
          then and_then (pool_share_price total_lamports token_supply) (\<lambda>new_price.
            Ok (config\<lparr>pc_current_share_price := new_price\<rparr>))
          else Ok config) (\<lambda>config.
      let config = config\<lparr>pc_last_pool_lamports := total_lamports\<rparr> in
      Ok (config, emit (SharePriceUpdated old_price (pc_current_share_price config)
            total_lamports (pc_total_shares config)) s))))"

definition update_share_price :: "env \<Rightarrow> tx \<Rightarrow> pubkey \<Rightarrow> pubkey \<Rightarrow> ledger \<Rightarrow> ledger result" where
  "update_share_price E X config spl_pool s =
     and_then (UpdateSharePrice_accounts E X config spl_pool s) (\<lambda>c.
     and_then (update_share_price_handler (account_data E s spl_pool) c s) (\<lambda>(c, s).
     Ok (store config (ConfigAcct c) s)))"

section \<open>Flush the reserve\<close>

record pool_keys =
  pk_reserve_pool_tokens :: pubkey
  pk_spl_pool :: pubkey
  pk_withdraw_authority :: pubkey
  pk_reserve_stake :: pubkey
  pk_manager_fee :: pubkey
  pk_referral_fee :: pubkey \<comment> \<open>used by the deposit only\<close>
  pk_pool_mint :: pubkey
  pk_token_program :: pubkey
  pk_stake_pool_program :: pubkey

text \<open>The reserve's pool-token account, the pool and its mint, as both structs check them.\<close>

definition pool_accounts ::
    "env \<Rightarrow> tx \<Rightarrow> protocol_config \<Rightarrow> pubkey \<Rightarrow> pool_keys \<Rightarrow> ledger \<Rightarrow> token_account result" where
  "pool_accounts E X c reserve K s =
     and_then (load un_token s (pk_reserve_pool_tokens K)) (\<lambda>t.
     require (tx_is_writable X (pk_reserve_pool_tokens K)) (AnchorErr ConstraintMut) (
     require (ta_mint t = pk_pool_mint K) (AnchorErr ConstraintTokenMint) (
     require (ta_authority t = reserve) (AnchorErr ConstraintTokenOwner) (
     require (tx_is_writable X (pk_spl_pool K)) (AnchorErr ConstraintMut) (
     require (pk_spl_pool K = pc_spl_stake_pool c) (VowErr StakeAccountMismatch) (
     require (tx_is_writable X (pk_reserve_stake K) \<and> tx_is_writable X (pk_manager_fee K))
       (AnchorErr ConstraintMut) (
     and_then (load un_mint s (pk_pool_mint K)) (\<lambda>_.
     require (tx_is_writable X (pk_pool_mint K)) (AnchorErr ConstraintMut) (
     require (pk_pool_mint K = pc_spl_pool_mint c) (VowErr StakeAccountMismatch) (
     and_then (program_account s (en_token_program E) (pk_token_program K)) (\<lambda>_.
     Ok t)))))))))))"

definition FlushReserveToPool_accounts ::
    "env \<Rightarrow> tx \<Rightarrow> pubkey \<Rightarrow> pubkey \<Rightarrow> pool_keys \<Rightarrow> pubkey \<Rightarrow> ledger \<Rightarrow> protocol_config result" where
  "FlushReserveToPool_accounts E X config reserve K system_program s =
     and_then (config_account E X False s config) (\<lambda>c.
     and_then (reserve_account E X c reserve) (\<lambda>_.
     and_then (pool_accounts E X c reserve K s) (\<lambda>_.
     require (tx_is_writable X (pk_withdraw_authority K) \<and> tx_is_writable X (pk_referral_fee K))
       (AnchorErr ConstraintMut) (
     and_then (program_account s (en_system_program E) system_program) (\<lambda>_.
     Ok c)))))"

text \<open>The stake pool program, and the accounts it will use, against the pool's own data.\<close>

definition check_pool_keys :: "env \<Rightarrow> byte list \<Rightarrow> nat \<Rightarrow> pool_keys \<Rightarrow> pubkey result" where
  "check_pool_keys E data min_len K =
     and_then (ok_or (en_pubkey_try_from E SPL_STAKE_POOL_PROGRAM_ID)
       (VowErr StakeAccountMismatch)) (\<lambda>stake_pool_program_id.
     require (pk_stake_pool_program K = stake_pool_program_id) (VowErr StakeAccountMismatch) (
     require (min_len \<le> length data) (VowErr InvalidStakeAccount) (
     require (pk_reserve_stake K = pool_reserve_stake_key data) (VowErr StakeAccountMismatch) (
     require (pk_manager_fee K = pool_manager_fee_key data) (VowErr StakeAccountMismatch) (
     and_then (ok_or (en_find_program_address E
         [pubkey_bytes (pk_spl_pool K), ascii_bytes ''withdraw''] stake_pool_program_id) Panicked)
       (\<lambda>(expected_withdraw_authority, _).
     require (pk_withdraw_authority K = expected_withdraw_authority)
       (VowErr StakeAccountMismatch) (
     Ok stake_pool_program_id)))))))"

definition deposit_sol_instruction ::
    "env \<Rightarrow> pubkey \<Rightarrow> pubkey \<Rightarrow> pool_keys \<Rightarrow> u64 \<Rightarrow> cpi_instruction" where
  "deposit_sol_instruction E program reserve K deposit_amount =
     \<lparr>ix_program_id = program,
      ix_accounts =
        [(pk_spl_pool K, False, True), (pk_withdraw_authority K, False, False),
         (pk_reserve_stake K, False, True), (reserve, True, True),
         (pk_reserve_pool_tokens K, False, True), (pk_manager_fee K, False, True),
         (pk_referral_fee K, False, True), (pk_pool_mint K, False, True),
         (en_system_program E, False, False), (pk_token_program K, False, False)],
      ix_data = 14 # u64_to_le_bytes deposit_amount\<rparr>"

definition flush_reserve_handler ::
    "env \<Rightarrow> byte list \<Rightarrow> pubkey \<Rightarrow> pool_keys \<Rightarrow> protocol_config \<Rightarrow> ledger \<Rightarrow> ledger result" where
  "flush_reserve_handler E data reserve K config s =
     (if pc_spl_stake_pool config = default_pubkey then Ok s else
      and_then (check_pool_keys E data 227 K) (\<lambda>stake_pool_program_id.
      let reserve_lamports = lg_lamports s reserve;
          rent_exempt = en_minimum_balance E 0 in
      if reserve_lamports \<le> rent_exempt then Ok s else
      and_then (sub_ov reserve_lamports rent_exempt) (\<lambda>deposit_amount.
      en_invoke_signed E
        (deposit_sol_instruction E stake_pool_program_id reserve K deposit_amount)
        (reserve_seeds @ [[pc_reserve_bump config]]) s)))"

definition flush_reserve_to_pool ::
    "env \<Rightarrow> tx \<Rightarrow> pubkey \<Rightarrow> pubkey \<Rightarrow> pool_keys \<Rightarrow> pubkey \<Rightarrow> ledger \<Rightarrow> ledger result" where
  "flush_reserve_to_pool E X config reserve K system_program s =
     and_then (FlushReserveToPool_accounts E X config reserve K system_program s) (\<lambda>c.
     flush_reserve_handler E (account_data E s (pk_spl_pool K)) reserve K c s)"

section \<open>Withdraw from the pool\<close>

definition WithdrawFromPool_accounts ::
    "env \<Rightarrow> tx \<Rightarrow> pubkey \<Rightarrow> pubkey \<Rightarrow> pubkey \<Rightarrow> pool_keys \<Rightarrow> pubkey \<Rightarrow> pubkey \<Rightarrow> pubkey \<Rightarrow> ledger
       \<Rightarrow> (protocol_config \<times> unstake_escrow \<times> token_account) result" where
  "WithdrawFromPool_accounts E X config reserve unstake_escrow K clock stake_history
       stake_program s =
     and_then (config_account E X False s config) (\<lambda>c.
     and_then (reserve_account E X c reserve) (\<lambda>_.
     and_then (load un_escrow s unstake_escrow) (\<lambda>e.
     require (pda_with_bump E (unstake_seeds (ue_vow_state e)) (ue_bump e) unstake_escrow)
       (AnchorErr ConstraintSeeds) (
     and_then (pool_accounts E X c reserve K s) (\<lambda>t.
     require (clock = en_sysvar_clock E \<and> stake_history = en_sysvar_stake_history E \<and>
         stake_program = en_stake_program E) (AnchorErr ConstraintAddress) (
     Ok (c, e, t)))))))"

text \<open>
  Ceiling division: the tokens whose value at the pool's rate covers the lamports, cast
  down to 64 bits and capped by the tokens the reserve holds.
\<close>

definition tokens_to_burn :: "u64 \<Rightarrow> u64 \<Rightarrow> u64 \<Rightarrow> u64 result" where
  "tokens_to_burn lamports_needed token_supply total_lamports =
     and_then (ok_or (checked_mul (u64_as_u128 lamports_needed) (u64_as_u128 token_supply))
       (VowErr MathOverflow)) (\<lambda>m.
     and_then (ok_or (checked_add m (saturating_sub (u64_as_u128 total_lamports) 1))
       (VowErr MathOverflow)) (\<lambda>a.
     and_then (ok_or (checked_div a (u64_as_u128 total_lamports)) (VowErr MathOverflow)) (\<lambda>q.
     Ok (u128_as_u64 q))))"

definition withdraw_sol_instruction ::
    "pubkey \<Rightarrow> pubkey \<Rightarrow> pool_keys \<Rightarrow> pubkey \<Rightarrow> pubkey \<Rightarrow> pubkey \<Rightarrow> u64 \<Rightarrow> cpi_instruction" where
  "withdraw_sol_instruction program reserve K clock stake_history stake_program tokens =
     \<lparr>ix_program_id = program,
      ix_accounts =
        [(pk_spl_pool K, False, True), (pk_withdraw_authority K, False, False),
         (reserve, True, False), (pk_reserve_pool_tokens K, False, True),
         (pk_reserve_stake K, False, True), (reserve, False, True),
         (pk_manager_fee K, False, True), (pk_pool_mint K, False, True),
         (clock, False, False), (stake_history, False, False),
         (stake_program, False, False), (pk_token_program K, False, False)],
      ix_data = 16 # u64_to_le_bytes tokens\<rparr>"

definition withdraw_from_pool_handler ::
    "env \<Rightarrow> byte list \<Rightarrow> pubkey \<Rightarrow> pool_keys \<Rightarrow> pubkey \<Rightarrow> pubkey \<Rightarrow> pubkey \<Rightarrow> protocol_config
       \<Rightarrow> unstake_escrow \<Rightarrow> token_account \<Rightarrow> ledger \<Rightarrow> ledger result" where
  "withdraw_from_pool_handler E data reserve K clock stake_history stake_program config escrow
       tokens s =
     (if pc_spl_stake_pool config = default_pubkey then Ok s else
      let reserve_lamports = lg_lamports s reserve;
          lamports_owed = ue_lamports_owed escrow in
      require (reserve_lamports < lamports_owed) (VowErr ReserveSufficient) (
      and_then (sub_ov lamports_owed reserve_lamports) (\<lambda>lamports_needed.
      and_then (check_pool_keys E data 275 K) (\<lambda>stake_pool_program_id.
      let total_lamports = pool_total_lamports data;
          token_supply = pool_token_supply data in
      require (0 < token_supply \<and> 0 < total_lamports) (VowErr EmptyReserve) (
      and_then (tokens_to_burn lamports_needed token_supply total_lamports) (\<lambda>burn.
      let burn = min burn (ta_amount tokens) in
      require (0 < burn) (VowErr EmptyReserve) (
      en_invoke_signed E
        (withdraw_sol_instruction stake_pool_program_id reserve K clock stake_history
          stake_program burn)
        (reserve_seeds @ [[pc_reserve_bump config]]) s)))))))"

definition withdraw_from_pool ::
    "env \<Rightarrow> tx \<Rightarrow> pubkey \<Rightarrow> pubkey \<Rightarrow> pubkey \<Rightarrow> pool_keys \<Rightarrow> pubkey \<Rightarrow> pubkey \<Rightarrow> pubkey \<Rightarrow> ledger
       \<Rightarrow> ledger result" where
  "withdraw_from_pool E X config reserve unstake_escrow K clock stake_history stake_program s =
     and_then (WithdrawFromPool_accounts E X config reserve unstake_escrow K clock stake_history
       stake_program s) (\<lambda>(c, e, t).
     withdraw_from_pool_handler E (account_data E s (pk_spl_pool K)) reserve K clock
       stake_history stake_program c e t s)"

section \<open>The instructions are protocol steps\<close>

lemma update_share_price_step:
  assumes "update_share_price E X ck pk s = Inr s'"
  shows "acct_step E (lg_accts s) (lg_accts s')" and "lg_lamports s' = lg_lamports s"
proof -
  from assms obtain c c' s1 where c: "lg_accts s ck = Some (ConfigAcct c)"
    and h: "update_share_price_handler (account_data E s pk) c s = Inr (c', s1)"
    and s': "s' = store ck (ConfigAcct c') s1"
    by (auto simp: update_share_price_def UpdateSharePrice_accounts_def res_simps)
  from h have "totals_kept c c'" "bumps_kept c c'" "lg_accts s1 = lg_accts s" "lg_lamports s1 = lg_lamports s"
    by (auto simp: update_share_price_handler_def Let_def res_simps totals_kept_def bumps_kept_def
        split: if_splits)
  then show "acct_step E (lg_accts s) (lg_accts s')" and "lg_lamports s' = lg_lamports s"
    using acct_step.tune_config [of "lg_accts s" ck c c' E] c by (simp_all add: s')
qed

text \<open>The stake pool program writes none of this program's accounts.\<close>

definition cpi_frame :: "env \<Rightarrow> bool" where
  "cpi_frame E \<longleftrightarrow>
     (\<forall>ix seeds s s'. en_invoke_signed E ix seeds s = Ok s' \<longrightarrow>
        (\<forall>k. lg_accts s' k \<noteq> lg_accts s k \<longrightarrow>
           \<not> program_owned (lg_accts s k) \<and> \<not> program_owned (lg_accts s' k)))"

lemma cpi_step:
  assumes "cpi_frame E" and "en_invoke_signed E ix seeds s = Inr s'"
  shows "acct_step E (lg_accts s) (lg_accts s')"
proof (rule acct_step.peripheral)
  fix k
  assume "lg_accts s' k \<noteq> lg_accts s k"
  with assms have "\<not> program_owned (lg_accts s k)" "\<not> program_owned (lg_accts s' k)"
    unfolding cpi_frame_def by blast+
  then show "\<not> core (lg_accts s k) \<and> \<not> core (lg_accts s' k) \<and> \<not> is_gate (lg_accts s k)"
    using core_owned gate_owned by blast
qed

lemma flush_reserve_to_pool_step:
  assumes "cpi_frame E" and "flush_reserve_to_pool E X ck rk K sp s = Inr s'"
  shows "acct_step E (lg_accts s) (lg_accts s')"
  using assms(2)
  by (auto simp: flush_reserve_to_pool_def flush_reserve_handler_def res_simps Let_def
      intro: stutter cpi_step [OF assms(1)] split: if_splits)

lemma withdraw_from_pool_step:
  assumes "cpi_frame E" and "withdraw_from_pool E X ck rk ek K clk sh stp s = Inr s'"
  shows "acct_step E (lg_accts s) (lg_accts s')"
  using assms(2)
  by (auto simp: withdraw_from_pool_def withdraw_from_pool_handler_def res_simps Let_def
      intro: stutter cpi_step [OF assms(1)] split: if_splits)

lemma demo_cpi_frame: "cpi_frame demo_env"
  by (auto simp: cpi_frame_def demo_env_def)

section \<open>Reading the pool, depositing and redeeming\<close>

lemma pool_share_price_eq:
  assumes "0 < pool_supply"
  shows "\<exists>p. pool_share_price lamports pool_supply = Inr p \<and>
    unat p = max 1 (unat lamports * 10 ^ 12 div unat pool_supply)"
proof -
  have "unat lamports * 10 ^ 12 < 2 ^ 64 * 10 ^ 12"
    using unat_u64_bound [of lamports] by simp
  then have m: "checked_mul (u64_as_u128 lamports) SHARE_PRECISION =
      Some (u64_as_u128 lamports * SHARE_PRECISION)"
    by (simp add: checked_mul_def SHARE_PRECISION_def)
  then have u: "unat (u64_as_u128 lamports * SHARE_PRECISION) = unat lamports * 10 ^ 12"
    by (simp add: checked_mul_eq_Some SHARE_PRECISION_def)
  have nz: "u64_as_u128 pool_supply \<noteq> 0"
    using assms by (simp add: word_unat_eq_iff word_less_nat_alt)
  let ?q = "u64_as_u128 lamports * SHARE_PRECISION div u64_as_u128 pool_supply"
  have "unat ?q = unat lamports * 10 ^ 12 div unat pool_supply" by (simp add: unat_div u)
  then have "unat (max ?q 1) = max 1 (unat lamports * 10 ^ 12 div unat pool_supply)"
    by (auto simp: max_def word_le_nat_alt)
  then show ?thesis using m nz by (simp add: pool_share_price_def checked_div_def)
qed

text \<open>
  The crank reads the share price off a configured pool. It fails on short data only;
  otherwise the new price is lamports over tokens, scaled and rounded down but never below 1,
  the old price where the pool has no tokens, and nothing else of the configuration changes
  but the pool's lamports.
\<close>

theorem share_price_tracks_pool:
  assumes "pc_spl_stake_pool c \<noteq> default_pubkey"
  shows "if length data < 275 then update_share_price_handler data c s = Inl (VowErr InvalidStakeAccount)
    else \<exists>p s'. update_share_price_handler data c s =
        Inr (c\<lparr>pc_current_share_price := p, pc_last_pool_lamports := pool_total_lamports data\<rparr>, s') \<and>
      lg_accts s' = lg_accts s \<and> lg_lamports s' = lg_lamports s \<and>
      (if pool_token_supply data = 0 then p = pc_current_share_price c
       else unat p = max 1 (unat (pool_total_lamports data) * 10 ^ 12 div unat (pool_token_supply data)))"
proof (cases "pool_token_supply data = 0")
  case True
  then show ?thesis using assms by (simp add: update_share_price_handler_def Let_def)
next
  case False
  then have "0 < pool_token_supply data" by (simp add: word_gt_0)
  from pool_share_price_eq [OF this, of "pool_total_lamports data"] False this assms show ?thesis
    by (auto simp: update_share_price_handler_def Let_def)
qed

theorem share_price_tracks_pool_witness:
  "\<exists>p s'. update_share_price_handler (replicate 259 0 @ u64_to_le_bytes 3000 @ u64_to_le_bytes 2000)
      (demo_config\<lparr>pc_spl_stake_pool := 40\<rparr>) demo_live =
      Inr (demo_config\<lparr>pc_spl_stake_pool := 40, pc_current_share_price := p,
        pc_last_pool_lamports := 3000\<rparr>, s') \<and> unat p = 1500000000000"
proof -
  let ?d = "replicate 259 0 @ u64_to_le_bytes 3000 @ u64_to_le_bytes 2000"
  have "pool_total_lamports ?d = 3000" "pool_token_supply ?d = 2000"
    by (simp_all add: pool_total_lamports_def pool_token_supply_def slice_def u64_le.dec_enc)
  then show ?thesis
    using share_price_tracks_pool [of "demo_config\<lparr>pc_spl_stake_pool := 40\<rparr>" ?d demo_live] by auto
qed

text \<open>
  The tokens redeemed for a missing amount are the least number whose value at the pool's
  rate covers it, as long as that number fits in 64 bits.
\<close>

theorem tokens_to_burn_least:
  assumes "0 < pool_lamports" and "unat need * unat pool_supply \<le> (2 ^ 64 - 1) * unat pool_lamports"
  shows "\<exists>t. tokens_to_burn need pool_supply pool_lamports = Inr t \<and>
    unat need * unat pool_supply \<le> unat t * unat pool_lamports \<and>
    (\<forall>t'. unat need * unat pool_supply \<le> t' * unat pool_lamports \<longrightarrow> unat t \<le> t')"
proof -
  define n where "n = unat need * unat pool_supply"
  define d where "d = unat pool_lamports"
  have d: "0 < d" using assms(1) by (simp add: d_def word_less_nat_alt)
  have nb: "n \<le> (2 ^ 64 - 1) * (2 ^ 64 - 1)"
    unfolding n_def by (rule mult_le_mono) (use unat_u64_bound [of need] unat_u64_bound [of pool_supply] in simp_all)
  have db: "d < 2 ^ 64" using unat_u64_bound [of pool_lamports] by (simp add: d_def)
  have "\<exists>m :: u128. unat m = n" by (rule ex_unat) (use nb in simp)
  then obtain m :: u128 where m: "unat m = n" ..
  have "\<exists>a :: u128. unat a = n + (d - 1)" by (rule ex_unat) (use nb db in simp)
  then obtain a :: u128 where a: "unat a = n + (d - 1)" ..
  let ?q = "a div u64_as_u128 pool_lamports"
  have q: "unat ?q = (n + (d - 1)) div d" by (simp add: unat_div a d_def)
  have "n + (d - 1) < (2 ^ 64 - 1) * d + d" using assms(2) d unfolding n_def d_def by linarith
  then have "(n + (d - 1)) div d < 2 ^ 64" using d by (simp add: less_mult_imp_div_less)
  then have t: "unat (u128_as_u64 ?q) = (n + (d - 1)) div d" by (simp add: unat_u128_as_u64 q)
  have "tokens_to_burn need pool_supply pool_lamports = Inr (u128_as_u64 ?q)"
    using m a d
    by (simp add: tokens_to_burn_def checked_mul_eq_Some [THEN iffD2, of m]
        checked_add_eq_Some [THEN iffD2, of a] unat_saturating_sub n_def d_def
        checked_div_def word_unat_eq_iff)
  moreover have "n \<le> (n + (d - 1)) div d * d"
    using div_mult_mod_eq [of "n + (d - 1)" d] mod_less_divisor [OF d, of "n + (d - 1)"] by linarith
  moreover have "(n + (d - 1)) div d \<le> t'" if "n \<le> t' * d" for t'
  proof -
    have "n + (d - 1) < Suc t' * d" using that d by simp
    then show ?thesis using less_mult_imp_div_less [of "n + (d - 1)" "Suc t'" d] by simp
  qed
  ultimately show ?thesis by (auto simp: t n_def [symmetric] d_def [symmetric])
qed

theorem tokens_to_burn_least_witness:
  "\<exists>t. tokens_to_burn 1000 2000 3000 = Inr t \<and> (1000 :: nat) * 2000 \<le> unat t * 3000"
  using tokens_to_burn_least [of 3000 1000 2000] by auto

text \<open>
  C21: flushing a configured pool's reserve hands the stake pool program one deposit
  instruction, signed by the reserve, of exactly what the reserve holds above the rent-exempt
  minimum. The instruction goes to the program of that well-known address; its ten accounts, in
  this order and with these signer and writable flags, are the configured pool, the pool
  program's withdraw authority for it, the reserve stake account in the pool's data, the
  reserve, a token account of the reserve for the configured mint, the manager's fee account in
  the pool's data, the referral account of the caller's choice, the configured mint, the system
  program and the token program. Where there is no surplus flushing does nothing.
\<close>

theorem flush_deposits_surplus:
  assumes "flush_reserve_to_pool E X ck rk K sp s = Inr s'"
    and "lg_accts s ck = Some (ConfigAcct c)" and "pc_spl_stake_pool c \<noteq> default_pubkey"
  defines "surplus \<equiv> unat (lg_lamports s rk) - unat (en_minimum_balance E 0)"
    and "data \<equiv> account_data E s (pc_spl_stake_pool c)"
  shows "\<exists>pid wa b t. en_pubkey_try_from E SPL_STAKE_POOL_PROGRAM_ID = Some pid \<and>
    en_find_program_address E [pubkey_bytes (pc_spl_stake_pool c), ascii_bytes ''withdraw''] pid =
      Some (wa, b) \<and>
    lg_accts s (pk_reserve_pool_tokens K) = Some (TokenAcct t) \<and>
    ta_mint t = pc_spl_pool_mint c \<and> ta_authority t = rk \<and>
    (if surplus = 0 then s' = s
     else en_invoke_signed E
       \<lparr>ix_program_id = pid,
        ix_accounts =
          [(pc_spl_stake_pool c, False, True), (wa, False, False),
           (pool_reserve_stake_key data, False, True), (rk, True, True),
           (pk_reserve_pool_tokens K, False, True), (pool_manager_fee_key data, False, True),
           (pk_referral_fee K, False, True), (pc_spl_pool_mint c, False, True),
           (en_system_program E, False, False), (en_token_program E, False, False)],
        ix_data = 14 # u64_to_le_bytes (word_of_nat surplus)\<rparr>
       (reserve_seeds @ [[pc_reserve_bump c]]) s = Inr s')"
proof -
  from assms(1-3) obtain t where t: "lg_accts s (pk_reserve_pool_tokens K) = Some (TokenAcct t)"
      "ta_mint t = pc_spl_pool_mint c" "ta_authority t = rk"
    and pool: "pk_spl_pool K = pc_spl_stake_pool c" "pk_pool_mint K = pc_spl_pool_mint c"
      "pk_token_program K = en_token_program E"
    and h: "flush_reserve_handler E data rk K c s = Inr s'"
    by (auto simp: flush_reserve_to_pool_def FlushReserveToPool_accounts_def pool_accounts_def
        program_account_def is_program_def data_def res_simps)
  from h assms(3) obtain pid where pid: "check_pool_keys E data 227 K = Inr pid"
    and r: "(if lg_lamports s rk \<le> en_minimum_balance E 0 then Ok s
       else and_then (sub_ov (lg_lamports s rk) (en_minimum_balance E 0)) (\<lambda>n.
         en_invoke_signed E (deposit_sol_instruction E pid rk K n)
           (reserve_seeds @ [[pc_reserve_bump c]]) s)) = Inr s'"
    by (auto simp: flush_reserve_handler_def Let_def res_simps)
  from pid pool obtain b where keys: "en_pubkey_try_from E SPL_STAKE_POOL_PROGRAM_ID = Some pid"
    "en_find_program_address E [pubkey_bytes (pc_spl_stake_pool c), ascii_bytes ''withdraw''] pid =
      Some (pk_withdraw_authority K, b)"
    "pk_reserve_stake K = pool_reserve_stake_key data" "pk_manager_fee K = pool_manager_fee_key data"
    by (auto simp: check_pool_keys_def res_simps)
  show ?thesis
  proof (cases "lg_lamports s rk \<le> en_minimum_balance E 0")
    case True
    then have "surplus = 0" by (simp add: surplus_def word_le_nat_alt)
    with True r t keys show ?thesis by simp
  next
    case False
    then have nz: "surplus \<noteq> 0" by (simp add: surplus_def word_le_nat_alt)
    from False r obtain n where n: "sub_ov (lg_lamports s rk) (en_minimum_balance E 0) = Inr n"
      and i: "en_invoke_signed E (deposit_sol_instruction E pid rk K n)
        (reserve_seeds @ [[pc_reserve_bump c]]) s = Inr s'"
      by (auto simp: res_simps)
    from n have "unat n = surplus" by (simp add: sub_ov_def res_simps surplus_def)
    then have "n = word_of_nat surplus" by auto
    with i nz t pool keys show ?thesis by (simp add: deposit_sol_instruction_def)
  qed
qed

text \<open>The demo chain with a configured stake pool.\<close>

definition pool_env :: env where
  "pool_env = demo_env\<lparr>en_find_program_address := (\<lambda>_ _. Some (44, 255))\<rparr>"

definition pool_config :: protocol_config where
  "pool_config = demo_config\<lparr>pc_spl_stake_pool := 40, pc_spl_pool_mint := 41\<rparr>"

definition demo_pool_keys :: pool_keys where
  "demo_pool_keys =
     \<lparr>pk_reserve_pool_tokens = 45, pk_spl_pool = 40, pk_withdraw_authority = 44,
      pk_reserve_stake = 42, pk_manager_fee = 43, pk_referral_fee = 46, pk_pool_mint = 41,
      pk_token_program = 31, pk_stake_pool_program = 30\<rparr>"

definition pool_ledger :: ledger where
  "pool_ledger =
     \<lparr>lg_lamports = (\<lambda>_. 0)(2 := 20000000000),
      lg_accts = (\<lambda>_. None)(1 := Some (ConfigAcct pool_config),
        40 := Some (ForeignAcct (replicate 131 0 @ pubkey_bytes 42 @ replicate 32 0 @ pubkey_bytes 43)),
        41 := Some (MintAcct []),
        45 := Some (TokenAcct \<lparr>ta_mint = 41, ta_authority = 2, ta_amount = 7\<rparr>)),
      lg_executable = (\<lambda>k. k = 3 \<or> k = 31), lg_logs = []\<rparr>"

lemmas demo_flushing =
  flush_reserve_to_pool_def FlushReserveToPool_accounts_def pool_accounts_def
  flush_reserve_handler_def check_pool_keys_def pool_reserve_stake_key_def
  pool_manager_fee_key_def slice_def pubkey_le.dec_enc pool_env_def pool_config_def
  demo_pool_keys_def pool_ledger_def

theorem flush_deposits_surplus_witness:
  "\<exists>s'. flush_reserve_to_pool pool_env demo_tx 1 2 demo_pool_keys 3 pool_ledger = Inr s' \<and>
     en_invoke_signed pool_env
       \<lparr>ix_program_id = 30,
        ix_accounts = [(40, False, True), (44, False, False), (42, False, True), (2, True, True),
          (45, False, True), (43, False, True), (46, False, True), (41, False, True),
          (3, False, False), (31, False, False)],
        ix_data = 14 # u64_to_le_bytes 19999109120\<rparr> (reserve_seeds @ [[255]]) pool_ledger = Inr s'"
proof -
  obtain s' where f: "flush_reserve_to_pool pool_env demo_tx 1 2 demo_pool_keys 3 pool_ledger = Inr s'"
    by (simp add: demo_exec demo_flushing)
  have c: "lg_accts pool_ledger 1 = Some (ConfigAcct pool_config)" by (simp add: pool_ledger_def)
  have "pc_spl_stake_pool pool_config \<noteq> default_pubkey"
    by (simp add: pool_config_def)
  from flush_deposits_surplus [OF f c this] f show ?thesis
    by (simp add: demo_flushing demo_env_def demo_config_def account_data_def)
qed

end
