(* ===== verification/Vow_Admin.thy ===== *)
theory Vow_Admin
  imports Vow_Pool
begin

text \<open>
  Administration (\<^verbatim>\<open>instructions/admin/*.rs\<close>): opening the protocol, moving the admin
  key, the migration and test helpers, and the app registry.
\<close>

section \<open>Initialize\<close>

definition Initialize_accounts ::
    "env \<Rightarrow> tx \<Rightarrow> pubkey \<Rightarrow> pubkey \<Rightarrow> pubkey \<Rightarrow> pubkey \<Rightarrow> ledger \<Rightarrow> (u8 \<times> u8 \<times> ledger) result" where
  "Initialize_accounts E X config reserve admin system_program s =
     and_then (find_bump E reserve_seeds reserve) (\<lambda>reserve_bump.
     and_then (signer_account X True admin) (\<lambda>_.
     and_then (program_account s (en_system_program E) system_program) (\<lambda>_.
     and_then (init_account E config_seeds ProtocolConfig_LEN admin config s) (\<lambda>(b, s).
     Ok (reserve_bump, b, s)))))"

text \<open>The opening price and the cached pool balance, read from the pool when there is one.\<close>

definition opening_price ::
    "pubkey \<Rightarrow> pubkey \<Rightarrow> byte list \<Rightarrow> (u128 \<times> u64) result" where
  "opening_price spl_stake_pool spl_pool data =
     (if spl_stake_pool \<noteq> default_pubkey \<and> spl_pool = spl_stake_pool then
        if 275 \<le> length data then
          let total_lamports = pool_total_lamports data;
              token_supply = pool_token_supply data in
          if 0 < total_lamports \<and> 0 < token_supply then
            and_then (ok_or (checked_mul (u64_as_u128 total_lamports) SHARE_PRECISION)
              (VowErr SharePriceOverflow)) (\<lambda>m.
            Ok (unwrap_or (checked_div m (u64_as_u128 token_supply)) SHARE_PRECISION,
                total_lamports))
          else Ok (SHARE_PRECISION, 0)
        else Ok (SHARE_PRECISION, 0)
      else Ok (SHARE_PRECISION, 0))"

definition initialize_handler ::
    "pubkey \<Rightarrow> u8 \<Rightarrow> u8 \<Rightarrow> pubkey \<Rightarrow> byte list \<Rightarrow> pubkey \<Rightarrow> pubkey \<Rightarrow> ledger
       \<Rightarrow> (protocol_config \<times> ledger) result" where
  "initialize_handler admin reserve_bump bump spl_pool data spl_stake_pool spl_pool_mint s =
     and_then (opening_price spl_stake_pool spl_pool data) (\<lambda>(price, pool_lamports).
     Ok (\<lparr>pc_admin = admin, pc_current_share_price = price, pc_total_shares = 0,
          pc_total_yield_claims = 0, pc_last_pool_lamports = pool_lamports,
          pc_total_minted = 0, pc_merkle_tree = default_pubkey, pc_total_pending_unstake = 0,
          pc_spl_stake_pool = spl_stake_pool, pc_spl_pool_mint = spl_pool_mint,
          pc_reserve_bump = reserve_bump, pc_bump = bump\<rparr>,
         emit (ProtocolInitialized admin default_pubkey) s))"

definition initialize ::
    "env \<Rightarrow> tx \<Rightarrow> pubkey \<Rightarrow> pubkey \<Rightarrow> pubkey \<Rightarrow> pubkey \<Rightarrow> pubkey \<Rightarrow> pubkey \<Rightarrow> pubkey \<Rightarrow> ledger
       \<Rightarrow> ledger result" where
  "initialize E X config reserve spl_pool admin system_program spl_stake_pool spl_pool_mint s =
     and_then (Initialize_accounts E X config reserve admin system_program s)
       (\<lambda>(reserve_bump, b, s).
     and_then (initialize_handler admin reserve_bump b spl_pool (account_data E s spl_pool)
       spl_stake_pool spl_pool_mint s) (\<lambda>(c, s).
     Ok (store config (ConfigAcct c) s)))"

section \<open>Admin-only updates of the configuration\<close>

text \<open>\<open>has_one = admin @ Unauthorized\<close> on the configuration, and the admin's signature.\<close>

definition admin_config ::
    "env \<Rightarrow> tx \<Rightarrow> bool \<Rightarrow> pubkey \<Rightarrow> pubkey \<Rightarrow> ledger \<Rightarrow> protocol_config result" where
  "admin_config E X m config admin s =
     and_then (config_account E X m s config) (\<lambda>c.
     require (pc_admin c = admin) (VowErr Unauthorized) (
     and_then (signer_account X False admin) (\<lambda>_.
     Ok c)))"

definition set_admin :: "env \<Rightarrow> tx \<Rightarrow> pubkey \<Rightarrow> pubkey \<Rightarrow> pubkey \<Rightarrow> ledger \<Rightarrow> ledger result" where
  "set_admin E X config admin new_admin s =
     and_then (admin_config E X True config admin s) (\<lambda>c.
     require (new_admin \<noteq> default_pubkey) (VowErr Unauthorized) (
     Ok (store config (ConfigAcct (c\<lparr>pc_admin := new_admin\<rparr>)) s)))"

definition set_mint_counter :: "env \<Rightarrow> tx \<Rightarrow> pubkey \<Rightarrow> pubkey \<Rightarrow> u64 \<Rightarrow> ledger \<Rightarrow> ledger result" where
  "set_mint_counter E X config admin new_counter s =
     and_then (admin_config E X True config admin s) (\<lambda>c.
     require (pc_total_minted c < new_counter) (VowErr InvalidStakeAccount) (
     Ok (store config (ConfigAcct (c\<lparr>pc_total_minted := new_counter\<rparr>)) s)))"

definition dev_set_share_price ::
    "env \<Rightarrow> tx \<Rightarrow> pubkey \<Rightarrow> pubkey \<Rightarrow> u128 \<Rightarrow> ledger \<Rightarrow> ledger result" where
  "dev_set_share_price E X config admin new_price s =
     and_then (admin_config E X True config admin s) (\<lambda>c.
     require (pc_spl_stake_pool c = default_pubkey) (VowErr Unauthorized) (
     require (0 < new_price) (VowErr SharePriceOverflow) (
     Ok (store config (ConfigAcct (c\<lparr>pc_current_share_price := new_price\<rparr>)) s))))"

definition dev_fast_unlock ::
    "env \<Rightarrow> tx \<Rightarrow> pubkey \<Rightarrow> pubkey \<Rightarrow> pubkey \<Rightarrow> ledger \<Rightarrow> ledger result" where
  "dev_fast_unlock E X config vow_state admin s =
     and_then (admin_config E X False config admin s) (\<lambda>c.
     and_then (vow_account E X True s vow_state) (\<lambda>v.
     require (pc_spl_stake_pool c = default_pubkey) (VowErr Unauthorized) (
     Ok (store vow_state (VowAcct (v\<lparr>vs_unlock_at := 1\<rparr>)) s))))"

section \<open>Close the configuration\<close>

text \<open>
  The admin key is read from the raw bytes, so that a configuration of an older layout can
  be closed. The lamports move to the admin and the data is zeroed; an account left
  without lamports is gone at the end of the transaction.
\<close>

definition close_protocol_config :: "env \<Rightarrow> tx \<Rightarrow> pubkey \<Rightarrow> pubkey \<Rightarrow> ledger \<Rightarrow> ledger result" where
  "close_protocol_config E X config admin s =
     and_then (find_bump E config_seeds config) (\<lambda>_.
     require (tx_is_writable X config) (AnchorErr ConstraintMut) (
     and_then (signer_account X True admin) (\<lambda>_.
     let data = account_data E s config in
     require (40 \<le> length data) (VowErr InvalidStakeAccount) (
     let stored_admin = pubkey_of_bytes (slice 8 40 data) in
     require (stored_admin = admin) (VowErr Unauthorized) (
     let lamports = lg_lamports s config;
         s1 = debit config lamports s in
     and_then (add_ov (lg_lamports s1 admin) lamports) (\<lambda>b.
     let lam = (lg_lamports s1)(admin := b) in
     Ok (s1\<lparr>lg_lamports := lam,
            lg_accts := (lg_accts s1)(config :=
              (if lam config = 0 then None
               else Some (ForeignAcct (replicate (length data) 0))))\<rparr>)))))))"

section \<open>App registry\<close>

definition register_app ::
    "env \<Rightarrow> tx \<Rightarrow> pubkey \<Rightarrow> pubkey \<Rightarrow> pubkey \<Rightarrow> pubkey \<Rightarrow> ledger \<Rightarrow> ledger result" where
  "register_app E X app_registry payer system_program program_id s =
     and_then (signer_account X True payer) (\<lambda>_.
     and_then (program_account s (en_system_program E) system_program) (\<lambda>_.
     and_then (init_account E (app_seeds program_id) AppRegistry_LEN payer app_registry s)
       (\<lambda>(b, s).
     let reg = \<lparr>ar_program_id = program_id, ar_verified = False, ar_blocked = False,
                ar_registered_at = tx_unix_timestamp X, ar_bump = b\<rparr> in
     Ok (store app_registry (AppAcct reg) (emit (AppRegistered program_id) s)))))"

definition AdminAppAction_accounts ::
    "env \<Rightarrow> tx \<Rightarrow> pubkey \<Rightarrow> pubkey \<Rightarrow> pubkey \<Rightarrow> ledger \<Rightarrow> app_registry result" where
  "AdminAppAction_accounts E X app_registry config admin s =
     and_then (load un_app s app_registry) (\<lambda>r.
     require (pda_with_bump E (app_seeds (ar_program_id r)) (ar_bump r) app_registry)
       (AnchorErr ConstraintSeeds) (
     require (tx_is_writable X app_registry) (AnchorErr ConstraintMut) (
     and_then (admin_config E X False config admin s) (\<lambda>_.
     Ok r))))"

definition verify_app :: "env \<Rightarrow> tx \<Rightarrow> pubkey \<Rightarrow> pubkey \<Rightarrow> pubkey \<Rightarrow> ledger \<Rightarrow> ledger result" where
  "verify_app E X app_registry config admin s =
     and_then (AdminAppAction_accounts E X app_registry config admin s) (\<lambda>r.
     Ok (store app_registry (AppAcct (r\<lparr>ar_verified := True\<rparr>)) s))"

definition block_app :: "env \<Rightarrow> tx \<Rightarrow> pubkey \<Rightarrow> pubkey \<Rightarrow> pubkey \<Rightarrow> ledger \<Rightarrow> ledger result" where
  "block_app E X app_registry config admin s =
     and_then (AdminAppAction_accounts E X app_registry config admin s) (\<lambda>r.
     Ok (store app_registry (AppAcct (r\<lparr>ar_blocked := True\<rparr>))
          (emit (AppBlockedEvent (ar_program_id r)) s)))"

section \<open>The instructions are protocol steps\<close>

lemma initializeE:
  assumes "initialize E X ck rk pk admin sp pool mint s = Inr s'"
  obtains rb b s1 p l ev where "en_find_program_address E reserve_seeds (en_program_id E) = Some (rk, rb)"
    and "tx_is_signer X admin"
    and "init_account E config_seeds ProtocolConfig_LEN admin ck s = Inr (b, s1)"
    and "opening_price pool pk (account_data E s1 pk) = Inr (p, l)"
    and "s' = store ck (ConfigAcct
         \<lparr>pc_admin = admin, pc_current_share_price = p, pc_total_shares = 0,
          pc_total_yield_claims = 0, pc_last_pool_lamports = l,
          pc_total_minted = 0, pc_merkle_tree = default_pubkey, pc_total_pending_unstake = 0,
          pc_spl_stake_pool = pool, pc_spl_pool_mint = mint,
          pc_reserve_bump = rb, pc_bump = b\<rparr>) (emit ev s1)"
  using assms
  by (simp add: initialize_def Initialize_accounts_def initialize_handler_def res_simps)
    (clarify, rule that, (assumption | rule refl | erule sym | simp)+)

lemma initialize_step:
  assumes "initialize E X ck rk pk admin sp pool mint s = Inr s'"
  shows "acct_step E (lg_accts s) (lg_accts s')" and "sum_lamports s' = sum_lamports s"
proof -
  from assms obtain rb b s1 p l ev
    where i: "init_account E config_seeds ProtocolConfig_LEN admin ck s = Inr (b, s1)"
      and s': "s' = store ck (ConfigAcct
         \<lparr>pc_admin = admin, pc_current_share_price = p, pc_total_shares = 0,
          pc_total_yield_claims = 0, pc_last_pool_lamports = l,
          pc_total_minted = 0, pc_merkle_tree = default_pubkey, pc_total_pending_unstake = 0,
          pc_spl_stake_pool = pool, pc_spl_pool_mint = mint,
          pc_reserve_bump = rb, pc_bump = b\<rparr>) (emit ev s1)" by (rule initializeE)
  note i = init_accountD [OF i]
  show "acct_step E (lg_accts s) (lg_accts s')"
    using i(1-3) by (auto simp: s' intro!: acct_step.open_config)
  show "sum_lamports s' = sum_lamports s" using i(6) by (simp add: s' sum_lamports_def)
qed

lemma admin_config_eq_Ok [res_simps]:
  "admin_config E X m ck admin s = Inr c \<longleftrightarrow>
     lg_accts s ck = Some (ConfigAcct c) \<and> pda_with_bump E config_seeds (pc_bump c) ck \<and>
     (m \<longrightarrow> tx_is_writable X ck) \<and> pc_admin c = admin \<and> tx_is_signer X admin"
  by (auto simp: admin_config_def res_simps)

lemma admin_config_steps:
  "set_admin E X ck admin na s = Inr s' \<Longrightarrow> acct_step E (lg_accts s) (lg_accts s')"
  "set_mint_counter E X ck admin n s = Inr s' \<Longrightarrow> acct_step E (lg_accts s) (lg_accts s')"
  "dev_set_share_price E X ck admin p s = Inr s' \<Longrightarrow> acct_step E (lg_accts s) (lg_accts s')"
  by (auto simp: set_admin_def set_mint_counter_def dev_set_share_price_def res_simps
      totals_kept_def bumps_kept_def intro!: acct_step.tune_config)

lemma dev_fast_unlock_step:
  "dev_fast_unlock E X ck vk admin s = Inr s' \<Longrightarrow> acct_step E (lg_accts s) (lg_accts s')"
  by (auto simp: dev_fast_unlock_def res_simps standing_grows_def tier_ok_def
      intro!: vow_only_step vow_evolvesI)

lemma admin_lamports:
  "set_admin E X ck admin na s = Inr s' \<Longrightarrow> lg_lamports s' = lg_lamports s"
  "set_mint_counter E X ck admin n s = Inr s' \<Longrightarrow> lg_lamports s' = lg_lamports s"
  "dev_set_share_price E X ck admin p s = Inr s' \<Longrightarrow> lg_lamports s' = lg_lamports s"
  "dev_fast_unlock E X ck vk admin s = Inr s' \<Longrightarrow> lg_lamports s' = lg_lamports s"
  "verify_app E X ak ck admin s = Inr s' \<Longrightarrow> lg_lamports s' = lg_lamports s"
  "block_app E X ak ck admin s = Inr s' \<Longrightarrow> lg_lamports s' = lg_lamports s"
  by (auto simp: set_admin_def set_mint_counter_def dev_set_share_price_def dev_fast_unlock_def
      verify_app_def block_app_def res_simps)

lemma app_admin_steps:
  "verify_app E X ak ck admin s = Inr s' \<Longrightarrow> acct_step E (lg_accts s) (lg_accts s')"
  "block_app E X ak ck admin s = Inr s' \<Longrightarrow> acct_step E (lg_accts s) (lg_accts s')"
  by (auto simp: verify_app_def block_app_def AdminAppAction_accounts_def res_simps
      intro!: peripheral_upd)

lemma register_app_step:
  assumes "register_app E X ak payer sp pid s = Inr s'"
  shows "acct_step E (lg_accts s) (lg_accts s')" and "sum_lamports s' = sum_lamports s"
proof -
  from assms obtain b s1 r ev
    where i: "init_account E (app_seeds pid) AppRegistry_LEN payer ak s = Inr (b, s1)"
      and s': "s' = store ak (AppAcct r) (emit ev s1)"
    by (auto simp: register_app_def res_simps Let_def)
  show "acct_step E (lg_accts s) (lg_accts s')" using init_peripheral [OF i] by (simp add: s')
  show "sum_lamports s' = sum_lamports s"
    using init_accountD(6) [OF i] by (simp add: s' sum_lamports_def)
qed

text \<open>Closing touches the configuration's address only, and conserves lamports.\<close>

lemma close_protocol_configE:
  assumes "close_protocol_config E X ck admin s = Inr s'"
  obtains b x where "en_find_program_address E config_seeds (en_program_id E) = Some (ck, b)"
    and "tx_is_signer X admin"
    and "pubkey_of_bytes (slice 8 40 (account_data E s ck)) = admin"
    and "40 \<le> length (account_data E s ck)"
    and "lg_accts s' = (lg_accts s)(ck := x)" and "\<not> core x"
    and "sum_lamports s' = sum_lamports s"
proof -
  let ?d = "debit ck (lg_lamports s ck) s"
  from assms obtain b l where f: "en_find_program_address E config_seeds (en_program_id E) = Some (ck, b)"
    and sg: "tx_is_signer X admin"
    and ad: "pubkey_of_bytes (slice 8 40 (account_data E s ck)) = admin"
    and len: "40 \<le> length (account_data E s ck)"
    and l: "unat l = unat (lg_lamports ?d admin) + unat (lg_lamports s ck)"
    and s': "s' = ?d\<lparr>lg_lamports := (lg_lamports ?d)(admin := l),
            lg_accts := (lg_accts s)(ck :=
              (if ((lg_lamports ?d)(admin := l)) ck = 0 then None
               else Some (ForeignAcct (replicate (length (account_data E s ck)) 0))))\<rparr>"
    by (auto simp: close_protocol_config_def Let_def res_simps simp del: debit_simps(4) fun_upd_apply)
  have "sum_lamports ?d + unat (lg_lamports s ck) = sum_lamports s"
    using sum_lamports_upd [of s ck "lg_lamports s ck - lg_lamports s ck"] by (simp add: debit_def)
  moreover have "sum_lamports s' + unat (lg_lamports ?d admin) = sum_lamports ?d + unat l"
    using sum_lamports_upd [of ?d admin l] s' by (simp add: sum_lamports_def)
  ultimately have "sum_lamports s' = sum_lamports s" using l by simp
  then show ?thesis using that [OF f sg ad len] s' by fastforce
qed

text \<open>The raw bytes that closing reads hold the admin.\<close>

lemma config_admin_bytes:
  assumes "lg_accts s ck = Some (ConfigAcct c)" and "length (en_discriminator E ''ProtocolConfig'') = 8"
  shows "pubkey_of_bytes (slice 8 40 (account_data E s ck)) = pc_admin c"
  using assms
  by (simp add: account_data_def enc_protocol_config_def slice_def pubkey_le.dec_enc)

end
