(* ===== verification/Vow_Commitment.thy ===== *)
theory Vow_Commitment
  imports Vow_Demo
begin

text \<open>
  The reputation record of a wallet (\<^verbatim>\<open>instructions/commitment/*.rs\<close>) and the leaf
  hashes of \<^verbatim>\<open>compression.rs\<close>. A gate account per identity makes each recording a
  one-time event.
\<close>

section \<open>Score\<close>

definition compute_score :: "commitment_record \<Rightarrow> u32 result" where
  "compute_score r =
     and_then (mul_ov (ucast (cr_highest_class_ever r)) 100) (\<lambda>class_points.
     and_then (mul_ov (min (cr_total_xnfts_minted r) 50) 10) (\<lambda>mint_points.
     and_then (if 0 < cr_total_xnt_committed r
         then and_then (mul_ov (cr_total_xnt_fulfilled r) 100) (\<lambda>m.
           Ok (ucast (m div cr_total_xnt_committed r)))
         else Ok 0) (\<lambda>fulfilled_ratio.
     and_then (add_ov class_points mint_points) (\<lambda>sum.
     add_ov sum fulfilled_ratio))))"

text \<open>The copy of the function in \<^verbatim>\<open>record_fulfillment.rs\<close>.\<close>

definition fulfillment_compute_score :: "commitment_record \<Rightarrow> u32 result" where
  "fulfillment_compute_score r =
     and_then (mul_ov (ucast (cr_highest_class_ever r)) 100) (\<lambda>class_points.
     and_then (mul_ov (min (cr_total_xnfts_minted r) 50) 10) (\<lambda>mint_points.
     and_then (if 0 < cr_total_xnt_committed r
         then and_then (mul_ov (cr_total_xnt_fulfilled r) 100) (\<lambda>m.
           Ok (ucast (m div cr_total_xnt_committed r)))
         else Ok 0) (\<lambda>fulfilled_ratio.
     and_then (add_ov class_points mint_points) (\<lambda>sum.
     add_ov sum fulfilled_ratio))))"

section \<open>Record a commitment\<close>

text \<open>\<open>init_if_needed\<close>: the record at the canonical address, created when there is none.\<close>

definition commitment_record_account ::
    "env \<Rightarrow> pubkey \<Rightarrow> pubkey \<Rightarrow> pubkey \<Rightarrow> ledger \<Rightarrow> (commitment_record \<times> u8 \<times> ledger) result" where
  "commitment_record_account E wallet payer k s =
     (case lg_accts s k of
        None \<Rightarrow>
          and_then (init_account E (commitment_seeds wallet) CommitmentRecord_LEN payer k s)
            (\<lambda>(b, s). Ok (zero_commitment_record, b, s))
      | Some _ \<Rightarrow>
          and_then (find_bump E (commitment_seeds wallet) k) (\<lambda>b.
          and_then (load un_record s k) (\<lambda>r. Ok (r, b, s))))"

definition RecordCommitment_accounts ::
    "env \<Rightarrow> tx \<Rightarrow> pubkey \<Rightarrow> pubkey \<Rightarrow> pubkey \<Rightarrow> pubkey \<Rightarrow> pubkey \<Rightarrow> ledger
       \<Rightarrow> (commitment_record \<times> u8 \<times> vow_state \<times> u8 \<times> ledger) result" where
  "RecordCommitment_accounts E X commitment_record vow_state cr_gate payer system_program s =
     and_then (vow_account E X False s vow_state) (\<lambda>v.
     and_then (signer_account X True payer) (\<lambda>_.
     and_then (program_account s (en_system_program E) system_program) (\<lambda>_.
     and_then (commitment_record_account E (vs_owner v) payer commitment_record s) (\<lambda>(r, rb, s).
     and_then (init_account E (cr_commit_seeds commitment_record vow_state) CrGate_LEN payer
       cr_gate s) (\<lambda>(gb, s).
     require (commitment_record \<noteq> cr_gate) (SystemErr AccountAlreadyInUse) (
     Ok (r, rb, v, gb, s)))))))"

definition record_commitment_handler ::
    "tx \<Rightarrow> u8 \<Rightarrow> vow_state \<Rightarrow> commitment_record \<Rightarrow> commitment_record result" where
  "record_commitment_handler X bump idnft r =
     and_then (lock_duration (vs_class idnft)) (\<lambda>lock.
     let lock_days = signed_div lock 86400;
         r = r\<lparr>cr_wallet := vs_owner idnft,
               cr_total_xnfts_minted := saturating_add (cr_total_xnfts_minted r) 1,
               cr_total_xnt_committed :=
                 saturating_add (cr_total_xnt_committed r) (vs_principal_lamports idnft),
               cr_highest_class_ever :=
                 (if cr_highest_class_ever r < vs_class idnft then vs_class idnft
                  else cr_highest_class_ever r),
               cr_total_commitment_days :=
                 saturating_add (cr_total_commitment_days r) lock_days\<rparr> in
     and_then (compute_score r) (\<lambda>score.
     Ok (r\<lparr>cr_commitment_score := score, cr_last_updated := tx_unix_timestamp X,
           cr_bump := (if cr_bump r = 0 then bump else cr_bump r)\<rparr>)))"

definition record_commitment ::
    "env \<Rightarrow> tx \<Rightarrow> pubkey \<Rightarrow> pubkey \<Rightarrow> pubkey \<Rightarrow> pubkey \<Rightarrow> pubkey \<Rightarrow> ledger \<Rightarrow> ledger result" where
  "record_commitment E X commitment_record vow_state cr_gate payer system_program s =
     and_then (RecordCommitment_accounts E X commitment_record vow_state cr_gate payer
       system_program s) (\<lambda>(r, rb, v, gb, s).
     and_then (record_commitment_handler X rb v r) (\<lambda>r.
     Ok (store cr_gate (GateAcct \<lparr>cg_bump = gb\<rparr>) (store commitment_record (RecordAcct r) s))))"

section \<open>Record a fulfilment\<close>

definition RecordFulfillment_accounts ::
    "env \<Rightarrow> tx \<Rightarrow> pubkey \<Rightarrow> pubkey \<Rightarrow> pubkey \<Rightarrow> pubkey \<Rightarrow> pubkey \<Rightarrow> ledger
       \<Rightarrow> (commitment_record \<times> vow_state \<times> u8 \<times> ledger) result" where
  "RecordFulfillment_accounts E X commitment_record vow_state cr_gate payer system_program s =
     and_then (load un_record s commitment_record) (\<lambda>r.
     and_then (vow_account E X False s vow_state) (\<lambda>v.
     require (pda_with_bump E (commitment_seeds (vs_owner v)) (cr_bump r) commitment_record)
       (AnchorErr ConstraintSeeds) (
     require (tx_is_writable X commitment_record) (AnchorErr ConstraintMut) (
     and_then (signer_account X True payer) (\<lambda>_.
     and_then (program_account s (en_system_program E) system_program) (\<lambda>_.
     and_then (init_account E (cr_fulfill_seeds commitment_record vow_state) CrGate_LEN payer
       cr_gate s) (\<lambda>(gb, s).
     Ok (r, v, gb, s))))))))"

definition record_fulfillment_handler ::
    "tx \<Rightarrow> vow_state \<Rightarrow> commitment_record \<Rightarrow> commitment_record result" where
  "record_fulfillment_handler X xnft r =
     require (vs_matured xnft) (VowErr NotMatured) (
     let r = r\<lparr>cr_total_xnt_fulfilled :=
                 saturating_add (cr_total_xnt_fulfilled r) (vs_principal_lamports xnft)\<rparr> in
     and_then (fulfillment_compute_score r) (\<lambda>score.
     Ok (r\<lparr>cr_commitment_score := score, cr_last_updated := tx_unix_timestamp X\<rparr>)))"

definition record_fulfillment ::
    "env \<Rightarrow> tx \<Rightarrow> pubkey \<Rightarrow> pubkey \<Rightarrow> pubkey \<Rightarrow> pubkey \<Rightarrow> pubkey \<Rightarrow> ledger \<Rightarrow> ledger result" where
  "record_fulfillment E X commitment_record vow_state cr_gate payer system_program s =
     and_then (RecordFulfillment_accounts E X commitment_record vow_state cr_gate payer
       system_program s) (\<lambda>(r, v, gb, s).
     and_then (record_fulfillment_handler X v r) (\<lambda>r.
     Ok (store cr_gate (GateAcct \<lparr>cg_bump = gb\<rparr>) (store commitment_record (RecordAcct r) s))))"

section \<open>Leaf hashes\<close>

definition LEAF_PREFIX :: "byte list" where
  "LEAF_PREFIX = ascii_bytes ''idnft-leaf-v1''"

definition get_asset_id_pda :: "env \<Rightarrow> u64 \<Rightarrow> pubkey \<Rightarrow> (pubkey \<times> u8) option" where
  "get_asset_id_pda E nonce program_id =
     en_find_program_address E [ascii_bytes ''vow_asset'', u64_to_le_bytes nonce] program_id"

text \<open>The buffer of 17 bytes that is hashed, filled slice by slice.\<close>

definition data_hash_buf :: "u8 \<Rightarrow> u64 \<Rightarrow> i64 \<Rightarrow> byte list" where
  "data_hash_buf cls principal_lamports created_at =
     (let buf = replicate 17 0;
          buf = buf[0 := cls];
          buf = take 1 buf @ u64_to_le_bytes principal_lamports @ drop 9 buf;
          buf = take 9 buf @ u64_to_le_bytes created_at @ drop 17 buf
      in buf)"

definition data_hash :: "env \<Rightarrow> u8 \<Rightarrow> u64 \<Rightarrow> i64 \<Rightarrow> byte list" where
  "data_hash E cls principal_lamports created_at =
     en_keccak E (data_hash_buf cls principal_lamports created_at)"

definition leaf_hash_buf :: "pubkey \<Rightarrow> pubkey \<Rightarrow> u64 \<Rightarrow> byte list \<Rightarrow> byte list" where
  "leaf_hash_buf asset_id owner nonce dhash =
     LEAF_PREFIX @ pubkey_bytes asset_id @ pubkey_bytes owner @ u64_to_le_bytes nonce @ dhash"

definition leaf_hash :: "env \<Rightarrow> pubkey \<Rightarrow> pubkey \<Rightarrow> u64 \<Rightarrow> byte list \<Rightarrow> byte list" where
  "leaf_hash E asset_id owner nonce dhash = en_keccak E (leaf_hash_buf asset_id owner nonce dhash)"

section \<open>The instructions are protocol steps\<close>

lemma commitment_record_accountD:
  assumes "commitment_record_account E w p k s = Inr (r, b, s1)"
  shows "lg_accts s1 = lg_accts s" and "\<not> core (lg_accts s k)" and "sum_lamports s1 = sum_lamports s"
    and "en_find_program_address E (commitment_seeds w) (en_program_id E) = Some (k, b)"
    and "lg_accts s k = None \<and> r = zero_commitment_record \<or> lg_accts s k = Some (RecordAcct r)"
  using assms by (auto simp: commitment_record_account_def res_simps
      init_accountD split: option.splits)

lemma record_commitmentE:
  assumes "record_commitment E X rk vk gk payer sp s = Inr s'"
  obtains r rb v gb s1 s2 r' where "lg_accts s vk = Some (VowAcct v)"
    and "commitment_record_account E (vs_owner v) payer rk s = Inr (r, rb, s1)"
    and "init_account E (cr_commit_seeds rk vk) CrGate_LEN payer gk s1 = Inr (gb, s2)"
    and "rk \<noteq> gk" and "record_commitment_handler X rb v r = Inr r'"
    and "s' = store gk (GateAcct \<lparr>cg_bump = gb\<rparr>) (store rk (RecordAcct r') s2)"
  using assms
  by (auto simp: record_commitment_def RecordCommitment_accounts_def res_simps)

lemma record_commitment_step:
  assumes "record_commitment E X rk vk gk payer sp s = Inr s'"
  shows "acct_step E (lg_accts s) (lg_accts s')" and "sum_lamports s' = sum_lamports s"
proof -
  from assms obtain r rb v gb s1 s2 r' where "lg_accts s vk = Some (VowAcct v)"
      and r: "commitment_record_account E (vs_owner v) payer rk s = Inr (r, rb, s1)"
      and i: "init_account E (cr_commit_seeds rk vk) CrGate_LEN payer gk s1 = Inr (gb, s2)"
      and s': "s' = store gk (GateAcct \<lparr>cg_bump = gb\<rparr>) (store rk (RecordAcct r') s2)"
    by (rule record_commitmentE)
  note r = commitment_record_accountD [OF r] and i = init_accountD [OF i]
  show "acct_step E (lg_accts s) (lg_accts s')"
    using peripheral_two [of "lg_accts s" rk gk] r i(2,3) by (auto simp: s')
  show "sum_lamports s' = sum_lamports s" using r(3) i(6) by (simp add: s' sum_lamports_def)
qed

lemma record_fulfillmentE:
  assumes "record_fulfillment E X rk vk gk payer sp s = Inr s'"
  obtains r v gb s1 r' where "lg_accts s vk = Some (VowAcct v)"
    and "lg_accts s rk = Some (RecordAcct r)"
    and "pda_with_bump E (commitment_seeds (vs_owner v)) (cr_bump r) rk"
    and "init_account E (cr_fulfill_seeds rk vk) CrGate_LEN payer gk s = Inr (gb, s1)"
    and "record_fulfillment_handler X v r = Inr r'"
    and "s' = store gk (GateAcct \<lparr>cg_bump = gb\<rparr>) (store rk (RecordAcct r') s1)"
  using assms
  by (auto simp: record_fulfillment_def RecordFulfillment_accounts_def res_simps)

lemma record_fulfillment_step:
  assumes "record_fulfillment E X rk vk gk payer sp s = Inr s'"
  shows "acct_step E (lg_accts s) (lg_accts s')" and "sum_lamports s' = sum_lamports s"
proof -
  from assms obtain r gb s1 r' where r: "lg_accts s rk = Some (RecordAcct r)"
      and i: "init_account E (cr_fulfill_seeds rk vk) CrGate_LEN payer gk s = Inr (gb, s1)"
      and s': "s' = store gk (GateAcct \<lparr>cg_bump = gb\<rparr>) (store rk (RecordAcct r') s1)"
    by (rule record_fulfillmentE)
  note i = init_accountD [OF i]
  show "acct_step E (lg_accts s) (lg_accts s')"
    using peripheral_two [of "lg_accts s" rk gk] r i(2,3) by (simp add: s')
  show "sum_lamports s' = sum_lamports s" using i(6) by (simp add: s' sum_lamports_def)
qed

lemma record_commitment_gate:
  assumes "record_commitment E X rk vk gk p sp s = Inr s'"
  obtains b where "en_find_program_address E (cr_commit_seeds rk vk) (en_program_id E) = Some (gk, b)"
    and "lg_accts s gk = None" and "is_gate (lg_accts s' gk)"
  using assms
proof (rule record_commitmentE)
  fix r rb v gb s1 s2 r'
  assume a: "commitment_record_account E (vs_owner v) p rk s = Inr (r, rb, s1)"
    and i: "init_account E (cr_commit_seeds rk vk) CrGate_LEN p gk s1 = Inr (gb, s2)"
    and s': "s' = store gk (GateAcct \<lparr>cg_bump = gb\<rparr>) (store rk (RecordAcct r') s2)"
  then show ?thesis
    using that [OF init_accountD(1) [OF i]] init_accountD(2) [OF i] commitment_record_accountD(1) [OF a]
    by simp
qed

lemma record_fulfillment_gate:
  assumes "record_fulfillment E X rk vk gk p sp s = Inr s'"
  obtains b where "en_find_program_address E (cr_fulfill_seeds rk vk) (en_program_id E) = Some (gk, b)"
    and "lg_accts s gk = None" and "is_gate (lg_accts s' gk)"
  using assms
proof (rule record_fulfillmentE)
  fix r v gb s1 r'
  assume i: "init_account E (cr_fulfill_seeds rk vk) CrGate_LEN p gk s = Inr (gb, s1)"
    and "s' = store gk (GateAcct \<lparr>cg_bump = gb\<rparr>) (store rk (RecordAcct r') s1)"
  then show ?thesis
    using that [OF init_accountD(1) [OF i] init_accountD(2) [OF i]] by simp
qed

section \<open>What the score is\<close>

lemma fulfilled_ratio_Ok:
  fixes f t :: u64
  assumes "unat f \<le> unat t" and "unat t * 100 < 2 ^ 64"
  shows "\<exists>x :: u32. (if 0 < t then and_then (mul_ov f 100) (\<lambda>m. Ok (ucast (m div t))) else Ok 0) = Inr x \<and>
    unat x = unat f * 100 div unat t \<and> unat x \<le> 100"
proof (cases "0 < t")
  case False
  then have "unat t = 0" by (simp add: word_less_nat_alt)
  with False show ?thesis by simp
next
  case True
  then have t: "0 < unat t" by (simp add: word_less_nat_alt)
  have "unat f * 100 div unat t \<le> 100 * unat t div unat t"
    using assms(1) by (intro div_le_mono) simp
  then have q: "unat f * 100 div unat t \<le> 100" using t by simp
  have "\<exists>m :: u64. unat m = unat f * 100" by (rule ex_unat) (use assms in simp)
  then obtain m :: u64 where m: "unat m = unat f * 100" ..
  then have "mul_ov f 100 = Inr m" by (simp add: ov_eq_Ok)
  moreover have "unat (ucast (m div t) :: u32) = unat f * 100 div unat t"
    using q by (simp add: unsigned_ucast_eq unat_div m take_bit_nat_eq_self_iff)
  ultimately show ?thesis using True q by simp
qed

text \<open>
  The score of a record is 100 points a class, 10 points a recorded identity up to 50, and
  the percentage of the committed stake that was fulfilled, so at most 1300; both copies of the
  function compute it without overflow while no more is fulfilled than committed and the total
  committed is below 2 to the 64 over 100.
\<close>

theorem compute_score_points:
  assumes "unat (cr_highest_class_ever r) \<le> 7"
    and "unat (cr_total_xnt_fulfilled r) \<le> unat (cr_total_xnt_committed r)"
    and "unat (cr_total_xnt_committed r) * 100 < 2 ^ 64"
  shows "\<exists>x. compute_score r = Inr x \<and> fulfillment_compute_score r = Inr x \<and>
    unat x = 100 * unat (cr_highest_class_ever r) + 10 * min (unat (cr_total_xnfts_minted r)) 50 +
      unat (cr_total_xnt_fulfilled r) * 100 div unat (cr_total_xnt_committed r) \<and>
    unat x \<le> 1300"
proof -
  let ?c = "cr_highest_class_ever r" and ?m = "cr_total_xnfts_minted r"
  have c32: "unat (ucast ?c :: u32) = unat ?c"
    using assms(1) by (simp add: unsigned_ucast_eq take_bit_nat_eq_self_iff)
  have m50: "unat (min ?m 50) = min (unat ?m) 50" by (simp add: min_def word_le_nat_alt)
  have "\<exists>x :: u32. unat x = unat ?c * 100" by (rule ex_unat) (use assms(1) in simp)
  then obtain cp :: u32 where cp: "unat cp = unat ?c * 100" ..
  have "\<exists>x :: u32. unat x = min (unat ?m) 50 * 10" by (rule ex_unat) (simp add: min_def)
  then obtain mp :: u32 where mp: "unat mp = min (unat ?m) 50 * 10" ..
  obtain fr :: u32 where fr: "(if 0 < cr_total_xnt_committed r
      then and_then (mul_ov (cr_total_xnt_fulfilled r) 100) (\<lambda>m. Ok (ucast (m div cr_total_xnt_committed r)))
      else Ok 0) = Inr fr"
    and u: "unat fr = unat (cr_total_xnt_fulfilled r) * 100 div unat (cr_total_xnt_committed r)" "unat fr \<le> 100"
    using fulfilled_ratio_Ok [OF assms(2,3)] by blast
  have "\<exists>x :: u32. unat x = unat cp + unat mp" by (rule ex_unat) (use assms(1) cp mp in simp)
  then obtain y :: u32 where y: "unat y = unat cp + unat mp" ..
  have "\<exists>x :: u32. unat x = unat y + unat fr" by (rule ex_unat) (use assms(1) cp mp y u in simp)
  then obtain x :: u32 where x: "unat x = unat y + unat fr" ..
  have "mul_ov (ucast ?c :: u32) 100 = Inr cp" "mul_ov (min ?m 50) 10 = Inr mp"
    "add_ov cp mp = Inr y" "add_ov y fr = Inr x"
    by (simp_all add: ov_eq_Ok c32 m50 cp mp y x)
  then have "compute_score r = Inr x" "fulfillment_compute_score r = Inr x"
    using fr by (simp_all add: compute_score_def fulfillment_compute_score_def)
  then show ?thesis using assms(1) x y cp mp u by auto
qed

theorem compute_score_points_witness:
  "\<exists>x. compute_score (zero_commitment_record\<lparr>cr_highest_class_ever := 3, cr_total_xnfts_minted := 2,
       cr_total_xnt_committed := 8000, cr_total_xnt_fulfilled := 6000\<rparr>) = Inr x \<and> unat x = 395"
  using compute_score_points [of "zero_commitment_record\<lparr>cr_highest_class_ever := 3,
       cr_total_xnfts_minted := 2, cr_total_xnt_committed := 8000, cr_total_xnt_fulfilled := 6000\<rparr>"]
  by auto

end
