(* ===== verification/Vow_Program.thy ===== *)
theory Vow_Program
  imports Vow_Treasury Vow_Admin Vow_Commitment
begin

text \<open>
  The program as a whole (\<^verbatim>\<open>lib.rs\<close>): its instructions with the accounts and
  arguments they are called with, the dispatch, and what any sequence of successful
  instructions can lead to while other programs run in between. Every instruction except
  the closing of the configuration is a step of the abstract protocol, so the invariants
  of \<^verbatim>\<open>Vow_Spec\<close> hold of every ledger reachable without it, and those that survive the
  closing (locale \<open>closing_invariant\<close>) of every reachable ledger.
\<close>

section \<open>Instructions\<close>

datatype (plugins only: code) instruction =
    Initialize pubkey pubkey pubkey pubkey pubkey pubkey pubkey
      \<comment> \<open>config, reserve, pool, admin, system program; stake pool, pool mint\<close>
  | SetAdmin pubkey pubkey pubkey \<comment> \<open>config, admin, new admin\<close>
  | CloseProtocolConfig pubkey pubkey \<comment> \<open>config, admin\<close>
  | SetMintCounter pubkey pubkey u64 \<comment> \<open>config, admin; counter\<close>
  | DevSetSharePrice pubkey pubkey u128 \<comment> \<open>config, admin; price\<close>
  | DevFastUnlock pubkey pubkey pubkey \<comment> \<open>config, identity, admin\<close>
  | RegisterApp pubkey pubkey pubkey pubkey \<comment> \<open>registry, payer, system program; program\<close>
  | VerifyApp pubkey pubkey pubkey \<comment> \<open>registry, config, admin\<close>
  | BlockApp pubkey pubkey pubkey
  | UpdateSharePrice pubkey pubkey \<comment> \<open>config, pool\<close>
  | FlushReserveToPool pubkey pubkey pool_keys pubkey
      \<comment> \<open>config, reserve, pool accounts, system program\<close>
  | WithdrawFromPool pubkey pubkey pubkey pool_keys pubkey pubkey pubkey
      \<comment> \<open>config, reserve, escrow, pool accounts, clock, stake history, stake program\<close>
  | AddStake pubkey pubkey pubkey pubkey pubkey u64
      \<comment> \<open>config, identity, reserve, owner, system program; lamports\<close>
  | MintVow pubkey pubkey pubkey pubkey pubkey pubkey u64 yield_mode
      \<comment> \<open>config, asset id, identity, reserve, owner, system program; stake, mode\<close>
  | UpdateYieldMode pubkey pubkey pubkey yield_mode \<comment> \<open>config, identity, owner; mode\<close>
  | BeginUnstake pubkey pubkey pubkey pubkey pubkey
      \<comment> \<open>config, identity, escrow, owner, system program\<close>
  | CompleteUnstake pubkey pubkey pubkey pubkey pubkey pubkey pubkey
      \<comment> \<open>config, identity, escrow, reserve, owner, system program, clock\<close>
  | ActivateStake pubkey pubkey pubkey pubkey pubkey u64 yield_mode
      \<comment> \<open>config, identity, reserve, owner, system program; stake, mode\<close>
  | Harvest pubkey pubkey \<comment> \<open>config, identity\<close>
  | CreateSession pubkey pubkey pubkey "pubkey option" pubkey pubkey pubkey "pubkey list"
      session_params u32
      \<comment> \<open>config, identity, session, profile, owner, system program; key, programs, limits, index\<close>
  | RevokeSession pubkey pubkey pubkey \<comment> \<open>identity, session, owner\<close>
  | CloseSession pubkey pubkey pubkey
  | DepositYieldBalance pubkey pubkey pubkey pubkey pubkey pubkey u64
      \<comment> \<open>config, identity, reserve, depositor, system program, escrow; amount\<close>
  | YieldSpend pubkey pubkey pubkey pubkey "pubkey option" pubkey pubkey pubkey pubkey u64
      \<comment> \<open>config, identity, session, caller, registry, reserve, destination, signer, system
           program; amount\<close>
  | WithdrawYield pubkey pubkey pubkey pubkey pubkey "u64 option"
      \<comment> \<open>config, identity, reserve, owner, system program; amount\<close>
  | CreateAuthorityProfile pubkey pubkey pubkey "byte list" authority_profile_params
      \<comment> \<open>profile, wallet, system program; id, defaults\<close>
  | UpdateAuthorityProfile pubkey pubkey authority_profile_params
  | CloseAuthorityProfile pubkey pubkey
  | RecordCommitment pubkey pubkey pubkey pubkey pubkey
      \<comment> \<open>record, identity, gate, payer, system program\<close>
  | RecordFulfillment pubkey pubkey pubkey pubkey pubkey

fun exec :: "env \<Rightarrow> tx \<Rightarrow> instruction \<Rightarrow> ledger \<Rightarrow> ledger result" where
  "exec E X (Initialize ck rk pk ad sp pool mint) s = initialize E X ck rk pk ad sp pool mint s"
| "exec E X (SetAdmin ck ad na) s = set_admin E X ck ad na s"
| "exec E X (CloseProtocolConfig ck ad) s = close_protocol_config E X ck ad s"
| "exec E X (SetMintCounter ck ad n) s = set_mint_counter E X ck ad n s"
| "exec E X (DevSetSharePrice ck ad p) s = dev_set_share_price E X ck ad p s"
| "exec E X (DevFastUnlock ck vk ad) s = dev_fast_unlock E X ck vk ad s"
| "exec E X (RegisterApp ak pa sp pid) s = register_app E X ak pa sp pid s"
| "exec E X (VerifyApp ak ck ad) s = verify_app E X ak ck ad s"
| "exec E X (BlockApp ak ck ad) s = block_app E X ak ck ad s"
| "exec E X (UpdateSharePrice ck pk) s = update_share_price E X ck pk s"
| "exec E X (FlushReserveToPool ck rk K sp) s = flush_reserve_to_pool E X ck rk K sp s"
| "exec E X (WithdrawFromPool ck rk ek K cl sh st) s = withdraw_from_pool E X ck rk ek K cl sh st s"
| "exec E X (AddStake ck vk rk ow sp n) s = add_stake E X ck vk rk ow sp n s"
| "exec E X (MintVow ck ai vk rk ow sp n m) s = mint_vow E X ck ai vk rk ow sp n m s"
| "exec E X (UpdateYieldMode ck vk ow m) s = update_yield_mode E X ck vk ow m s"
| "exec E X (BeginUnstake ck vk ek ow sp) s = begin_unstake E X ck vk ek ow sp s"
| "exec E X (CompleteUnstake ck vk ek rk ow sp cl) s = complete_unstake E X ck vk ek rk ow sp cl s"
| "exec E X (ActivateStake ck vk rk ow sp n m) s = activate_stake E X ck vk rk ow sp n m s"
| "exec E X (Harvest ck vk) s = harvest E X ck vk s"
| "exec E X (CreateSession ck vk sk pr ow sp key ids params i) s =
     create_session E X ck vk sk pr ow sp key ids params i s"
| "exec E X (RevokeSession vk sk ow) s = revoke_session E X vk sk ow s"
| "exec E X (CloseSession vk sk ow) s = close_session E X vk sk ow s"
| "exec E X (DepositYieldBalance ck vk rk de sp ek n) s =
     deposit_yield_balance E X ck vk rk de sp ek n s"
| "exec E X (YieldSpend ck vk sk cp ak rk de sg sp n) s =
     yield_spend E X ck vk sk cp ak rk de sg sp n s"
| "exec E X (WithdrawYield ck vk rk ow sp n) s = withdraw_yield E X ck vk rk ow sp n s"
| "exec E X (CreateAuthorityProfile pk w sp pid params) s =
     create_authority_profile E X pk w sp pid params s"
| "exec E X (UpdateAuthorityProfile pk w params) s = update_authority_profile E X pk w params s"
| "exec E X (CloseAuthorityProfile pk w) s = close_authority_profile E X pk w s"
| "exec E X (RecordCommitment rk vk gk pa sp) s = record_commitment E X rk vk gk pa sp s"
| "exec E X (RecordFulfillment rk vk gk pa sp) s = record_fulfillment E X rk vk gk pa sp s"

fun is_close_config :: "instruction \<Rightarrow> bool" where
  "is_close_config (CloseProtocolConfig _ _) = True"
| "is_close_config _ = False"

text \<open>The instructions that call into the stake pool program.\<close>

fun is_pool_call :: "instruction \<Rightarrow> bool" where
  "is_pool_call (FlushReserveToPool _ _ _ _) = True"
| "is_pool_call (WithdrawFromPool _ _ _ _ _ _ _) = True"
| "is_pool_call _ = False"

text \<open>The configuration and the admin of an administrative instruction.\<close>

fun admin_of :: "instruction \<Rightarrow> (pubkey \<times> pubkey) option" where
  "admin_of (SetAdmin ck ad _) = Some (ck, ad)"
| "admin_of (SetMintCounter ck ad _) = Some (ck, ad)"
| "admin_of (DevSetSharePrice ck ad _) = Some (ck, ad)"
| "admin_of (DevFastUnlock ck _ ad) = Some (ck, ad)"
| "admin_of (VerifyApp _ ck ad) = Some (ck, ad)"
| "admin_of (BlockApp _ ck ad) = Some (ck, ad)"
| "admin_of (CloseProtocolConfig ck ad) = Some (ck, ad)"
| "admin_of _ = None"

fun is_dev_call :: "instruction \<Rightarrow> bool" where
  "is_dev_call (DevSetSharePrice _ _ _) = True"
| "is_dev_call (DevFastUnlock _ _ _) = True"
| "is_dev_call _ = False"

text \<open>What a recording records: commitment or fulfilment, the record and the identity.\<close>

fun recording :: "instruction \<Rightarrow> (bool \<times> pubkey \<times> pubkey) option" where
  "recording (RecordCommitment rk vk _ _ _) = Some (True, rk, vk)"
| "recording (RecordFulfillment rk vk _ _ _) = Some (False, rk, vk)"
| "recording _ = None"

lemma recording_eq_Some:
  assumes "recording ix = Some (b, rk, vk)"
  obtains gk p sp where "ix = (if b then RecordCommitment rk vk gk p sp else RecordFulfillment rk vk gk p sp)"
  using assms that by (cases ix rule: recording.cases) auto

lemma recording_gate:
  assumes "exec E X ix s = Inr s'" and "recording ix = Some (b, rk, vk)"
  obtains gk c where "en_find_program_address E (if b then cr_commit_seeds rk vk
      else cr_fulfill_seeds rk vk) (en_program_id E) = Some (gk, c)"
    and "lg_accts s gk = None" and "is_gate (lg_accts s' gk)"
  using assms(2)
proof (rule recording_eq_Some)
  fix gk p sp
  assume "ix = (if b then RecordCommitment rk vk gk p sp else RecordFulfillment rk vk gk p sp)"
  with assms(1) that show ?thesis
    by (cases b) (auto elim!: record_commitment_gate record_fulfillment_gate)
qed

section \<open>Every instruction is a protocol step\<close>

lemmas instruction_steps =
  initialize_step(1) admin_config_steps dev_fast_unlock_step register_app_step(1)
  app_admin_steps update_share_price_step(1)
  add_stake_step(1) mint_vow_step(1) update_yield_mode_step(1) begin_unstake_step(1)
  complete_unstake_step(1) activate_stake_step(1) harvest_step(1) create_session_step(1)
  revoke_session_step(1) close_session_step(1) deposit_yield_balance_step(1)
  yield_spend_step(1) withdraw_yield_step(1) create_authority_profile_step(1)
  update_authority_profile_step(1) close_authority_profile_step(1) record_commitment_step(1)
  record_fulfillment_step(1)

lemmas instruction_lamports =
  initialize_step(2) register_app_step(2) add_stake_step(2) mint_vow_step(2)
  update_yield_mode_step(2) begin_unstake_step(2) complete_unstake_step(2)
  activate_stake_step(2) harvest_step(2) create_session_step(2) revoke_session_step(2)
  close_session_step(2) deposit_yield_balance_step(2) yield_spend_step(2)
  withdraw_yield_step(2) create_authority_profile_step(2) update_authority_profile_step(2)
  close_authority_profile_step(2) record_commitment_step(2) record_fulfillment_step(2)

lemma exec_step:
  assumes "cpi_frame E" and "exec E X ix s = Inr s'" and "\<not> is_close_config ix"
  shows "acct_step E (lg_accts s) (lg_accts s')"
  using assms(2,3) by (cases ix) (auto intro: instruction_steps
      flush_reserve_to_pool_step [OF assms(1)] withdraw_from_pool_step [OF assms(1)])

lemma exec_lamports:
  assumes "exec E X ix s = Inr s'" and "\<not> is_pool_call ix"
  shows "sum_lamports s' = sum_lamports s"
  using assms
  by (cases ix)
    (auto intro: instruction_lamports sum_lamports_cong admin_lamports update_share_price_step(2)
      elim: close_protocol_configE)

section \<open>Runs\<close>

definition genesis :: "ledger \<Rightarrow> bool" where
  "genesis s \<longleftrightarrow> (\<forall>k. \<not> program_owned (lg_accts s k))"

text \<open>What other programs do between two instructions.\<close>

definition external :: "ledger \<Rightarrow> ledger \<Rightarrow> bool" where
  "external s s' \<longleftrightarrow>
     (\<forall>k. lg_accts s' k \<noteq> lg_accts s k \<longrightarrow>
        \<not> program_owned (lg_accts s k) \<and> \<not> program_owned (lg_accts s' k))"

text \<open>
  Runs of the program from one ledger to another: successful instructions, restricted to
  those that are allowed, and the work of other programs, through ledgers that satisfy a
  side condition.
\<close>

inductive runs ::
    "env \<Rightarrow> (instruction \<Rightarrow> bool) \<Rightarrow> (accts \<Rightarrow> bool) \<Rightarrow> ledger \<Rightarrow> ledger \<Rightarrow> bool"
  for E allowed ok s where
  start: "runs E allowed ok s s"
| instr: "runs E allowed ok s s' \<Longrightarrow> exec E X ix s' = Ok s'' \<Longrightarrow> allowed ix \<Longrightarrow> ok (lg_accts s'') \<Longrightarrow>
    runs E allowed ok s s''"
| other: "runs E allowed ok s s' \<Longrightarrow> external s' s'' \<Longrightarrow> ok (lg_accts s'') \<Longrightarrow>
    runs E allowed ok s s''"

definition reachable :: "env \<Rightarrow> (instruction \<Rightarrow> bool) \<Rightarrow> (accts \<Rightarrow> bool) \<Rightarrow> ledger \<Rightarrow> bool" where
  "reachable E allowed ok s \<longleftrightarrow> (\<exists>s0. genesis s0 \<and> runs E allowed ok s0 s)"

definition keeps_config :: "instruction \<Rightarrow> bool" where
  "keeps_config ix \<longleftrightarrow> \<not> is_close_config ix"

lemma external_step: "external s s' \<Longrightarrow> acct_step E (lg_accts s) (lg_accts s')"
  by (rule acct_step.peripheral) (use core_owned gate_owned in \<open>auto simp: external_def\<close>)

context step_invariant
begin

lemma reachable_keeps:
  assumes "cpi_frame E" and "reachable E keeps_config ok s"
  shows "P (lg_accts s)"
proof -
  from assms(2) obtain s0 where g: "genesis s0" and r: "runs E keeps_config ok s0 s"
    unfolding reachable_def by blast
  have P0: "P (lg_accts s0)"
    by (rule initially) (use g core_owned in \<open>auto simp: genesis_def\<close>)
  from r P0 show ?thesis
  proof (induction rule: runs.induct)
    case (instr s' X ix s'')
    then show ?case
      using exec_step [OF assms(1) instr(2)] step_keeps by (auto simp: keeps_config_def)
  next
    case (other s' s'')
    then show ?case using external_step step_keeps by blast
  qed
qed

end

section \<open>Histories that survive the closing of the configuration\<close>

lemma exec_cases:
  assumes "cpi_frame E" and "exec E X ix s = Inr s'"
  obtains (step) "acct_step E (lg_accts s) (lg_accts s')"
  | (closed) k b x where "en_find_program_address E config_seeds (en_program_id E) = Some (k, b)"
      and "lg_accts s' = (lg_accts s)(k := x)" and "\<not> core x"
proof (cases "is_close_config ix")
  case True
  then obtain ck ad where "ix = CloseProtocolConfig ck ad" by (cases ix) auto
  with assms(2) closed show ?thesis by (auto elim: close_protocol_configE)
next
  case False
  with exec_step [OF assms] step show ?thesis by blast
qed

lemma exec_placed:
  assumes "cpi_frame E" and "exec E X ix s = Inr s'" and "well_placed E (lg_accts s)"
  shows "well_placed E (lg_accts s')"
  using assms(1,2)
proof (cases rule: exec_cases)
  case step
  then show ?thesis using assms(3) by (rule well_placed_step)
next
  case (closed k b x)
  then show ?thesis using assms(3) by (simp add: well_placed_upd not_core_placed)
qed

lemma runs_placed:
  assumes "cpi_frame E" and "runs E allowed ok s s'" and "well_placed E (lg_accts s)"
  shows "well_placed E (lg_accts s')"
  using assms(2,3)
proof (induction rule: runs.induct)
  case (instr s' X ix s'')
  then show ?case using exec_placed [OF assms(1)] by blast
next
  case (other s' s'')
  then show ?case using external_step well_placed_step by blast
qed

lemma reachable_placed:
  assumes "cpi_frame E" and "reachable E allowed ok s"
  shows "well_placed E (lg_accts s)"
proof -
  from assms(2) obtain s0 where g: "genesis s0" and r: "runs E allowed ok s0 s"
    unfolding reachable_def by blast
  have "well_placed E (lg_accts s0)"
    by (rule placement.initially) (use g core_owned in \<open>auto simp: genesis_def\<close>)
  with runs_placed [OF assms(1) r] show ?thesis .
qed

text \<open>No identity and no session lives at the configuration's address.\<close>

lemma other_seeds_not_config:
  assumes "pda_sound E" and "pda_collision_free E"
    and "en_find_program_address E config_seeds (en_program_id E) = Some (k, b)"
    and "en_find_program_address E seeds (en_program_id E) = Some (k, c)"
  shows "length (concat seeds) = length (concat config_seeds)"
proof -
  have "en_create_program_address E (seeds @ [[c]]) (en_program_id E) = Some k"
    "en_create_program_address E (config_seeds @ [[b]]) (en_program_id E) = Some k"
    using assms by (simp_all add: pda_sound_def)
  then have "concat (seeds @ [[c]]) = concat (config_seeds @ [[b]])"
    using assms(2) unfolding pda_collision_free_def by blast
  from arg_cong [OF this, of length] show ?thesis by simp
qed

lemma config_address_free:
  assumes "pda_sound E" and "pda_collision_free E" and "well_placed E a"
    and "en_find_program_address E config_seeds (en_program_id E) = Some (k, b)"
  shows "a k \<noteq> Some (VowAcct v)" and "a k \<noteq> Some (SessionAcct se)"
  using other_seeds_not_config [OF assms(1,2,4)] well_placedD [OF assms(3), of k "Some _"]
  by (fastforce simp: vow_seeds_def session_seeds_def config_seeds_def)+

text \<open>
  An invariant that survives the closing of the configuration holds in every history, whatever
  instructions are allowed in it.
\<close>

locale closing_invariant = step_invariant E "\<lambda>_. True" P for E P +
  assumes closing_keeps: "well_placed E a \<Longrightarrow>
      en_find_program_address E config_seeds (en_program_id E) = Some (k, b) \<Longrightarrow> \<not> core x \<Longrightarrow>
      P a \<Longrightarrow> P (a(k := x))"
begin

lemma always:
  assumes "cpi_frame E" and "reachable E allowed ok s"
  shows "P (lg_accts s)"
proof -
  from assms(2) obtain s0 where g: "genesis s0" and r: "runs E allowed ok s0 s"
    unfolding reachable_def by blast
  have none: "\<not> core (lg_accts s0 k)" for k using g core_owned by (auto simp: genesis_def)
  from r initially [OF none] show ?thesis
  proof (induction rule: runs.induct)
    case (instr s' X ix s'')
    have "well_placed E (lg_accts s')"
      by (rule runs_placed [OF assms(1) instr(1) placement.initially [OF none]])
    with exec_cases [OF assms(1) instr(2)] instr(5,6) step_keeps closing_keeps show ?case
      by metis
  next
    case (other s' s'')
    then show ?case using external_step step_keeps by blast
  qed
qed

end

interpretation all_sessions: closing_invariant E sessions_ok for E
  by unfold_locales (auto simp: sessions_ok_def)

interpretation all_tiers: closing_invariant E tiers_ok for E
  by unfold_locales (auto simp: tiers_ok_def)

interpretation all_escrows: closing_invariant E
    "\<lambda>a. well_placed E a \<and> (pda_sound E \<and> pda_collision_free E \<longrightarrow> escrows_ok a)" for E
  by unfold_locales
    (auto intro!: well_placed_upd not_core_placed escrows_upd_other dest: config_address_free)

lemma runs_identities:
  assumes "cpi_frame E" and "pda_sound E" and "pda_collision_free E"
    and "runs E allowed ok s s'" and "well_placed E (lg_accts s)"
  shows "identities_persist (lg_accts s) (lg_accts s')"
  using assms(4)
proof (induction rule: runs.induct)
  case start
  then show ?case by (rule identities.refl)
next
  case (instr s' X ix s'')
  have wp: "well_placed E (lg_accts s')" using runs_placed [OF assms(1) instr(1) assms(5)] .
  from assms(1) instr(2) have "identities_persist (lg_accts s') (lg_accts s'')"
  proof (cases rule: exec_cases)
    case (closed k b x)
    with config_address_free [OF assms(2,3) wp] show ?thesis
      by (auto simp: identities_persist_def)
  qed (rule identities.step_respects)
  with instr.IH show ?case by (rule identities.trans)
next
  case (other s' s'')
  then show ?case
    using external_step [of s' s'' E] identities.step_respects identities.trans by blast
qed

text \<open>No gate lives at the configuration's address, so gates survive its closing too.\<close>

lemma gate_not_config:
  assumes "pda_sound E" and "pda_collision_free E"
    and "en_find_program_address E config_seeds (en_program_id E) = Some (k, b)"
    and "en_find_program_address E seeds (en_program_id E) = Some (gk, c)"
    and "seeds = cr_commit_seeds rk vk \<or> seeds = cr_fulfill_seeds rk vk"
  shows "gk \<noteq> k"
  using other_seeds_not_config [OF assms(1-3), of seeds c] assms(4,5)
  by (auto simp: cr_commit_seeds_def cr_fulfill_seeds_def config_seeds_def)

lemma runs_gate:
  assumes "cpi_frame E" and "pda_sound E" and "pda_collision_free E" and "runs E allowed ok s s'"
    and "en_find_program_address E seeds (en_program_id E) = Some (gk, c)"
    and "seeds = cr_commit_seeds rk vk \<or> seeds = cr_fulfill_seeds rk vk"
    and "is_gate (lg_accts s gk)"
  shows "is_gate (lg_accts s' gk)"
  using assms(4)
proof (induction rule: runs.induct)
  case start
  then show ?case by (rule assms(7))
next
  case (instr s' X ix s'')
  from assms(1) instr(2) show ?case
  proof (cases rule: exec_cases)
    case step
    from gates.step_respects [OF this] instr.IH show ?thesis by (auto simp: gates_persist_def)
  next
    case (closed k b x)
    with gate_not_config [OF assms(2,3) closed(1) assms(5,6)] instr.IH show ?thesis by simp
  qed
next
  case (other s' s'')
  with gates.step_respects [OF external_step [OF other(2)]] show ?case
    by (auto simp: gates_persist_def)
qed

section \<open>Sequences of instructions\<close>

fun run :: "env \<Rightarrow> tx \<Rightarrow> instruction list \<Rightarrow> ledger \<Rightarrow> ledger result" where
  "run E X [] s = Ok s"
| "run E X (ix # ixs) s = and_then (exec E X ix s) (run E X ixs)"

lemma runs_trans:
  assumes "runs E allowed ok s s'" and "runs E allowed ok s' s''"
  shows "runs E allowed ok s s''"
  using assms(2,1) by (induction rule: runs.induct) (auto intro: runs.intros)

text \<open>A sequence all of whose ledgers satisfy a side condition.\<close>

fun run_within :: "env \<Rightarrow> tx \<Rightarrow> (accts \<Rightarrow> bool) \<Rightarrow> instruction list \<Rightarrow> ledger \<Rightarrow> bool" where
  "run_within E X ok [] s \<longleftrightarrow> True"
| "run_within E X ok (ix # ixs) s \<longleftrightarrow>
     (case exec E X ix s of Inl _ \<Rightarrow> False
      | Inr s' \<Rightarrow> ok (lg_accts s') \<and> run_within E X ok ixs s')"

lemma run_within_runs:
  assumes "run_within E X ok ixs s" and "run E X ixs s = Inr s'" and "list_all allowed ixs"
  shows "runs E allowed ok s s'"
  using assms
proof (induction ixs arbitrary: s)
  case Nil
  then show ?case by (simp add: runs.start)
next
  case (Cons ix ixs)
  then obtain s1 where e: "exec E X ix s = Inr s1" and r: "run E X ixs s1 = Inr s'"
    by (auto simp: and_then_eq_Ok)
  with Cons have "runs E allowed ok s1 s'" by simp
  moreover have "runs E allowed ok s s1"
    using runs.instr [OF runs.start e] Cons.prems e by simp
  ultimately show ?case using runs_trans by blast
qed

lemma run_runs:
  assumes "run E X ixs s = Inr s'" and "list_all allowed ixs"
  shows "runs E allowed (\<lambda>_. True) s s'"
proof -
  have "run_within E X (\<lambda>_. True) ixs s" using assms(1)
    by (induction ixs arbitrary: s) (auto simp: and_then_eq_Ok)
  then show ?thesis using assms by (rule run_within_runs)
qed

end
