(* ===== verification/Vow_History.thy ===== *)
theory Vow_History
  imports Vow_Program
begin

text \<open>
  A history of the program on the concrete chain of \<^verbatim>\<open>Vow_Demo\<close>, evaluated
  instruction by instruction: the protocol is opened, an identity is minted, a session is
  granted, yield is deposited and partly spent by the session key, the lock is lifted and
  unstaking begins. The two ledgers it passes through are the inputs of the witnesses of
  the theorems about reachable ledgers.
\<close>

definition demo_params :: session_params where
  "demo_params = \<lparr>sp_expiry_ts = 0, sp_daily_limit = 500000000,
     sp_lifetime_limit = 2000000000, sp_velocity_limit = 3\<rparr>"

definition demo_history :: "instruction list" where
  "demo_history =
     [Initialize 1 2 40 4 3 0 0, MintVow 1 5 6 2 4 3 5000000000 Treasury,
      CreateSession 1 6 8 None 4 3 21 [20] demo_params 0,
      DepositYieldBalance 1 6 2 4 3 7 1000000000,
      YieldSpend 1 6 8 20 None 2 22 21 3 200000000]"

definition demo_unstake :: "instruction list" where
  "demo_unstake = [DevFastUnlock 1 6 4, BeginUnstake 1 6 7 4 3]"

definition used_config :: protocol_config where
  "used_config =
     \<lparr>pc_admin = 4, pc_current_share_price = 1000000000000, pc_total_shares = 5000000000,
      pc_total_yield_claims = 800000000, pc_last_pool_lamports = 0, pc_total_minted = 1,
      pc_merkle_tree = 0, pc_total_pending_unstake = 0, pc_spl_stake_pool = 0,
      pc_spl_pool_mint = 0, pc_reserve_bump = 255, pc_bump = 255\<rparr>"

definition used_vow :: vow_state where
  "used_vow =
     \<lparr>vs_asset_id = 5, vs_owner = 4, vs_class = 0, vs_nonce = 0,
      vs_principal_lamports = 5000000000, vs_shares = 5000000000,
      vs_last_share_price = 1000000000000, vs_accrued_gain = 0, vs_yield_mode = Treasury,
      vs_yield_balance = 800000000, vs_total_harvested = 0, vs_created_at = 1700000000,
      vs_unlock_at = 1702592000, vs_matured = False, vs_sessions_invalidated_at = 0,
      vs_active_stake = True, vs_session_nonce = 1, vs_first_staked_at = 1700000000,
      vs_current_stake_started_at = 1700000000, vs_total_commitments = 1,
      vs_total_fulfilled = 0, vs_cumulative_stake_days = 0, vs_highest_class_ever = 0,
      vs_bump = 255\<rparr>"

definition used_session :: session_account where
  "used_session =
     \<lparr>sa_vow_state = 6, sa_session_key = 21, sa_allowed_program_ids = 20 # replicate 7 0,
      sa_program_count = 1, sa_session_index = 0, sa_creation_nonce = 0,
      sa_start_ts = 1700000000, sa_expiry_ts = 0, sa_daily_limit = 500000000,
      sa_lifetime_limit = 2000000000, sa_velocity_limit = 3, sa_spent_today = 200000000,
      sa_spent_total = 200000000, sa_tx_count_today = 1, sa_last_reset_day = 19675,
      sa_active = True, sa_bump = 255\<rparr>"

definition demo_used :: ledger where
  "demo_used =
     \<lparr>lg_lamports = (\<lambda>_. 0)(1 := 890880, 6 := 890880, 8 := 890880, 4 := 993997327360,
        2 := 5800000000, 22 := 200000000),
      lg_accts = (\<lambda>_. None)(1 := Some (ConfigAcct used_config), 6 := Some (VowAcct used_vow),
        8 := Some (SessionAcct used_session)),
      lg_executable = (\<lambda>k. k = 3 \<or> k = 20),
      lg_logs =
        [ProtocolInitialized 4 0, VowMinted 5 4 0 5000000000 5000000000 1702592000,
         SessionCreated 6 21 0 0, YieldDeposited 5 4 1000000000,
         YieldSpent 5 21 20 200000000 22]\<rparr>"

definition unstaking_config :: protocol_config where
  "unstaking_config = used_config\<lparr>pc_total_shares := 0, pc_total_yield_claims := 0,
     pc_total_pending_unstake := 5800000000\<rparr>"

definition unstaking_vow :: vow_state where
  "unstaking_vow = used_vow\<lparr>vs_shares := 0, vs_yield_balance := 0, vs_unlock_at := 1,
     vs_matured := True\<rparr>"

definition unstaking_escrow :: unstake_escrow where
  "unstaking_escrow =
     \<lparr>ue_vow_state = 6, ue_owner = 4, ue_lamports_owed = 5800000000,
      ue_deactivation_epoch = 500, ue_bump = 255\<rparr>"

definition demo_unstaking :: ledger where
  "demo_unstaking =
     \<lparr>lg_lamports = (\<lambda>_. 0)(1 := 890880, 6 := 890880, 8 := 890880, 2 := 5800000000,
        22 := 200000000, 4 := 993996436480, 7 := 890880),
      lg_accts = (\<lambda>_. None)(8 := Some (SessionAcct used_session),
        1 := Some (ConfigAcct unstaking_config), 6 := Some (VowAcct unstaking_vow),
        7 := Some (EscrowAcct unstaking_escrow)),
      lg_executable = (\<lambda>k. k = 3 \<or> k = 20),
      lg_logs =
        [ProtocolInitialized 4 0, VowMinted 5 4 0 5000000000 5000000000 1702592000,
         SessionCreated 6 21 0 0, YieldDeposited 5 4 1000000000,
         YieldSpent 5 21 20 200000000 22, VowMatured 5 4 0, VowUnstakeBegun 5 4 5800000000]\<rparr>"

lemmas demo_open =
  initialize_def Initialize_accounts_def initialize_handler_def opening_price_def
  admin_config_def dev_fast_unlock_def SHARE_PRECISION_def

lemmas demo_stake =
  mint_vow_def MintVow_accounts_def mint_handler_def class_for_stake_def LAMPORTS_PER_XNT_def
  shares_for_lamports_def u64_as_u128_def lock_duration_def LOCK_SECONDS_def signed_add_ov_def
  signed_checked_add_def signed_of_int_def begin_unstake_def BeginUnstake_accounts_def
  begin_unstake_handler_def mark_matured_def settle_idnft_def position_value_def
  u128_as_u64_def

lemmas demo_spend =
  create_session_def CreateSession_accounts_def create_session_handler_def session_limits_def
  fill_program_ids_eq demo_params_def deposit_yield_balance_def DepositYieldBalance_accounts_def
  deposit_yield_balance_handler_def yield_spend_def YieldSpend_accounts_def
  yield_spend_handler_def session_of_vow_def session_authorises_def reset_daily_if_needed_def
  session_limits_allow_def

lemmas demo_ledgers =
  demo_used_def used_config_def used_vow_def used_session_def demo_unstaking_def
  unstaking_config_def unstaking_vow_def unstaking_escrow_def

lemma demo_history_run: "run demo_env demo_tx demo_history demo_ledger = Inr demo_used"
  by (simp add: demo_history_def demo_exec demo_open demo_stake demo_spend demo_ledgers)

lemma demo_unstake_run: "run demo_env demo_tx demo_unstake demo_used = Inr demo_unstaking"
  by (simp add: demo_unstake_def demo_exec demo_open demo_stake demo_ledgers fun_upd_twist)

lemma demo_genesis: "genesis demo_ledger"
  by (simp add: genesis_def demo_ledger_def)

lemma demo_used_reachable: "reachable demo_env keeps_config (\<lambda>_. True) demo_used"
  unfolding reachable_def
  by (intro exI conjI, rule demo_genesis, rule run_runs [OF demo_history_run])
    (simp add: demo_history_def keeps_config_def)

lemma demo_runs_unstaking: "runs demo_env keeps_config (\<lambda>_. True) demo_used demo_unstaking"
  by (rule run_runs [OF demo_unstake_run]) (simp add: demo_unstake_def keeps_config_def)

lemma demo_unstaking_reachable: "reachable demo_env keeps_config (\<lambda>_. True) demo_unstaking"
  using demo_used_reachable demo_runs_unstaking unfolding reachable_def by (blast intro: runs_trans)

lemma demo_history_bounded: "run_within demo_env demo_tx yield_bounded demo_history demo_ledger"
  by (simp add: demo_history_def demo_exec demo_open demo_stake demo_spend demo_ledgers
    yield_bounded_def total_over_eval total_over_empty)

lemma demo_used_bounded: "reachable demo_env keeps_config yield_bounded demo_used"
  unfolding reachable_def
  by (intro exI conjI, rule demo_genesis, rule run_within_runs [OF demo_history_bounded demo_history_run])
    (simp add: demo_history_def keeps_config_def)

end
