(* ===== verification/Toml_Lexer.thy ===== *)
theory Toml_Lexer
  imports Vow_Prelude
begin

text \<open>
  Decimal digits and the lexer of \<^verbatim>\<open>patches/toml_datetime/src/datetime.rs\<close>. A \<open>str\<close> is the
  list of its bytes, one \<open>char\<close> each. The numeral functions of the standard library that the
  crate uses (zero-padded formatting, parsing of unsigned integers at their width) come first,
  with the lemma that they invert each other.
\<close>

section \<open>Decimal numerals\<close>

definition is_ascii_digit :: "char \<Rightarrow> bool" where
  "is_ascii_digit c \<longleftrightarrow> 48 \<le> (of_char c :: nat) \<and> (of_char c :: nat) \<le> 57"

definition digit_value :: "char \<Rightarrow> nat" where
  "digit_value c = of_char c - 48"

definition digit_char :: "nat \<Rightarrow> char" where
  "digit_char n = char_of (48 + n)"

fun decimal :: "nat \<Rightarrow> string" where
  "decimal n = (if n < 10 then [digit_char n] else decimal (n div 10) @ [digit_char (n mod 10)])"

declare decimal.simps [simp del]

text \<open>\<open>{n:0w}\<close>: at least \<open>w\<close> characters, zeros on the left.\<close>

definition padded :: "nat \<Rightarrow> nat \<Rightarrow> string" where
  "padded w n = replicate (w - length (decimal n)) (CHR ''0'') @ decimal n"

primrec decimal_value :: "string \<Rightarrow> nat" where
  "decimal_value [] = 0"
| "decimal_value (c # s) = digit_value c * 10 ^ length s + decimal_value s"

text \<open>\<open>parse::<u8>\<close> and its like: checked multiplication and addition digit by digit.\<close>

fun parse_digits :: "'a::len word \<Rightarrow> string \<Rightarrow> 'a word option" where
  "parse_digits acc [] = Some acc"
| "parse_digits acc (c # cs) =
     (if is_ascii_digit c
      then Option.bind (checked_mul acc 10) (\<lambda>m.
           Option.bind (checked_add m (word_of_nat (digit_value c))) (\<lambda>a. parse_digits a cs))
      else None)"

definition parse_uint :: "string \<Rightarrow> 'a::len word option" where
  "parse_uint s =
     (case s of
        [] \<Rightarrow> None
      | c # cs \<Rightarrow> if c = CHR ''+'' \<and> cs \<noteq> [] then parse_digits 0 cs else parse_digits 0 s)"

lemma digit_char_simps [simp]:
  assumes "n < 10"
  shows "is_ascii_digit (digit_char n)" and "digit_value (digit_char n) = n"
  using assms by (simp_all add: digit_char_def is_ascii_digit_def digit_value_def)

lemma digit_value_le: "is_ascii_digit c \<Longrightarrow> digit_value c \<le> 9"
  by (auto simp: is_ascii_digit_def digit_value_def)

lemma zero_digit [simp]: "is_ascii_digit (CHR ''0'')" "digit_value (CHR ''0'') = 0"
  by (simp_all add: is_ascii_digit_def digit_value_def)

lemma decimal_value_append:
  "decimal_value (s @ t) = decimal_value s * 10 ^ length t + decimal_value t"
  by (induction s) (simp_all add: power_add algebra_simps)

lemma decimal_value_zeros [simp]: "decimal_value (replicate k (CHR ''0'')) = 0"
  by (induction k) simp_all

lemma decimal_value_less: "list_all is_ascii_digit s \<Longrightarrow> decimal_value s < 10 ^ length s"
proof (induction s)
  case (Cons c s)
  have "digit_value c * 10 ^ length s + decimal_value s < 9 * 10 ^ length s + 10 ^ length s"
    using Cons by (intro add_le_less_mono mult_le_mono1 digit_value_le) simp_all
  then show ?case by simp
qed simp

lemma decimal_not_Nil [simp]: "decimal n \<noteq> []"
  by (subst decimal.simps) simp

lemma decimal_digits: "list_all is_ascii_digit (decimal n) \<and> decimal_value (decimal n) = n"
proof (induction n rule: decimal.induct)
  case (1 n)
  then show ?case
    by (subst (1 2) decimal.simps) (auto simp: decimal_value_append)
qed

lemma decimal_length: "0 < w \<Longrightarrow> n < 10 ^ w \<Longrightarrow> length (decimal n) \<le> w"
proof (induction n arbitrary: w rule: decimal.induct)
  case (1 n)
  show ?case
  proof (cases "n < 10")
    case True
    then show ?thesis using 1(2) by (subst decimal.simps) simp
  next
    case False
    with 1(2,3) obtain v where v: "w = Suc v" "0 < v"
      by (cases w; cases "w - 1") auto
    then have "length (decimal (n div 10)) \<le> v"
      using 1(1) [OF False, of v] 1(3) by (simp add: less_mult_imp_div_less)
    then show ?thesis using False v by (subst decimal.simps) simp
  qed
qed

lemma padded_facts [simp]:
  "padded w n \<noteq> []" "list_all is_ascii_digit (padded w n)" "decimal_value (padded w n) = n"
  using decimal_digits [of n]
  by (auto simp: padded_def decimal_value_append list_all_iff)

lemma length_padded: "0 < w \<Longrightarrow> n < 10 ^ w \<Longrightarrow> length (padded w n) = w"
  using decimal_length [of w n] by (simp add: padded_def)

lemma parse_digits_eq_Some:
  fixes acc :: "'a::len word"
  assumes ten: "unat (10 :: 'a word) = 10" and "list_all is_ascii_digit s"
  shows "parse_digits acc s = Some r \<longleftrightarrow> unat r = unat acc * 10 ^ length s + decimal_value s"
  using assms(2)
proof (induction s arbitrary: acc)
  case Nil
  then show ?case by (auto simp: word_unat_eq_iff)
next
  case (Cons c s)
  have "(10 :: nat) < 2 ^ LENGTH('a)" using unat_less_pow [of "10 :: 'a word"] unfolding ten .
  then have d: "unat (word_of_nat (digit_value c) :: 'a word) = digit_value c"
    using Cons.prems digit_value_le [of c] by (simp add: unat_of_nat)
  have "parse_digits acc (c # s) = Some r \<longleftrightarrow>
      (\<exists>m a. checked_mul acc 10 = Some m \<and>
         checked_add m (word_of_nat (digit_value c)) = Some a \<and> parse_digits a s = Some r)"
    using Cons.prems by (auto simp: bind_eq_Some_conv)
  also have "\<dots> \<longleftrightarrow>
      (\<exists>(m :: 'a word) (a :: 'a word). unat m = unat acc * 10 \<and> unat a = unat m + digit_value c \<and>
         unat r = unat a * 10 ^ length s + decimal_value s)"
    using Cons.IH Cons.prems by (simp only: checked_mul_eq_Some checked_add_eq_Some ten d list.pred_inject(2))
  also have "\<dots> \<longleftrightarrow> unat r = unat acc * 10 ^ length (c # s) + decimal_value (c # s)"
  proof
    assume r: "unat r = unat acc * 10 ^ length (c # s) + decimal_value (c # s)"
    have "unat acc * 10 + digit_value c \<le> unat r"
      using mult_le_mono2 [of 1 "10 ^ length s" "unat acc * 10 + digit_value c"]
      by (simp add: r algebra_simps)
    then have "unat acc * 10 + digit_value c < 2 ^ LENGTH('a)"
      by (rule le_less_trans) (rule unat_less_pow)
    then obtain m a :: "'a word" where "unat m = unat acc * 10" "unat a = unat acc * 10 + digit_value c"
      using ex_unat [of "unat acc * 10", where 'a = 'a]
        ex_unat [of "unat acc * 10 + digit_value c", where 'a = 'a] by auto
    with r show "\<exists>(m :: 'a word) (a :: 'a word). unat m = unat acc * 10 \<and>
        unat a = unat m + digit_value c \<and> unat r = unat a * 10 ^ length s + decimal_value s"
      by (intro exI [of _ m] exI [of _ a]) (simp add: algebra_simps)
  qed (auto simp: algebra_simps)
  finally show ?case .
qed

lemma parse_uint_digits:
  assumes "list_all is_ascii_digit s" and "s \<noteq> []"
  shows "parse_uint s = parse_digits 0 s"
  using assms by (cases s) (auto simp: parse_uint_def is_ascii_digit_def)

text \<open>Printing and parsing a number at its width is a round trip.\<close>

lemma parse_uint_padded [simp]:
  "unat (10 :: 'a::len word) = 10 \<Longrightarrow> parse_uint (padded w (unat x)) = Some (x :: 'a word)"
  by (simp add: parse_uint_digits parse_digits_eq_Some)

lemma parse_uint_value:
  assumes "unat (10 :: 'a::len word) = 10" and "list_all is_ascii_digit s" and "s \<noteq> []"
    and "parse_uint s = Some (x :: 'a word)"
  shows "unat x = decimal_value s"
  using assms by (simp add: parse_uint_digits parse_digits_eq_Some)

section \<open>Lexer\<close>

datatype token_kind = Digits | Dash | Colon | Dot | T | Space | Z | Plus | Unknown

record token =
  tk_kind :: token_kind
  tk_raw :: string

text \<open>The next token and what is left of the stream.\<close>

definition lexer_next :: "string \<Rightarrow> (token \<times> string) option" where
  "lexer_next stream =
     (case stream of
        [] \<Rightarrow> None
      | c # _ \<Rightarrow>
          let (kind, n) =
            (if is_ascii_digit c then (Digits, length (takeWhile is_ascii_digit stream))
             else if c = CHR ''-'' then (Dash, 1)
             else if c = CHR '':'' then (Colon, 1)
             else if c = CHR ''T'' \<or> c = CHR ''t'' then (T, 1)
             else if c = CHR '' '' then (Space, 1)
             else if c = CHR ''Z'' \<or> c = CHR ''z'' then (Z, 1)
             else if c = CHR ''+'' then (Plus, 1)
             else if c = CHR ''.'' then (Dot, 1)
             else (Unknown, length stream))
          in Some (\<lparr>tk_kind = kind, tk_raw = take n stream\<rparr>, drop n stream))"

text \<open>Everything that is left, as one token.\<close>

definition lexer_unknown :: "string \<Rightarrow> (token \<times> string) option" where
  "lexer_unknown stream =
     (if stream = [] then None else Some (\<lparr>tk_kind = Unknown, tk_raw = stream\<rparr>, []))"

lemma lexer_next_digits:
  assumes "list_all is_ascii_digit ds" and "ds \<noteq> []"
    and "rest = [] \<or> \<not> is_ascii_digit (hd rest)"
  shows "lexer_next (ds @ rest) = Some (\<lparr>tk_kind = Digits, tk_raw = ds\<rparr>, rest)"
proof -
  from assms have "takeWhile is_ascii_digit (ds @ rest) = ds"
    by (cases rest) (auto simp: takeWhile_append2 list_all_iff)
  with assms(1,2) show ?thesis
    by (cases ds) (simp_all add: lexer_next_def)
qed

lemma lexer_next_Nil [simp]: "lexer_next [] = None"
  by (simp add: lexer_next_def)

lemma lexer_next_marks [simp]:
  "lexer_next (CHR ''-'' # s) = Some (\<lparr>tk_kind = Dash, tk_raw = ''-''\<rparr>, s)"
  "lexer_next (CHR '':'' # s) = Some (\<lparr>tk_kind = Colon, tk_raw = '':''\<rparr>, s)"
  "lexer_next (CHR ''T'' # s) = Some (\<lparr>tk_kind = T, tk_raw = ''T''\<rparr>, s)"
  "lexer_next (CHR ''Z'' # s) = Some (\<lparr>tk_kind = Z, tk_raw = ''Z''\<rparr>, s)"
  "lexer_next (CHR ''+'' # s) = Some (\<lparr>tk_kind = Plus, tk_raw = ''+''\<rparr>, s)"
  "lexer_next (CHR ''.'' # s) = Some (\<lparr>tk_kind = Dot, tk_raw = ''.''\<rparr>, s)"
  by (simp_all add: lexer_next_def is_ascii_digit_def)

lemma marks_not_digits [simp]:
  "\<not> is_ascii_digit (CHR ''-'')" "\<not> is_ascii_digit (CHR '':'')" "\<not> is_ascii_digit (CHR ''T'')"
  "\<not> is_ascii_digit (CHR ''Z'')" "\<not> is_ascii_digit (CHR ''+'')" "\<not> is_ascii_digit (CHR ''.'')"
  by (simp_all add: is_ascii_digit_def)

lemma lexer_next_padded [simp]:
  "\<not> is_ascii_digit c \<Longrightarrow>
     lexer_next (padded w n @ c # rest) = Some (\<lparr>tk_kind = Digits, tk_raw = padded w n\<rparr>, c # rest)"
  "lexer_next (padded w n) = Some (\<lparr>tk_kind = Digits, tk_raw = padded w n\<rparr>, [])"
  using lexer_next_digits [of "padded w n" "c # rest"] lexer_next_digits [of "padded w n" "[]"]
  by simp_all

text \<open>A token takes at least one byte, loses none, and a digit token holds digits only.\<close>

lemma lexer_next_split:
  assumes "lexer_next s = Some (t, rest)"
  obtains n where "tk_raw t = take n s" and "rest = drop n s" and "s \<noteq> []" and "0 < n"
    and "tk_kind t = Digits \<longrightarrow> n = length (takeWhile is_ascii_digit s)"
proof (cases s)
  case (Cons c cs)
  define n where "n = (if is_ascii_digit c then length (takeWhile is_ascii_digit s)
    else if tk_kind t = Unknown then length s else 1)"
  have "tk_raw t = take n s \<and> rest = drop n s \<and> (tk_kind t = Digits \<longrightarrow> is_ascii_digit c)"
    using assms unfolding lexer_next_def Cons list.case n_def Let_def
    by (simp split: if_split_asm add: split_beta del: takeWhile.simps take.simps drop.simps;
        (elim conjE)?; hypsubst; simp)
  moreover have "0 < n" by (simp add: n_def Cons)
  ultimately show ?thesis using that [of n] by (simp add: Cons n_def)
qed (use assms in simp)

lemma lexer_next_Some:
  assumes "lexer_next s = Some (t, rest)"
  shows "s = tk_raw t @ rest" and "tk_raw t \<noteq> []"
    and "tk_kind t = Digits \<Longrightarrow> list_all is_ascii_digit (tk_raw t)"
    and "tk_kind t = Digits \<Longrightarrow> rest = [] \<or> \<not> is_ascii_digit (hd rest)"
proof -
  from assms obtain n where n: "tk_raw t = take n s" "rest = drop n s" "s \<noteq> []" "0 < n"
    and k: "tk_kind t = Digits \<longrightarrow> n = length (takeWhile is_ascii_digit s)"
    by (rule lexer_next_split)
  from n show "s = tk_raw t @ rest" "tk_raw t \<noteq> []" by simp_all
  assume "tk_kind t = Digits"
  with n k have r: "tk_raw t = takeWhile is_ascii_digit s" "rest = dropWhile is_ascii_digit s"
    by (simp_all add: takeWhile_eq_take [symmetric] dropWhile_eq_drop [symmetric])
  then show "list_all is_ascii_digit (tk_raw t)" by (auto simp: list_all_iff dest: set_takeWhileD)
  show "rest = [] \<or> \<not> is_ascii_digit (hd rest)" using r hd_dropWhile by blast
qed

text \<open>All tokens of a stream: the loop of the iterator, which ends because tokens are not empty.\<close>

function lexer_collect :: "string \<Rightarrow> token list" where
  "lexer_collect s = (case lexer_next s of None \<Rightarrow> [] | Some (t, rest) \<Rightarrow> t # lexer_collect rest)"
  by auto

termination lexer_collect
proof (relation "measure length")
  fix s and p :: "token \<times> string" and t rest
  assume "lexer_next s = Some p" "(t, rest) = p"
  then have "s = tk_raw t @ rest" "tk_raw t \<noteq> []" by (auto dest: lexer_next_Some)
  then show "(rest, s) \<in> measure length" by simp
qed simp

declare lexer_collect.simps [simp del]

lemma lexer_collect_Nil [simp]: "lexer_collect [] = []"
  by (simp add: lexer_collect.simps)

text \<open>
  C23: the lexer, run to its end, stops, loses nothing and repeats nothing: the texts of its
  tokens are not empty and put together are the input.
\<close>

theorem lexer_lossless:
  "concat (map tk_raw (lexer_collect s)) = s \<and> [] \<notin> set (map tk_raw (lexer_collect s))"
proof (induction s rule: lexer_collect.induct)
  case (1 s)
  show ?case
  proof (cases "lexer_next s")
    case None
    then have "s = []" by (auto simp: lexer_next_def split_beta split: list.splits)
    then show ?thesis by simp
  next
    case (Some p)
    then obtain t rest where p: "lexer_next s = Some (t, rest)" by (cases p) simp
    have "lexer_collect s = t # lexer_collect rest" by (subst lexer_collect.simps) (simp add: p)
    with 1 [OF p refl] lexer_next_Some(1,2) [OF p] show ?thesis by simp
  qed
qed

end
