(* ===== verification/Toml_Datetime.thy ===== *)
theory Toml_Datetime
  imports Toml_Lexer
begin

text \<open>
  Date-time values of TOML (\<^verbatim>\<open>patches/toml_datetime/src/datetime.rs\<close>): the value types,
  \<open>Display\<close>, and \<open>FromStr\<close> over the lexer. The parser is split along its three phases, with
  every error it returns; \<open>Panic\<close> stands for the panics of the code (arithmetic overflow and
  the explicit one of \<open>s_to_nanoseconds\<close>).
\<close>

section \<open>Values and errors\<close>

type_synonym u16 = "16 word"
type_synonym i16 = "16 word" \<comment> \<open>read with \<open>sint\<close>\<close>

record date =
  dt_year :: u16
  dt_month :: u8
  dt_day :: u8

record time =
  tm_hour :: u8
  tm_minute :: u8
  tm_second :: "u8 option"
  tm_nanosecond :: "u32 option"

datatype offset = OffsetZ | Custom i16

record datetime =
  dtm_date :: "date option"
  dtm_time :: "time option"
  dtm_offset :: "offset option"

record datetime_parse_error =
  pe_what :: "string option"
  pe_expected :: "string option"

datatype failure = ParseError datetime_parse_error | Panic

definition parse_error_new :: datetime_parse_error where
  "parse_error_new = \<lparr>pe_what = None, pe_expected = None\<rparr>"

definition what :: "string \<Rightarrow> datetime_parse_error \<Rightarrow> datetime_parse_error" where
  "what w e = e\<lparr>pe_what := Some w\<rparr>"

definition expected :: "string \<Rightarrow> datetime_parse_error \<Rightarrow> datetime_parse_error" where
  "expected x e = e\<lparr>pe_expected := Some x\<rparr>"

definition fmt_parse_error :: "datetime_parse_error \<Rightarrow> string" where
  "fmt_parse_error e =
     (case pe_what e of Some w \<Rightarrow> ''invalid '' @ w | None \<Rightarrow> ''invalid datetime'') @
     (case pe_expected e of Some x \<Rightarrow> '', expected '' @ x | None \<Rightarrow> [])"

abbreviation bare_error :: failure where
  "bare_error \<equiv> ParseError parse_error_new"

abbreviation error_in :: "string \<Rightarrow> string \<Rightarrow> failure" where
  "error_in w x \<equiv> ParseError (expected x (what w parse_error_new))"

definition datetime_of_date :: "date \<Rightarrow> datetime" where
  "datetime_of_date d = \<lparr>dtm_date = Some d, dtm_time = None, dtm_offset = None\<rparr>"

definition datetime_of_time :: "time \<Rightarrow> datetime" where
  "datetime_of_time t = \<lparr>dtm_date = None, dtm_time = Some t, dtm_offset = None\<rparr>"

section \<open>Display\<close>

definition fmt_date :: "date \<Rightarrow> string" where
  "fmt_date d = padded 4 (unat (dt_year d)) @ ''-'' @ padded 2 (unat (dt_month d)) @ ''-'' @
     padded 2 (unat (dt_day d))"

definition trim_end_zeros :: "string \<Rightarrow> string" where
  "trim_end_zeros s = rev (dropWhile (\<lambda>c. c = CHR ''0'') (rev s))"

definition fmt_nanosecond :: "u32 \<Rightarrow> string" where
  "fmt_nanosecond n =
     (let s = trim_end_zeros (padded 9 (unat n)) in if s = [] then ''0'' else s)"

definition fmt_time :: "time \<Rightarrow> string" where
  "fmt_time t = padded 2 (unat (tm_hour t)) @ '':'' @ padded 2 (unat (tm_minute t)) @
     (let second = (case tm_second t of Some x \<Rightarrow> Some x
        | None \<Rightarrow> if tm_nanosecond t \<noteq> None then Some 0 else None) in
      case second of Some x \<Rightarrow> '':'' @ padded 2 (unat x) | None \<Rightarrow> []) @
     (case tm_nanosecond t of Some n \<Rightarrow> ''.'' @ fmt_nanosecond n | None \<Rightarrow> [])"

text \<open>Negating the most negative offset overflows; the result is \<open>None\<close> there.\<close>

definition fmt_offset :: "offset \<Rightarrow> string option" where
  "fmt_offset ofs =
     (case ofs of
        OffsetZ \<Rightarrow> Some ''Z''
      | Custom minutes \<Rightarrow>
          map_option (\<lambda>(sign, minutes).
            let hours = signed_div minutes 60;
                rest = word_of_int (sint minutes smod 60) :: i16 in
            sign # padded 2 (nat (sint hours)) @ '':'' @ padded 2 (nat (sint rest)))
          (if sint minutes < 0
           then map_option (\<lambda>m. (CHR ''-'', m)) (signed_checked_mul minutes (- 1))
           else Some (CHR ''+'', minutes)))"

definition fmt_datetime :: "datetime \<Rightarrow> string option" where
  "fmt_datetime dt =
     (let date = (case dtm_date dt of Some d \<Rightarrow> fmt_date d | None \<Rightarrow> []);
          time = (case dtm_time dt of
              Some t \<Rightarrow> (if dtm_date dt \<noteq> None then ''T'' else []) @ fmt_time t
            | None \<Rightarrow> []) in
      case dtm_offset dt of
        Some ofs \<Rightarrow> map_option (\<lambda>z. date @ time @ z) (fmt_offset ofs)
      | None \<Rightarrow> Some (date @ time))"

section \<open>Parsing\<close>

text \<open>\<open>lexer.next()\<close> that must give a token of one kind, with one error for both failures.\<close>

definition expect :: "token_kind \<Rightarrow> failure \<Rightarrow> string \<Rightarrow> failure + token \<times> string" where
  "expect kind e lexer =
     and_then (ok_or (lexer_next lexer) e) (\<lambda>(t, lexer).
     require (tk_kind t = kind) e (Ok (t, lexer)))"

text \<open>\<open>lexer.clone().next().map(|t| t.kind) == Some(kind)\<close>.\<close>

definition peek_is :: "token_kind \<Rightarrow> string \<Rightarrow> bool" where
  "peek_is kind lexer = (map_option (tk_kind \<circ> fst) (lexer_next lexer) = Some kind)"

definition max_days_in_month :: "u16 \<Rightarrow> u8 \<Rightarrow> u8 \<times> string" where
  "max_days_in_month year month =
     (let is_leap_year =
        (year mod 4 = 0) \<and> ((year mod 100 \<noteq> 0) \<or> (year mod 400 = 0)) in
      if month = 2 \<and> is_leap_year then (29, ''day between 01 and 29'')
      else if month = 2 then (28, ''day between 01 and 28'')
      else if month = 4 \<or> month = 6 \<or> month = 9 \<or> month = 11 then (30, ''day between 01 and 30'')
      else (31, ''day between 01 and 31''))"

definition parse_date :: "token \<Rightarrow> string \<Rightarrow> failure + date \<times> string" where
  "parse_date year lexer =
     and_then (expect Digits (error_in ''date'' ''month'') lexer) (\<lambda>(month, lexer).
     and_then (expect Dash (error_in ''date'' ''`-` (MM-DD)'') lexer) (\<lambda>(_, lexer).
     and_then (expect Digits (error_in ''date'' ''day'') lexer) (\<lambda>(day, lexer).
     require (length (tk_raw year) = 4) (error_in ''date'' ''a four-digit year (YYYY)'') (
     require (length (tk_raw month) = 2) (error_in ''date'' ''a two-digit month (MM)'') (
     require (length (tk_raw day) = 2) (error_in ''date'' ''a two-digit day (DD)'') (
     and_then (ok_or (parse_uint (tk_raw year)) bare_error) (\<lambda>y.
     and_then (ok_or (parse_uint (tk_raw month)) bare_error) (\<lambda>m.
     and_then (ok_or (parse_uint (tk_raw day)) bare_error) (\<lambda>d.
     require (1 \<le> m \<and> m \<le> 12) (error_in ''date'' ''month between 01 and 12'') (
     let (max_days, expected_day) = max_days_in_month y m in
     require (1 \<le> d \<and> d \<le> max_days) (error_in ''date'' expected_day) (
     Ok (\<lparr>dt_year = y, dt_month = m, dt_day = d\<rparr>, lexer))))))))))))"

text \<open>The loop of \<open>s_to_nanoseconds\<close> from index \<open>i\<close> on: digits after the ninth are dropped.\<close>

fun nanoseconds_from :: "nat \<Rightarrow> u32 \<Rightarrow> string \<Rightarrow> u32 option" where
  "nanoseconds_from i nanosecond [] = Some nanosecond"
| "nanoseconds_from i nanosecond (c # cs) =
     (if is_ascii_digit c then
        Option.bind
          (if i < 9 then
             Option.bind (checked_mul (10 ^ (8 - i)) (word_of_nat (digit_value c)))
               (checked_add nanosecond)
           else Some nanosecond)
          (\<lambda>nanosecond. nanoseconds_from (Suc i) nanosecond cs)
      else None)"

definition s_to_nanoseconds :: "string \<Rightarrow> u32 option" where
  "s_to_nanoseconds input = nanoseconds_from 0 0 input"

definition parse_second :: "string \<Rightarrow> failure + token option \<times> string" where
  "parse_second lexer =
     (if peek_is Colon lexer then
        and_then (expect Colon bare_error lexer) (\<lambda>(_, lexer).
        and_then (expect Digits (error_in ''time'' ''second'') lexer) (\<lambda>(second, lexer).
        Ok (Some second, lexer)))
      else Ok (None, lexer))"

definition parse_nanosecond :: "token option \<Rightarrow> string \<Rightarrow> failure + token option \<times> string" where
  "parse_nanosecond second lexer =
     (if second \<noteq> None \<and> peek_is Dot lexer then
        and_then (expect Dot bare_error lexer) (\<lambda>(_, lexer).
        and_then (expect Digits (error_in ''time'' ''nanosecond'') lexer) (\<lambda>(nanosecond, lexer).
        Ok (Some nanosecond, lexer)))
      else Ok (None, lexer))"

text \<open>\<open>Option::transpose\<close> of an optional token mapped to a result.\<close>

definition transposed :: "('a \<Rightarrow> failure + 'b) \<Rightarrow> 'a option \<Rightarrow> failure + 'b option" where
  "transposed f x = (case x of None \<Rightarrow> Ok None | Some a \<Rightarrow> and_then (f a) (\<lambda>b. Ok (Some b)))"

definition parse_time :: "string \<Rightarrow> failure + time \<times> string" where
  "parse_time lexer =
     and_then (expect Digits (error_in ''time'' ''hour'') lexer) (\<lambda>(hour, lexer).
     and_then (expect Colon (error_in ''time'' ''`:` (HH:MM)'') lexer) (\<lambda>(_, lexer).
     and_then (expect Digits (error_in ''time'' ''minute'') lexer) (\<lambda>(minute, lexer).
     and_then (parse_second lexer) (\<lambda>(second, lexer).
     and_then (parse_nanosecond second lexer) (\<lambda>(nanosecond, lexer).
     require (length (tk_raw hour) = 2) (error_in ''time'' ''a two-digit hour (HH)'') (
     require (length (tk_raw minute) = 2) (error_in ''time'' ''a two-digit minute (MM)'') (
     require (case second of Some t \<Rightarrow> length (tk_raw t) = 2 | None \<Rightarrow> True)
       (error_in ''time'' ''a two-digit second (SS)'') (
     and_then (ok_or (parse_uint (tk_raw hour)) bare_error) (\<lambda>h.
     and_then (ok_or (parse_uint (tk_raw minute)) bare_error) (\<lambda>m.
     and_then (transposed (\<lambda>t. ok_or (parse_uint (tk_raw t)) bare_error) second) (\<lambda>s.
     and_then (transposed (\<lambda>t. ok_or (s_to_nanoseconds (tk_raw t)) Panic) nanosecond) (\<lambda>n.
     require (h \<le> 23) (error_in ''time'' ''hour between 00 and 23'') (
     require (m \<le> 59) (error_in ''time'' ''minute between 00 and 59'') (
     require (unwrap_or s 0 \<le> 60) (error_in ''time'' ''second between 00 and 60'') (
     require (unwrap_or n 0 \<le> 999999999) (error_in ''time'' ''nanoseconds overflowed'') (
     Ok (\<lparr>tm_hour = h, tm_minute = m, tm_second = s, tm_nanosecond = n\<rparr>, lexer)))))))))))))))))"

text \<open>\<open>sign * (hours as i16 * 60 + minutes as i16)\<close>, checked.\<close>

definition total_minutes :: "i16 \<Rightarrow> u8 \<Rightarrow> u8 \<Rightarrow> i16 option" where
  "total_minutes sign hours minutes =
     Option.bind (signed_checked_mul (ucast hours) 60) (\<lambda>m.
     Option.bind (signed_checked_add m (ucast minutes)) (\<lambda>a.
     signed_checked_mul sign a))"

definition parse_numoffset :: "i16 \<Rightarrow> string \<Rightarrow> failure + offset \<times> string" where
  "parse_numoffset sign lexer =
     and_then (expect Digits (error_in ''offset'' ''hour'') lexer) (\<lambda>(hours, lexer).
     and_then (expect Colon (error_in ''offset'' ''`:` (HH:MM)'') lexer) (\<lambda>(_, lexer).
     and_then (expect Digits (error_in ''offset'' ''minute'') lexer) (\<lambda>(minutes, lexer).
     require (length (tk_raw hours) = 2) (error_in ''offset'' ''a two-digit hour (HH)'') (
     require (length (tk_raw minutes) = 2) (error_in ''offset'' ''a two-digit minute (MM)'') (
     and_then (ok_or (parse_uint (tk_raw hours)) bare_error) (\<lambda>h.
     and_then (ok_or (parse_uint (tk_raw minutes)) bare_error) (\<lambda>m.
     require (h \<le> 23) (error_in ''offset'' ''hours between 00 and 23'') (
     require (m \<le> 59) (error_in ''offset'' ''minutes between 00 and 59'') (
     and_then (ok_or (total_minutes sign h m) Panic) (\<lambda>total.
     require (- (24 * 60) \<le> sint total \<and> sint total \<le> 24 * 60)
       (ParseError (what ''offset'' parse_error_new)) (
     Ok (Custom total, lexer))))))))))))"

definition parse_offset :: "string \<Rightarrow> failure + offset option \<times> string" where
  "parse_offset lexer =
     (case lexer_next lexer of
        None \<Rightarrow> Ok (None, lexer)
      | Some (token, lexer) \<Rightarrow>
          if tk_kind token = Z then Ok (Some OffsetZ, lexer)
          else if tk_kind token = Plus \<or> tk_kind token = Dash then
            and_then (parse_numoffset (if tk_kind token = Plus then 1 else - 1) lexer)
              (\<lambda>(ofs, lexer). Ok (Some ofs, lexer))
          else Err (error_in ''offset'' ''`Z`, +OFFSET, -OFFSET''))"

text \<open>The date, or nothing and the lexer reset when the text starts with a time.\<close>

definition parse_start :: "string \<Rightarrow> failure + date option \<times> string" where
  "parse_start text =
     (let e = ParseError (expected ''`-` (YYYY-MM) or `:` (HH:MM)'' parse_error_new) in
     and_then (expect Digits (ParseError (expected ''year or hour'' parse_error_new)) text)
       (\<lambda>(digits, lexer).
     and_then (ok_or (lexer_next lexer) e) (\<lambda>(sep, lexer).
     if tk_kind sep = Dash then
       and_then (parse_date digits lexer) (\<lambda>(d, lexer). Ok (Some d, lexer))
     else if tk_kind sep = Colon then Ok (None, text)
     else Err e)))"

text \<open>Whether a time follows, after the delimiter where there is a date.\<close>

definition time_follows :: "date option \<Rightarrow> string \<Rightarrow> failure + bool \<times> string" where
  "time_follows d lexer =
     (if d \<noteq> None then
        (case lexer_next lexer of
           Some (token, lexer) \<Rightarrow>
             if tk_kind token = T \<or> tk_kind token = Space then Ok (True, lexer)
             else Err (error_in ''date-time'' ''`T` between date and time'')
         | None \<Rightarrow> Ok (False, lexer))
      else Ok (True, lexer))"

definition from_str :: "string \<Rightarrow> failure + datetime" where
  "from_str text =
     and_then (parse_start text) (\<lambda>(d, lexer).
     and_then (time_follows d lexer) (\<lambda>(partial_time, lexer).
     and_then (if partial_time
         then and_then (parse_time lexer) (\<lambda>(t, lexer). Ok (Some t, lexer))
         else Ok (None, lexer)) (\<lambda>(t, lexer).
     and_then (if d \<noteq> None \<and> t \<noteq> None then parse_offset lexer else Ok (None, lexer))
       (\<lambda>(ofs, lexer).
     require (lexer_unknown lexer = None) bare_error (
     Ok \<lparr>dtm_date = d, dtm_time = t, dtm_offset = ofs\<rparr>)))))"

section \<open>What a valid value is\<close>

text \<open>The calendar, as a table of month lengths.\<close>

definition leap_year :: "nat \<Rightarrow> bool" where
  "leap_year y \<longleftrightarrow> 4 dvd y \<and> (\<not> 100 dvd y \<or> 400 dvd y)"

definition month_lengths :: "nat \<Rightarrow> nat list" where
  "month_lengths y = [31, if leap_year y then 29 else 28, 31, 30, 31, 30, 31, 31, 30, 31, 30, 31]"

definition valid_date :: "date \<Rightarrow> bool" where
  "valid_date d \<longleftrightarrow> unat (dt_year d) \<le> 9999 \<and> 1 \<le> unat (dt_month d) \<and> unat (dt_month d) \<le> 12 \<and>
     1 \<le> unat (dt_day d) \<and>
     unat (dt_day d) \<le> month_lengths (unat (dt_year d)) ! (unat (dt_month d) - 1)"

definition valid_time :: "time \<Rightarrow> bool" where
  "valid_time t \<longleftrightarrow> unat (tm_hour t) \<le> 23 \<and> unat (tm_minute t) \<le> 59 \<and>
     (case tm_second t of None \<Rightarrow> True | Some s \<Rightarrow> unat s \<le> 60) \<and>
     (case tm_nanosecond t of None \<Rightarrow> True | Some n \<Rightarrow> unat n < 10 ^ 9 \<and> tm_second t \<noteq> None)"

fun valid_offset :: "offset \<Rightarrow> bool" where
  "valid_offset OffsetZ \<longleftrightarrow> True"
| "valid_offset (Custom m) \<longleftrightarrow> - 1440 < sint m \<and> sint m < 1440"

text \<open>The four combinations of the table in the documentation of \<open>Datetime\<close>.\<close>

definition valid_datetime :: "datetime \<Rightarrow> bool" where
  "valid_datetime dt \<longleftrightarrow>
     (case (dtm_date dt, dtm_time dt, dtm_offset dt) of
        (Some d, Some t, Some z) \<Rightarrow> valid_date d \<and> valid_time t \<and> valid_offset z
      | (Some d, Some t, None) \<Rightarrow> valid_date d \<and> valid_time t
      | (Some d, None, None) \<Rightarrow> valid_date d
      | (None, Some t, None) \<Rightarrow> valid_time t
      | _ \<Rightarrow> False)"

lemma unat_u8_cases: "1 \<le> unat m \<Longrightarrow> unat m \<le> 12 \<Longrightarrow>
    m = 1 \<or> m = 2 \<or> m = 3 \<or> m = 4 \<or> m = 5 \<or> m = 6 \<or> m = 7 \<or> m = 8 \<or> m = 9 \<or> m = 10 \<or>
    m = 11 \<or> m = 12" for m :: u8
  by (simp add: word_unat_eq_iff) presburger

lemma max_days_in_month_eq:
  assumes "1 \<le> unat m" and "unat m \<le> 12"
  shows "unat (fst (max_days_in_month y m)) = month_lengths (unat y) ! (unat m - 1)"
proof -
  have leap: "(y mod 4 = 0 \<and> (y mod 100 \<noteq> 0 \<or> y mod 400 = 0)) = leap_year (unat y)"
    by (simp add: leap_year_def word_unat_eq_iff unat_mod dvd_eq_mod_eq_0)
  show ?thesis
    using unat_u8_cases [OF assms] leap
    by (elim disjE) (auto simp: max_days_in_month_def month_lengths_def)
qed

section \<open>Round trip\<close>

definition ends :: "string \<Rightarrow> bool" where
  "ends rest \<longleftrightarrow> rest = [] \<or> \<not> is_ascii_digit (hd rest)"

lemma ends_simps [simp]: "ends []" "ends (c # s) \<longleftrightarrow> \<not> is_ascii_digit c"
  by (simp_all add: ends_def)

lemma expect_digits:
  "list_all is_ascii_digit ds \<Longrightarrow> ds \<noteq> [] \<Longrightarrow> ends rest \<Longrightarrow>
     expect Digits e (ds @ rest) = Inr (\<lparr>tk_kind = Digits, tk_raw = ds\<rparr>, rest)"
  by (simp add: expect_def lexer_next_digits ends_def)

lemma expect_padded [simp]:
  "ends rest \<Longrightarrow>
     expect Digits e (padded w n @ rest) = Inr (\<lparr>tk_kind = Digits, tk_raw = padded w n\<rparr>, rest)"
  "expect Digits e (padded w n) = Inr (\<lparr>tk_kind = Digits, tk_raw = padded w n\<rparr>, [])"
  using expect_digits [of "padded w n" rest] expect_digits [of "padded w n" "[]"] by simp_all

lemma expect_marks [simp]:
  "expect Dash e (CHR ''-'' # s) = Inr (\<lparr>tk_kind = Dash, tk_raw = ''-''\<rparr>, s)"
  "expect Colon e (CHR '':'' # s) = Inr (\<lparr>tk_kind = Colon, tk_raw = '':''\<rparr>, s)"
  "expect Dot e (CHR ''.'' # s) = Inr (\<lparr>tk_kind = Dot, tk_raw = ''.''\<rparr>, s)"
  by (simp_all add: expect_def)

lemma peek_is_marks [simp]:
  "peek_is k []  \<longleftrightarrow> False"
  "peek_is k (CHR '':'' # s) \<longleftrightarrow> k = Colon"
  "peek_is k (CHR ''.'' # s) \<longleftrightarrow> k = Dot"
  "peek_is k (CHR ''Z'' # s) \<longleftrightarrow> k = Z"
  "peek_is k (CHR ''+'' # s) \<longleftrightarrow> k = Plus"
  "peek_is k (CHR ''-'' # s) \<longleftrightarrow> k = Dash"
  by (auto simp: peek_is_def)

lemma parse_date_fmt:
  assumes "valid_date d" and "ends rest"
  shows "parse_date \<lparr>tk_kind = Digits, tk_raw = padded 4 (unat (dt_year d))\<rparr>
    (padded 2 (unat (dt_month d)) @ CHR ''-'' # padded 2 (unat (dt_day d)) @ rest) = Inr (d, rest)"
proof -
  from assms(1) have b: "unat (dt_year d) < 10 ^ 4" "unat (dt_month d) < 10 ^ 2"
    "1 \<le> unat (dt_month d)" "unat (dt_month d) \<le> 12" "1 \<le> unat (dt_day d)"
    and m: "unat (dt_day d) \<le> month_lengths (unat (dt_year d)) ! (unat (dt_month d) - 1)"
    by (simp_all add: valid_date_def)
  from m max_days_in_month_eq [OF b(3,4), of "dt_year d"]
  have d: "unat (dt_day d) \<le> unat (fst (max_days_in_month (dt_year d) (dt_month d)))" by simp
  have "unat (fst (max_days_in_month (dt_year d) (dt_month d))) < 10 ^ 2"
    by (simp add: max_days_in_month_def Let_def)
  with d have "unat (dt_day d) < 10 ^ 2" by simp
  then show ?thesis
    using b d assms(2)
    by (simp add: parse_date_def length_padded word_le_nat_alt split_beta)
qed

text \<open>The weight of the digits of a fraction of a second.\<close>

lemma unat_pow10: "k \<le> 8 \<Longrightarrow> unat (10 ^ k :: u32) = 10 ^ k"
proof -
  assume "k \<le> 8"
  then have "k = 0 \<or> k = 1 \<or> k = 2 \<or> k = 3 \<or> k = 4 \<or> k = 5 \<or> k = 6 \<or> k = 7 \<or> k = 8" by linarith
  then show ?thesis by (elim disjE) simp_all
qed

lemma nanoseconds_from_eq_Some:
  assumes "list_all is_ascii_digit s" and "unat acc + 10 ^ (9 - i) \<le> 10 ^ 9"
  shows "nanoseconds_from i acc s = Some r \<longleftrightarrow>
    unat r = unat acc + decimal_value (take (9 - i) s) * 10 ^ (9 - i - length s)"
  using assms
proof (induction s arbitrary: i acc)
  case Nil
  then show ?case by (auto simp: word_unat_eq_iff)
next
  case (Cons c s)
  show ?case
  proof (cases "i < 9")
    case False
    then show ?thesis using Cons by simp
  next
    case True
    let ?p = "10 ^ (8 - i) :: nat"
    have e: "10 ^ (9 - i) = 10 * ?p"
      using True by (simp add: Suc_diff_le flip: power_Suc)
    have c: "digit_value c \<le> 9" using Cons.prems(1) by (simp add: digit_value_le)
    then have d: "unat (word_of_nat (digit_value c) :: u32) = digit_value c"
      by (simp add: unat_of_nat)
    have b: "unat acc + ?p * digit_value c + ?p \<le> 10 ^ 9"
      using Cons.prems(2) mult_le_mono2 [OF c, of ?p] unfolding e by linarith
    then obtain m a :: u32 where m: "unat m = ?p * digit_value c" and a: "unat a = unat acc + unat m"
      using ex_unat [of "?p * digit_value c", where 'a = 32]
        ex_unat [of "unat acc + ?p * digit_value c", where 'a = 32] by auto
    then have "checked_mul (10 ^ (8 - i)) (word_of_nat (digit_value c)) = Some m"
      "checked_add acc m = Some a"
      by (simp_all only: checked_mul_eq_Some checked_add_eq_Some unat_pow10 d diff_le_self)
    then have "nanoseconds_from i acc (c # s) = nanoseconds_from (Suc i) a s"
      using True Cons.prems(1) by simp
    also have "\<dots> = Some r \<longleftrightarrow>
        unat r = unat a + decimal_value (take (8 - i) s) * 10 ^ (8 - i - length s)"
      using Cons.IH [of a "Suc i"] Cons.prems(1) a b m by simp
    also have "?p = 10 ^ length (take (8 - i) s) * 10 ^ (8 - i - length s)"
      by (auto simp: min_def simp flip: power_add)
    then have "unat a + decimal_value (take (8 - i) s) * 10 ^ (8 - i - length s) =
        unat acc + decimal_value (take (9 - i) (c # s)) * 10 ^ (9 - i - length (c # s))"
      using True by (simp add: a m algebra_simps take_Cons' Suc_diff_le)
    finally show ?thesis by simp
  qed
qed

lemma s_to_nanoseconds_eq_Some:
  assumes "list_all is_ascii_digit s"
  shows "s_to_nanoseconds s = Some r \<longleftrightarrow>
    unat r = decimal_value (take 9 s) * 10 ^ (9 - length s)"
  using nanoseconds_from_eq_Some [OF assms, of 0 0] by (simp add: s_to_nanoseconds_def)

lemma trim_end_zeros_split: "\<exists>k. s = trim_end_zeros s @ replicate k (CHR ''0'')"
proof -
  let ?P = "\<lambda>c. c = CHR ''0''"
  have "takeWhile ?P (rev s) = replicate (length (takeWhile ?P (rev s))) (CHR ''0'')"
    by (rule sym, rule replicate_length_same) (auto dest: set_takeWhileD)
  then obtain k where "takeWhile ?P (rev s) = replicate k (CHR ''0'')" ..
  then have "rev s = replicate k (CHR ''0'') @ dropWhile ?P (rev s)"
    by (metis takeWhile_dropWhile_id)
  then have "s = rev (dropWhile ?P (rev s)) @ replicate k (CHR ''0'')"
    by (metis rev_append rev_replicate rev_rev_ident)
  then show ?thesis unfolding trim_end_zeros_def ..
qed

lemma fmt_nanosecond_parses:
  assumes "unat n < 10 ^ 9"
  shows "list_all is_ascii_digit (fmt_nanosecond n) \<and> fmt_nanosecond n \<noteq> [] \<and>
    s_to_nanoseconds (fmt_nanosecond n) = Some n"
proof -
  let ?s = "trim_end_zeros (padded 9 (unat n))"
  obtain k where k: "padded 9 (unat n) = ?s @ replicate k (CHR ''0'')"
    using trim_end_zeros_split by blast
  have "length (padded 9 (unat n)) = 9" using assms by (intro length_padded) simp_all
  then have l: "length ?s + k = 9" using k by (metis length_append length_replicate)
  have "decimal_value (?s @ replicate k (CHR ''0'')) = unat n" using k by (metis padded_facts(3))
  then have v: "decimal_value ?s * 10 ^ k = unat n" by (simp add: decimal_value_append)
  have "list_all is_ascii_digit (?s @ replicate k (CHR ''0''))" using k by (metis padded_facts(2))
  then have d: "list_all is_ascii_digit ?s" by simp
  show ?thesis
  proof (cases "?s = []")
    case True
    then have "n = 0" using v by (simp add: word_unat_eq_iff)
    with True show ?thesis
      by (simp add: fmt_nanosecond_def s_to_nanoseconds_eq_Some)
  next
    case False
    have "9 - length ?s = k" "take 9 ?s = ?s" using l by simp_all
    then have "s_to_nanoseconds ?s = Some n" using v by (simp add: s_to_nanoseconds_eq_Some [OF d])
    with False d show ?thesis by (simp add: fmt_nanosecond_def)
  qed
qed

text \<open>What may follow a time: nothing, or an offset.\<close>

definition after_time :: "string \<Rightarrow> bool" where
  "after_time rest \<longleftrightarrow> rest = [] \<or> hd rest = CHR ''Z'' \<or> hd rest = CHR ''+'' \<or> hd rest = CHR ''-''"

lemma after_time_D:
  "after_time rest \<Longrightarrow> ends rest" "after_time rest \<Longrightarrow> \<not> peek_is Colon rest"
  "after_time rest \<Longrightarrow> \<not> peek_is Dot rest"
  by (cases rest; auto simp: after_time_def)+

lemma parse_time_fmt:
  assumes "valid_time t" and "after_time rest"
  shows "parse_time (fmt_time t @ rest) = Inr (t, rest)"
proof -
  note rest = after_time_D [OF assms(2)]
  from assms(1) have b: "unat (tm_hour t) \<le> 23" "unat (tm_minute t) \<le> 59"
    by (simp_all add: valid_time_def)
  show ?thesis
  proof (cases "tm_second t")
    case None
    then have "tm_nanosecond t = None" using assms(1) by (auto simp: valid_time_def split: option.splits)
    with None b rest show ?thesis
      by (simp add: parse_time_def fmt_time_def parse_second_def parse_nanosecond_def transposed_def
          length_padded word_le_nat_alt)
  next
    case (Some x)
    then have x: "unat x \<le> 60" using assms(1) by (simp add: valid_time_def)
    show ?thesis
    proof (cases "tm_nanosecond t")
      case None
      with Some b x rest show ?thesis
        by (simp add: parse_time_def fmt_time_def parse_second_def parse_nanosecond_def
            transposed_def length_padded word_le_nat_alt)
    next
      case n: (Some n)
      then have "unat n < 10 ^ 9" using assms(1) by (simp add: valid_time_def)
      note f = fmt_nanosecond_parses [OF this]
      have "expect Digits e (fmt_nanosecond n @ rest) =
          Inr (\<lparr>tk_kind = Digits, tk_raw = fmt_nanosecond n\<rparr>, rest)" for e
        using f rest(1) by (intro expect_digits) simp_all
      with n Some b x f \<open>unat n < 10 ^ 9\<close> show ?thesis
        by (simp add: parse_time_def fmt_time_def parse_second_def parse_nanosecond_def
            transposed_def length_padded word_le_nat_alt)
    qed
  qed
qed

lemma ex_i16: "- 32768 \<le> k \<Longrightarrow> k < 32768 \<Longrightarrow> \<exists>x :: i16. sint x = k"
  by (intro exI [of _ "word_of_int k"]) (simp add: sint_word_of_int_iff)

lemma sint_u8_as_i16: "sint (ucast (x :: u8) :: i16) = int (unat x)"
proof -
  have b: "unat x < 2 ^ 8" using unat_less_pow [of x] by simp
  then have u: "unat (ucast x :: i16) = unat x"
    by (simp add: unsigned_ucast_eq take_bit_nat_eq_self_iff)
  from b show ?thesis by (subst sint_small) (simp_all add: u)
qed

lemma total_minutes_eq_Some:
  assumes "unat h \<le> 23" and "unat m \<le> 59"
  shows "total_minutes sign h m = Some r \<longleftrightarrow>
    sint r = sint sign * (int (unat h) * 60 + int (unat m))"
proof -
  have "\<exists>x :: i16. sint x = int (unat h) * 60"
    by (rule ex_i16) (use assms in linarith)+
  then obtain x :: i16 where x: "sint x = int (unat h) * 60" ..
  have "\<exists>y :: i16. sint y = int (unat h) * 60 + int (unat m)"
    by (rule ex_i16) (use assms in linarith)+
  then obtain y :: i16 where y: "sint y = int (unat h) * 60 + int (unat m)" ..
  have mul: "signed_checked_mul (ucast h) (60 :: i16) = Some x"
    and add: "signed_checked_add x (ucast m) = Some y"
    by (simp_all only: signed_checked_eq_Some x y sint_u8_as_i16) simp
  have "total_minutes sign h m = signed_checked_mul sign y"
    unfolding total_minutes_def mul by (simp only: add Option.bind.simps)
  then show ?thesis by (simp only: signed_checked_eq_Some y)
qed

lemma parse_numoffset_padded:
  fixes h m :: u8
  assumes "unat h \<le> 23" and "unat m \<le> 59" and "sint sign = 1 \<or> sint sign = - 1"
    and "sint r = sint sign * (int (unat h) * 60 + int (unat m))"
  shows "parse_numoffset sign (padded 2 (unat h) @ CHR '':'' # padded 2 (unat m)) =
    Inr (Custom r, [])"
proof -
  have t: "total_minutes sign h m = Some r" using assms by (simp add: total_minutes_eq_Some)
  define k where "k = int (unat h) * 60 + int (unat m)"
  have "0 \<le> k" "k \<le> 1439" using assms(1,2) unfolding k_def by linarith+
  moreover have "sint r = sint sign * k" using assms(4) by (simp only: k_def)
  ultimately have "- 1440 \<le> sint r \<and> sint r \<le> 1440" using assms(3) by auto
  with assms(1,2) t show ?thesis
    by (simp add: parse_numoffset_def length_padded word_le_nat_alt)
qed

lemma fmt_numoffset:
  fixes m :: i16
  assumes "\<bar>sint m\<bar> < 1440"
  shows "fmt_offset (Custom m) = Some ((if sint m < 0 then CHR ''-'' else CHR ''+'') #
    padded 2 (nat \<bar>sint m\<bar> div 60) @ CHR '':'' # padded 2 (nat \<bar>sint m\<bar> mod 60))"
proof -
  have "\<exists>n :: i16. sint n = \<bar>sint m\<bar>" by (rule ex_i16) (use assms in linarith)+
  then obtain n :: i16 where n: "sint n = \<bar>sint m\<bar>" ..
  have eq: "m = n" if "sint n = sint m"
    using arg_cong [OF that, of "word_of_int :: int \<Rightarrow> i16"] by simp
  have a: "(if sint m < 0 then map_option (\<lambda>m. (CHR ''-'', m)) (signed_checked_mul m (- 1))
      else Some (CHR ''+'', m)) = Some (if sint m < 0 then CHR ''-'' else CHR ''+'', n)"
    using n eq by (auto simp: signed_checked_eq_Some)
  have "0 \<le> \<bar>sint m\<bar> div 60" "\<bar>sint m\<bar> div 60 \<le> 24"
    using assms zdiv_mono1 [of "\<bar>sint m\<bar>" 1440 60] by simp_all
  then have "sint (signed_div n 60) = \<bar>sint m\<bar> div 60"
    unfolding signed_div_def by (simp add: n sint_word_of_int_iff signed_divide_int_def)
  moreover have "sint (word_of_int (sint n smod 60) :: i16) = \<bar>sint m\<bar> mod 60"
    using pos_mod_bound [of 60 "\<bar>sint m\<bar>"] pos_mod_sign [of 60 "\<bar>sint m\<bar>"]
    by (auto simp: n sint_word_of_int_iff signed_modulo_int_def signed_divide_int_def minus_div_mult_eq_mod)
  ultimately show ?thesis
    by (simp add: fmt_offset_def a nat_div_distrib nat_mod_distrib)
qed

lemma parse_offset_fmt:
  assumes "valid_offset z"
  obtains s where "fmt_offset z = Some s" and "parse_offset s = Inr (Some z, [])" and "after_time s"
proof (cases z)
  case OffsetZ
  then show ?thesis
    using that [of "''Z''"] by (simp add: fmt_offset_def parse_offset_def after_time_def)
next
  case (Custom m)
  then have b: "\<bar>sint m\<bar> < 1440" using assms by auto
  define a where "a = nat \<bar>sint m\<bar>"
  have a: "int a = \<bar>sint m\<bar>" "a < 1440" using b by (simp_all add: a_def)
  have "\<exists>h :: u8. unat h = a div 60" by (rule ex_unat) (use a(2) in simp)
  then obtain h :: u8 where h: "unat h = a div 60" ..
  have "\<exists>r :: u8. unat r = a mod 60"
    by (rule ex_unat) (use mod_less_divisor [of 60 a] in simp)
  then obtain r :: u8 where r: "unat r = a mod 60" ..
  have hr: "unat h \<le> 23" "unat r \<le> 59" using a(2) by (simp_all add: h r)
  have "int (unat h) * 60 + int (unat r) = int (a div 60 * 60 + a mod 60)"
    by (simp only: h r of_nat_mult of_nat_add of_nat_numeral)
  also have "\<dots> = int a" by (simp only: div_mult_mod_eq)
  finally have p: "parse_numoffset (if sint m < 0 then - 1 else 1)
      (padded 2 (unat h) @ CHR '':'' # padded 2 (unat r)) = Inr (Custom m, [])"
    using hr a(1) by (intro parse_numoffset_padded) (auto split: if_splits)
  show ?thesis
    using that [OF fmt_numoffset [OF b, folded Custom]] p
    by (auto simp: parse_offset_def after_time_def Custom h r a_def split: if_splits)
qed

lemma parse_start_fmt:
  "valid_date d \<Longrightarrow> ends rest \<Longrightarrow> parse_start (fmt_date d @ rest) = Inr (Some d, rest)"
  using parse_date_fmt [of d rest] by (simp add: parse_start_def fmt_date_def)

text \<open>
  C22: printing and parsing a date-time is a round trip: every valid value prints, without
  overflow, to a text that parses back to exactly that value.
\<close>

theorem datetime_round_trip:
  assumes "valid_datetime dt"
  shows "\<exists>s. fmt_datetime dt = Some s \<and> from_str s = Inr dt"
proof (cases "dtm_date dt")
  case None
  with assms obtain t where t: "dtm_time dt = Some t" "dtm_offset dt = None" "valid_time t"
    by (auto simp: valid_datetime_def split: option.splits)
  have "parse_start (fmt_time t) = Inr (None, fmt_time t)"
    by (simp add: parse_start_def fmt_time_def)
  with None t parse_time_fmt [OF t(3), of "[]"] show ?thesis
    by (simp add: fmt_datetime_def from_str_def time_follows_def after_time_def lexer_unknown_def)
next
  case d: (Some d)
  with assms have v: "valid_date d" by (auto simp: valid_datetime_def split: option.splits)
  show ?thesis
  proof (cases "dtm_time dt")
    case None
    with d assms have "dtm_offset dt = None" by (auto simp: valid_datetime_def split: option.splits)
    with d None parse_start_fmt [OF v, of "[]"] show ?thesis
      by (simp add: fmt_datetime_def from_str_def time_follows_def lexer_unknown_def)
  next
    case t: (Some t)
    with d assms have vt: "valid_time t" by (auto simp: valid_datetime_def split: option.splits)
    have parses: "from_str (fmt_date d @ CHR ''T'' # fmt_time t @ z) =
        Inr \<lparr>dtm_date = Some d, dtm_time = Some t, dtm_offset = ofs\<rparr>"
      if "after_time z" and "parse_offset z = Inr (ofs, [])" for z ofs
      using that parse_start_fmt [OF v, of "CHR ''T'' # fmt_time t @ z"] parse_time_fmt [OF vt that(1)]
      by (simp add: from_str_def time_follows_def lexer_unknown_def)
    show ?thesis
    proof (cases "dtm_offset dt")
      case None
      with d t parses [of "[]" None] show ?thesis
        by (simp add: fmt_datetime_def after_time_def parse_offset_def)
    next
      case (Some z)
      with d t assms have "valid_offset z" by (simp add: valid_datetime_def)
      then obtain s where "fmt_offset z = Some s" "parse_offset s = Inr (Some z, [])" "after_time s"
        by (rule parse_offset_fmt)
      with d t Some parses [of s "Some z"] show ?thesis by (simp add: fmt_datetime_def)
    qed
  qed
qed

theorem datetime_round_trip_witness:
  "\<exists>s. fmt_datetime \<lparr>dtm_date = Some \<lparr>dt_year = 2024, dt_month = 2, dt_day = 29\<rparr>,
      dtm_time = Some \<lparr>tm_hour = 23, tm_minute = 59, tm_second = Some 60, tm_nanosecond = Some 120\<rparr>,
      dtm_offset = Some (Custom (- 450))\<rparr> = Some s \<and>
    from_str s = Inr \<lparr>dtm_date = Some \<lparr>dt_year = 2024, dt_month = 2, dt_day = 29\<rparr>,
      dtm_time = Some \<lparr>tm_hour = 23, tm_minute = 59, tm_second = Some 60, tm_nanosecond = Some 120\<rparr>,
      dtm_offset = Some (Custom (- 450))\<rparr>"
  by (rule datetime_round_trip)
    (simp add: valid_datetime_def valid_date_def valid_time_def month_lengths_def leap_year_def)

section \<open>Only valid values are parsed\<close>

lemma expect_Digits_Ok:
  assumes "expect Digits e lx = Inr (t, rest)"
  shows "list_all is_ascii_digit (tk_raw t)" and "tk_raw t \<noteq> []"
  using assms lexer_next_Some [of lx t rest] by (auto simp: expect_def res_simps)

lemma parse_digits_bound:
  assumes "expect Digits e lx = Inr (t, rest)" and "length (tk_raw t) = w"
    and "parse_uint (tk_raw t) = Some (x :: 'a::len word)" and "unat (10 :: 'a word) = 10"
  shows "unat x < 10 ^ w"
  using parse_uint_value [OF assms(4) expect_Digits_Ok [OF assms(1)] assms(3)]
    decimal_value_less [OF expect_Digits_Ok(1) [OF assms(1)]] assms(2) by simp

lemma parse_date_valid:
  assumes "expect Digits e lx = Inr (y, lx1)" and "parse_date y lx2 = Inr (d, rest)"
  shows "valid_date d"
proof -
  from assms(2) obtain yr mo da where d: "d = \<lparr>dt_year = yr, dt_month = mo, dt_day = da\<rparr>"
    and y: "length (tk_raw y) = 4" "parse_uint (tk_raw y) = Some yr"
    and mo: "1 \<le> mo" "mo \<le> 12" and da: "1 \<le> da" "da \<le> fst (max_days_in_month yr mo)"
    by (auto simp: parse_date_def res_simps split_beta)
  from parse_digits_bound [OF assms(1) y] have "unat yr \<le> 9999" by simp
  moreover from mo have "1 \<le> unat mo" "unat mo \<le> 12" by (simp_all add: word_le_nat_alt)
  moreover note max_days_in_month_eq [OF this, of yr]
  ultimately show ?thesis using da by (simp add: d valid_date_def word_le_nat_alt)
qed

lemma parse_time_valid:
  assumes "parse_time lx = Inr (t, rest)"
  shows "valid_time t"
proof -
  from assms obtain sec nan h m s n lx1 lx2 f g where p: "parse_nanosecond sec lx1 = Inr nan"
    and s: "transposed f sec = Inr s" and n: "transposed g (fst nan) = Inr n"
    and b: "h \<le> 23" "m \<le> 59" "unwrap_or s 0 \<le> 60" "unwrap_or n 0 \<le> 999999999"
    and eq: "Inr (\<lparr>tm_hour = h, tm_minute = m, tm_second = s, tm_nanosecond = n\<rparr>, lx2) =
      (Inr (t, rest) :: failure + time \<times> string)"
    unfolding parse_time_def and_then_eq_Ok require_eq_Ok split_beta
    by (elim exE conjE) (rule that)
  then have t: "t = \<lparr>tm_hour = h, tm_minute = m, tm_second = s, tm_nanosecond = n\<rparr>" by simp
  have "n \<noteq> None \<longrightarrow> s \<noteq> None"
    using p s n by (auto simp: parse_nanosecond_def transposed_def res_simps split: option.splits if_splits)
  with b show ?thesis
    by (auto simp: t valid_time_def word_le_nat_alt split: option.splits)
qed

lemma parse_offset_valid:
  assumes "parse_offset lx = Inr (Some z, rest)"
  shows "valid_offset z"
proof (cases z)
  case (Custom m)
  with assms obtain sg :: i16 and h r :: u8 where t: "total_minutes sg h r = Some m"
    and hr: "unat h \<le> 23" "unat r \<le> 59" and sg: "sint sg = 1 \<or> sint sg = - 1"
    by (auto simp: parse_offset_def parse_numoffset_def res_simps word_le_nat_alt
        split: option.splits if_splits)
  define k where "k = int (unat h) * 60 + int (unat r)"
  have "0 \<le> k" "k \<le> 1439" using hr unfolding k_def by linarith+
  moreover have "sint m = sint sg * k" using t total_minutes_eq_Some [OF hr] by (simp only: k_def)
  ultimately show ?thesis using sg Custom by auto
qed simp

text \<open>
  The parser accepts only valid values: a text that parses gives one of the four
  documented combinations of date, time and offset, with every field in its documented range
  and the day within the month of that year.
\<close>

theorem from_str_valid:
  assumes "from_str s = Inr dt"
  shows "valid_datetime dt"
proof -
  from assms obtain d lx b lx1 t lx2 z lx3 where st: "parse_start s = Inr (d, lx)"
    and tf: "time_follows d lx = Inr (b, lx1)"
    and t: "(if b then and_then (parse_time lx1) (\<lambda>(t, lexer). Ok (Some t, lexer))
         else Ok (None, lx1)) = Inr (t, lx2)"
    and z: "(if d \<noteq> None \<and> t \<noteq> None then parse_offset lx2 else Ok (None, lx2)) = Inr (z, lx3)"
    and dt: "dt = \<lparr>dtm_date = d, dtm_time = t, dtm_offset = z\<rparr>"
    by (auto simp: from_str_def res_simps)
  have "case d of None \<Rightarrow> b | Some d \<Rightarrow> valid_date d"
    using st tf parse_date_valid
    by (fastforce simp: parse_start_def time_follows_def res_simps Let_def split: if_splits option.splits)
  moreover have "case t of None \<Rightarrow> \<not> b | Some t \<Rightarrow> valid_time t"
    using t parse_time_valid by (auto simp: res_simps split: if_splits)
  moreover have "case z of None \<Rightarrow> True | Some z \<Rightarrow> d \<noteq> None \<and> t \<noteq> None \<and> valid_offset z"
    using z parse_offset_valid by (auto split: if_splits option.splits)
  ultimately show ?thesis by (auto simp: dt valid_datetime_def split: option.splits)
qed

lemmas toml_eval =
  from_str_def parse_start_def expect_def lexer_next_def parse_date_def parse_time_def
  time_follows_def parse_second_def parse_nanosecond_def parse_offset_def peek_is_def
  transposed_def lexer_unknown_def max_days_in_month_def parse_uint_def checked_mul_def
  checked_add_def is_ascii_digit_def digit_value_def

theorem from_str_valid_witness:
  "\<exists>dt. from_str ''2024-02-29'' = Inr dt \<and> valid_datetime dt"
proof -
  obtain dt where "from_str ''2024-02-29'' = Inr dt" by (simp add: toml_eval)
  with from_str_valid [OF this] show ?thesis by blast
qed

end
