(* ===== verification/Block_Buffer.thy ===== *)
theory Block_Buffer
  imports Vow_Prelude
begin

text \<open>
  \<^verbatim>\<open>patches/block-buffer\<close> (\<^verbatim>\<open>src/lib.rs\<close>, \<^verbatim>\<open>src/sealed.rs\<close>): the fixed-size buffer
  that digests use to cut a stream of bytes into blocks. The trait \<open>Sealed\<close> is the record
  \<open>buffer_kind\<close>, its implementations are \<open>Eager\<close> and \<open>Lazy\<close>, and the operations of
  \<open>BlockBuffer\<close> take the record as an argument. Memory that may be uninitialised is a list
  of optional bytes; an access outside it, or a read of a byte that was never written, is the
  result \<open>UB\<close>. A failed assertion, debug assertions included, is \<open>Panic\<close>. The laws of a
  buffer kind are the locale \<open>buffer_kind_laws\<close>, in which the operations are shown to refine
  operations on the list of buffered bytes.

  \<open>Array::slice_as_chunks\<close> is code of the crate \<^verbatim>\<open>hybrid-array\<close>: it is the argument
  \<open>ch\<close> of the buffer kinds, and its documented behaviour is the locale \<open>chunking\<close>.
\<close>

section \<open>Memory\<close>

datatype buffer_error = Error | Panic | UB

type_synonym memory = "byte option list"
type_synonym block = "byte list"

text \<open>\<open>ptr::read\<close> of one byte, \<open>ptr::copy_nonoverlapping\<close>, \<open>slice::from_raw_parts\<close>.\<close>

definition ptr_read :: "memory \<Rightarrow> nat \<Rightarrow> buffer_error + byte" where
  "ptr_read m i = (if i < length m then ok_or (m ! i) UB else Err UB)"

definition ptr_copy :: "memory \<Rightarrow> nat \<Rightarrow> byte list \<Rightarrow> buffer_error + memory" where
  "ptr_copy m i xs =
     (if i + length xs \<le> length m then Ok (take i m @ map Some xs @ drop (i + length xs) m)
      else Err UB)"

definition from_raw_parts :: "memory \<Rightarrow> nat \<Rightarrow> buffer_error + byte list" where
  "from_raw_parts m n =
     (if n \<le> length m \<and> None \<notin> set (take n m) then Ok (map the (take n m)) else Err UB)"

text \<open>\<open>usize\<close> subtraction under overflow checks.\<close>

definition usize_sub :: "nat \<Rightarrow> nat \<Rightarrow> buffer_error + nat" where
  "usize_sub a b = (if b \<le> a then Ok (a - b) else Err Panic)"

section \<open>Buffer kinds\<close>

type_synonym chunker = "nat \<Rightarrow> byte list \<Rightarrow> block list \<times> byte list"

record 'p buffer_kind =
  Pos_default :: 'p
  Overhead :: nat
  K_get_pos :: "nat \<Rightarrow> memory \<Rightarrow> 'p \<Rightarrow> buffer_error + nat"
  K_set_pos :: "nat \<Rightarrow> memory \<Rightarrow> 'p \<Rightarrow> nat \<Rightarrow> buffer_error + (memory \<times> 'p)"
  K_invariant :: "nat \<Rightarrow> nat \<Rightarrow> bool"
  K_split_blocks :: "nat \<Rightarrow> byte list \<Rightarrow> buffer_error + (block list \<times> byte list)"

definition eager_get_pos :: "nat \<Rightarrow> memory \<Rightarrow> unit \<Rightarrow> buffer_error + nat" where
  "eager_get_pos N buf _ = and_then (ptr_read buf (N - 1)) (\<lambda>pos. Ok (unat pos))"

definition eager_set_pos :: "nat \<Rightarrow> memory \<Rightarrow> unit \<Rightarrow> nat \<Rightarrow> buffer_error + (memory \<times> unit)" where
  "eager_set_pos N buf pos val =
     require (val < 256) Panic (
     and_then (ptr_copy buf (N - 1) [word_of_nat val]) (\<lambda>buf. Ok (buf, pos)))"

definition Eager :: "chunker \<Rightarrow> unit buffer_kind" where
  "Eager ch = \<lparr>Pos_default = (), Overhead = 0,
     K_get_pos = eager_get_pos, K_set_pos = eager_set_pos,
     K_invariant = (\<lambda>pos block_size. pos < block_size),
     K_split_blocks = (\<lambda>N data. Ok (ch N data))\<rparr>"

definition lazy_set_pos :: "nat \<Rightarrow> memory \<Rightarrow> u8 \<Rightarrow> nat \<Rightarrow> buffer_error + (memory \<times> u8)" where
  "lazy_set_pos N buf pos val = require (val < 256) Panic (Ok (buf, word_of_nat val))"

definition lazy_split_blocks ::
  "chunker \<Rightarrow> nat \<Rightarrow> byte list \<Rightarrow> buffer_error + (block list \<times> byte list)" where
  "lazy_split_blocks ch N data =
     (let (blocks, tail) = ch N data in
      if data = [] \<or> tail \<noteq> [] then Ok (blocks, tail)
      else require (blocks \<noteq> []) Panic (Ok (butlast blocks, last blocks)))"

definition Lazy :: "chunker \<Rightarrow> u8 buffer_kind" where
  "Lazy ch = \<lparr>Pos_default = 0, Overhead = 1,
     K_get_pos = (\<lambda>N buf pos. Ok (unat pos)), K_set_pos = lazy_set_pos,
     K_invariant = (\<lambda>pos block_size. pos \<le> block_size),
     K_split_blocks = lazy_split_blocks ch\<rparr>"

section \<open>Operations\<close>

record 'p block_buffer =
  bb_buffer :: memory
  bb_pos :: 'p

text \<open>\<open>BS\<close> is the block size, a type parameter of the source.\<close>

definition buffer_default :: "'p buffer_kind \<Rightarrow> nat \<Rightarrow> buffer_error + 'p block_buffer" where
  "buffer_default K BS =
     and_then (K_set_pos K BS (replicate BS None) (Pos_default K) 0) (\<lambda>(buffer, pos).
     Ok \<lparr>bb_buffer = buffer, bb_pos = pos\<rparr>)"

definition get_pos :: "'p buffer_kind \<Rightarrow> nat \<Rightarrow> 'p block_buffer \<Rightarrow> buffer_error + nat" where
  "get_pos K BS b =
     and_then (K_get_pos K BS (bb_buffer b) (bb_pos b)) (\<lambda>pos.
     if \<not> K_invariant K pos BS then Err UB else Ok pos)"

definition get_data :: "'p buffer_kind \<Rightarrow> nat \<Rightarrow> 'p block_buffer \<Rightarrow> buffer_error + byte list" where
  "get_data K BS b = and_then (get_pos K BS b) (\<lambda>pos. from_raw_parts (bb_buffer b) pos)"

definition set_pos_unchecked ::
  "'p buffer_kind \<Rightarrow> nat \<Rightarrow> 'p block_buffer \<Rightarrow> nat \<Rightarrow> buffer_error + 'p block_buffer" where
  "set_pos_unchecked K BS b pos =
     require (K_invariant K pos BS) Panic (
     and_then (K_set_pos K BS (bb_buffer b) (bb_pos b) pos) (\<lambda>(buffer, p).
     Ok (b\<lparr>bb_buffer := buffer, bb_pos := p\<rparr>)))"

definition set_data_unchecked ::
  "'p buffer_kind \<Rightarrow> nat \<Rightarrow> 'p block_buffer \<Rightarrow> byte list \<Rightarrow> buffer_error + 'p block_buffer" where
  "set_data_unchecked K BS b buf =
     and_then (set_pos_unchecked K BS b (length buf)) (\<lambda>b.
     and_then (ptr_copy (bb_buffer b) 0 buf) (\<lambda>m.
     Ok (b\<lparr>bb_buffer := m\<rparr>)))"

definition try_new :: "'p buffer_kind \<Rightarrow> nat \<Rightarrow> byte list \<Rightarrow> buffer_error + 'p block_buffer" where
  "try_new K BS buf =
     require (K_invariant K (length buf) BS) Error (
     and_then (buffer_default K BS) (\<lambda>res. set_data_unchecked K BS res buf))"

definition buffer_new :: "'p buffer_kind \<Rightarrow> nat \<Rightarrow> byte list \<Rightarrow> buffer_error + 'p block_buffer" where
  "buffer_new K BS buf =
     (case try_new K BS buf of Inl Error \<Rightarrow> Err Panic | r \<Rightarrow> r)"

text \<open>
  The closure \<open>compress\<close> updates a state \<open>'s\<close> that it captures.
\<close>

definition digest_blocks ::
  "'p buffer_kind \<Rightarrow> nat \<Rightarrow> 'p block_buffer \<Rightarrow> byte list \<Rightarrow> ('s \<Rightarrow> block list \<Rightarrow> 's) \<Rightarrow> 's
    \<Rightarrow> buffer_error + ('p block_buffer \<times> 's)" where
  "digest_blocks K BS b input compress s =
     and_then (get_pos K BS b) (\<lambda>pos.
     and_then (usize_sub BS pos) (\<lambda>rem.
     let n = length input in
     if K_invariant K n rem then
       and_then (ptr_copy (bb_buffer b) pos input) (\<lambda>m.
       and_then (set_pos_unchecked K BS (b\<lparr>bb_buffer := m\<rparr>) (pos + n)) (\<lambda>b.
       Ok (b, s)))
     else
       and_then
         (if pos \<noteq> 0 then
            require (rem \<le> n) Panic (
            and_then (ptr_copy (bb_buffer b) pos (take rem input)) (\<lambda>m.
            and_then (from_raw_parts m BS) (\<lambda>block.
            Ok (b\<lparr>bb_buffer := m\<rparr>, drop rem input, compress s [block]))))
          else Ok (b, input, s)) (\<lambda>(b, input, s).
       and_then (K_split_blocks K BS input) (\<lambda>(blocks, leftover).
       let s = (if blocks \<noteq> [] then compress s blocks else s)
       in and_then (set_data_unchecked K BS b leftover) (\<lambda>b. Ok (b, s))))))"

definition reset :: "'p buffer_kind \<Rightarrow> nat \<Rightarrow> 'p block_buffer \<Rightarrow> buffer_error + 'p block_buffer" where
  "reset K BS b = set_pos_unchecked K BS b 0"

definition pad_with_zeros ::
  "'p buffer_kind \<Rightarrow> nat \<Rightarrow> 'p block_buffer \<Rightarrow> buffer_error + ('p block_buffer \<times> block)" where
  "pad_with_zeros K BS b =
     and_then (get_data K BS b) (\<lambda>data.
     require (length data \<le> BS) Panic (
     let res = data @ drop (length data) (replicate BS 0)
     in and_then (reset K BS b) (\<lambda>b. Ok (b, res))))"

definition set_content ::
  "'p buffer_kind \<Rightarrow> nat \<Rightarrow> 'p block_buffer \<Rightarrow> block \<Rightarrow> nat \<Rightarrow> buffer_error + 'p block_buffer" where
  "set_content K BS b buf pos =
     require (K_invariant K pos BS) Panic (
     set_pos_unchecked K BS (b\<lparr>bb_buffer := map Some buf\<rparr>) pos)"

definition remaining :: "'p buffer_kind \<Rightarrow> nat \<Rightarrow> 'p block_buffer \<Rightarrow> buffer_error + nat" where
  "remaining K BS b = and_then (get_pos K BS b) (\<lambda>pos. usize_sub BS pos)"

definition serialize :: "'p buffer_kind \<Rightarrow> nat \<Rightarrow> 'p block_buffer \<Rightarrow> buffer_error + byte list" where
  "serialize K BS b =
     and_then (get_data K BS b) (\<lambda>data.
     let buf = replicate (BS + Overhead K) 0 in
     require (1 \<le> length buf) Panic (
     require (length data < 256) Panic (
     let block = drop 1 buf in
     require (length data \<le> length block) Panic (
     Ok (word_of_nat (length data) # data @ drop (length data) block)))))"

definition deserialize :: "'p buffer_kind \<Rightarrow> nat \<Rightarrow> byte list \<Rightarrow> buffer_error + 'p block_buffer" where
  "deserialize K BS buf =
     require (1 \<le> length buf) Panic (
     let pos = unat (hd buf); block = drop 1 buf in
     require (K_invariant K pos BS) Error (
     require (pos \<le> length block) Panic (
     require (\<forall>b\<in>set (drop pos block). b = 0) Error (
     and_then (buffer_default K BS) (\<lambda>res. set_data_unchecked K BS res (take pos block))))))"

text \<open>The paddings exist for eager buffers only; \<open>compress\<close> takes one block here.\<close>

definition digest_pad ::
  "chunker \<Rightarrow> nat \<Rightarrow> unit block_buffer \<Rightarrow> byte \<Rightarrow> byte list \<Rightarrow> ('s \<Rightarrow> block \<Rightarrow> 's) \<Rightarrow> 's
    \<Rightarrow> buffer_error + (unit block_buffer \<times> 's)" where
  "digest_pad ch BS b delim suffix compress s =
     require (length suffix \<le> BS) Panic (
     and_then (get_pos (Eager ch) BS b) (\<lambda>pos.
     and_then (pad_with_zeros (Eager ch) BS b) (\<lambda>(b, buf).
     require (pos < length buf) Panic (
     let buf = buf[pos := delim] in
     and_then (usize_sub BS (length suffix)) (\<lambda>n.
     and_then (usize_sub BS pos) (\<lambda>rem.
     and_then (usize_sub rem 1) (\<lambda>free.
     let s =
       (if free < length suffix then
          let s = compress s buf;
              buf = replicate (length buf) 0
          in compress s (take n buf @ suffix)
        else compress s (take n buf @ suffix))
     in and_then (reset (Eager ch) BS b) (\<lambda>b. Ok (b, s)))))))))"

definition u64_to_be_bytes :: "u64 \<Rightarrow> byte list" where
  "u64_to_be_bytes x = rev (u64_to_le_bytes x)"

definition u128_to_be_bytes :: "u128 \<Rightarrow> byte list" where
  "u128_to_be_bytes x = rev (u128_to_le_bytes x)"

definition len64_padding_be ::
  "chunker \<Rightarrow> nat \<Rightarrow> unit block_buffer \<Rightarrow> u64 \<Rightarrow> ('s \<Rightarrow> block \<Rightarrow> 's) \<Rightarrow> 's
    \<Rightarrow> buffer_error + (unit block_buffer \<times> 's)" where
  "len64_padding_be ch BS b data_len = digest_pad ch BS b 0x80 (u64_to_be_bytes data_len)"

definition len64_padding_le ::
  "chunker \<Rightarrow> nat \<Rightarrow> unit block_buffer \<Rightarrow> u64 \<Rightarrow> ('s \<Rightarrow> block \<Rightarrow> 's) \<Rightarrow> 's
    \<Rightarrow> buffer_error + (unit block_buffer \<times> 's)" where
  "len64_padding_le ch BS b data_len = digest_pad ch BS b 0x80 (u64_to_le_bytes data_len)"

definition len128_padding_be ::
  "chunker \<Rightarrow> nat \<Rightarrow> unit block_buffer \<Rightarrow> u128 \<Rightarrow> ('s \<Rightarrow> block \<Rightarrow> 's) \<Rightarrow> 's
    \<Rightarrow> buffer_error + (unit block_buffer \<times> 's)" where
  "len128_padding_be ch BS b data_len = digest_pad ch BS b 0x80 (u128_to_be_bytes data_len)"

text \<open>A sequence of calls of \<open>digest_blocks\<close> with the same closure.\<close>

fun digest_all ::
  "'p buffer_kind \<Rightarrow> nat \<Rightarrow> 'p block_buffer \<Rightarrow> byte list list \<Rightarrow> ('s \<Rightarrow> block list \<Rightarrow> 's) \<Rightarrow> 's
    \<Rightarrow> buffer_error + ('p block_buffer \<times> 's)" where
  "digest_all K BS b [] compress s = Ok (b, s)"
| "digest_all K BS b (x # xs) compress s =
     and_then (digest_blocks K BS b x compress s) (\<lambda>(b, s). digest_all K BS b xs compress s)"

section \<open>Cutting a list into blocks\<close>

function chunks :: "nat \<Rightarrow> 'a list \<Rightarrow> 'a list list \<times> 'a list" where
  "chunks N xs =
     (if N = 0 \<or> length xs < N then ([], xs)
      else let (bs, r) = chunks N (drop N xs) in (take N xs # bs, r))"
  by pat_completeness auto
termination by (relation "measure (\<lambda>(N, xs). length xs)") auto

declare chunks.simps [simp del]

lemma chunks_short [simp]: "length xs < N \<Longrightarrow> chunks N xs = ([], xs)"
  by (simp add: chunks.simps)

lemma chunks_block [simp]:
  "length x = N \<Longrightarrow> 0 < N \<Longrightarrow> chunks N (x @ ys) = (x # fst (chunks N ys), snd (chunks N ys))"
  by (subst chunks.simps) (simp add: case_prod_beta)

lemma chunks_concat:
  assumes "0 < N" and "length r < N" and "\<forall>b\<in>set bs. length b = N"
  shows "chunks N (concat bs @ r) = (bs, r)"
  using assms(3) by (induction bs) (simp_all add: assms(1,2))

lemma chunks_props:
  assumes "0 < N"
  shows "concat (fst (chunks N xs)) @ snd (chunks N xs) = xs \<and> length (snd (chunks N xs)) < N \<and>
    (\<forall>b\<in>set (fst (chunks N xs)). length b = N)"
proof (induction xs rule: length_induct)
  case (1 xs)
  show ?case
  proof (cases "length xs < N")
    case False
    then obtain x ys where xs: "xs = x @ ys" "length x = N"
      by (metis append_take_drop_id length_take min.absorb2 not_less)
    with assms have "length ys < length xs" by simp
    from 1 [rule_format, OF this] xs assms show ?thesis by simp
  qed simp
qed

lemma length_concat_blocks: "\<forall>b\<in>set bs. length b = N \<Longrightarrow> length (concat bs) = length bs * N"
  by (induction bs) simp_all

lemma length_chunks:
  assumes "0 < N"
  shows "length (fst (chunks N xs)) * N + length (snd (chunks N xs)) = length xs"
proof -
  have "length (concat (fst (chunks N xs)) @ snd (chunks N xs)) = length xs"
    using chunks_props [OF assms] by metis
  moreover have "length (concat (fst (chunks N xs))) = length (fst (chunks N xs)) * N"
    using chunks_props [OF assms, of xs] by (blast intro: length_concat_blocks)
  ultimately show ?thesis by simp
qed

lemma dvd_length_concat: "\<forall>b\<in>set bs. length b = N \<Longrightarrow> N dvd length (concat bs)"
  by (induction bs) simp_all

text \<open>
  What \<open>slice_as_chunks\<close> documents: whole blocks and a remainder shorter than a block, which
  together are the slice. This determines its result.
\<close>

locale chunking =
  fixes ch :: chunker
  assumes chunks_join: "0 < N \<Longrightarrow> concat (fst (ch N xs)) @ snd (ch N xs) = xs"
    and chunks_whole: "0 < N \<Longrightarrow> b \<in> set (fst (ch N xs)) \<Longrightarrow> length b = N"
    and rest_short: "0 < N \<Longrightarrow> length (snd (ch N xs)) < N"
begin

lemma ch_eq: "0 < N \<Longrightarrow> ch N xs = chunks N xs"
  using chunks_concat [of N "snd (ch N xs)" "fst (ch N xs)"] chunks_join [of N xs]
    chunks_whole [of N] rest_short [of N xs] by simp

end

section \<open>Laws of a buffer kind\<close>

text \<open>The buffer holds the bytes \<open>d\<close>: the abstraction of a \<open>BlockBuffer\<close>.\<close>

definition buffer_holds :: "'p buffer_kind \<Rightarrow> nat \<Rightarrow> 'p block_buffer \<Rightarrow> byte list \<Rightarrow> bool" where
  "buffer_holds K BS b d \<longleftrightarrow>
     length (bb_buffer b) = BS \<and> take (length d) (bb_buffer b) = map Some d \<and>
     K_get_pos K BS (bb_buffer b) (bb_pos b) = Ok (length d) \<and> K_invariant K (length d) BS"

lemma ptr_copy_ok:
  "i + length xs \<le> length m \<Longrightarrow>
     ptr_copy m i xs = Ok (take i m @ map Some xs @ drop (i + length xs) m)"
  by (simp add: ptr_copy_def)

lemma from_raw_parts_ok: "take n m = map Some d \<Longrightarrow> n \<le> length m \<Longrightarrow> from_raw_parts m n = Ok d"
  by (auto simp: from_raw_parts_def comp_def)

lemma usize_sub_ok [simp]: "b \<le> a \<Longrightarrow> usize_sub a b = Ok (a - b)"
  by (simp add: usize_sub_def)

text \<open>
  What the operations of \<open>BlockBuffer\<close> rely on: the invariant bounds the position and shifts
  with it, a written position is read back and leaves the data before it alone, the position
  survives writes to the data, and \<open>split_blocks\<close> takes off one block at a time until the
  invariant holds of the rest. \<open>sp\<close> is the value of \<open>split_blocks\<close>.
\<close>

locale buffer_kind_laws =
  fixes K :: "'p buffer_kind" and sp :: "nat \<Rightarrow> byte list \<Rightarrow> block list \<times> byte list"
  assumes inv_0: "0 < N \<Longrightarrow> K_invariant K 0 N"
    and inv_le: "K_invariant K n N \<Longrightarrow> n \<le> N"
    and not_inv_le: "\<not> K_invariant K n N \<Longrightarrow> N \<le> n"
    and inv_mono: "K_invariant K n N \<Longrightarrow> k \<le> n \<Longrightarrow> K_invariant K k N"
    and inv_shift: "k \<le> N \<Longrightarrow> K_invariant K n (N - k) \<longleftrightarrow> K_invariant K (k + n) N"
    and set_pos_ok: "\<lbrakk>0 < N; N < 256; length m = N; K_invariant K v N\<rbrakk> \<Longrightarrow>
      \<exists>m' p'. K_set_pos K N m p v = Ok (m', p') \<and> length m' = N \<and> take v m' = take v m \<and>
        K_get_pos K N m' p' = Ok v"
    and get_pos_data: "\<lbrakk>0 < N; length m = N; length m' = N; drop v m' = drop v m; K_invariant K v N;
      K_get_pos K N m p = Ok v\<rbrakk> \<Longrightarrow> K_get_pos K N m' p = Ok v"
    and split_ok: "0 < N \<Longrightarrow> K_split_blocks K N xs = Ok (sp N xs)"
    and split_short: "0 < N \<Longrightarrow> K_invariant K (length xs) N \<Longrightarrow> sp N xs = ([], xs)"
    and split_block: "\<lbrakk>0 < N; length x = N; \<not> K_invariant K (length (x @ ys)) N\<rbrakk> \<Longrightarrow>
      sp N (x @ ys) = (x # fst (sp N ys), snd (sp N ys))"
    and overhead_enough: "K_invariant K n N \<Longrightarrow> n < N + Overhead K"
begin

lemma split_cases:
  assumes "0 < N"
  obtains (short) "K_invariant K (length xs) N" "sp N xs = ([], xs)"
    | (block) x ys where "xs = x @ ys" "length x = N" "\<not> K_invariant K (length xs) N"
        "sp N xs = (x # fst (sp N ys), snd (sp N ys))"
proof (cases "K_invariant K (length xs) N")
  case True
  with split_short assms show ?thesis by (blast intro: short)
next
  case False
  from not_inv_le [OF this] have "length (take N xs) = N" by simp
  with split_block [of N "take N xs" "drop N xs"] False assms show ?thesis
    by (intro block [of "take N xs" "drop N xs"]) simp_all
qed

lemma split_props:
  assumes "0 < N"
  shows "concat (fst (sp N xs)) @ snd (sp N xs) = xs \<and> K_invariant K (length (snd (sp N xs))) N \<and>
    (\<forall>b\<in>set (fst (sp N xs)). length b = N)"
proof (induction xs rule: length_induct)
  case (1 xs)
  from assms show ?case
  proof (cases rule: split_cases [of N xs])
    case (block x ys)
    with assms have "length ys < length xs" by simp
    from 1 [rule_format, OF this] block show ?thesis by simp
  qed simp
qed

lemma split_append:
  assumes "0 < N"
  shows "sp N (xs @ ys) = (fst (sp N xs) @ fst (sp N (snd (sp N xs) @ ys)),
    snd (sp N (snd (sp N xs) @ ys)))"
proof (induction xs rule: length_induct)
  case (1 xs)
  from assms show ?case
  proof (cases rule: split_cases [of N xs])
    case (block x zs)
    then have "\<not> K_invariant K (length (x @ zs @ ys)) N"
      using inv_mono [of "length (xs @ ys)" N "length xs"] by auto
    then have "sp N (xs @ ys) = (x # fst (sp N (zs @ ys)), snd (sp N (zs @ ys)))"
      using block(1,2) assms split_block [of N x "zs @ ys"] by simp
    moreover have "length zs < length xs" using block(1,2) assms by simp
    ultimately show ?thesis using 1 [rule_format, of zs] block(4) by simp
  qed simp
qed

lemma set_pos_holds:
  assumes "0 < N" "N < 256" and "length (bb_buffer b) = N" and "K_invariant K (length d) N"
    and "take (length d) (bb_buffer b) = map Some d"
  shows "\<exists>b'. set_pos_unchecked K N b (length d) = Ok b' \<and> buffer_holds K N b' d"
proof -
  obtain m' p' where "K_set_pos K N (bb_buffer b) (bb_pos b) (length d) = Ok (m', p')"
    "length m' = N" "take (length d) m' = take (length d) (bb_buffer b)"
    "K_get_pos K N m' p' = Ok (length d)"
    using set_pos_ok [OF assms(1-4)] by blast
  with assms(4,5) show ?thesis
    by (simp add: set_pos_unchecked_def buffer_holds_def)
qed

lemma set_data_holds:
  assumes N: "0 < N" "N < 256" and len: "length (bb_buffer b) = N" and inv: "K_invariant K (length d) N"
  shows "\<exists>b'. set_data_unchecked K N b d = Ok b' \<and> buffer_holds K N b' d"
proof -
  obtain m p where set: "K_set_pos K N (bb_buffer b) (bb_pos b) (length d) = Ok (m, p)"
    and m: "length m = N" and pos: "K_get_pos K N m p = Ok (length d)"
    using set_pos_ok [OF N len inv] by blast
  have le: "length d \<le> length m" using inv_le [OF inv] m by simp
  let ?m = "map Some d @ drop (length d) m"
  have "K_get_pos K N ?m p = Ok (length d)"
    by (rule get_pos_data [OF N(1) m _ _ inv pos]) (use le m in simp_all)
  with set inv m le show ?thesis
    by (simp add: set_data_unchecked_def set_pos_unchecked_def ptr_copy_ok buffer_holds_def)
qed

lemma default_holds:
  assumes "0 < N" "N < 256"
  shows "\<exists>b. buffer_default K N = Ok b \<and> buffer_holds K N b []"
  using set_pos_ok [OF assms _ inv_0 [OF assms(1)], of "replicate N None" "Pos_default K"]
    inv_0 [OF assms(1)]
  by (auto simp: buffer_default_def buffer_holds_def)

lemma get_pos_holds: "buffer_holds K N b d \<Longrightarrow> get_pos K N b = Ok (length d)"
  by (simp add: get_pos_def buffer_holds_def)

lemma holds_le: "buffer_holds K N b d \<Longrightarrow> length d \<le> N"
  by (simp add: buffer_holds_def inv_le)

lemma holds_length: "buffer_holds K N b d \<Longrightarrow> length (bb_buffer b) = N"
  by (simp add: buffer_holds_def)

lemma holds_data: "buffer_holds K N b d \<Longrightarrow> take (length d) (bb_buffer b) = map Some d"
  by (simp add: buffer_holds_def)

lemma get_data_holds: "buffer_holds K N b d \<Longrightarrow> get_data K N b = Ok d"
  by (simp add: get_data_def get_pos_holds from_raw_parts_ok holds_data holds_length holds_le)

lemma holds_unique: "buffer_holds K N b d \<Longrightarrow> buffer_holds K N b d' \<Longrightarrow> d = d'"
  using get_data_holds [of N b d] get_data_holds [of N b d'] by simp

lemma remaining_holds: "buffer_holds K N b d \<Longrightarrow> remaining K N b = Ok (N - length d)"
  by (simp add: remaining_def get_pos_holds holds_le)

lemma try_new_holds:
  assumes "0 < N" "N < 256" and "K_invariant K (length d) N"
  shows "\<exists>b. try_new K N d = Ok b \<and> buffer_holds K N b d"
proof -
  obtain b where "buffer_default K N = Ok b" "length (bb_buffer b) = N"
    using default_holds [OF assms(1,2)] by (auto simp: buffer_holds_def)
  with set_data_holds [OF assms(1,2) _ assms(3)] show ?thesis
    using assms(3) by (auto simp: try_new_def)
qed

text \<open>\<open>new\<close> and \<open>set\<close> panic exactly where the length or position breaks the invariant.\<close>

lemma new_cases:
  assumes "0 < N" "N < 256"
  shows "K_invariant K (length d) N \<Longrightarrow> \<exists>b. buffer_new K N d = Ok b \<and> buffer_holds K N b d"
    and "\<not> K_invariant K (length d) N \<Longrightarrow> try_new K N d = Err Error \<and> buffer_new K N d = Err Panic"
  using try_new_holds [OF assms, of d] by (fastforce simp: buffer_new_def, simp add: buffer_new_def try_new_def)

lemma set_cases:
  assumes "0 < N" "N < 256" and "length buf = N"
  shows "K_invariant K pos N \<Longrightarrow>
      \<exists>b'. set_content K N b buf pos = Ok b' \<and> buffer_holds K N b' (take pos buf)"
    and "\<not> K_invariant K pos N \<Longrightarrow> set_content K N b buf pos = Err Panic"
  using set_pos_holds [OF assms(1,2), of "b\<lparr>bb_buffer := map Some buf\<rparr>" "take pos buf"]
    inv_le [of pos N] assms(3)
  by (simp_all add: set_content_def take_map min.absorb2)

lemma reset_holds:
  assumes "0 < N" "N < 256" and "length (bb_buffer b) = N"
  shows "\<exists>b'. reset K N b = Ok b' \<and> buffer_holds K N b' []"
  using set_pos_holds [OF assms, of "[]"] inv_0 [OF assms(1)] by (simp add: reset_def)

lemma pad_with_zeros_holds:
  assumes "0 < N" "N < 256" and b: "buffer_holds K N b d"
  shows "\<exists>b'. pad_with_zeros K N b = Ok (b', d @ replicate (N - length d) 0) \<and>
    buffer_holds K N b' []"
  using reset_holds [OF assms(1,2) holds_length [OF b]] holds_le [OF b]
  by (auto simp: pad_with_zeros_def get_data_holds [OF b])

text \<open>
  \<open>digest_blocks\<close> with a closure that works block by block: the blocks it passes on and the
  data it keeps are those of the buffered data followed by the input.
\<close>

lemma digest_blocks_holds:
  assumes N: "0 < N" "N < 256" and b: "buffer_holds K N b d"
  shows "\<exists>b'. digest_blocks K N b input (foldl f) s = Ok (b', foldl f s (fst (sp N (d @ input)))) \<and>
    buffer_holds K N b' (snd (sp N (d @ input)))"
proof (cases "K_invariant K (length (d @ input)) N")
  case True
  let ?m = "take (length d) (bb_buffer b) @ map Some input @ drop (length d + length input) (bb_buffer b)"
  have le: "length d + length input \<le> N" using inv_le [OF True] by simp
  obtain b' where b': "set_pos_unchecked K N (b\<lparr>bb_buffer := ?m\<rparr>) (length (d @ input)) = Ok b'"
    "buffer_holds K N b' (d @ input)"
    using set_pos_holds [OF N _ True, of "b\<lparr>bb_buffer := ?m\<rparr>"] le b
    by (auto simp: buffer_holds_def)
  have "digest_blocks K N b input (foldl f) s = Ok (b', s)"
    using b'(1) True le
    by (simp add: digest_blocks_def get_pos_holds [OF b] holds_le [OF b] inv_shift ptr_copy_ok
        holds_length [OF b])
  with b' split_short [OF N(1) True] show ?thesis by simp
next
  case False
  let ?rem = "N - length d"
  let ?x = "d @ take ?rem input" and ?ys = "drop ?rem input"
  have le: "?rem \<le> length input" using not_inv_le [OF False] by simp
  define b1 where "b1 = (if d = [] then b
    else b\<lparr>bb_buffer := take (length d) (bb_buffer b) @ map Some (take ?rem input)\<rparr>)"
  define zs where "zs = (if d = [] then input else ?ys)"
  have len1: "length (bb_buffer b1) = N"
    using le holds_length [OF b] holds_le [OF b] by (simp add: b1_def)
  obtain b' where b': "set_data_unchecked K N b1 (snd (sp N zs)) = Ok b'"
    "buffer_holds K N b' (snd (sp N zs))"
    using set_data_holds [OF N len1] split_props [OF N(1)] by blast
  have "sp N (?x @ ?ys) = (?x # fst (sp N ?ys), snd (sp N ?ys))"
    using False le holds_le [OF b] by (intro split_block [OF N(1)]) simp_all
  then have sp: "sp N (d @ input) =
      ((if d = [] then [] else [?x]) @ fst (sp N zs), snd (sp N zs))"
    by (cases d) (simp_all add: zs_def)
  have raw: "from_raw_parts (take (length d) (bb_buffer b) @ map Some (take ?rem input)) N = Ok ?x"
    using le holds_le [OF b] holds_length [OF b] holds_data [OF b]
    by (intro from_raw_parts_ok) simp_all
  have "digest_blocks K N b input (foldl f) s = Ok (b', foldl f s (fst (sp N (d @ input))))"
    using b'(1) False le raw
    by (cases "d = []") (simp_all add: Let_def digest_blocks_def get_pos_holds [OF b] holds_le [OF b] inv_shift ptr_copy_ok
        holds_length [OF b] split_ok [OF N(1)] case_prod_beta sp b1_def zs_def)
  with b'(2) sp show ?thesis by simp
qed

text \<open>Feeding several inputs one after the other is feeding their concatenation.\<close>

lemma digest_all_holds:
  assumes N: "0 < N" "N < 256" and b: "buffer_holds K N b d"
  shows "\<exists>b'. digest_all K N b inputs (foldl f) s =
      Ok (b', foldl f s (fst (sp N (d @ concat inputs)))) \<and>
    buffer_holds K N b' (snd (sp N (d @ concat inputs)))"
  using b
proof (induction inputs arbitrary: b d s)
  case Nil
  have "K_invariant K (length d) N" using Nil by (simp add: buffer_holds_def)
  with Nil split_short [OF N(1)] show ?case by simp
next
  case (Cons x xs)
  let ?d = "snd (sp N (d @ x))" and ?s = "foldl f s (fst (sp N (d @ x)))"
  obtain b1 where b1: "digest_blocks K N b x (foldl f) s = Ok (b1, ?s)" "buffer_holds K N b1 ?d"
    using digest_blocks_holds [OF N Cons.prems, of x f s] by blast
  from Cons.IH [OF b1(2), of ?s] b1(1) split_append [OF N(1), of "d @ x" "concat xs"]
  show ?case by (simp add: foldl_append)
qed

lemma serialize_holds:
  assumes "0 < N" "N < 256" and b: "buffer_holds K N b d"
  shows "serialize K N b =
    Ok (word_of_nat (length d) # d @ replicate (N + Overhead K - 1 - length d) 0)"
proof -
  have "length d \<le> N + Overhead K - Suc 0"
    using b overhead_enough [of "length d" N] by (simp add: buffer_holds_def)
  then show ?thesis
    using assms(1,2) holds_le [OF b] by (auto simp: serialize_def get_data_holds [OF b] Let_def)
qed

lemma deserialize_holds:
  assumes N: "0 < N" "N < 256" and inv: "K_invariant K (length d) N"
  shows "\<exists>b. deserialize K N (word_of_nat (length d) # d @ replicate n 0) = Ok b \<and>
    buffer_holds K N b d"
proof -
  have "length d < 256" using inv_le [OF inv] N(2) by simp
  then have "unat (word_of_nat (length d) :: byte) = length d"
    by (simp add: unat_of_nat)
  with try_new_holds [OF N inv] inv show ?thesis
    by (simp add: deserialize_def try_new_def)
qed

text \<open>Only serializations of buffers deserialize, and any other array of the right size is an error.\<close>

lemma deserialize_cases:
  assumes N: "0 < N" "N < 256" and buf: "length buf = N + Overhead K"
  obtains (ok) b d where "deserialize K N buf = Ok b" "buffer_holds K N b d" "serialize K N b = Ok buf"
    | (error) "deserialize K N buf = Err Error" "\<And>b d. buffer_holds K N b d \<Longrightarrow> serialize K N b \<noteq> Ok buf"
proof -
  obtain c block where cons: "buf = c # block" "length block = N + Overhead K - 1"
    using buf N(1) by (cases buf) auto
  show ?thesis
  proof (cases "K_invariant K (unat c) N \<and> (\<forall>x\<in>set (drop (unat c) block). x = 0)")
    case True
    then have le: "unat c \<le> length block" using overhead_enough [of "unat c" N] cons(2) by simp
    let ?d = "take (unat c) block"
    have block: "block = ?d @ replicate (length block - unat c) 0"
      using True le
      by (metis append_take_drop_id length_drop replicate_eqI)
    obtain b where b: "deserialize K N (word_of_nat (length ?d) # ?d @
        replicate (length block - unat c) 0) = Ok b" "buffer_holds K N b ?d"
      using deserialize_holds [OF N, of ?d] True le by auto
    with serialize_holds [OF N b(2)] cons le block show ?thesis
      by (intro ok [of b ?d]) (simp_all add: min.absorb2)
  next
    case False
    show ?thesis
    proof (rule error)
      show "deserialize K N buf = Err Error"
        using False overhead_enough [of "unat c" N] cons by (auto simp: deserialize_def require_def Let_def)
    next
      fix b d
      assume b: "buffer_holds K N b d"
      have "unat (word_of_nat (length d) :: byte) = length d"
        using holds_le [OF b] N(2) by (simp add: unat_of_nat)
      with False b show "serialize K N b \<noteq> Ok buf"
        by (auto simp: serialize_holds [OF N b] cons(1) buffer_holds_def)
    qed
  qed
qed

lemma round_trip:
  assumes N: "0 < N" "N < 256"
  shows "(\<forall>b d. buffer_holds K N b d \<longrightarrow> (\<exists>buf b'. serialize K N b = Ok buf \<and>
        length buf = N + Overhead K \<and> deserialize K N buf = Ok b' \<and> get_data K N b' = Ok d)) \<and>
    (\<forall>buf. length buf = N + Overhead K \<longrightarrow> deserialize K N buf = Err Error \<or>
      (\<exists>b. deserialize K N buf = Ok b \<and> serialize K N b = Ok buf))"
proof (intro conjI allI impI)
  fix b d
  assume b: "buffer_holds K N b d"
  then have inv: "K_invariant K (length d) N" by (simp add: buffer_holds_def)
  from overhead_enough [OF this] have "length d + (N + Overhead K - 1 - length d) + 1 = N + Overhead K"
    by simp
  then show "\<exists>buf b'. serialize K N b = Ok buf \<and> length buf = N + Overhead K \<and>
      deserialize K N buf = Ok b' \<and> get_data K N b' = Ok d"
    using serialize_holds [OF N b] deserialize_holds [OF N inv] get_data_holds by fastforce
next
  fix buf :: "byte list"
  assume "length buf = N + Overhead K"
  then show "deserialize K N buf = Err Error \<or>
      (\<exists>b. deserialize K N buf = Ok b \<and> serialize K N b = Ok buf)"
    by (rule deserialize_cases [OF N]) blast+
qed

end

section \<open>The two kinds\<close>

text \<open>A lazy buffer keeps the last block even when it is full.\<close>

definition lazy_chunks :: "nat \<Rightarrow> 'a list \<Rightarrow> 'a list list \<times> 'a list" where
  "lazy_chunks N xs =
     (let (bs, r) = chunks N xs in if xs = [] \<or> r \<noteq> [] then (bs, r) else (butlast bs, last bs))"

lemma chunks_nonempty: "0 < N \<Longrightarrow> xs \<noteq> [] \<Longrightarrow> snd (chunks N xs) = [] \<Longrightarrow> fst (chunks N xs) \<noteq> []"
  using chunks_props [of N xs] by force

lemma lazy_chunks_block:
  assumes "0 < N" and "length x = N" and "ys \<noteq> []"
  shows "lazy_chunks N (x @ ys) = (x # fst (lazy_chunks N ys), snd (lazy_chunks N ys))"
  using assms chunks_nonempty [of N ys] by (auto simp: lazy_chunks_def case_prod_beta)

lemma lazy_chunks_short: "0 < N \<Longrightarrow> length xs \<le> N \<Longrightarrow> lazy_chunks N xs = ([], xs)"
  using chunks_block [of xs N "[]"] by (cases "length xs = N") (auto simp: lazy_chunks_def)

lemma eager_set_pos_ok:
  assumes "N < 256" and "length m = N" and "v < N"
  shows "\<exists>m'. eager_set_pos N m () v = Ok (m', ()) \<and> length m' = N \<and> take v m' = take v m \<and>
    eager_get_pos N m' () = Ok v"
proof -
  have "unat (word_of_nat v :: byte) = v" using assms by (simp add: unat_of_nat)
  with assms show ?thesis
    by (auto simp: eager_set_pos_def eager_get_pos_def ptr_copy_ok ptr_read_def nth_append)
qed

lemma eager_get_pos_data:
  assumes "length m = N" and "length m' = N" and "drop v m' = drop v m" and "v < N"
  shows "eager_get_pos N m' p = eager_get_pos N m p"
proof -
  have last: "xs ! (N - 1) = drop v xs ! (N - 1 - v)" if "length xs = N" for xs :: memory
    using that assms(4) by simp
  have "m' ! (N - 1) = m ! (N - 1)"
    by (simp only: last [OF assms(1)] last [OF assms(2)] assms(3))
  with assms(1,2) show ?thesis by (simp add: eager_get_pos_def ptr_read_def)
qed

sublocale chunking \<subseteq> eager: buffer_kind_laws "Eager ch" chunks
  by unfold_locales
    (auto simp: Eager_def eager_set_pos_ok ch_eq intro: eager_get_pos_data [THEN trans])

sublocale chunking \<subseteq> lazy: buffer_kind_laws "Lazy ch" lazy_chunks
proof unfold_locales
  fix N xs assume "0 < (N :: nat)"
  then show "K_split_blocks (Lazy ch) N xs = Ok (lazy_chunks N xs)"
    using chunks_nonempty [of N xs]
    by (auto simp: Lazy_def lazy_split_blocks_def lazy_chunks_def ch_eq case_prod_beta)
qed (auto simp: Lazy_def lazy_set_pos_def unat_of_nat lazy_chunks_block lazy_chunks_short)

interpretation chunks: chunking chunks
  using chunks_props by unfold_locales blast+

lemma lazy_chunks_props:
  fixes xs :: "byte list"
  assumes "0 < N"
  shows "concat (fst (lazy_chunks N xs)) @ snd (lazy_chunks N xs) = xs"
    and "length (snd (lazy_chunks N xs)) \<le> N"
    and "\<forall>b\<in>set (fst (lazy_chunks N xs)). length b = N"
    and "length (fst (lazy_chunks N xs)) * N + length (snd (lazy_chunks N xs)) = length xs"
    and "snd (lazy_chunks N xs) = [] \<longleftrightarrow> xs = []"
proof -
  note props = chunks.lazy.split_props [OF assms, of xs]
  show join: "concat (fst (lazy_chunks N xs)) @ snd (lazy_chunks N xs) = xs"
    and "length (snd (lazy_chunks N xs)) \<le> N"
    and whole: "\<forall>b\<in>set (fst (lazy_chunks N xs)). length b = N"
    using props by (auto simp: Lazy_def)
  have "length (concat (fst (lazy_chunks N xs)) @ snd (lazy_chunks N xs)) = length xs"
    by (simp only: join)
  then show "length (fst (lazy_chunks N xs)) * N + length (snd (lazy_chunks N xs)) = length xs"
    by (simp add: length_concat_blocks [OF whole])
  show "snd (lazy_chunks N xs) = [] \<longleftrightarrow> xs = []"
  proof (cases "xs = [] \<or> snd (chunks N xs) \<noteq> []")
    case True
    then show ?thesis using assms by (auto simp: lazy_chunks_def case_prod_beta)
  next
    case False
    then have "last (fst (chunks N xs)) \<in> set (fst (chunks N xs))"
      using chunks_nonempty [of N xs] assms by simp
    then have "length (last (fst (chunks N xs))) = N" using chunks_props [OF assms, of xs] by blast
    then show ?thesis using False assms by (auto simp: lazy_chunks_def case_prod_beta)
  qed
qed

section \<open>Padding\<close>

lemma chunks_one: "0 < N \<Longrightarrow> length x = N \<Longrightarrow> chunks N x = ([x], [])"
  using chunks_block [of x N "[]"] by simp

lemma chunks_two:
  "0 < N \<Longrightarrow> length x = N \<Longrightarrow> length y = N \<Longrightarrow> chunks N (x @ y) = ([x, y], [])"
  by (simp add: chunks_one)

text \<open>The only number of zeros, less than a block, that completes the last block.\<close>

definition pad_zeros :: "nat \<Rightarrow> nat \<Rightarrow> nat \<Rightarrow> nat" where
  "pad_zeros N d l = (if N - d - 1 < l then 2 * N - d - 1 - l else N - d - 1 - l)"

lemma pad_zeros_props:
  assumes "d < N" and "l \<le> N"
  shows "pad_zeros N d l < N" and "N dvd d + 1 + pad_zeros N d l + l"
proof -
  show "pad_zeros N d l < N" using assms by (auto simp: pad_zeros_def)
  have "d + 1 + pad_zeros N d l + l = (if N - d - 1 < l then 2 * N else N)"
    using assms by (auto simp: pad_zeros_def)
  then show "N dvd d + 1 + pad_zeros N d l + l" by simp
qed

context chunking
begin

lemma digest_pad_holds:
  assumes N: "0 < N" "N < 256" and b: "buffer_holds (Eager ch) N b d" and suffix: "length suffix \<le> N"
  shows "\<exists>b'. digest_pad ch N b delim suffix f s =
      Ok (b', foldl f s (fst (chunks N
        (d @ delim # replicate (pad_zeros N (length d) (length suffix)) 0 @ suffix)))) \<and>
    buffer_holds (Eager ch) N b' []"
proof -
  let ?z = "N - length d - 1" and ?n = "N - length suffix"
  have d: "length d < N" using b by (simp add: buffer_holds_def Eager_def)
  obtain b1 where b1: "pad_with_zeros (Eager ch) N b = Ok (b1, d @ replicate (N - length d) 0)"
    "buffer_holds (Eager ch) N b1 []"
    using eager.pad_with_zeros_holds [OF N b] by blast
  obtain b' where b': "reset (Eager ch) N b1 = Ok b'" "buffer_holds (Eager ch) N b' []"
    using eager.reset_holds [OF N eager.holds_length [OF b1(2)]] by blast
  let ?buf = "d @ delim # replicate ?z 0"
  have buf: "(d @ replicate (N - length d) 0)[length d := delim] = ?buf"
    using d by (cases "N - length d") (auto simp: list_update_append)
  have "foldl f s (fst (chunks N (d @ delim # replicate (pad_zeros N (length d) (length suffix)) 0
        @ suffix))) =
    (if ?z < length suffix then f (f s ?buf) (replicate ?n 0 @ suffix) else f s (take ?n ?buf @ suffix))"
  proof (cases "?z < length suffix")
    case True
    then have "replicate (pad_zeros N (length d) (length suffix)) (0 :: byte) =
        replicate ?z 0 @ replicate ?n 0"
      using d suffix by (simp add: pad_zeros_def flip: replicate_add)
    then show ?thesis
      using True d suffix N chunks_two [of N ?buf "replicate ?n 0 @ suffix"] by simp
  next
    case False
    then have "take ?n ?buf = d @ delim # replicate (pad_zeros N (length d) (length suffix)) 0"
      using d suffix by (cases "N - length suffix - length d") (auto simp: pad_zeros_def min_def)
    then show ?thesis
      using False d suffix N
        chunks_one [of N "d @ delim # replicate (pad_zeros N (length d) (length suffix)) 0 @ suffix"]
      by (simp add: pad_zeros_def)
  qed
  then show ?thesis
    using b1(1) b' d suffix buf
    by (simp add: digest_pad_def eager.get_pos_holds [OF b] min_def Let_def)
qed

lemma eager_incremental:
  assumes "0 < N" and "N < 256"
  shows "and_then (buffer_default (Eager ch) N) (\<lambda>b.
      and_then (digest_all (Eager ch) N b inputs (foldl f) s) (\<lambda>(b, s).
      and_then (get_data (Eager ch) N b) (\<lambda>d. Ok (d, s)))) =
    Ok (snd (chunks N (concat inputs)), foldl f s (fst (chunks N (concat inputs))))"
proof -
  obtain b where b: "buffer_default (Eager ch) N = Ok b" "buffer_holds (Eager ch) N b []"
    using eager.default_holds [OF assms] by blast
  with eager.digest_all_holds [OF assms b(2), of inputs f s] eager.get_data_holds [of N]
  show ?thesis by auto
qed

lemma lazy_incremental:
  assumes "0 < N" and "N < 256"
  shows "and_then (buffer_default (Lazy ch) N) (\<lambda>b.
      and_then (digest_all (Lazy ch) N b inputs (foldl f) s) (\<lambda>(b, s).
      and_then (get_data (Lazy ch) N b) (\<lambda>d. Ok (d, s)))) =
    Ok (snd (lazy_chunks N (concat inputs)), foldl f s (fst (lazy_chunks N (concat inputs))))"
proof -
  obtain b where b: "buffer_default (Lazy ch) N = Ok b" "buffer_holds (Lazy ch) N b []"
    using lazy.default_holds [OF assms] by blast
  with lazy.digest_all_holds [OF assms b(2), of inputs f s] lazy.get_data_holds [of N]
  show ?thesis by auto
qed

lemmas eager_round_trip = eager.round_trip

lemmas lazy_round_trip = lazy.round_trip

lemma padded:
  assumes N: "0 < N" "N < 256" "length suffix \<le> N"
  shows "\<exists>k b. k < N \<and> N dvd length (concat inputs @ delim # replicate k 0 @ suffix) \<and>
    and_then (buffer_default (Eager ch) N) (\<lambda>b.
      and_then (digest_all (Eager ch) N b inputs (foldl f) s) (\<lambda>(b, s).
      digest_pad ch N b delim suffix f s)) =
    Ok (b, foldl f s (fst (chunks N (concat inputs @ delim # replicate k 0 @ suffix)))) \<and>
    buffer_holds (Eager ch) N b []"
proof -
  let ?m = "concat inputs"
  let ?d = "snd (chunks N ?m)" and ?s = "foldl f s (fst (chunks N ?m))"
  let ?k = "pad_zeros N (length ?d) (length suffix)"
  let ?p = "delim # replicate ?k 0 @ suffix"
  obtain b where b: "buffer_default (Eager ch) N = Ok b" "buffer_holds (Eager ch) N b []"
    using eager.default_holds [OF N(1,2)] by blast
  obtain b1 where b1: "digest_all (Eager ch) N b inputs (foldl f) s = Ok (b1, ?s)"
    "buffer_holds (Eager ch) N b1 ?d"
    using eager.digest_all_holds [OF N(1,2) b(2), of inputs f s] by auto
  obtain b2 where b2: "digest_pad ch N b1 delim suffix f ?s = Ok (b2, foldl f ?s (fst (chunks N (?d @ ?p))))"
    "buffer_holds (Eager ch) N b2 []"
    using digest_pad_holds [OF N(1,2) b1(2) N(3), of delim f ?s] by blast
  have d: "length ?d < N" using chunks_props [OF N(1)] by blast
  have "N dvd length (concat (fst (chunks N ?m)))"
    using chunks_props [OF N(1), of ?m] by (simp add: dvd_length_concat)
  moreover have "length (concat (fst (chunks N ?m)) @ ?d) = length ?m"
    using chunks_props [OF N(1), of ?m] by simp
  then have "length (?m @ ?p) = length (concat (fst (chunks N ?m))) + (length ?d + 1 + ?k + length suffix)"
    by simp
  ultimately have "N dvd length (?m @ ?p)"
    using pad_zeros_props(2) [OF d N(3)] by (simp only: dvd_add)
  then show ?thesis
    using b b1 b2 pad_zeros_props(1) [OF d N(3)] eager.split_append [OF N(1), of ?m ?p]
    by (intro exI [of _ ?k] exI [of _ b2]) (simp add: foldl_append)
qed

end

section \<open>Properties\<close>

text \<open>
  C24: a fresh buffer that is fed any sequence of inputs hands the closure, in order, the
  blocks of their concatenation and keeps the rest, however the stream was divided; an eager
  buffer passes a block on as soon as it is complete, a lazy one keeps a last block that is
  complete.
\<close>

theorem incremental_digest:
  assumes "chunking ch" and "0 < N" and "N < 256"
  shows "and_then (buffer_default (Eager ch) N) (\<lambda>b.
        and_then (digest_all (Eager ch) N b inputs (foldl f) s) (\<lambda>(b, s).
        and_then (get_data (Eager ch) N b) (\<lambda>d. Ok (d, s)))) =
      Ok (snd (chunks N (concat inputs)), foldl f s (fst (chunks N (concat inputs)))) \<and>
    and_then (buffer_default (Lazy ch) N) (\<lambda>b.
        and_then (digest_all (Lazy ch) N b inputs (foldl f) s) (\<lambda>(b, s).
        and_then (get_data (Lazy ch) N b) (\<lambda>d. Ok (d, s)))) =
      Ok (snd (lazy_chunks N (concat inputs)), foldl f s (fst (lazy_chunks N (concat inputs))))"
  by (intro conjI chunking.eager_incremental [OF assms] chunking.lazy_incremental [OF assms])

theorem incremental_digest_witness:
  "and_then (buffer_default (Eager chunks) 4) (\<lambda>b.
      and_then (digest_all (Eager chunks) 4 b [[0, 1, 2, 3, 4, 5, 6, 7, 8, 9], [10, 11, 12]]
        (foldl (\<lambda>accum block. accum @ [block])) []) (\<lambda>(b, s).
      and_then (get_data (Eager chunks) 4 b) (\<lambda>d. Ok (d, s)))) =
    Ok ([12], [[0, 1, 2, 3], [4, 5, 6, 7], [8, 9, 10, 11]])"
  using incremental_digest [OF chunks.chunking_axioms, of 4
      "[[0, 1, 2, 3, 4, 5, 6, 7, 8, 9], [10, 11, 12]]" "\<lambda>accum block. accum @ [block]" "[]"]
  by (simp add: chunks.simps)

text \<open>
  Padding completes the message. After any sequence of inputs, \<open>digest_pad\<close> hands on
  exactly the blocks of message, delimiter, fewer zeros than a block and suffix, with nothing
  left over, and leaves the buffer empty.
\<close>

theorem digest_pad_completes:
  assumes "chunking ch" and "0 < N" and "N < 256" and "length suffix \<le> N"
  shows "\<exists>k b. k < N \<and> N dvd length (concat inputs @ delim # replicate k 0 @ suffix) \<and>
    and_then (buffer_default (Eager ch) N) (\<lambda>b.
      and_then (digest_all (Eager ch) N b inputs (foldl f) s) (\<lambda>(b, s).
      digest_pad ch N b delim suffix f s)) =
    Ok (b, foldl f s (fst (chunks N (concat inputs @ delim # replicate k 0 @ suffix)))) \<and>
    buffer_holds (Eager ch) N b []"
  by (rule chunking.padded [OF assms])

theorem digest_pad_completes_witness:
  "\<exists>k b. k < 4 \<and> 4 dvd length (concat [[1, 2], [3 :: byte]] @ 0x80 # replicate k 0 @ [9, 9]) \<and>
    and_then (buffer_default (Eager chunks) 4) (\<lambda>b.
      and_then (digest_all (Eager chunks) 4 b [[1, 2], [3]] (foldl (\<lambda>s x. s @ [x])) [])
      (\<lambda>(b, s). digest_pad chunks 4 b 0x80 [9, 9] (\<lambda>s x. s @ [x]) s)) =
    Ok (b, foldl (\<lambda>s x. s @ [x]) [] (fst (chunks 4
      (concat [[1, 2], [3]] @ 0x80 # replicate k 0 @ [9, 9])))) \<and>
    buffer_holds (Eager chunks) 4 b []"
  by (rule digest_pad_completes [OF chunks.chunking_axioms]) simp_all

text \<open>
  A buffer survives serialization: the array has the size that its type says, it
  deserializes to a buffer with the same data, and whatever else is deserialized is either
  refused or the serialization of the buffer it gives; both never panic.
\<close>

theorem buffer_serialization:
  assumes "chunking ch" and "0 < N" and "N < 256"
  shows "(\<forall>b d. buffer_holds (Eager ch) N b d \<longrightarrow> (\<exists>buf b'. serialize (Eager ch) N b = Ok buf \<and>
        length buf = N \<and> deserialize (Eager ch) N buf = Ok b' \<and> get_data (Eager ch) N b' = Ok d)) \<and>
    (\<forall>b d. buffer_holds (Lazy ch) N b d \<longrightarrow> (\<exists>buf b'. serialize (Lazy ch) N b = Ok buf \<and>
        length buf = N + 1 \<and> deserialize (Lazy ch) N buf = Ok b' \<and> get_data (Lazy ch) N b' = Ok d)) \<and>
    (\<forall>buf. length buf = N \<longrightarrow> deserialize (Eager ch) N buf = Err Error \<or>
      (\<exists>b. deserialize (Eager ch) N buf = Ok b \<and> serialize (Eager ch) N b = Ok buf)) \<and>
    (\<forall>buf. length buf = N + 1 \<longrightarrow> deserialize (Lazy ch) N buf = Err Error \<or>
      (\<exists>b. deserialize (Lazy ch) N buf = Ok b \<and> serialize (Lazy ch) N b = Ok buf))"
proof -
  have "Overhead (Eager ch) = 0" "Overhead (Lazy ch) = 1"
    by (simp_all add: Eager_def Lazy_def)
  then show ?thesis
    using chunking.eager_round_trip [OF assms] chunking.lazy_round_trip [OF assms]
    by simp
qed

theorem buffer_serialization_witness:
  "deserialize (Eager chunks) 4 [2, 7, 8, 1] = Err Error \<and>
   (\<exists>b. deserialize (Eager chunks) 4 [2, 7, 8, 0] = Ok b \<and>
      serialize (Eager chunks) 4 b = Ok [2, 7, 8, 0])"
proof -
  have "deserialize (Eager chunks) 4 [2, 7, 8, 0] \<noteq> Err Error" "deserialize (Eager chunks) 4 [2, 7, 8, 1] = Err Error"
    by (simp_all add: deserialize_def Eager_def buffer_default_def eager_set_pos_def ptr_copy_def
        set_data_unchecked_def set_pos_unchecked_def)
  moreover have "length buf = 4 \<Longrightarrow> deserialize (Eager chunks) 4 buf = Err Error \<or>
      (\<exists>b. deserialize (Eager chunks) 4 buf = Ok b \<and> serialize (Eager chunks) 4 b = Ok buf)" for buf
    using buffer_serialization [OF chunks.chunking_axioms, of 4] by simp
  ultimately show ?thesis by force
qed

end
