(* ===== verification/Read_Buffer.thy ===== *)
theory Read_Buffer
  imports Block_Buffer
begin

text \<open>
  \<^verbatim>\<open>patches/block-buffer/src/read.rs\<close>: the buffer that hands out a stream of generated
  blocks in pieces of any length, as stream ciphers and extendable-output hashes do. The first
  byte of the block is the cursor. The closure \<open>gen_block\<close> is a function that takes the state
  it captures and the old contents of the block. \<open>stream\<close> is the specification: the blocks
  that a generator produces, one after the other.
\<close>

section \<open>Operations\<close>

record read_buffer =
  rb_buffer :: block

type_synonym 'g block_gen = "'g \<Rightarrow> block \<Rightarrow> 'g \<times> block"

definition read_set_pos_unchecked ::
  "nat \<Rightarrow> read_buffer \<Rightarrow> nat \<Rightarrow> buffer_error + read_buffer" where
  "read_set_pos_unchecked BS r pos =
     require (pos \<noteq> 0 \<and> pos \<le> BS) Panic (
     require (rb_buffer r \<noteq> []) Panic (
     Ok (r\<lparr>rb_buffer := (rb_buffer r)[0 := word_of_nat pos]\<rparr>)))"

definition read_default :: "nat \<Rightarrow> buffer_error + read_buffer" where
  "read_default BS = read_set_pos_unchecked BS \<lparr>rb_buffer = replicate BS 0\<rparr> BS"

definition read_get_pos :: "nat \<Rightarrow> read_buffer \<Rightarrow> buffer_error + nat" where
  "read_get_pos BS r =
     (case rb_buffer r of
        [] \<Rightarrow> Err Panic
      | pos # _ \<Rightarrow> if pos = 0 \<or> word_of_nat BS < pos then Err UB else Ok (unat pos))"

definition read_remaining :: "nat \<Rightarrow> read_buffer \<Rightarrow> buffer_error + nat" where
  "read_remaining BS r = and_then (read_get_pos BS r) (\<lambda>pos. usize_sub BS pos)"

definition read_cached ::
  "nat \<Rightarrow> read_buffer \<Rightarrow> nat \<Rightarrow> buffer_error + (byte list \<times> read_buffer)" where
  "read_cached BS r len =
     and_then (read_remaining BS r) (\<lambda>rem.
     let new_len = min rem len in
     and_then (read_get_pos BS r) (\<lambda>pos.
     and_then (read_set_pos_unchecked BS r (pos + new_len)) (\<lambda>r.
     require (pos \<le> length (rb_buffer r)) Panic (
     require (new_len \<le> length (drop pos (rb_buffer r))) Panic (
     Ok (take new_len (drop pos (rb_buffer r)), r))))))"

definition write_block ::
  "nat \<Rightarrow> read_buffer \<Rightarrow> nat \<Rightarrow> 'g block_gen \<Rightarrow> 'g \<Rightarrow> (byte list \<Rightarrow> 't \<Rightarrow> buffer_error + 't) \<Rightarrow> 't
    \<Rightarrow> buffer_error + (read_buffer \<times> 'g \<times> 't)" where
  "write_block BS r read_len gen_block g read_fn t =
     (if read_len = 0 then Ok (r, g, t)
      else
        require (read_len < BS) Panic (
        let (g, block) = gen_block g (rb_buffer r) in
        require (read_len \<le> length block) Panic (
        and_then (read_fn (take read_len block) t) (\<lambda>t.
        and_then (read_set_pos_unchecked BS (r\<lparr>rb_buffer := block\<rparr>) read_len) (\<lambda>r.
        Ok (r, g, t))))))"

definition read_reset :: "nat \<Rightarrow> read_buffer \<Rightarrow> buffer_error + read_buffer" where
  "read_reset BS r =
     require (rb_buffer r \<noteq> []) Panic (Ok (r\<lparr>rb_buffer := (rb_buffer r)[0 := word_of_nat BS]\<rparr>))"

text \<open>The loop \<open>for block in blocks\<close> of \<open>read\<close>.\<close>

fun gen_blocks :: "'g block_gen \<Rightarrow> 'g \<Rightarrow> block list \<Rightarrow> 'g \<times> block list" where
  "gen_blocks gen g [] = (g, [])"
| "gen_blocks gen g (b # bs) =
     (let (g, b) = gen g b; (g, bs) = gen_blocks gen g bs in (g, b # bs))"

definition read ::
  "chunker \<Rightarrow> nat \<Rightarrow> read_buffer \<Rightarrow> byte list \<Rightarrow> 'g block_gen \<Rightarrow> 'g
    \<Rightarrow> buffer_error + (byte list \<times> read_buffer \<times> 'g)" where
  "read ch BS r buf gen_block g =
     and_then (read_cached BS r (length buf)) (\<lambda>(head_ks, r).
     require (length head_ks \<le> length buf) Panic (
     let (blocks, tail) = ch BS (drop (length head_ks) buf);
         (g, blocks) = gen_blocks gen_block g blocks
     in and_then (write_block BS r (length tail) gen_block g
          (\<lambda>tail_ks tail. require (length tail_ks = length tail) Panic (Ok tail_ks)) tail)
        (\<lambda>(r, g, tail). Ok (head_ks @ concat blocks @ tail, r, g))))"

definition read_serialize :: "nat \<Rightarrow> read_buffer \<Rightarrow> buffer_error + byte list" where
  "read_serialize BS r =
     and_then (read_get_pos BS r) (\<lambda>pos.
     let res = rb_buffer r in
     require (1 \<le> pos \<and> pos \<le> length res) Panic (
     Ok (take 1 res @ replicate (pos - 1) 0 @ drop pos res)))"

definition read_deserialize :: "nat \<Rightarrow> byte list \<Rightarrow> buffer_error + read_buffer" where
  "read_deserialize BS buffer =
     require (buffer \<noteq> []) Panic (
     let pos = unat (hd buffer) in
     if pos = 0 \<or> pos > BS \<or> (\<exists>b\<in>set (slice 1 pos buffer). b \<noteq> 0) then Err Error
     else Ok \<lparr>rb_buffer = buffer\<rparr>)"

text \<open>A sequence of reads with one generator.\<close>

fun read_all ::
  "chunker \<Rightarrow> nat \<Rightarrow> read_buffer \<Rightarrow> byte list list \<Rightarrow> 'g block_gen \<Rightarrow> 'g
    \<Rightarrow> buffer_error + (byte list list \<times> read_buffer \<times> 'g)" where
  "read_all ch BS r [] gen g = Ok ([], r, g)"
| "read_all ch BS r (buf # bufs) gen g =
     and_then (read ch BS r buf gen g) (\<lambda>(out, r, g).
     and_then (read_all ch BS r bufs gen g) (\<lambda>(outs, r, g). Ok (out # outs, r, g)))"

section \<open>Invariant and specification\<close>

definition read_wf :: "nat \<Rightarrow> read_buffer \<Rightarrow> bool" where
  "read_wf BS r \<longleftrightarrow> length (rb_buffer r) = BS \<and> 1 \<le> unat (hd (rb_buffer r)) \<and> unat (hd (rb_buffer r)) \<le> BS"

definition unread :: "read_buffer \<Rightarrow> byte list" where
  "unread r = drop (unat (hd (rb_buffer r))) (rb_buffer r)"

primrec stream :: "('g \<Rightarrow> 'g) \<Rightarrow> ('g \<Rightarrow> block) \<Rightarrow> 'g \<Rightarrow> nat \<Rightarrow> byte list" where
  "stream nxt blk g 0 = []"
| "stream nxt blk g (Suc n) = blk g @ stream nxt blk (nxt g) n"

lemma stream_add: "stream nxt blk g (m + n) = stream nxt blk g m @ stream nxt blk ((nxt ^^ m) g) n"
  by (induction m arbitrary: g) (simp_all add: funpow_swap1)

lemma unat_small_byte: "n < 256 \<Longrightarrow> unat (word_of_nat n :: byte) = n"
  by (simp add: unat_of_nat)

lemma drop_update_0: "0 < n \<Longrightarrow> drop n (xs[0 := x]) = drop n xs"
  by (cases n; cases xs) simp_all

lemma read_set_pos_wf:
  assumes "BS < 256" and "length (rb_buffer r) = BS" and "0 < pos" and "pos \<le> BS"
  shows "\<exists>r'. read_set_pos_unchecked BS r pos = Ok r' \<and> read_wf BS r' \<and>
    unat (hd (rb_buffer r')) = pos \<and> drop 1 (rb_buffer r') = drop 1 (rb_buffer r) \<and>
    unread r' = drop pos (rb_buffer r)"
proof -
  have "unat (word_of_nat pos :: byte) = pos" using assms by (simp add: unat_small_byte)
  then show ?thesis
    using assms by (cases "rb_buffer r")
      (auto simp: read_set_pos_unchecked_def read_wf_def unread_def drop_Cons' Suc_le_eq)
qed

lemma read_get_pos_wf: "BS < 256 \<Longrightarrow> read_wf BS r \<Longrightarrow> read_get_pos BS r = Ok (unat (hd (rb_buffer r)))"
  by (cases "rb_buffer r")
    (auto simp: read_wf_def read_get_pos_def word_less_nat_alt unat_small_byte)

lemma length_unread: "read_wf BS r \<Longrightarrow> length (unread r) = BS - unat (hd (rb_buffer r))"
  by (simp add: unread_def read_wf_def)

lemma read_cached_wf:
  assumes BS: "BS < 256" and r: "read_wf BS r"
  shows "\<exists>r'. read_cached BS r len = Ok (take len (unread r), r') \<and> read_wf BS r' \<and>
    unread r' = drop len (unread r)"
proof -
  let ?pos = "unat (hd (rb_buffer r))"
  let ?n = "min (BS - ?pos) len"
  have pos: "0 < ?pos" "?pos \<le> BS" "length (rb_buffer r) = BS" using r by (auto simp: read_wf_def)
  have le: "?pos + ?n \<le> BS" using pos(2) by linarith
  obtain r' where r': "read_set_pos_unchecked BS r (?pos + ?n) = Ok r'" "read_wf BS r'"
    "drop 1 (rb_buffer r') = drop 1 (rb_buffer r)" "unread r' = drop (?pos + ?n) (rb_buffer r)"
    using read_set_pos_wf [OF BS pos(3) _ le] pos(1) by auto
  have "drop (?pos - 1) (drop 1 (rb_buffer r')) = drop (?pos - 1) (drop 1 (rb_buffer r))"
    by (simp only: r'(3))
  then have same: "drop ?pos (rb_buffer r') = unread r"
    using pos(1) by (simp add: unread_def)
  have len: "length (unread r) = BS - ?pos" "length (rb_buffer r') = BS"
    using length_unread [OF r] r'(2) by (simp_all add: read_wf_def)
  have "take ?n (unread r) = take len (unread r)" "drop ?n (unread r) = drop len (unread r)"
    using len by (auto simp: min_def)
  moreover have "unread r' = drop ?n (unread r)"
    using r'(4) by (simp add: unread_def add.commute)
  ultimately show ?thesis
    using r'(1,2) pos len
    by (simp add: read_cached_def read_remaining_def read_get_pos_wf [OF BS r] same)
qed

lemma gen_blocks_stream:
  "fst (gen_blocks (\<lambda>g _. (nxt g, blk g)) g bs) = (nxt ^^ length bs) g"
  "concat (snd (gen_blocks (\<lambda>g _. (nxt g, blk g)) g bs)) = stream nxt blk g (length bs)"
  by (induction bs arbitrary: g) (simp_all add: funpow_swap1 case_prod_beta)

lemma length_stream: "(\<And>g. length (blk g) = BS) \<Longrightarrow> length (stream nxt blk g n) = n * BS"
  by (induction n arbitrary: g) simp_all

text \<open>A new block whose first bytes are handed out at once.\<close>

lemma write_block_wf:
  assumes BS: "0 < BS" "BS < 256" and r: "read_wf BS r" "unread r = []"
    and blk: "length (blk g) = BS" and tail: "length tail < BS"
  shows "\<exists>r' m. write_block BS r (length tail) (\<lambda>g _. (nxt g, blk g)) g
      (\<lambda>ks t. require (length ks = length t) Panic (Ok ks)) tail =
      Ok (r', (nxt ^^ m) g, take (length tail) (blk g)) \<and> read_wf BS r' \<and>
    stream nxt blk g m = take (length tail) (blk g) @ unread r'"
proof (cases "tail = []")
  case True
  with r show ?thesis by (intro exI [of _ r] exI [of _ 0]) (simp add: write_block_def)
next
  case False
  obtain r' where "read_set_pos_unchecked BS (r\<lparr>rb_buffer := blk g\<rparr>) (length tail) = Ok r'"
    "read_wf BS r'" "unread r' = drop (length tail) (blk g)"
    using read_set_pos_wf [OF BS(2), of "r\<lparr>rb_buffer := blk g\<rparr>" "length tail"] blk tail False
    by auto
  with False tail blk show ?thesis
    by (intro exI [of _ r'] exI [of _ 1]) (simp add: write_block_def)
qed

text \<open>
  One read: the unread bytes and the blocks generated are the bytes read and the bytes left
  unread; nothing is lost, repeated or reordered.
\<close>

context chunking
begin

lemma read_wf_step:
  assumes BS: "0 < BS" "BS < 256" and r: "read_wf BS r" and blk: "\<And>g. length (blk g) = BS"
  shows "\<exists>out r' m. read ch BS r buf (\<lambda>g _. (nxt g, blk g)) g = Ok (out, r', (nxt ^^ m) g) \<and>
    length out = length buf \<and> read_wf BS r' \<and> unread r @ stream nxt blk g m = out @ unread r'"
proof -
  let ?gen = "\<lambda>g _. (nxt g, blk g)"
  obtain r1 where r1: "read_cached BS r (length buf) = Ok (take (length buf) (unread r), r1)"
    "read_wf BS r1" "unread r1 = drop (length buf) (unread r)"
    using read_cached_wf [OF BS(2) r] by blast
  show ?thesis
  proof (cases "length buf \<le> length (unread r)")
    case True
    have "read ch BS r buf ?gen g = Ok (take (length buf) (unread r), r1, g)"
      using r1 True BS by (simp add: read_def ch_eq write_block_def)
    with r1 True show ?thesis
      by (intro exI [of _ "take (length buf) (unread r)"] exI [of _ r1] exI [of _ 0]) simp
  next
    case False
    let ?rest = "drop (length (unread r)) buf"
    let ?q = "length (fst (chunks BS ?rest))" and ?tail = "snd (chunks BS ?rest)"
    have tail: "length ?tail < BS" and len: "?q * BS + length ?tail = length ?rest"
      using chunks_props [OF BS(1), of ?rest] length_chunks [OF BS(1)] by blast+
    let ?g = "(nxt ^^ ?q) g"
    let ?out = "unread r @ stream nxt blk g ?q @ take (length ?tail) (blk ?g)"
    obtain r' m where w: "write_block BS r1 (length ?tail) ?gen ?g
        (\<lambda>ks t. require (length ks = length t) Panic (Ok ks)) ?tail =
        Ok (r', (nxt ^^ m) ?g, take (length ?tail) (blk ?g))" "read_wf BS r'"
      "stream nxt blk ?g m = take (length ?tail) (blk ?g) @ unread r'"
      using write_block_wf [of BS r1 blk ?g ?tail nxt] BS r1(2,3) blk tail False by auto
    have "read ch BS r buf ?gen g = Ok (?out, r', (nxt ^^ (?q + m)) g)"
      using r1(1) False w(1)
      by (simp add: read_def ch_eq BS(1) case_prod_beta gen_blocks_stream funpow_add add.commute [of ?q])
    moreover have "length ?out = length buf"
      using False tail len by (simp add: length_stream [of blk, OF blk] blk)
    ultimately show ?thesis
      using w(2,3) by (intro exI [of _ ?out] exI [of _ r'] exI [of _ "?q + m"]) (simp add: stream_add)
  qed
qed

lemma read_all_wf:
  assumes BS: "0 < BS" "BS < 256" and blk: "\<And>g. length (blk g) = BS" and r: "read_wf BS r"
  shows "\<exists>outs r' m. read_all ch BS r bufs (\<lambda>g _. (nxt g, blk g)) g = Ok (outs, r', (nxt ^^ m) g) \<and>
    map length outs = map length bufs \<and> read_wf BS r' \<and>
    unread r @ stream nxt blk g m = concat outs @ unread r'"
  using r
proof (induction bufs arbitrary: r g)
  case Nil
  then show ?case by (intro exI [of _ "[]"] exI [of _ r] exI [of _ 0]) simp
next
  case (Cons buf bufs)
  obtain out r1 m where r1: "read ch BS r buf (\<lambda>g _. (nxt g, blk g)) g = Ok (out, r1, (nxt ^^ m) g)"
    "length out = length buf" "read_wf BS r1" "unread r @ stream nxt blk g m = out @ unread r1"
    using read_wf_step [of BS r blk buf nxt g] BS Cons.prems blk by blast
  obtain outs r2 n where r2:
    "read_all ch BS r1 bufs (\<lambda>g _. (nxt g, blk g)) ((nxt ^^ m) g) = Ok (outs, r2, (nxt ^^ n) ((nxt ^^ m) g))"
    "map length outs = map length bufs" "read_wf BS r2"
    "unread r1 @ stream nxt blk ((nxt ^^ m) g) n = concat outs @ unread r2"
    using Cons.IH [OF r1(3)] by blast
  have "unread r @ stream nxt blk g (m + n) = concat (out # outs) @ unread r2"
    using r1(4) r2(4) by (simp add: stream_add) (metis append.assoc)
  with r1 r2 show ?case
    by (intro exI [of _ "out # outs"] exI [of _ r2] exI [of _ "m + n"])
      (simp add: funpow_add add.commute [of m])
qed

end

lemma read_default_wf:
  assumes "0 < BS" and "BS < 256"
  shows "\<exists>r. read_default BS = Ok r \<and> read_wf BS r \<and> unread r = []"
  using read_set_pos_wf [OF assms(2), of "\<lparr>rb_buffer = replicate BS 0\<rparr>" BS] assms(1)
  by (auto simp: read_default_def)

lemma read_serialize_wf:
  assumes "BS < 256" and r: "read_wf BS r"
  shows "read_serialize BS r = Ok (hd (rb_buffer r) #
    replicate (unat (hd (rb_buffer r)) - 1) 0 @ unread r)"
  using r by (cases "rb_buffer r")
    (auto simp: read_serialize_def read_get_pos_wf [OF assms] read_wf_def unread_def)

lemma zeros_prefix:
  assumes "n \<le> length xs"
  shows "(\<forall>b\<in>set (take n xs). b = 0) \<longleftrightarrow> xs = replicate n 0 @ drop n xs"
proof
  assume "\<forall>b\<in>set (take n xs). b = 0"
  then have "take n xs = replicate n 0" using assms by (intro replicate_eqI) auto
  then show "xs = replicate n 0 @ drop n xs" by (metis append_take_drop_id)
next
  assume "xs = replicate n 0 @ drop n xs"
  then have "take n xs = replicate n 0" by (metis append_eq_conv_conj length_replicate)
  then show "\<forall>b\<in>set (take n xs). b = 0" by simp
qed

text \<open>
  An array deserializes to the buffer with that array, and does so exactly when it is the
  serialization of that buffer.
\<close>

lemma read_deserialize_cases:
  assumes BS: "0 < BS" "BS < 256" and len: "length buf = BS"
  shows "read_deserialize BS buf =
    (if read_wf BS \<lparr>rb_buffer = buf\<rparr> \<and> read_serialize BS \<lparr>rb_buffer = buf\<rparr> = Ok buf
     then Ok \<lparr>rb_buffer = buf\<rparr> else Err Error)"
proof (cases buf)
  case (Cons c xs)
  let ?r = "\<lparr>rb_buffer = buf\<rparr>"
  show ?thesis
  proof (cases "read_wf BS ?r")
    case True
    then obtain n where n: "unat c = Suc n" "n \<le> length xs"
      using Cons len by (cases "unat c") (auto simp: read_wf_def)
    have ser: "read_serialize BS ?r = Ok (c # replicate n 0 @ drop n xs)"
      using read_serialize_wf [OF BS(2) True] n by (simp add: Cons unread_def)
    have "read_serialize BS ?r = Ok buf \<longleftrightarrow> (\<forall>b\<in>set (take n xs). b = 0)"
      unfolding ser zeros_prefix [OF n(2)] using Cons by auto
    with True n Cons show ?thesis
      by (auto simp: read_deserialize_def slice_def read_wf_def)
  next
    case False
    then have "unat c = 0 \<or> BS < unat c" using len Cons by (auto simp: read_wf_def Suc_le_eq)
    with False show ?thesis by (auto simp: read_deserialize_def Cons)
  qed
qed (use BS len in simp)

section \<open>Properties\<close>

text \<open>
  C25: from a fresh buffer, any sequence of reads hands out consecutive pieces of the stream of
  generated blocks, each as long as was asked for; the generated bytes are those handed out and
  those still unread, so none is lost or repeated, and no block is generated before it is
  needed.
\<close>

theorem reads_follow_stream:
  assumes "chunking ch" and "0 < BS" and "BS < 256" and "\<forall>g. length (blk g) = BS"
  shows "\<exists>outs r m. and_then (read_default BS) (\<lambda>r. read_all ch BS r bufs (\<lambda>g _. (nxt g, blk g)) g) =
      Ok (outs, r, (nxt ^^ m) g) \<and>
    map length outs = map length bufs \<and> stream nxt blk g m = concat outs @ unread r \<and>
    length (unread r) < BS"
proof -
  obtain r0 where r0: "read_default BS = Ok r0" "read_wf BS r0" "unread r0 = []"
    using read_default_wf [OF assms(2,3)] by blast
  obtain outs r m where "read_all ch BS r0 bufs (\<lambda>g _. (nxt g, blk g)) g = Ok (outs, r, (nxt ^^ m) g)"
    "map length outs = map length bufs" "read_wf BS r" "stream nxt blk g m = concat outs @ unread r"
    using chunking.read_all_wf [OF assms(1), of BS blk r0 bufs nxt g] assms r0(2,3) by auto
  moreover have "length (unread r) < BS"
    using \<open>read_wf BS r\<close> length_unread [OF \<open>read_wf BS r\<close>] assms(2) by (auto simp: read_wf_def)
  ultimately show ?thesis using r0(1) by auto
qed

theorem reads_follow_stream_witness:
  "\<exists>outs r m. and_then (read_default 4) (\<lambda>r. read_all chunks 4 r [[0, 0, 0], [], [0, 0, 0, 0, 0, 0, 0]]
        (\<lambda>g _. (g + 1, replicate 4 (word_of_nat g))) (7 :: nat)) = Ok (outs, r, ((\<lambda>g. g + 1) ^^ m) 7) \<and>
    map length outs = map length [[0, 0, 0], [], [0, 0, 0, 0, 0, 0, 0 :: byte]] \<and>
    stream (\<lambda>g. g + 1) (\<lambda>g. replicate 4 (word_of_nat g)) 7 m = concat outs @ unread r \<and>
    length (unread r) < 4"
  by (rule reads_follow_stream [OF chunks.chunking_axioms]) simp_all

text \<open>
  A read buffer survives serialization with its unread bytes, the array shows none of the
  bytes already handed out, and an array is deserialized exactly when it is the serialization
  of the buffer it gives; any other is an error.
\<close>

theorem read_buffer_serialization:
  assumes "0 < BS" and "BS < 256"
  shows "(\<forall>r. read_wf BS r \<longrightarrow> (\<exists>r'. read_serialize BS r =
        Ok (hd (rb_buffer r) # replicate (unat (hd (rb_buffer r)) - 1) 0 @ unread r) \<and>
        and_then (read_serialize BS r) (read_deserialize BS) = Ok r' \<and> read_wf BS r' \<and>
        unread r' = unread r)) \<and>
    (\<forall>buf. length buf = BS \<longrightarrow> read_deserialize BS buf =
      (if read_wf BS \<lparr>rb_buffer = buf\<rparr> \<and> read_serialize BS \<lparr>rb_buffer = buf\<rparr> = Ok buf
       then Ok \<lparr>rb_buffer = buf\<rparr> else Err Error))"
proof (intro conjI allI impI)
  fix r
  assume r: "read_wf BS r"
  let ?buf = "hd (rb_buffer r) # replicate (unat (hd (rb_buffer r)) - 1) 0 @ unread r"
  let ?r = "\<lparr>rb_buffer = ?buf\<rparr>"
  have len: "length ?buf = BS" using r length_unread [OF r] by (simp add: read_wf_def)
  then have wf: "read_wf BS ?r" using r by (simp add: read_wf_def)
  have same: "unread ?r = unread r"
    using r by (simp add: unread_def read_wf_def drop_Cons')
  have "read_deserialize BS ?buf = Ok ?r"
    using read_deserialize_cases [OF assms len] wf read_serialize_wf [OF assms(2) wf] same by simp
  with wf same show "\<exists>r'. read_serialize BS r = Ok ?buf \<and>
      and_then (read_serialize BS r) (read_deserialize BS) = Ok r' \<and> read_wf BS r' \<and>
      unread r' = unread r"
    by (simp add: read_serialize_wf [OF assms(2) r])
qed (rule read_deserialize_cases [OF assms])

theorem read_buffer_serialization_witness:
  "(\<exists>r'. and_then (read_serialize 4 \<lparr>rb_buffer = [2, 9, 5, 6]\<rparr>) (read_deserialize 4) = Ok r' \<and>
      unread r' = [5, 6]) \<and>
   read_deserialize 4 [2, 9, 5, 6] = Err Error"
proof -
  let ?r = "\<lparr>rb_buffer = [2, 9, 5, 6]\<rparr>"
  have r: "read_wf 4 ?r" "unread ?r = [5, 6]" "read_serialize 4 ?r \<noteq> Ok [2, 9, 5, 6]"
    by (simp_all add: read_wf_def unread_def read_serialize_def read_get_pos_def)
  note props = read_buffer_serialization [of 4]
  have "\<exists>r'. and_then (read_serialize 4 ?r) (read_deserialize 4) = Ok r' \<and> unread r' = [5, 6]"
    using props [THEN conjunct1, THEN spec, of ?r] r(1,2) by auto
  moreover have "read_deserialize 4 [2, 9, 5, 6] = Err Error"
    using props [THEN conjunct2, THEN spec, of "[2, 9, 5, 6]"] r(3) by simp
  ultimately show ?thesis by blast
qed

end
