(* ===== verification/Blake3_Compress.thy ===== *)
theory Blake3_Compress
  imports Vow_Prelude
begin

unbundle bit_operations_syntax

text \<open>
  \<^verbatim>\<open>patches/blake3\<close>: the compression function of BLAKE3 as the portable back end computes
  it (\<^verbatim>\<open>src/portable.rs\<close>), with the constants of \<^verbatim>\<open>src/lib.rs\<close> and \<^verbatim>\<open>src/guts.rs\<close> and
  the conversions of \<^verbatim>\<open>src/platform.rs\<close>. The enum \<open>Platform\<close> is the record \<open>platform\<close> of
  the operations it dispatches to; \<open>portable\<close> is its portable variant. What the callers rely
  on, that every back end computes the portable functions and has a power of two as its SIMD
  degree, is the locale \<open>platform_laws\<close>.
\<close>

section \<open>Constants\<close>

type_synonym cv_words = "u32 list"
type_synonym cv_bytes = "byte list"

datatype panic = Panics

definition OUT_LEN :: nat where "OUT_LEN = 32"
definition BLOCK_LEN :: nat where "BLOCK_LEN = 64"
definition CHUNK_LEN :: nat where "CHUNK_LEN = 1024"
definition MAX_DEPTH :: nat where "MAX_DEPTH = 54"

definition IV :: cv_words where
  "IV = [0x6A09E667, 0xBB67AE85, 0x3C6EF372, 0xA54FF53A,
         0x510E527F, 0x9B05688C, 0x1F83D9AB, 0x5BE0CD19]"

definition MSG_SCHEDULE :: "nat list list" where
  "MSG_SCHEDULE =
    [[0, 1, 2, 3, 4, 5, 6, 7, 8, 9, 10, 11, 12, 13, 14, 15],
     [2, 6, 3, 10, 7, 0, 4, 13, 1, 11, 12, 5, 9, 14, 15, 8],
     [3, 4, 10, 12, 13, 2, 7, 14, 6, 5, 9, 0, 11, 15, 8, 1],
     [10, 7, 12, 9, 14, 3, 13, 15, 4, 0, 11, 2, 5, 8, 1, 6],
     [12, 13, 9, 11, 15, 10, 14, 8, 7, 2, 5, 3, 0, 1, 6, 4],
     [9, 14, 11, 5, 8, 12, 15, 1, 13, 3, 0, 10, 2, 6, 4, 7],
     [11, 15, 5, 0, 1, 9, 8, 6, 14, 10, 2, 12, 3, 4, 7, 13]]"

definition CHUNK_START :: u8 where "CHUNK_START = push_bit 0 1"
definition CHUNK_END :: u8 where "CHUNK_END = push_bit 1 1"
definition PARENT :: u8 where "PARENT = push_bit 2 1"
definition ROOT :: u8 where "ROOT = push_bit 3 1"
definition KEYED_HASH :: u8 where "KEYED_HASH = push_bit 4 1"
definition DERIVE_KEY_CONTEXT :: u8 where "DERIVE_KEY_CONTEXT = push_bit 5 1"
definition DERIVE_KEY_MATERIAL :: u8 where "DERIVE_KEY_MATERIAL = push_bit 6 1"

lemmas len_defs = OUT_LEN_def BLOCK_LEN_def CHUNK_LEN_def

definition counter_low :: "u64 \<Rightarrow> u32" where
  "counter_low counter = ucast counter"

definition counter_high :: "u64 \<Rightarrow> u32" where
  "counter_high counter = ucast (drop_bit 32 counter)"

section \<open>Words and bytes\<close>

definition words_from_le_bytes :: "nat \<Rightarrow> byte list \<Rightarrow> u32 list" where
  "words_from_le_bytes n bytes =
     map (\<lambda>i. u32_from_le_bytes (take 4 (drop (i * 4) bytes))) [0..<n]"

definition words_from_le_bytes_32 :: "byte list \<Rightarrow> cv_words" where
  "words_from_le_bytes_32 bytes = words_from_le_bytes 8 bytes"

definition words_from_le_bytes_64 :: "byte list \<Rightarrow> u32 list" where
  "words_from_le_bytes_64 bytes = words_from_le_bytes 16 bytes"

definition le_bytes_from_words_32 :: "cv_words \<Rightarrow> cv_bytes" where
  "le_bytes_from_words_32 words = concat (map (\<lambda>i. u32_to_le_bytes (words ! i)) [0..<8])"

definition le_bytes_from_words_64 :: "u32 list \<Rightarrow> byte list" where
  "le_bytes_from_words_64 words = concat (map (\<lambda>i. u32_to_le_bytes (words ! i)) [0..<16])"

section \<open>The compression function\<close>

definition g :: "u32 list \<Rightarrow> nat \<Rightarrow> nat \<Rightarrow> nat \<Rightarrow> nat \<Rightarrow> u32 \<Rightarrow> u32 \<Rightarrow> u32 list" where
  "g state a b c d x y =
     (let state = state[a := state ! a + state ! b + x];
          state = state[d := word_rotr 16 (state ! d XOR state ! a)];
          state = state[c := state ! c + state ! d];
          state = state[b := word_rotr 12 (state ! b XOR state ! c)];
          state = state[a := state ! a + state ! b + y];
          state = state[d := word_rotr 8 (state ! d XOR state ! a)];
          state = state[c := state ! c + state ! d];
          state = state[b := word_rotr 7 (state ! b XOR state ! c)]
      in state)"

definition round :: "u32 list \<Rightarrow> u32 list \<Rightarrow> nat \<Rightarrow> u32 list" where
  "round state msg r =
     (let schedule = MSG_SCHEDULE ! r;
          state = g state 0 4 8 12 (msg ! (schedule ! 0)) (msg ! (schedule ! 1));
          state = g state 1 5 9 13 (msg ! (schedule ! 2)) (msg ! (schedule ! 3));
          state = g state 2 6 10 14 (msg ! (schedule ! 4)) (msg ! (schedule ! 5));
          state = g state 3 7 11 15 (msg ! (schedule ! 6)) (msg ! (schedule ! 7));
          state = g state 0 5 10 15 (msg ! (schedule ! 8)) (msg ! (schedule ! 9));
          state = g state 1 6 11 12 (msg ! (schedule ! 10)) (msg ! (schedule ! 11));
          state = g state 2 7 8 13 (msg ! (schedule ! 12)) (msg ! (schedule ! 13));
          state = g state 3 4 9 14 (msg ! (schedule ! 14)) (msg ! (schedule ! 15))
      in state)"

definition compress_pre :: "cv_words \<Rightarrow> byte list \<Rightarrow> u8 \<Rightarrow> u64 \<Rightarrow> u8 \<Rightarrow> u32 list" where
  "compress_pre cv block block_len counter flags =
     (let block_words = words_from_le_bytes_64 block;
          state =
            [cv ! 0, cv ! 1, cv ! 2, cv ! 3, cv ! 4, cv ! 5, cv ! 6, cv ! 7,
             IV ! 0, IV ! 1, IV ! 2, IV ! 3,
             counter_low counter, counter_high counter, ucast block_len, ucast flags];
          state = round state block_words 0;
          state = round state block_words 1;
          state = round state block_words 2;
          state = round state block_words 3;
          state = round state block_words 4;
          state = round state block_words 5;
          state = round state block_words 6
      in state)"

definition compress_in_place :: "cv_words \<Rightarrow> byte list \<Rightarrow> u8 \<Rightarrow> u64 \<Rightarrow> u8 \<Rightarrow> cv_words" where
  "compress_in_place cv block block_len counter flags =
     (let state = compress_pre cv block block_len counter flags
      in map (\<lambda>i. state ! i XOR state ! (i + 8)) [0..<8])"

definition compress_xof :: "cv_words \<Rightarrow> byte list \<Rightarrow> u8 \<Rightarrow> u64 \<Rightarrow> u8 \<Rightarrow> byte list" where
  "compress_xof cv block block_len counter flags =
     (let state = compress_pre cv block block_len counter flags;
          low = map (\<lambda>i. state ! i XOR state ! (i + 8)) [0..<8];
          high = map (\<lambda>i. state ! (i + 8) XOR cv ! i) [0..<8]
      in le_bytes_from_words_64 (low @ high))"

section \<open>Hashing many inputs\<close>

text \<open>The loop of \<open>hash1\<close> over the blocks of its input.\<close>

function hash1_loop :: "cv_words \<Rightarrow> byte list \<Rightarrow> u64 \<Rightarrow> u8 \<Rightarrow> u8 \<Rightarrow> u8 \<Rightarrow> cv_words" where
  "hash1_loop cv rest counter flags flags_end block_flags =
     (if BLOCK_LEN \<le> length rest then
        let block_flags = (if length rest = BLOCK_LEN then block_flags OR flags_end else block_flags);
            cv = compress_in_place cv (take BLOCK_LEN rest) (word_of_nat BLOCK_LEN) counter block_flags
        in hash1_loop cv (drop BLOCK_LEN rest) counter flags flags_end flags
      else cv)"
  by pat_completeness auto
termination
  by (relation "measure (\<lambda>(cv, rest, _). length rest)") (auto simp: BLOCK_LEN_def)

declare hash1_loop.simps [simp del]

definition hash1 :: "byte list \<Rightarrow> cv_words \<Rightarrow> u64 \<Rightarrow> u8 \<Rightarrow> u8 \<Rightarrow> u8 \<Rightarrow> panic + cv_bytes" where
  "hash1 input key counter flags flags_start flags_end =
     require (length input mod BLOCK_LEN = 0) Panics (
     Ok (le_bytes_from_words_32 (hash1_loop key input counter flags flags_end (flags OR flags_start))))"

text \<open>
  \<open>out_len\<close> is the number of bytes of the slice that the results are written to, in the order
  in which they are returned here.
\<close>

fun hash_many_loop ::
  "byte list list \<Rightarrow> cv_words \<Rightarrow> u64 \<Rightarrow> bool \<Rightarrow> u8 \<Rightarrow> u8 \<Rightarrow> u8 \<Rightarrow> panic + cv_bytes list" where
  "hash_many_loop [] key counter increment flags flags_start flags_end = Ok []"
| "hash_many_loop (input # inputs) key counter increment flags flags_start flags_end =
     and_then (hash1 input key counter flags flags_start flags_end) (\<lambda>cv.
     and_then (hash_many_loop inputs key (if increment then counter + 1 else counter) increment
       flags flags_start flags_end) (\<lambda>cvs.
     Ok (cv # cvs)))"

definition hash_many ::
  "byte list list \<Rightarrow> cv_words \<Rightarrow> u64 \<Rightarrow> bool \<Rightarrow> u8 \<Rightarrow> u8 \<Rightarrow> u8 \<Rightarrow> nat \<Rightarrow> panic + cv_bytes list" where
  "hash_many inputs key counter increment flags flags_start flags_end out_len =
     require (length inputs * OUT_LEN \<le> out_len) Panics (
     hash_many_loop inputs key counter increment flags flags_start flags_end)"

section \<open>Platforms\<close>

record platform =
  MAX_SIMD_DEGREE :: nat
  simd_degree :: nat
  p_compress_in_place :: "cv_words \<Rightarrow> byte list \<Rightarrow> u8 \<Rightarrow> u64 \<Rightarrow> u8 \<Rightarrow> cv_words"
  p_compress_xof :: "cv_words \<Rightarrow> byte list \<Rightarrow> u8 \<Rightarrow> u64 \<Rightarrow> u8 \<Rightarrow> byte list"
  p_hash_many :: "byte list list \<Rightarrow> cv_words \<Rightarrow> u64 \<Rightarrow> bool \<Rightarrow> u8 \<Rightarrow> u8 \<Rightarrow> u8 \<Rightarrow> nat
    \<Rightarrow> panic + cv_bytes list"

definition MAX_SIMD_DEGREE_OR_2 :: "platform \<Rightarrow> nat" where
  "MAX_SIMD_DEGREE_OR_2 P = max (MAX_SIMD_DEGREE P) 2"

text \<open>The portable variant, on a target whose widest back end has the degree \<open>M\<close>.\<close>

definition portable :: "nat \<Rightarrow> platform" where
  "portable M = \<lparr>MAX_SIMD_DEGREE = M, simd_degree = 1,
     p_compress_in_place = compress_in_place, p_compress_xof = compress_xof,
     p_hash_many = hash_many\<rparr>"

text \<open>
  \<open>xof_many\<close> as every platform but one computes it: a block of output per value of the
  counter, into \<open>out_len\<close> bytes. The counter is checked for overflow.
\<close>

fun xof_many_loop :: "platform \<Rightarrow> cv_words \<Rightarrow> byte list \<Rightarrow> u8 \<Rightarrow> u64 \<Rightarrow> u8 \<Rightarrow> nat
    \<Rightarrow> panic + byte list" where
  "xof_many_loop P cv block block_len counter flags 0 = Ok []"
| "xof_many_loop P cv block block_len counter flags (Suc n) =
     (let out_array = p_compress_xof P cv block block_len counter flags in
      and_then (ok_or (checked_add counter 1) Panics) (\<lambda>counter.
      and_then (xof_many_loop P cv block block_len counter flags n) (\<lambda>out.
      Ok (out_array @ out))))"

definition xof_many ::
  "platform \<Rightarrow> cv_words \<Rightarrow> byte list \<Rightarrow> u8 \<Rightarrow> u64 \<Rightarrow> u8 \<Rightarrow> nat \<Rightarrow> panic + byte list" where
  "xof_many P cv block block_len counter flags out_len =
     require (out_len mod BLOCK_LEN = 0) Panics (
     xof_many_loop P cv block block_len counter flags (out_len div BLOCK_LEN))"

locale platform_laws =
  fixes P :: platform
  assumes compress: "p_compress_in_place P = compress_in_place"
    and xof: "p_compress_xof P = compress_xof"
    and many: "p_hash_many P = hash_many"
    and degree: "\<exists>k. simd_degree P = 2 ^ k"
    and degree_le: "simd_degree P \<le> MAX_SIMD_DEGREE P"

lemma portable_laws: "1 \<le> M \<Longrightarrow> platform_laws (portable M)"
  by unfold_locales (auto simp: portable_def intro: exI [of _ 0])

interpretation portable_1: platform_laws "portable 1"
  by (rule portable_laws) simp

interpretation portable_16: platform_laws "portable 16"
  by (rule portable_laws) simp

end
