(* ===== verification/Blake3_Chunk.thy ===== *)
theory Blake3_Chunk
  imports Blake3_Compress Block_Buffer
begin

unbundle bit_operations_syntax

text \<open>
  Chunks of BLAKE3 (\<^verbatim>\<open>patches/blake3/src/lib.rs\<close>): the structs \<open>Output\<close>, \<open>ChunkState\<close> and
  \<open>OutputReader\<close> with their methods. A chunk state that is fed in pieces is shown to be the
  state of the whole chunk (\<open>chunk_state_of\<close>), and a reader to hand out the stream of output
  blocks in order, from any position. Debug assertions and slices out of range are the result
  \<open>Panics\<close>.
\<close>

section \<open>Output\<close>

record b3_output =
  o_input_chaining_value :: cv_words
  o_block :: "byte list"
  o_block_len :: u8
  o_counter :: u64
  o_flags :: u8
  o_platform :: platform

definition chaining_value :: "b3_output \<Rightarrow> cv_bytes" where
  "chaining_value out =
     le_bytes_from_words_32 (p_compress_in_place (o_platform out) (o_input_chaining_value out)
       (o_block out) (o_block_len out) (o_counter out) (o_flags out))"

definition root_hash :: "b3_output \<Rightarrow> panic + cv_bytes" where
  "root_hash out =
     require (o_counter out = 0) Panics (
     Ok (le_bytes_from_words_32 (p_compress_in_place (o_platform out) (o_input_chaining_value out)
       (o_block out) (o_block_len out) 0 (o_flags out OR ROOT))))"

definition root_output_block :: "b3_output \<Rightarrow> byte list" where
  "root_output_block out =
     p_compress_xof (o_platform out) (o_input_chaining_value out) (o_block out) (o_block_len out)
       (o_counter out) (o_flags out OR ROOT)"

section \<open>Chunk states\<close>

record chunk_state =
  cs_cv :: cv_words
  cs_chunk_counter :: u64
  cs_buf :: "byte list"
  cs_buf_len :: u8
  cs_blocks_compressed :: u8
  cs_flags :: u8
  cs_platform :: platform

definition chunk_state_new :: "cv_words \<Rightarrow> u64 \<Rightarrow> u8 \<Rightarrow> platform \<Rightarrow> chunk_state" where
  "chunk_state_new key chunk_counter flags P =
     \<lparr>cs_cv = key, cs_chunk_counter = chunk_counter, cs_buf = replicate BLOCK_LEN 0,
      cs_buf_len = 0, cs_blocks_compressed = 0, cs_flags = flags, cs_platform = P\<rparr>"

definition chunk_state_len :: "chunk_state \<Rightarrow> nat" where
  "chunk_state_len c = BLOCK_LEN * unat (cs_blocks_compressed c) + unat (cs_buf_len c)"

definition fill_buf :: "chunk_state \<Rightarrow> byte list \<Rightarrow> panic + (chunk_state \<times> byte list)" where
  "fill_buf c input =
     (let n = unat (cs_buf_len c) in
      require (n \<le> BLOCK_LEN) Panics (
      let want = BLOCK_LEN - n;
          k = min want (length input) in
      require (n + k \<le> length (cs_buf c)) Panics (
      Ok (c\<lparr>cs_buf := take n (cs_buf c) @ take k input @ drop (n + k) (cs_buf c),
            cs_buf_len := cs_buf_len c + word_of_nat k\<rparr>, drop k input))))"

definition start_flag :: "chunk_state \<Rightarrow> u8" where
  "start_flag c = (if cs_blocks_compressed c = 0 then CHUNK_START else 0)"

text \<open>The loop of \<open>ChunkState::update\<close> over whole blocks of the input.\<close>

function chunk_update_loop :: "chunk_state \<Rightarrow> byte list \<Rightarrow> panic + (chunk_state \<times> byte list)" where
  "chunk_update_loop c input =
     (if BLOCK_LEN < length input then
        require (cs_buf_len c = 0) Panics (
        let block_flags = cs_flags c OR start_flag c in
        chunk_update_loop
          (c\<lparr>cs_cv := p_compress_in_place (cs_platform c) (cs_cv c) (take BLOCK_LEN input)
               (word_of_nat BLOCK_LEN) (cs_chunk_counter c) block_flags,
             cs_blocks_compressed := cs_blocks_compressed c + 1\<rparr>)
          (drop BLOCK_LEN input))
      else Ok (c, input))"
  by pat_completeness auto
termination by (relation "measure (\<lambda>(c, input). length input)") (auto simp: BLOCK_LEN_def)

declare chunk_update_loop.simps [simp del]

definition chunk_state_update :: "chunk_state \<Rightarrow> byte list \<Rightarrow> panic + chunk_state" where
  "chunk_state_update c input =
     and_then
       (if 0 < cs_buf_len c then
          and_then (fill_buf c input) (\<lambda>(c, input).
          if input \<noteq> [] then
            require (unat (cs_buf_len c) = BLOCK_LEN) Panics (
            let block_flags = cs_flags c OR start_flag c in
            Ok (c\<lparr>cs_cv := p_compress_in_place (cs_platform c) (cs_cv c) (cs_buf c)
                    (word_of_nat BLOCK_LEN) (cs_chunk_counter c) block_flags,
                  cs_buf_len := 0, cs_buf := replicate BLOCK_LEN 0,
                  cs_blocks_compressed := cs_blocks_compressed c + 1\<rparr>, input))
          else Ok (c, input))
        else Ok (c, input)) (\<lambda>(c, input).
     and_then (chunk_update_loop c input) (\<lambda>(c, input).
     and_then (fill_buf c input) (\<lambda>(c, input).
     require (input = []) Panics (
     require (chunk_state_len c \<le> CHUNK_LEN) Panics (
     Ok c)))))"

definition chunk_state_output :: "chunk_state \<Rightarrow> b3_output" where
  "chunk_state_output c =
     \<lparr>o_input_chaining_value = cs_cv c, o_block = cs_buf c, o_block_len = cs_buf_len c,
      o_counter = cs_chunk_counter c, o_flags = (cs_flags c OR start_flag c) OR CHUNK_END,
      o_platform = cs_platform c\<rparr>"

section \<open>Specification\<close>

text \<open>The chaining value after a list of whole blocks of a chunk.\<close>

definition blocks_cv :: "cv_words \<Rightarrow> u64 \<Rightarrow> u8 \<Rightarrow> byte list list \<Rightarrow> cv_words" where
  "blocks_cv key counter flags bs =
     (case bs of
        [] \<Rightarrow> key
      | b # bs \<Rightarrow> foldl (\<lambda>cv b. compress_in_place cv b 64 counter flags)
          (compress_in_place key b 64 counter (flags OR CHUNK_START)) bs)"

lemma blocks_cv_snoc:
  "blocks_cv key counter flags (bs @ [b]) =
     compress_in_place (blocks_cv key counter flags bs) b 64 counter
       (flags OR (if bs = [] then CHUNK_START else 0))"
  by (cases bs) (simp_all add: blocks_cv_def)

definition block_state ::
  "platform \<Rightarrow> cv_words \<Rightarrow> u64 \<Rightarrow> u8 \<Rightarrow> byte list list \<Rightarrow> byte list \<Rightarrow> chunk_state" where
  "block_state P key counter flags bs r =
     \<lparr>cs_cv = blocks_cv key counter flags bs, cs_chunk_counter = counter,
      cs_buf = r @ replicate (64 - length r) 0, cs_buf_len = word_of_nat (length r),
      cs_blocks_compressed = word_of_nat (length bs), cs_flags = flags, cs_platform = P\<rparr>"

text \<open>The state of a chunk with the given bytes: the last block stays in the buffer.\<close>

definition chunk_state_of :: "platform \<Rightarrow> cv_words \<Rightarrow> u64 \<Rightarrow> u8 \<Rightarrow> byte list \<Rightarrow> chunk_state" where
  "chunk_state_of P key counter flags data =
     block_state P key counter flags (fst (lazy_chunks 64 data)) (snd (lazy_chunks 64 data))"

lemma unat_byte_of_nat: "n < 256 \<Longrightarrow> unat (word_of_nat n :: u8) = n"
  by (simp add: unat_of_nat)

lemma byte_of_nat_eq_0: "n < 256 \<Longrightarrow> (word_of_nat n :: u8) = 0 \<longleftrightarrow> n = 0"
  using unat_byte_of_nat [of n] by (auto simp: unat_eq_zero)

lemma fill_buf_block:
  assumes "length r \<le> 64"
  shows "fill_buf (block_state P key counter flags bs r) input =
    Ok (block_state P key counter flags bs (r @ take (64 - length r) input), drop (64 - length r) input)"
proof -
  have n: "unat (word_of_nat (length r) :: u8) = length r" using assms by (simp add: unat_byte_of_nat)
  show ?thesis
  proof (cases "64 - length r \<le> length input")
    case True
    then show ?thesis
      using assms by (simp add: fill_buf_def block_state_def BLOCK_LEN_def n min_def Let_def)
  next
    case False
    then have "length r + length input \<le> 64" by simp
    with False show ?thesis
      using assms by (simp add: fill_buf_def block_state_def BLOCK_LEN_def n min_def Let_def)
  qed
qed

lemma start_flag_block:
  "length bs < 256 \<Longrightarrow>
     start_flag (block_state P key counter flags bs r) = (if bs = [] then CHUNK_START else 0)"
  by (simp add: start_flag_def block_state_def byte_of_nat_eq_0)

lemma block_state_sel [simp]:
  "cs_cv (block_state P key counter flags bs r) = blocks_cv key counter flags bs"
  "cs_chunk_counter (block_state P key counter flags bs r) = counter"
  "cs_buf (block_state P key counter flags bs r) = r @ replicate (64 - length r) 0"
  "cs_buf_len (block_state P key counter flags bs r) = word_of_nat (length r)"
  "cs_blocks_compressed (block_state P key counter flags bs r) = word_of_nat (length bs)"
  "cs_flags (block_state P key counter flags bs r) = flags"
  "cs_platform (block_state P key counter flags bs r) = P"
  by (simp_all add: block_state_def)

lemma block_state_0:
  "block_state P key counter flags bs [] = \<lparr>cs_cv = blocks_cv key counter flags bs,
     cs_chunk_counter = counter, cs_buf = replicate 64 0, cs_buf_len = 0,
     cs_blocks_compressed = word_of_nat (length bs), cs_flags = flags, cs_platform = P\<rparr>"
  by (simp add: block_state_def)

context platform_laws
begin

lemma compress_block:
  assumes "length bs < 256" and "length b = 64"
  shows "(block_state P key counter flags bs r)\<lparr>
      cs_cv := p_compress_in_place P (blocks_cv key counter flags bs) b (word_of_nat BLOCK_LEN) counter
        (flags OR start_flag (block_state P key counter flags bs r)),
      cs_buf_len := 0, cs_buf := replicate BLOCK_LEN 0,
      cs_blocks_compressed := word_of_nat (length bs) + 1\<rparr> =
    block_state P key counter flags (bs @ [b]) []"
  using assms
  by (simp add: start_flag_block compress blocks_cv_snoc block_state_0 BLOCK_LEN_def add.commute)

lemma update_loop_block:
  assumes "length bs * 64 + length input \<le> 1024"
  shows "chunk_update_loop (block_state P key counter flags bs []) input =
    Ok (block_state P key counter flags (bs @ fst (lazy_chunks 64 input)) [], snd (lazy_chunks 64 input))"
  using assms
proof (induction input arbitrary: bs rule: length_induct)
  case (1 input)
  show ?case
  proof (cases "64 < length input")
    case False
    then show ?thesis
      by (subst chunk_update_loop.simps) (simp add: BLOCK_LEN_def lazy_chunks_short)
  next
    case True
    let ?b = "take 64 input" and ?rest = "drop 64 input"
    have split: "lazy_chunks 64 input = (?b # fst (lazy_chunks 64 ?rest), snd (lazy_chunks 64 ?rest))"
      using lazy_chunks_block [of 64 ?b ?rest] True by simp
    have bs: "length bs < 256" using 1(2) by simp
    have "chunk_update_loop (block_state P key counter flags bs []) input =
        chunk_update_loop (block_state P key counter flags (bs @ [?b]) []) ?rest"
      using True compress_block [OF bs, of ?b key counter flags "[]"]
      by (subst chunk_update_loop.simps) (simp add: BLOCK_LEN_def block_state_0 add.commute [of 1])
    also have "\<dots> = Ok (block_state P key counter flags ((bs @ [?b]) @ fst (lazy_chunks 64 ?rest)) [],
        snd (lazy_chunks 64 ?rest))"
      using 1 True by (intro 1(1) [rule_format]) simp_all
    finally show ?thesis by (simp add: split)
  qed
qed

text \<open>What \<open>update\<close> does once the buffer is empty.\<close>

lemma update_finish:
  assumes "length bs * 64 + length input \<le> 1024"
  shows "and_then (chunk_update_loop (block_state P key counter flags bs []) input) (\<lambda>(c, input).
      and_then (fill_buf c input) (\<lambda>(c, input).
      require (input = []) Panics (
      require (chunk_state_len c \<le> CHUNK_LEN) Panics (Ok c)))) =
    Ok (block_state P key counter flags (bs @ fst (lazy_chunks 64 input)) (snd (lazy_chunks 64 input)))"
proof -
  let ?bs = "fst (lazy_chunks 64 input)" and ?r = "snd (lazy_chunks 64 input)"
  have r: "length ?r \<le> 64" and len: "length ?bs * 64 + length ?r = length input"
    using lazy_chunks_props(2,4) [of 64 input] by simp_all
  then have "chunk_state_len (block_state P key counter flags (bs @ ?bs) ?r) \<le> 1024"
    using assms by (simp add: chunk_state_len_def block_state_def BLOCK_LEN_def unat_byte_of_nat
        flip: of_nat_add)
  then show ?thesis
    using r by (simp add: update_loop_block [OF assms] fill_buf_block CHUNK_LEN_def)
qed

text \<open>Feeding a chunk state more bytes of its chunk.\<close>

lemma chunk_update_of:
  assumes "length (d @ input) \<le> 1024"
  shows "chunk_state_update (chunk_state_of P key counter flags d) input =
    Ok (chunk_state_of P key counter flags (d @ input))"
proof (cases "d = []")
  case True
  then show ?thesis
    using assms update_finish [of "[]" input key counter flags]
    by (simp add: chunk_state_of_def chunk_state_update_def lazy_chunks_short block_state_0)
next
  case False
  let ?S = "block_state P key counter flags"
  let ?bs = "fst (lazy_chunks 64 d)" and ?r = "snd (lazy_chunks 64 d)"
  let ?k = "64 - length ?r"
  let ?r' = "?r @ take ?k input" and ?rest = "drop ?k input"
  have r: "length ?r \<le> 64" "?r \<noteq> []" and len: "length ?bs * 64 + length ?r = length d"
    using lazy_chunks_props(2,4,5) [of 64 d] False by simp_all
  have split: "lazy_chunks 64 (d @ input) =
      (?bs @ fst (lazy_chunks 64 (?r @ input)), snd (lazy_chunks 64 (?r @ input)))"
    using chunks.lazy.split_append [of 64 d input] by simp
  have pos: "0 < (word_of_nat (length ?r) :: u8)"
    using r byte_of_nat_eq_0 [of "length ?r"] by (simp add: word_gt_0)
  show ?thesis
  proof (cases "?rest = []")
    case True
    then have le: "length (?r @ input) \<le> 64" using r(1) by simp
    have "chunk_state_update (?S ?bs ?r) input =
        and_then (chunk_update_loop (?S ?bs (?r @ input)) []) (\<lambda>(c, input).
        and_then (fill_buf c input) (\<lambda>(c, input). require (input = []) Panics (
        require (chunk_state_len c \<le> CHUNK_LEN) Panics (Ok c))))"
      using pos True by (simp add: chunk_state_update_def fill_buf_block [OF r(1)])
    moreover have "chunk_state_len (?S ?bs (?r @ input)) \<le> 1024"
      using le assms len by (simp add: chunk_state_len_def block_state_def BLOCK_LEN_def
          unat_byte_of_nat flip: of_nat_add)
    ultimately show ?thesis
      using le split lazy_chunks_short [of 64 "?r @ input"]
      by (simp add: chunk_state_of_def chunk_update_loop.simps fill_buf_block CHUNK_LEN_def)
  next
    case False
    have r': "length ?r' = 64" using False r(1) by simp
    have "lazy_chunks 64 (?r @ input) = (?r' # fst (lazy_chunks 64 ?rest), snd (lazy_chunks 64 ?rest))"
      using lazy_chunks_block [of 64 ?r' ?rest] r' False by simp
    moreover have "chunk_state_update (?S ?bs ?r) input =
        and_then (chunk_update_loop (?S (?bs @ [?r']) []) ?rest) (\<lambda>(c, input).
        and_then (fill_buf c input) (\<lambda>(c, input). require (input = []) Panics (
        require (chunk_state_len c \<le> CHUNK_LEN) Panics (Ok c))))"
      using pos False r' len assms compress_block [of ?bs ?r' key counter flags ?r']
      by (simp add: chunk_state_update_def fill_buf_block [OF r(1)] BLOCK_LEN_def)
    moreover have "length (?bs @ [?r']) * 64 + length ?rest \<le> 1024"
      using r' len assms by simp
    ultimately show ?thesis
      using update_finish [of "?bs @ [?r']" ?rest key counter flags] split
      by (simp add: chunk_state_of_def)
  qed
qed

end

lemma chunk_state_new_eq: "chunk_state_new key counter flags P = chunk_state_of P key counter flags []"
  by (simp add: chunk_state_new_def chunk_state_of_def lazy_chunks_short block_state_0 BLOCK_LEN_def
      blocks_cv_def)

lemma chunk_state_len_of:
  assumes "length d \<le> 1024"
  shows "chunk_state_len (chunk_state_of P key counter flags d) = length d"
  using assms lazy_chunks_props(2,4) [of 64 d]
  by (simp add: chunk_state_len_def chunk_state_of_def BLOCK_LEN_def unat_byte_of_nat)

text \<open>The output of a whole chunk, and of a chunk of whole blocks as \<open>hash1\<close> computes it.\<close>

definition chunk_output :: "platform \<Rightarrow> cv_words \<Rightarrow> u8 \<Rightarrow> u64 \<Rightarrow> byte list \<Rightarrow> b3_output" where
  "chunk_output P key flags counter data = chunk_state_output (chunk_state_of P key counter flags data)"

definition chunk_cv :: "platform \<Rightarrow> cv_words \<Rightarrow> u8 \<Rightarrow> u64 \<Rightarrow> byte list \<Rightarrow> cv_bytes" where
  "chunk_cv P key flags counter data = chaining_value (chunk_output P key flags counter data)"

lemma length_cv [simp]: "length (le_bytes_from_words_32 ws) = 32"
  by (simp add: le_bytes_from_words_32_def length_concat comp_def sum_list_triv)

lemma length_chaining_value [simp]: "length (chaining_value out) = 32"
  by (simp add: chaining_value_def)

lemma hash1_loop_blocks:
  assumes "\<forall>b\<in>set bs. length b = 64" and "length b = 64"
  shows "hash1_loop cv (concat (bs @ [b])) counter flags fe bf =
    compress_in_place
      (case bs of [] \<Rightarrow> cv
       | x # xs \<Rightarrow> foldl (\<lambda>cv b. compress_in_place cv b 64 counter flags)
           (compress_in_place cv x 64 counter bf) xs)
      b 64 counter ((if bs = [] then bf else flags) OR fe)"
  using assms(1)
proof (induction bs arbitrary: cv bf)
  case Nil
  then show ?case
    using assms(2) by (simp add: hash1_loop.simps [of _ b] hash1_loop.simps [of _ "[]"] BLOCK_LEN_def)
next
  case (Cons x xs)
  then have "hash1_loop cv (concat ((x # xs) @ [b])) counter flags fe bf =
      hash1_loop (compress_in_place cv x 64 counter bf) (concat (xs @ [b])) counter flags fe flags"
    using assms(2) by (subst hash1_loop.simps) (simp add: BLOCK_LEN_def Let_def)
  with Cons show ?case by (cases xs) simp_all
qed

context platform_laws
begin

lemma hash1_chunk:
  assumes "d \<noteq> []" and "length d mod 64 = 0" and "length d \<le> 1024"
  shows "hash1 d key counter flags CHUNK_START CHUNK_END = Ok (chunk_cv P key flags counter d)"
proof -
  let ?bs = "fst (lazy_chunks 64 d)" and ?b = "snd (lazy_chunks 64 d)"
  have d: "concat (?bs @ [?b]) = d" and bs: "\<forall>b\<in>set ?bs. length b = 64"
    and len: "length ?bs * 64 + length ?b = length d" and b: "length ?b \<le> 64" "?b \<noteq> []"
    using lazy_chunks_props [of 64 d] assms(1) by simp_all
  have "length ?b mod 64 = 0" using len assms(2) by (metis mod_mult_self3)
  then have b64: "length ?b = 64" using b by (cases "length ?b = 64") auto
  have "hash1_loop key d counter flags CHUNK_END (flags OR CHUNK_START) =
      compress_in_place (blocks_cv key counter flags ?bs) ?b 64 counter
        ((if ?bs = [] then flags OR CHUNK_START else flags) OR CHUNK_END)"
    using hash1_loop_blocks [OF bs b64, of key counter flags CHUNK_END "flags OR CHUNK_START", unfolded d]
    by (simp add: blocks_cv_def split: list.splits)
  moreover have "length ?bs < 256" using len assms(3) by simp
  ultimately show ?thesis
    using assms(2) b64
    by (simp add: hash1_def BLOCK_LEN_def chunk_cv_def chunk_output_def chaining_value_def
        chunk_state_output_def chunk_state_of_def compress start_flag_block)
qed

end

end
