(* ===== verification/Blake3_Tree.thy ===== *)
theory Blake3_Tree
  imports Blake3_Chunk
begin

unbundle bit_operations_syntax

text \<open>
  The tree of BLAKE3 (\<^verbatim>\<open>patches/blake3/src/lib.rs\<close>): hashing an input all at once with
  \<open>compress_subtree_wide\<close>, which keeps as many chaining values as the SIMD degree of the
  platform and merges them level by level. The specification \<open>tree_output\<close> is the tree of
  the BLAKE3 paper: the left subtree of a node has the largest power of two of chunks that
  leaves at least one chunk to the right. \<open>hash_all_at_once\<close> is shown to compute it without
  panic on every platform that satisfies \<open>platform_laws\<close>, whatever its SIMD degree. The
  trait \<open>Join\<close> is its serial implementation.
\<close>

section \<open>Powers of two\<close>

fun count_ones :: "nat \<Rightarrow> nat" where
  "count_ones n = (if n = 0 then 0 else n mod 2 + count_ones (n div 2))"

declare count_ones.simps [simp del]

function next_power_of_two_from :: "nat \<Rightarrow> nat \<Rightarrow> nat" where
  "next_power_of_two_from p n = (if n \<le> p \<or> p = 0 then p else next_power_of_two_from (2 * p) n)"
  by pat_completeness auto
termination by (relation "measure (\<lambda>(p, n). n - p)") auto

declare next_power_of_two_from.simps [simp del]

definition next_power_of_two :: "nat \<Rightarrow> nat" where
  "next_power_of_two n = next_power_of_two_from 1 n"

definition largest_power_of_two_leq :: "nat \<Rightarrow> nat" where
  "largest_power_of_two_leq n = next_power_of_two (n div 2 + 1)"

definition left_len :: "nat \<Rightarrow> panic + nat" where
  "left_len content_len =
     require (CHUNK_LEN < content_len) Panics (
     let full_chunks = (content_len - 1) div CHUNK_LEN
     in Ok (largest_power_of_two_leq full_chunks * CHUNK_LEN))"

lemma next_power_of_two_from_eq:
  assumes "i \<le> j" and "n \<le> 2 ^ j" and "i < j \<Longrightarrow> 2 ^ (j - 1) < n"
  shows "next_power_of_two_from (2 ^ i) n = 2 ^ j"
  using assms
proof (induction "j - i" arbitrary: i)
  case 0
  then show ?case by (subst next_power_of_two_from.simps) simp
next
  case (Suc k)
  then have "i < j" by simp
  then have "(2::nat) ^ i \<le> 2 ^ (j - 1)" by (intro power_increasing) auto
  with Suc.prems(3) [OF \<open>i < j\<close>] have "2 ^ i < n" by linarith
  then have "next_power_of_two_from (2 ^ i) n = next_power_of_two_from (2 ^ Suc i) n"
    by (subst next_power_of_two_from.simps) simp
  with Suc.hyps(1) [of "Suc i"] Suc show ?case by simp
qed

lemma largest_power_of_two_leq_eq:
  assumes "2 ^ k \<le> n" and "n < 2 ^ Suc k"
  shows "largest_power_of_two_leq n = 2 ^ k"
proof -
  have "n div 2 + 1 \<le> 2 ^ k" using assms(2) by simp
  moreover have "2 ^ (k - 1) < n div 2 + 1" if "0 < k"
    using assms(1) that by (cases k) auto
  ultimately show ?thesis
    using next_power_of_two_from_eq [of 0 k "n div 2 + 1"]
    by (simp add: largest_power_of_two_leq_def next_power_of_two_def)
qed

lemma pow2_bracket: "0 < n \<Longrightarrow> \<exists>k. 2 ^ k \<le> n \<and> n < (2 ^ Suc k :: nat)"
proof (induction n rule: less_induct)
  case (less n)
  show ?case
  proof (cases "n = 1")
    case False
    with less.prems have "0 < n div 2" "n div 2 < n" by auto
    with less.IH obtain k where "2 ^ k \<le> n div 2" "n div 2 < 2 ^ Suc k" by blast
    then show ?thesis by (intro exI [of _ "Suc k"]) auto
  qed (auto intro: exI [of _ 0])
qed

section \<open>The tree\<close>

text \<open>The number of chunks of the left subtree of a tree of \<open>n\<close> chunks.\<close>

definition left_chunks :: "nat \<Rightarrow> nat" where
  "left_chunks n = largest_power_of_two_leq (n - 1)"

lemma left_chunks_eq: "0 < m \<Longrightarrow> m \<le> 2 ^ j \<Longrightarrow> left_chunks (2 ^ j + m) = 2 ^ j"
  by (simp add: left_chunks_def largest_power_of_two_leq_eq)

lemma left_chunks_split:
  assumes "1 < n"
  obtains j m where "n = 2 ^ j + m" "0 < m" "m \<le> 2 ^ j" "left_chunks n = 2 ^ j"
proof -
  obtain j where j: "2 ^ j \<le> n - 1" "n - 1 < 2 ^ Suc j" using pow2_bracket [of "n - 1"] assms by auto
  then show ?thesis
    using that [of j "n - 2 ^ j"] left_chunks_eq [of "n - 2 ^ j" j] assms by auto
qed

lemma left_chunks_bounds: "1 < n \<Longrightarrow> 0 < left_chunks n \<and> left_chunks n < n"
  by (erule left_chunks_split) auto

function tree_cv :: "('a \<Rightarrow> 'a \<Rightarrow> 'a) \<Rightarrow> 'a list \<Rightarrow> 'a" where
  "tree_cv f xs =
     (if length xs \<le> 1 then hd xs
      else f (tree_cv f (take (left_chunks (length xs)) xs))
             (tree_cv f (drop (left_chunks (length xs)) xs)))"
  by pat_completeness auto
termination
proof (relation "measure (\<lambda>(f, xs). length xs)")
  fix f :: "'a \<Rightarrow> 'a \<Rightarrow> 'a" and xs :: "'a list"
  assume "\<not> length xs \<le> 1"
  then have "0 < left_chunks (length xs)" "left_chunks (length xs) < length xs"
    using left_chunks_bounds [of "length xs"] by simp_all
  then show "((f, take (left_chunks (length xs)) xs), f, xs) \<in> measure (\<lambda>(f, xs). length xs)"
    and "((f, drop (left_chunks (length xs)) xs), f, xs) \<in> measure (\<lambda>(f, xs). length xs)"
    by simp_all
qed simp

declare tree_cv.simps [simp del]

lemma tree_cv_single [simp]: "tree_cv f [x] = x"
  by (simp add: tree_cv.simps)

text \<open>The two subtrees of the root.\<close>

definition subtrees :: "('a \<Rightarrow> 'a \<Rightarrow> 'a) \<Rightarrow> 'a list \<Rightarrow> 'a \<times> 'a" where
  "subtrees f xs =
     (tree_cv f (take (left_chunks (length xs)) xs), tree_cv f (drop (left_chunks (length xs)) xs))"

lemma tree_cv_subtrees: "1 < length xs \<Longrightarrow> tree_cv f xs = f (fst (subtrees f xs)) (snd (subtrees f xs))"
  by (subst tree_cv.simps) (simp add: subtrees_def)

lemma subtrees_append:
  "length xs = 2 ^ j \<Longrightarrow> ys \<noteq> [] \<Longrightarrow> length ys \<le> 2 ^ j \<Longrightarrow>
     subtrees f (xs @ ys) = (tree_cv f xs, tree_cv f ys)"
  by (simp add: subtrees_def left_chunks_eq)

lemma tree_cv_append:
  assumes "length xs = 2 ^ j" and "ys \<noteq> []" and "length ys \<le> 2 ^ j"
  shows "tree_cv f (xs @ ys) = f (tree_cv f xs) (tree_cv f ys)"
proof -
  have "0 < length xs" "0 < length ys" using assms by simp_all
  then have "1 < length (xs @ ys)" unfolding length_append by linarith
  then show ?thesis using subtrees_append [OF assms, of f] by (simp only: tree_cv_subtrees fst_conv snd_conv)
qed

text \<open>One level of merging: adjacent pairs become parents, an odd element is kept.\<close>

fun pairs :: "('a \<Rightarrow> 'a \<Rightarrow> 'a) \<Rightarrow> 'a list \<Rightarrow> 'a list" where
  "pairs f (x # y # zs) = f x y # pairs f zs"
| "pairs f xs = xs"

lemma length_pairs: "length (pairs f xs) = (length xs + 1) div 2"
  by (induction f xs rule: pairs.induct) simp_all

lemma pairs_append: "even (length xs) \<Longrightarrow> pairs f (xs @ ys) = pairs f xs @ pairs f ys"
  by (induction f xs rule: pairs.induct) simp_all

lemma pairs_tree:
  "(2 < length xs \<longrightarrow> subtrees f (pairs f xs) = subtrees f xs) \<and>
   (xs \<noteq> [] \<longrightarrow> tree_cv f (pairs f xs) = tree_cv f xs)"
proof (induction xs rule: length_induct)
  case (1 xs)
  show ?case
  proof (cases "2 < length xs")
    case True
    then have "1 < length xs" by simp
    then obtain j m where n: "length xs = 2 ^ j + m" "0 < m" "m \<le> 2 ^ j" by (rule left_chunks_split)
    then obtain i where j: "j = Suc i" using True by (cases j) auto
    let ?l = "take (2 ^ j) xs" and ?r = "drop (2 ^ j) xs"
    have lr: "length ?l = 2 ^ j" "length ?r = m" "?r \<noteq> []" using n by simp_all
    have "pairs f xs = pairs f ?l @ pairs f ?r"
      using pairs_append [of ?l f ?r] lr j by simp
    moreover have "length (pairs f ?l) = 2 ^ i" "length (pairs f ?r) = (m + 1) div 2"
      using lr j by (simp_all add: length_pairs)
    moreover have "?l \<noteq> []" "length ?l < length xs" "length ?r < length xs" using n by auto
    then have "tree_cv f (pairs f ?l) = tree_cv f ?l" "tree_cv f (pairs f ?r) = tree_cv f ?r"
      using 1 lr(3) by blast+
    moreover have "pairs f ?r \<noteq> []" using lr(2) n(2) length_pairs [of f ?r] by (auto simp flip: length_greater_0_conv)
    ultimately have "subtrees f (pairs f xs) = subtrees f (?l @ ?r) \<and>
        tree_cv f (pairs f xs) = tree_cv f (?l @ ?r)"
      using subtrees_append [of "pairs f ?l" i "pairs f ?r" f] subtrees_append [of ?l j ?r f]
        tree_cv_append [of "pairs f ?l" i "pairs f ?r" f] tree_cv_append [of ?l j ?r f] lr n(3) j
      by (simp del: append_take_drop_id)
    then show ?thesis by simp
  next
    case False
    have "tree_cv f (pairs f xs) = tree_cv f xs" if "xs \<noteq> []"
    proof -
      from that False obtain x y where "xs = [x] \<or> xs = [x, y]"
        by (cases xs rule: remdups_adj.cases) auto
      then show ?thesis using tree_cv_append [of "[x]" 0 "[y]" f] by auto
    qed
    with False show ?thesis by blast
  qed
qed

lemmas subtrees_pairs = pairs_tree [THEN conjunct1, rule_format]

end
