(* ===== verification/Blake3_Wide.thy ===== *)
theory Blake3_Wide
  imports Blake3_Tree
begin

unbundle bit_operations_syntax

text \<open>
  Hashing all at once (\<^verbatim>\<open>patches/blake3/src/lib.rs\<close>). A slice that results are written to is
  given by its length in bytes (\<open>out_len\<close>), and the chaining values written are returned. The
  arrays that collect the inputs of \<open>hash_many\<close> have a capacity; exceeding it panics.
\<close>

section \<open>Operations\<close>

definition platform_hash_many ::
  "platform \<Rightarrow> byte list list \<Rightarrow> cv_words \<Rightarrow> u64 \<Rightarrow> bool \<Rightarrow> u8 \<Rightarrow> u8 \<Rightarrow> u8 \<Rightarrow> nat
    \<Rightarrow> panic + cv_bytes list" where
  "platform_hash_many P inputs key counter increment flags flags_start flags_end out_len =
     and_then (p_hash_many P inputs key counter increment flags flags_start flags_end out_len) (\<lambda>cvs.
     require (length cvs = length inputs \<and> list_all (\<lambda>cv. length cv = OUT_LEN) cvs) Panics (Ok cvs))"

definition compress_chunks_parallel ::
  "byte list \<Rightarrow> cv_words \<Rightarrow> u64 \<Rightarrow> u8 \<Rightarrow> platform \<Rightarrow> nat \<Rightarrow> panic + cv_bytes list" where
  "compress_chunks_parallel input key chunk_counter flags P out_len =
     require (input \<noteq> []) Panics (
     require (length input \<le> MAX_SIMD_DEGREE P * CHUNK_LEN) Panics (
     let (chunks_array, remainder) = chunks CHUNK_LEN input in
     require (length chunks_array \<le> MAX_SIMD_DEGREE P) Panics (
     and_then (platform_hash_many P chunks_array key chunk_counter True flags CHUNK_START CHUNK_END
       out_len) (\<lambda>cvs.
     let chunks_so_far = length chunks_array in
     if remainder \<noteq> [] then
       let counter = chunk_counter + word_of_nat chunks_so_far in
       and_then (chunk_state_update (chunk_state_new key counter flags P) remainder) (\<lambda>chunk_state.
       require (chunks_so_far * OUT_LEN + OUT_LEN \<le> out_len) Panics (
       Ok (cvs @ [chaining_value (chunk_state_output chunk_state)])))
     else Ok cvs))))"

definition compress_parents_parallel ::
  "byte list \<Rightarrow> cv_words \<Rightarrow> u8 \<Rightarrow> platform \<Rightarrow> nat \<Rightarrow> panic + cv_bytes list" where
  "compress_parents_parallel child_chaining_values key flags P out_len =
     require (length child_chaining_values mod OUT_LEN = 0) Panics (
     let num_children = length child_chaining_values div OUT_LEN in
     require (2 \<le> num_children) Panics (
     require (num_children \<le> 2 * MAX_SIMD_DEGREE_OR_2 P) Panics (
     let (parents_array, remainder) = chunks BLOCK_LEN child_chaining_values in
     require (length parents_array \<le> MAX_SIMD_DEGREE_OR_2 P) Panics (
     and_then (platform_hash_many P parents_array key 0 False (flags OR PARENT) 0 0 out_len) (\<lambda>cvs.
     let parents_so_far = length parents_array in
     if remainder \<noteq> [] then
       require (parents_so_far * OUT_LEN + OUT_LEN \<le> out_len) Panics (
       require (length remainder = OUT_LEN) Panics (
       Ok (cvs @ [remainder])))
     else Ok cvs)))))"

lemma left_len_eq_Ok:
  assumes "left_len n = Inr l"
  shows "0 < l" and "l < n"
proof -
  have n: "CHUNK_LEN < n" and l: "l = largest_power_of_two_leq ((n - 1) div CHUNK_LEN) * CHUNK_LEN"
    using assms by (simp_all add: left_len_def res_simps Let_def)
  then have "0 < (n - 1) div CHUNK_LEN" by (simp add: CHUNK_LEN_def div_greater_zero_iff)
  then obtain k where k: "2 ^ k \<le> (n - 1) div CHUNK_LEN" "(n - 1) div CHUNK_LEN < 2 ^ Suc k"
    using pow2_bracket by blast
  have "l = 2 ^ k * CHUNK_LEN" by (simp only: l largest_power_of_two_leq_eq [OF k])
  moreover have "2 ^ k * CHUNK_LEN \<le> (n - 1) div CHUNK_LEN * CHUNK_LEN" using k(1) by simp
  ultimately show "0 < l" "l < n"
    using n by (auto simp: CHUNK_LEN_def intro: le_less_trans [OF _ le_less_trans [OF div_times_less_eq_dividend]])
qed

function compress_subtree_wide ::
  "platform \<Rightarrow> cv_words \<Rightarrow> u8 \<Rightarrow> byte list \<Rightarrow> u64 \<Rightarrow> nat \<Rightarrow> panic + cv_bytes list" where
  "compress_subtree_wide P key flags input chunk_counter out_len =
     (if length input \<le> simd_degree P * CHUNK_LEN then
        compress_chunks_parallel input key chunk_counter flags P out_len
      else
        require (count_ones (simd_degree P) = 1) Panics (
        and_then (left_len (length input)) (\<lambda>l.
        let left = take l input; right = drop l input;
            right_chunk_counter = chunk_counter + word_of_nat (length left div CHUNK_LEN);
            cv_array_len = 2 * MAX_SIMD_DEGREE_OR_2 P * OUT_LEN in
        and_then
          (if length left = CHUNK_LEN then require (simd_degree P = 1) Panics (Ok 1)
           else Ok (max (simd_degree P) 2)) (\<lambda>degree.
        require (degree * OUT_LEN \<le> cv_array_len) Panics (
        and_then (compress_subtree_wide P key flags left chunk_counter (degree * OUT_LEN)) (\<lambda>left_cvs.
        and_then (compress_subtree_wide P key flags right right_chunk_counter
          (cv_array_len - degree * OUT_LEN)) (\<lambda>right_cvs.
        require (length left_cvs = degree) Panics (
        require (1 \<le> length right_cvs \<and> length right_cvs \<le> length left_cvs) Panics (
        if length left_cvs = 1 then
          require (2 * OUT_LEN \<le> out_len) Panics (Ok (take 2 (left_cvs @ right_cvs)))
        else compress_parents_parallel (concat (left_cvs @ right_cvs)) key flags P out_len)))))))))"
  by pat_completeness auto
termination
  by (relation "measure (\<lambda>(P, key, flags, input, _). length input)") (auto dest: left_len_eq_Ok)

declare compress_subtree_wide.simps [simp del]

lemma platform_hash_many_length:
  "platform_hash_many P inputs key counter inc flags fs fe out_len = Inr cvs \<Longrightarrow>
     length cvs = length inputs \<and> (\<forall>cv\<in>set cvs. length cv = 32)"
  by (auto simp: platform_hash_many_def res_simps list_all_iff OUT_LEN_def)

lemma div_64_arith:
  fixes a b n :: nat
  assumes "a * 64 + b = 32 * n" and "b < 64"
  shows "a = n div 2 \<and> b = n mod 2 * 32"
proof -
  have "n = 2 * a \<or> n = 2 * a + 1" using assms by linarith
  then show ?thesis using assms by auto
qed

lemma chunks_64_of_cvs:
  assumes "length bytes = 32 * n"
  shows "length (fst (chunks 64 bytes)) = n div 2" and "length (snd (chunks 64 bytes)) = n mod 2 * 32"
proof -
  have "length (fst (chunks 64 bytes)) * 64 + length (snd (chunks 64 bytes)) = 32 * n"
    "length (snd (chunks 64 bytes)) < 64"
    using length_chunks [of 64 bytes] chunks_props [of 64 bytes] assms by simp_all
  then show "length (fst (chunks 64 bytes)) = n div 2" "length (snd (chunks 64 bytes)) = n mod 2 * 32"
    using div_64_arith by blast+
qed

lemma compress_parents_length:
  assumes "compress_parents_parallel bytes key flags P out_len = Inr cvs"
  shows "length (concat cvs) = (length bytes div 32 + 1) div 2 * 32" and "2 \<le> length bytes div 32"
proof -
  let ?n = "length bytes div 32" and ?ps = "fst (chunks 64 bytes)" and ?r = "snd (chunks 64 bytes)"
  from assms have "length bytes mod 32 = 0" and n: "2 \<le> ?n"
    by (auto simp: compress_parents_parallel_def res_simps OUT_LEN_def Let_def case_prod_beta)
  then have "length bytes = 32 * ?n" by (metis add.right_neutral mult_div_mod_eq)
  from chunks_64_of_cvs [OF this] have ps: "length ?ps = ?n div 2" "length ?r = ?n mod 2 * 32"
    by simp_all
  from assms obtain cvs' where hm: "platform_hash_many P ?ps key 0 False (flags OR PARENT) 0 0 out_len = Inr cvs'"
    and cvs: "cvs = cvs' @ (if ?r \<noteq> [] then [?r] else [])"
    by (auto simp: compress_parents_parallel_def res_simps OUT_LEN_def BLOCK_LEN_def Let_def
        case_prod_beta split: if_splits)
  have "length (concat cvs') = ?n div 2 * 32"
    using platform_hash_many_length [OF hm] ps(1) length_concat_blocks [of cvs' 32] by simp
  moreover have "length (concat cvs) = length (concat cvs') + length ?r" using cvs by simp
  moreover have "k div 2 * 32 + k mod 2 * 32 = (k + 1) div 2 * 32" for k :: nat
    by (cases "even k") (auto elim!: evenE oddE)
  ultimately show "length (concat cvs) = (?n + 1) div 2 * 32" by (simp only: ps(2))
  show "2 \<le> ?n" by (rule n)
qed

text \<open>The loop of \<open>compress_subtree_to_parent_node\<close>: merge until two chaining values are left.\<close>

function condense ::
  "platform \<Rightarrow> cv_words \<Rightarrow> u8 \<Rightarrow> byte list \<Rightarrow> panic + byte list" where
  "condense P key flags cv_array =
     (if 2 < length cv_array div OUT_LEN then
        and_then (compress_parents_parallel cv_array key flags P
          (MAX_SIMD_DEGREE_OR_2 P * OUT_LEN div 2)) (\<lambda>cvs. condense P key flags (concat cvs))
      else Ok cv_array)"
  by pat_completeness auto
termination
  by (relation "measure (\<lambda>(P, key, flags, cvs). length cvs div 32)")
    (auto simp: OUT_LEN_def compress_parents_length)

declare condense.simps [simp del]

definition compress_subtree_to_parent_node ::
  "platform \<Rightarrow> cv_words \<Rightarrow> u8 \<Rightarrow> byte list \<Rightarrow> u64 \<Rightarrow> panic + byte list" where
  "compress_subtree_to_parent_node P key flags input chunk_counter =
     require (CHUNK_LEN < length input) Panics (
     and_then (compress_subtree_wide P key flags input chunk_counter (MAX_SIMD_DEGREE_OR_2 P * OUT_LEN))
       (\<lambda>cvs.
     require (2 \<le> length cvs) Panics (
     and_then (condense P key flags (concat cvs)) (\<lambda>cv_array.
     Ok (take (2 * OUT_LEN) cv_array)))))"

definition hash_all_at_once ::
  "platform \<Rightarrow> byte list \<Rightarrow> cv_words \<Rightarrow> u8 \<Rightarrow> panic + b3_output" where
  "hash_all_at_once P input key flags =
     (if length input \<le> CHUNK_LEN then
        and_then (chunk_state_update (chunk_state_new key 0 flags P) input) (\<lambda>c.
        Ok (chunk_state_output c))
      else
        and_then (compress_subtree_to_parent_node P key flags input 0) (\<lambda>block.
        Ok \<lparr>o_input_chaining_value = key, o_block = block, o_block_len = word_of_nat BLOCK_LEN,
            o_counter = 0, o_flags = flags OR PARENT, o_platform = P\<rparr>))"

definition hash :: "platform \<Rightarrow> byte list \<Rightarrow> panic + cv_bytes" where
  "hash P input = and_then (hash_all_at_once P input IV 0) root_hash"

definition keyed_hash :: "platform \<Rightarrow> byte list \<Rightarrow> byte list \<Rightarrow> panic + cv_bytes" where
  "keyed_hash P key input =
     and_then (hash_all_at_once P input (words_from_le_bytes_32 key) KEYED_HASH) root_hash"

definition derive_key :: "platform \<Rightarrow> byte list \<Rightarrow> byte list \<Rightarrow> panic + cv_bytes" where
  "derive_key P context_bytes key_material =
     and_then (and_then (hash_all_at_once P context_bytes IV DERIVE_KEY_CONTEXT) root_hash)
       (\<lambda>context_key.
     and_then (hash_all_at_once P key_material (words_from_le_bytes_32 context_key)
       DERIVE_KEY_MATERIAL) root_hash)"

definition parent_node_output ::
  "cv_bytes \<Rightarrow> cv_bytes \<Rightarrow> cv_words \<Rightarrow> u8 \<Rightarrow> platform \<Rightarrow> b3_output" where
  "parent_node_output left_child right_child key flags P =
     \<lparr>o_input_chaining_value = key, o_block = left_child @ right_child,
      o_block_len = word_of_nat BLOCK_LEN, o_counter = 0, o_flags = flags OR PARENT,
      o_platform = P\<rparr>"

section \<open>Specification\<close>

text \<open>The chunks of an input: all full but the last, which is empty for the empty input only.\<close>

definition b3_chunks :: "byte list \<Rightarrow> byte list list" where
  "b3_chunks input = fst (lazy_chunks 1024 input) @ [snd (lazy_chunks 1024 input)]"

fun chunk_cvs :: "platform \<Rightarrow> cv_words \<Rightarrow> u8 \<Rightarrow> u64 \<Rightarrow> byte list list \<Rightarrow> cv_bytes list" where
  "chunk_cvs P key flags counter [] = []"
| "chunk_cvs P key flags counter (c # cs) =
     chunk_cv P key flags counter c # chunk_cvs P key flags (counter + 1) cs"

definition input_cvs :: "platform \<Rightarrow> cv_words \<Rightarrow> u8 \<Rightarrow> u64 \<Rightarrow> byte list \<Rightarrow> cv_bytes list" where
  "input_cvs P key flags counter input = chunk_cvs P key flags counter (b3_chunks input)"

definition parent_cv :: "platform \<Rightarrow> cv_words \<Rightarrow> u8 \<Rightarrow> cv_bytes \<Rightarrow> cv_bytes \<Rightarrow> cv_bytes" where
  "parent_cv P key flags l r = chaining_value (parent_node_output l r key flags P)"

text \<open>The root of the tree over the chunks of the input.\<close>

definition root_node :: "platform \<Rightarrow> cv_words \<Rightarrow> u8 \<Rightarrow> cv_bytes list \<Rightarrow> b3_output" where
  "root_node P key flags cvs =
     (let (l, r) = subtrees (parent_cv P key flags) cvs in parent_node_output l r key flags P)"

definition tree_output :: "platform \<Rightarrow> cv_words \<Rightarrow> u8 \<Rightarrow> byte list \<Rightarrow> b3_output" where
  "tree_output P key flags input =
     (if length input \<le> 1024 then chunk_output P key flags 0 input
      else root_node P key flags (input_cvs P key flags 0 input))"

lemma length_chunk_cvs [simp]: "length (chunk_cvs P key flags counter cs) = length cs"
  by (induction cs arbitrary: counter) simp_all

lemma chunk_cvs_32: "cv \<in> set (chunk_cvs P key flags counter cs) \<Longrightarrow> length cv = 32"
  by (induction cs arbitrary: counter) (auto simp: chunk_cv_def)

lemma length_parent_cv [simp]: "length (parent_cv P key flags l r) = 32"
  by (simp add: parent_cv_def)

lemma chunk_cvs_append:
  "chunk_cvs P key flags counter (xs @ ys) =
     chunk_cvs P key flags counter xs @ chunk_cvs P key flags (counter + word_of_nat (length xs)) ys"
  by (induction xs arbitrary: counter) (simp_all add: ac_simps)

lemma chunk_arith:
  fixes a b k :: nat
  assumes "0 < b" and "b \<le> 1024"
  shows "a * 1024 + b = k * 1024 \<Longrightarrow> b = 1024 \<and> Suc a = k" and "Suc a \<le> k \<longleftrightarrow> a * 1024 + b \<le> k * 1024"
proof -
  show "b = 1024 \<and> Suc a = k" if "a * 1024 + b = k * 1024"
  proof -
    have "k = Suc a" using that assms by linarith
    with that show ?thesis by simp
  qed
  show "Suc a \<le> k \<longleftrightarrow> a * 1024 + b \<le> k * 1024" using assms by linarith
qed

lemma b3_chunks_append:
  assumes "length left = k * 1024" and "0 < k" and "right \<noteq> []"
  shows "b3_chunks (left @ right) = b3_chunks left @ b3_chunks right" and "length (b3_chunks left) = k"
proof -
  let ?bs = "fst (lazy_chunks 1024 left)" and ?r = "snd (lazy_chunks 1024 left)"
  have "left \<noteq> []" using assms(1,2) by auto
  then have r: "length ?r \<le> 1024" "0 < length ?r" and len: "length ?bs * 1024 + length ?r = k * 1024"
    using lazy_chunks_props [of 1024 left] assms(1) by simp_all
  have full: "length ?r = 1024 \<and> Suc (length ?bs) = k" using chunk_arith(1) [OF r(2,1) len] .
  then show "length (b3_chunks left) = k" by (simp add: b3_chunks_def)
  have "lazy_chunks 1024 (?r @ right) = (?r # fst (lazy_chunks 1024 right), snd (lazy_chunks 1024 right))"
    using full assms(3) by (intro lazy_chunks_block) simp_all
  then show "b3_chunks (left @ right) = b3_chunks left @ b3_chunks right"
    using chunks.lazy.split_append [of 1024 left right] by (simp add: b3_chunks_def)
qed

lemma input_cvs_append:
  assumes "length left = k * 1024" and "0 < k" and "right \<noteq> []"
  shows "input_cvs P key flags counter (left @ right) =
    input_cvs P key flags counter left @ input_cvs P key flags (counter + word_of_nat k) right"
  using b3_chunks_append [OF assms] by (simp add: input_cvs_def chunk_cvs_append)

lemma length_b3_chunks:
  assumes "input \<noteq> []"
  shows "length (b3_chunks input) \<le> m \<longleftrightarrow> length input \<le> m * 1024"
proof -
  let ?bs = "fst (lazy_chunks 1024 input)" and ?r = "snd (lazy_chunks 1024 input)"
  have r: "length ?r \<le> 1024" "0 < length ?r" and len: "length ?bs * 1024 + length ?r = length input"
    using lazy_chunks_props [of 1024 input] assms by simp_all
  show ?thesis using chunk_arith(2) [OF r(2,1), of "length ?bs" m] len by (simp add: b3_chunks_def)
qed

lemma length_input_cvs [simp]: "length (input_cvs P key flags counter input) = length (b3_chunks input)"
  by (simp add: input_cvs_def)

lemma b3_chunks_nonempty [simp]: "b3_chunks input \<noteq> []"
  by (simp add: b3_chunks_def)

lemma input_cvs_nonempty [simp]: "input_cvs P key flags counter input \<noteq> []"
  by (simp flip: length_greater_0_conv) simp

lemma b3_chunks_exact:
  assumes "input \<noteq> []"
  shows "b3_chunks input = fst (chunks 1024 input) @
    (if snd (chunks 1024 input) = [] then [] else [snd (chunks 1024 input)])"
  using assms chunks_nonempty [of 1024 input]
  by (auto simp: b3_chunks_def lazy_chunks_def case_prod_beta)

section \<open>Wide levels\<close>

lemma pairs_32:
  "\<forall>cv\<in>set xs. length cv = 32 \<Longrightarrow> (\<And>l r. length (f l r) = 32) \<Longrightarrow>
     \<forall>cv\<in>set (pairs f xs). length cv = 32"
  by (induction f xs rule: pairs.induct) auto

lemma tree_cv_32:
  "xs \<noteq> [] \<Longrightarrow> \<forall>cv\<in>set xs. length cv = 32 \<Longrightarrow> (\<And>l r. length (f l r) = 32) \<Longrightarrow>
     length (tree_cv f xs) = 32"
  by (subst tree_cv.simps) simp

lemma subtrees_32:
  assumes "1 < length xs" and "\<forall>cv\<in>set xs. length cv = 32" and "\<And>l r. length (f l r) = 32"
  shows "length (fst (subtrees f xs)) = 32" and "length (snd (subtrees f xs)) = 32"
proof -
  have "take (left_chunks (length xs)) xs \<noteq> []" "drop (left_chunks (length xs)) xs \<noteq> []"
    using left_chunks_bounds [OF assms(1)] assms(1) by auto
  then show "length (fst (subtrees f xs)) = 32" "length (snd (subtrees f xs)) = 32"
    using assms(2,3) by (auto simp: subtrees_def intro!: tree_cv_32 dest: in_set_takeD in_set_dropD)
qed

text \<open>
  What \<open>compress_subtree_wide\<close> returns for a tree with the leaves \<open>xs\<close> on a platform of a given
  degree: the leaves themselves while they are few enough, and otherwise a level of the tree
  with at least two nodes and at most as many as the degree, exactly as many when the number of
  leaves is a power of two.
\<close>

definition wide_result :: "nat \<Rightarrow> (cv_bytes \<Rightarrow> cv_bytes \<Rightarrow> cv_bytes) \<Rightarrow> cv_bytes list \<Rightarrow> cv_bytes list \<Rightarrow> bool" where
  "wide_result deg f xs cvs \<longleftrightarrow>
     (\<forall>cv\<in>set cvs. length cv = 32) \<and>
     (if length xs \<le> deg then cvs = xs
      else 2 \<le> length cvs \<and> length cvs \<le> max deg 2 \<and> subtrees f cvs = subtrees f xs \<and>
        (\<forall>m. length xs = 2 ^ m \<longrightarrow> length cvs = max deg 2))"

lemma wide_result_tree:
  assumes "wide_result deg f xs cvs" and "0 < deg" and "xs \<noteq> []"
  shows "tree_cv f cvs = tree_cv f xs" and "cvs \<noteq> []"
proof -
  have "tree_cv f cvs = tree_cv f xs \<and> cvs \<noteq> []"
  proof (cases "length xs \<le> deg")
    case False
    then have "1 < length cvs" "1 < length xs" "subtrees f cvs = subtrees f xs"
      using assms by (auto simp: wide_result_def)
    then show ?thesis using tree_cv_subtrees [of cvs f] tree_cv_subtrees [of xs f] by auto
  qed (use assms in \<open>auto simp: wide_result_def\<close>)
  then show "tree_cv f cvs = tree_cv f xs" "cvs \<noteq> []" by simp_all
qed

lemma wide_result_left:
  assumes "wide_result (2 ^ d) f xs ls" and "length xs = 2 ^ j" and "d \<le> j"
  shows "length ls = (if j = 0 then 1 else max (2 ^ d) 2)"
proof (cases "j = d")
  case True
  then have "length ls = 2 ^ d" using assms by (simp add: wide_result_def)
  moreover have "2 \<le> (2::nat) ^ d" if "0 < d" using that by (cases d) simp_all
  ultimately show ?thesis using True by (cases "d = 0") (auto simp: max_def)
next
  case False
  then have "\<not> length xs \<le> 2 ^ d" using assms(2,3) by simp
  then show ?thesis using assms False by (auto simp: wide_result_def)
qed

lemma wide_result_right:
  assumes "wide_result (2 ^ d) f ys rs" and "ys \<noteq> []" and "length ys \<le> 2 ^ j" and "d \<le> j"
  shows "1 \<le> length rs" and "length rs \<le> (if j = 0 then 1 else max (2 ^ d) 2)"
proof -
  show "1 \<le> length rs" using wide_result_tree(2) [OF assms(1) _ assms(2)] by (simp add: Suc_le_eq)
  show "length rs \<le> (if j = 0 then 1 else max (2 ^ d) 2)"
  proof (cases "length ys \<le> 2 ^ d")
    case True
    then show ?thesis using assms by (auto simp: wide_result_def)
  next
    case False
    moreover have "j \<noteq> 0" using False assms(3,4) by (cases j) auto
    ultimately show ?thesis using assms(1) by (simp add: wide_result_def)
  qed
qed

lemma pow2_double:
  fixes b :: nat
  assumes "2 ^ j + b = 2 ^ m" and "0 < b" and "b \<le> 2 ^ j"
  shows "b = 2 ^ j"
proof -
  have "(2::nat) ^ j < 2 ^ m" using assms(1,2) by linarith
  then have "j < m" by simp
  then have "(2::nat) ^ Suc j \<le> 2 ^ m" by (intro power_increasing) simp_all
  with assms show ?thesis by simp
qed

lemma wide_join:
  fixes f :: "cv_bytes \<Rightarrow> cv_bytes \<Rightarrow> cv_bytes"
  assumes ls: "wide_result (2 ^ d) f xs ls" "length xs = 2 ^ j" "d \<le> j"
    and rs: "wide_result (2 ^ d) f ys rs" "ys \<noteq> []" "length ys \<le> 2 ^ j"
    and f: "\<And>l r. length (f l r) = 32"
  shows "wide_result (2 ^ d) f (xs @ ys) (if length ls = 1 then take 2 (ls @ rs) else pairs f (ls @ rs))"
proof -
  have nl: "length ls = (if j = 0 then 1 else max (2 ^ d) 2)" using ls by (rule wide_result_left)
  have nr: "1 \<le> length rs" "length rs \<le> length ls" "rs \<noteq> []"
    using wide_result_right [OF rs ls(3)] nl by auto
  have "xs \<noteq> []" using ls(2) by auto
  then have trees: "tree_cv f ls = tree_cv f xs" "tree_cv f rs = tree_cv f ys"
    using wide_result_tree(1) [OF ls(1)] wide_result_tree(1) [OF rs(1) _ rs(2)] by simp_all
  obtain e where e: "length ls = 2 ^ e"
    using nl by (auto simp: max_def split: if_splits intro: that [of 0] that [of 1] that [of d])
  have sub: "subtrees f (ls @ rs) = subtrees f (xs @ ys)"
    using subtrees_append [OF e, of rs f] subtrees_append [OF ls(2) rs(2,3), of f] nr trees e by simp
  have "0 < length ys" using rs(2) by simp
  moreover have "(2::nat) ^ d \<le> 2 ^ j" using ls(3) by simp
  ultimately have many: "\<not> length (xs @ ys) \<le> 2 ^ d" unfolding length_append ls(2) by linarith
  have all32: "\<forall>cv\<in>set (ls @ rs). length cv = 32" using ls(1) rs(1) by (auto simp: wide_result_def)
  show ?thesis
  proof (cases "j = 0")
    case True
    then show ?thesis
      using nl nr many all32 sub ls(3) by (auto simp: wide_result_def)
  next
    case False
    then have L: "length ls = max (2 ^ d) 2" using nl by simp
    have "2 < length (ls @ rs)" using L nr(1) by simp
    then have "subtrees f (pairs f (ls @ rs)) = subtrees f (xs @ ys)"
      using subtrees_pairs sub by metis
    moreover have "length (pairs f (ls @ rs)) \<le> max (2 ^ d) 2" "2 \<le> length (pairs f (ls @ rs))"
      using L nr(1,2) by (simp_all add: length_pairs)
    moreover have "length (pairs f (ls @ rs)) = max (2 ^ d) 2" if "length (xs @ ys) = 2 ^ m" for m
    proof -
      have "length ys = 2 ^ j" using that ls(2) rs(2,3) by (intro pow2_double [of j "length ys" m]) auto
      then have "length rs = length ls" using wide_result_left [OF rs(1) _ ls(3)] nl by simp
      then show ?thesis using L by (simp add: length_pairs)
    qed
    ultimately show ?thesis
      using many pairs_32 [OF all32 f] L by (auto simp: wide_result_def)
  qed
qed

section \<open>The parallel steps\<close>

context platform_laws
begin

lemma hash_many_chunks:
  assumes "\<forall>c\<in>set cs. length c = 1024"
  shows "hash_many_loop cs key counter True flags CHUNK_START CHUNK_END =
    Ok (chunk_cvs P key flags counter cs)"
  using assms
proof (induction cs arbitrary: counter)
  case (Cons c cs)
  then have "c \<noteq> []" by auto
  with Cons hash1_chunk [of c key counter flags] show ?case by simp
qed simp

lemma chunks_parallel:
  assumes "input \<noteq> []" and "length input \<le> simd_degree P * 1024"
    and "length (b3_chunks input) * 32 \<le> out_len"
  shows "compress_chunks_parallel input key counter flags P out_len = Ok (input_cvs P key flags counter input)"
proof -
  let ?cs = "fst (chunks 1024 input)" and ?r = "snd (chunks 1024 input)"
  have "length input \<le> MAX_SIMD_DEGREE P * 1024"
    using assms(2) degree_le by (meson le_trans mult_le_mono1)
  moreover have cs: "\<forall>c\<in>set ?cs. length c = 1024" "length ?r < 1024"
    using chunks_props [of 1024 input] by simp_all
  moreover have "length ?cs \<le> MAX_SIMD_DEGREE P"
    using calculation(1) length_chunks [of 1024 input] by simp
  moreover have "platform_hash_many P ?cs key counter True flags CHUNK_START CHUNK_END out_len =
      Ok (chunk_cvs P key flags counter ?cs)"
    using hash_many_chunks [OF cs(1)] assms(3) chunk_cvs_32
    by (auto simp: platform_hash_many_def many hash_many_def OUT_LEN_def b3_chunks_exact [OF assms(1)]
        list_all_iff require_def)
  moreover have "chunk_state_update (chunk_state_new key c flags P) ?r =
      Ok (chunk_state_of P key c flags ?r)" for c
    using chunk_update_of [of "[]" ?r key c flags] cs(2) by (simp add: chunk_state_new_eq)
  ultimately show ?thesis
    using assms
    by (auto simp: compress_chunks_parallel_def len_defs case_prod_beta input_cvs_def
        b3_chunks_exact [OF assms(1)] chunk_cvs_append chunk_cv_def chunk_output_def)
qed

lemma hash1_parent:
  assumes "length l = 32" and "length r = 32"
  shows "hash1 (l @ r) key 0 (flags OR PARENT) 0 0 = Ok (parent_cv P key flags l r)"
  using assms hash1_loop_blocks [of "[]" "l @ r" key 0 "flags OR PARENT" 0 "flags OR PARENT"]
  by (simp add: hash1_def BLOCK_LEN_def parent_cv_def chaining_value_def parent_node_output_def compress)

lemma hash_many_parents:
  assumes "\<forall>cv\<in>set cvs. length cv = 32"
  shows "\<exists>ps. hash_many_loop (fst (chunks 64 (concat cvs))) key 0 False (flags OR PARENT) 0 0 = Ok ps \<and>
    ps @ (if snd (chunks 64 (concat cvs)) = [] then [] else [snd (chunks 64 (concat cvs))]) =
      pairs (parent_cv P key flags) cvs"
  using assms
proof (induction "parent_cv P key flags" cvs rule: pairs.induct)
  case (1 x y zs)
  then have "chunks 64 (concat (x # y # zs)) =
      ((x @ y) # fst (chunks 64 (concat zs)), snd (chunks 64 (concat zs)))"
    using chunks_block [of "x @ y" 64 "concat zs"] by simp
  with 1 show ?case by (auto simp: hash1_parent)
qed (auto split: if_splits)

lemma parents_parallel:
  assumes cvs: "\<forall>cv\<in>set cvs. length cv = 32" and n: "2 \<le> length cvs" "length cvs \<le> 2 * MAX_SIMD_DEGREE_OR_2 P"
    and out: "(length cvs + 1) div 2 * 32 \<le> out_len"
  shows "compress_parents_parallel (concat cvs) key flags P out_len = Ok (pairs (parent_cv P key flags) cvs)"
proof -
  let ?ps = "fst (chunks 64 (concat cvs))" and ?r = "snd (chunks 64 (concat cvs))"
  have len: "length (concat cvs) = 32 * length cvs" using length_concat_blocks [OF cvs] by simp
  have ps: "length ?ps = length cvs div 2" and r: "length ?r = length cvs mod 2 * 32"
    using chunks_64_of_cvs [OF len] by simp_all
  obtain qs where qs: "hash_many_loop ?ps key 0 False (flags OR PARENT) 0 0 = Ok qs"
    "qs @ (if ?r = [] then [] else [?r]) = pairs (parent_cv P key flags) cvs"
    using hash_many_parents [OF cvs] by blast
  have half: "length cvs div 2 + (if ?r = [] then 0 else 1) = (length cvs + 1) div 2"
    using r by (cases "even (length cvs)") (auto elim!: evenE oddE)
  have "length qs + (if ?r = [] then 0 else 1) = (length cvs + 1) div 2"
    using arg_cong [OF qs(2), of length] by (simp add: length_pairs split: if_splits)
  then have lqs: "length qs = length ?ps" using half ps by simp
  have "\<forall>cv\<in>set (qs @ (if ?r = [] then [] else [?r])). length cv = 32"
    unfolding qs(2) by (rule pairs_32 [OF cvs]) simp
  then have qs32: "list_all (\<lambda>cv. length cv = 32) qs"
    unfolding set_append ball_Un list_all_iff by blast
  have "length cvs div 2 * 32 \<le> out_len" using half out by (auto split: if_splits)
  then have many: "platform_hash_many P ?ps key 0 False (flags OR PARENT) 0 0 out_len = Ok qs"
    using qs(1) lqs qs32 ps by (simp add: platform_hash_many_def many hash_many_def OUT_LEN_def)
  have "length cvs div 2 \<le> MAX_SIMD_DEGREE_OR_2 P" using n(2) by simp
  then have body: "compress_parents_parallel (concat cvs) key flags P out_len =
      (if ?r \<noteq> [] then
         require (length cvs div 2 * 32 + 32 \<le> out_len) Panics (
         require (length ?r = 32) Panics (Ok (qs @ [?r])))
       else Ok qs)"
    using len n ps many
    by (simp add: compress_parents_parallel_def len_defs case_prod_beta del: length_concat)
  show ?thesis
  proof (cases "?r = []")
    case True
    then show ?thesis using body qs(2) by simp
  next
    case False
    then have "length ?r = 32" using r by (cases "even (length cvs)") (auto elim!: evenE oddE)
    moreover have "length cvs div 2 * 32 + 32 \<le> out_len" using half out False by simp
    ultimately show ?thesis using body qs(2) False by simp
  qed
qed

end

section \<open>The tree\<close>

lemma count_ones_pow2: "count_ones (2 ^ k) = 1"
  by (induction k) (simp_all add: count_ones.simps)

lemma left_len_chunks:
  assumes "input \<noteq> []" and "1 < length (b3_chunks input)"
  shows "left_len (length input) = Ok (left_chunks (length (b3_chunks input)) * 1024)"
proof -
  let ?bs = "fst (lazy_chunks 1024 input)" and ?r = "snd (lazy_chunks 1024 input)"
  have r: "length ?r \<le> 1024" "0 < length ?r" and len: "length ?bs * 1024 + length ?r = length input"
    using lazy_chunks_props [of 1024 input] assms by simp_all
  have "(length input - 1) div 1024 = length ?bs"
  proof -
    have "length input - 1 = (length ?r - 1) + length ?bs * 1024" using len r by linarith
    moreover have "(length ?r - 1) div 1024 = 0" using r by simp
    ultimately show ?thesis by simp
  qed
  moreover have "1024 < length input" using length_b3_chunks [OF assms(1), of 1] assms(2) by simp
  ultimately show ?thesis
    by (simp add: left_len_def left_chunks_def CHUNK_LEN_def b3_chunks_def)
qed

text \<open>The split of an input that is too long for one call of \<open>hash_many\<close>.\<close>

lemma input_split:
  assumes "input \<noteq> []" and "2 ^ d < length (b3_chunks input)"
  obtains j left right where "input = left @ right" "length left = 2 ^ j * 1024" "right \<noteq> []" "d \<le> j"
    "length (b3_chunks left) = 2 ^ j" "length (b3_chunks right) \<le> 2 ^ j"
    "left_len (length input) = Ok (2 ^ j * 1024)"
proof -
  let ?n = "length (b3_chunks input)"
  have "1 \<le> (2::nat) ^ d" by simp
  with assms(2) have n: "1 < ?n" by linarith
  then obtain j m where j: "?n = 2 ^ j + m" "0 < m" "m \<le> 2 ^ j" "left_chunks ?n = 2 ^ j"
    by (rule left_chunks_split)
  let ?left = "take (2 ^ j * 1024) input" and ?right = "drop (2 ^ j * 1024) input"
  have "\<not> length input \<le> 2 ^ j * 1024" using length_b3_chunks [OF assms(1), of "2 ^ j"] j by simp
  then have left: "length ?left = 2 ^ j * 1024" and right: "?right \<noteq> []" by simp_all
  have sub: "b3_chunks input = b3_chunks ?left @ b3_chunks ?right" "length (b3_chunks ?left) = 2 ^ j"
    using b3_chunks_append [OF left _ right] by simp_all
  have "length (b3_chunks ?right) = m" using j(1) sub by simp
  moreover have "(2::nat) ^ d < 2 ^ Suc j" using assms(2) j by simp
  then have "d \<le> j" by (simp only: power_strict_increasing_iff less_Suc_eq_le one_less_numeral_iff semiring_norm)
  moreover have "left_len (length input) = Ok (2 ^ j * 1024)"
    using left_len_chunks [OF assms(1) n] j(4) by simp
  ultimately show ?thesis using that [of ?left ?right j] left right sub j by simp
qed

context platform_laws
begin

lemma wide_correct:
  assumes d: "simd_degree P = 2 ^ d" and "input \<noteq> []"
    and "(if length (b3_chunks input) \<le> 2 ^ d then length (b3_chunks input) else max (2 ^ d) 2) * 32
      \<le> out_len"
  shows "\<exists>cvs. compress_subtree_wide P key flags input counter out_len = Ok cvs \<and>
    wide_result (2 ^ d) (parent_cv P key flags) (input_cvs P key flags counter input) cvs"
  using assms(2,3)
proof (induction input arbitrary: counter out_len rule: length_induct)
  case (1 input)
  let ?f = "parent_cv P key flags" and ?n = "length (b3_chunks input)"
  note step = compress_subtree_wide.simps [of P key flags input counter out_len]
  show ?case
  proof (cases "?n \<le> 2 ^ d")
    case True
    then have "length input \<le> 2 ^ d * 1024" using length_b3_chunks 1(2) by blast
    then show ?thesis
      using True 1(2,3) chunks_parallel [of input out_len key counter flags]
      by (auto simp: step CHUNK_LEN_def d wide_result_def input_cvs_def chunk_cvs_32)
  next
    case False
    then obtain j left right where s: "input = left @ right" "length left = 2 ^ j * 1024"
      "right \<noteq> []" "d \<le> j" "length (b3_chunks left) = 2 ^ j" "length (b3_chunks right) \<le> 2 ^ j"
      "left_len (length input) = Ok (2 ^ j * 1024)"
      using input_split [OF 1(2)] by (metis not_le)
    let ?deg = "if j = 0 then 1 else max (2 ^ d) (2 :: nat)" and ?L = "MAX_SIMD_DEGREE_OR_2 P"
    let ?rc = "counter + word_of_nat (2 ^ j)"
    have L: "max (2 ^ d) 2 \<le> ?L" using degree_le d by (auto simp: MAX_SIMD_DEGREE_OR_2_def)
    have nonempty: "left \<noteq> []" using s(2) by auto
    have shorter: "length left < length input" "length right < length input"
      using s(1,3) nonempty by simp_all
    have "(if length (b3_chunks left) \<le> 2 ^ d then length (b3_chunks left) else max (2 ^ d) 2) \<le> ?deg"
      unfolding s(5) using s(4) by (auto simp: le_max_iff_disj)
    then have "(if length (b3_chunks left) \<le> 2 ^ d then length (b3_chunks left) else max (2 ^ d) 2) * 32
        \<le> ?deg * 32"
      by (rule mult_le_mono1)
    from 1(1) [rule_format, OF shorter(1) nonempty this, of counter]
    obtain ls where ls: "compress_subtree_wide P key flags left counter (?deg * 32) = Ok ls"
      "wide_result (2 ^ d) ?f (input_cvs P key flags counter left) ls" by blast
    have deg: "?deg \<le> ?L" using L by auto
    have "(if length (b3_chunks right) \<le> 2 ^ d then length (b3_chunks right) else max (2 ^ d) 2) \<le> ?L"
      using L by auto
    with deg have "(if length (b3_chunks right) \<le> 2 ^ d then length (b3_chunks right) else max (2 ^ d) 2) * 32
        \<le> 2 * ?L * 32 - ?deg * 32" by linarith
    from 1(1) [rule_format, OF shorter(2) s(3) this, of ?rc]
    obtain rs where rs: "compress_subtree_wide P key flags right ?rc (2 * ?L * 32 - ?deg * 32) = Ok rs"
      "wide_result (2 ^ d) ?f (input_cvs P key flags ?rc right) rs" by blast
    have cvs: "input_cvs P key flags counter input =
        input_cvs P key flags counter left @ input_cvs P key flags ?rc right"
      using input_cvs_append [OF s(2) _ s(3)] s(1) by simp
    have join: "wide_result (2 ^ d) ?f (input_cvs P key flags counter input)
        (if length ls = 1 then take 2 (ls @ rs) else pairs ?f (ls @ rs))"
      unfolding cvs using s(3-6)
      by (intro wide_join [OF ls(2) _ s(4) rs(2)]) auto
    have nl: "length ls = ?deg" using wide_result_left [OF ls(2) _ s(4)] s(5) by simp
    have nr: "1 \<le> length rs" "length rs \<le> length ls"
      using wide_result_right [OF rs(2) _ _ s(4)] nl s(6) by simp_all
    have long: "\<not> length input \<le> 2 ^ d * 1024" using length_b3_chunks [OF 1(2)] False by blast
    have "j = 0 \<Longrightarrow> d = 0" using s(4) by simp
    then have body: "compress_subtree_wide P key flags input counter out_len =
        (if length ls = 1 then require (64 \<le> out_len) Panics (Ok (take 2 (ls @ rs)))
         else compress_parents_parallel (concat (ls @ rs)) key flags P out_len)"
      using long s(1,2,7) ls(1) rs(1) nl nr deg
      by (subst step) (auto simp: len_defs d count_ones_pow2 Let_def)
    have out: "max (2 ^ d) 2 * 32 \<le> out_len" using 1(3) False by simp
    show ?thesis
    proof (cases "length ls = 1")
      case True
      then show ?thesis using body join out by (auto simp: max_def split: if_splits)
    next
      case one: False
      then have L2: "length ls = max (2 ^ d) 2" using nl by (simp split: if_splits)
      have "(length (ls @ rs) + 1) div 2 \<le> max (2 ^ d) 2" using L2 nr by simp
      then have half: "(length (ls @ rs) + 1) div 2 * 32 \<le> out_len"
        using out by (meson le_trans mult_le_mono1)
      have "\<forall>cv\<in>set (ls @ rs). length cv = 32" using ls(2) rs(2) by (auto simp: wide_result_def)
      then have "compress_parents_parallel (concat (ls @ rs)) key flags P out_len = Ok (pairs ?f (ls @ rs))"
        by (rule parents_parallel) (use L L2 nr half in auto)
      then show ?thesis using body join one by simp
    qed
  qed
qed

text \<open>Condensing keeps the two subtrees of the root.\<close>

lemma condense_correct:
  assumes "simd_degree P = 2 ^ d" and "\<forall>cv\<in>set cvs. length cv = 32" and "2 \<le> length cvs"
    and "length cvs \<le> max (2 ^ d) 2"
  shows "condense P key flags (concat cvs) =
    Ok (fst (subtrees (parent_cv P key flags) cvs) @ snd (subtrees (parent_cv P key flags) cvs))"
  using assms(2-)
proof (induction cvs rule: length_induct)
  case (1 cvs)
  let ?f = "parent_cv P key flags"
  have len: "length (concat cvs) = length cvs * 32" using length_concat_blocks 1(2) by blast
  show ?case
  proof (cases "length cvs = 2")
    case True
    then obtain x y where "cvs = [x, y]" by (auto simp: numeral_2_eq_2 length_Suc_conv)
    then show ?thesis
      using len subtrees_append [of "[x]" 0 "[y]" ?f] by (subst condense.simps) (simp add: OUT_LEN_def)
  next
    case False
    then have n: "2 < length cvs" using 1(3) by simp
    have L: "max (2 ^ d) 2 \<le> MAX_SIMD_DEGREE_OR_2 P"
      using degree_le assms(1) by (auto simp: MAX_SIMD_DEGREE_OR_2_def)
    have "even (max (2 ^ d) (2 :: nat))" by (cases d) (auto simp: max_def)
    then have half: "(length cvs + 1) div 2 * 2 \<le> max (2 ^ d) 2" using 1(4) by (auto elim!: evenE)
    then have "compress_parents_parallel (concat cvs) key flags P (MAX_SIMD_DEGREE_OR_2 P * 32 div 2) =
        Ok (pairs ?f cvs)"
      by (intro parents_parallel [OF 1(2,3)]) (use 1(4) L in auto)
    moreover have "condense P key flags (concat (pairs ?f cvs)) =
        Ok (fst (subtrees ?f (pairs ?f cvs)) @ snd (subtrees ?f (pairs ?f cvs)))"
      using n half 1(4) pairs_32 [OF 1(2), of ?f] by (intro 1(1) [rule_format]) (simp_all add: length_pairs)
    ultimately show ?thesis
      using n len subtrees_pairs [OF n, of ?f] by (subst condense.simps) (simp add: OUT_LEN_def del: length_concat)
  qed
qed

lemma subtree_to_parent_node:
  assumes "1024 < length input"
  shows "compress_subtree_to_parent_node P key flags input counter =
    Ok (fst (subtrees (parent_cv P key flags) (input_cvs P key flags counter input)) @
        snd (subtrees (parent_cv P key flags) (input_cvs P key flags counter input)))"
proof -
  obtain d where d: "simd_degree P = 2 ^ d" using degree by blast
  let ?f = "parent_cv P key flags" and ?xs = "input_cvs P key flags counter input"
  have L: "max (2 ^ d) 2 \<le> MAX_SIMD_DEGREE_OR_2 P"
    using degree_le d by (auto simp: MAX_SIMD_DEGREE_OR_2_def)
  have "input \<noteq> []" using assms by auto
  then have n: "2 \<le> length ?xs" using length_b3_chunks [of input 1] assms by simp
  have "(if length (b3_chunks input) \<le> 2 ^ d then length (b3_chunks input) else max (2 ^ d) 2)
      \<le> MAX_SIMD_DEGREE_OR_2 P" using L by auto
  from wide_correct [OF d \<open>input \<noteq> []\<close> mult_le_mono1 [OF this]]
  obtain cvs where cvs: "compress_subtree_wide P key flags input counter
      (MAX_SIMD_DEGREE_OR_2 P * 32) = Ok cvs" "wide_result (2 ^ d) ?f ?xs cvs" by blast
  have w: "2 \<le> length cvs" "length cvs \<le> max (2 ^ d) 2" "\<forall>cv\<in>set cvs. length cv = 32"
    "subtrees ?f cvs = subtrees ?f ?xs"
    using cvs(2) n by (auto simp: wide_result_def split: if_splits)
  have "condense P key flags (concat cvs) = Ok (fst (subtrees ?f ?xs) @ snd (subtrees ?f ?xs))"
    using condense_correct [OF d w(3,1,2)] w(4) by simp
  then show ?thesis
    using cvs(1) w(1) n assms subtrees_32 [of ?xs ?f]
    by (simp add: compress_subtree_to_parent_node_def len_defs input_cvs_def chunk_cvs_32)
qed

lemma hash_all_at_once_tree: "hash_all_at_once P input key flags = Ok (tree_output P key flags input)"
proof (cases "length input \<le> 1024")
  case True
  then show ?thesis
    using chunk_update_of [of "[]" input key 0 flags]
    by (simp add: hash_all_at_once_def len_defs tree_output_def chunk_state_new_eq chunk_output_def)
next
  case False
  then show ?thesis
    using subtree_to_parent_node [of input key flags 0]
    by (simp add: hash_all_at_once_def len_defs tree_output_def root_node_def parent_node_output_def
        case_prod_beta)
qed

text \<open>The tree does not depend on the platform.\<close>

lemma chunk_cv_portable: "chunk_cv P key flags counter d = chunk_cv (portable 1) key flags counter d"
  by (simp add: chunk_cv_def chunk_output_def chunk_state_output_def chaining_value_def chunk_state_of_def
      start_flag_def compress portable_def)

lemma input_cvs_portable: "input_cvs P key flags counter input = input_cvs (portable 1) key flags counter input"
proof -
  have "chunk_cvs P key flags c cs = chunk_cvs (portable 1) key flags c cs" for c cs
    by (induction cs arbitrary: c) (simp_all add: chunk_cv_portable)
  then show ?thesis by (simp add: input_cvs_def)
qed

lemma parent_cv_portable: "parent_cv P key flags = parent_cv (portable 1) key flags"
  by (intro ext) (simp add: parent_cv_def chaining_value_def parent_node_output_def compress portable_def)

lemma tree_output_portable:
  "root_hash (tree_output P key flags input) = root_hash (tree_output (portable 1) key flags input)"
  unfolding tree_output_def root_node_def input_cvs_portable parent_cv_portable
  by (simp add: case_prod_beta root_hash_def chunk_output_def chunk_state_output_def chunk_state_of_def
      start_flag_def parent_node_output_def compress portable_def)

end

section \<open>Properties\<close>

text \<open>A platform that hashes four chunks at a time, with the portable functions.\<close>

abbreviation portable_by_4 :: platform where
  "portable_by_4 \<equiv> (portable 4)\<lparr>simd_degree := 4\<rparr>"

interpretation by_4: platform_laws portable_by_4
  by unfold_locales (auto simp: portable_def intro: exI [of _ 2])

text \<open>
  C26: hashing all at once computes the BLAKE3 tree. On every platform whose back end computes
  the portable compression function and whose SIMD degree is a power of two,
  \<open>hash_all_at_once\<close> does not panic (no slice, array or debug assertion is violated) and
  returns the root of the tree over the chunks of the input, whatever the degree; the root hash
  is that of the portable platform.
\<close>

theorem hash_all_at_once_is_tree:
  assumes "platform_laws P"
  shows "hash_all_at_once P input key flags = Ok (tree_output P key flags input) \<and>
    root_hash (tree_output P key flags input) = root_hash (tree_output (portable 1) key flags input)"
  using platform_laws.hash_all_at_once_tree [OF assms] platform_laws.tree_output_portable [OF assms]
  by simp

theorem hash_all_at_once_is_tree_witness:
  "hash_all_at_once portable_by_4 (replicate 9000 7) IV 0 =
     Ok (tree_output portable_by_4 IV 0 (replicate 9000 7)) \<and>
   root_hash (tree_output portable_by_4 IV 0 (replicate 9000 7)) =
     root_hash (tree_output (portable 1) IV 0 (replicate 9000 7))"
  by (rule hash_all_at_once_is_tree [OF by_4.platform_laws_axioms])

end
