(* ===== verification/Blake3_Hasher.thy ===== *)
theory Blake3_Hasher
  imports Blake3_Wide
begin

unbundle bit_operations_syntax

text \<open>
  The incremental hasher of BLAKE3 (\<^verbatim>\<open>patches/blake3/src/lib.rs\<close>, \<open>Hasher\<close>): a chunk state for
  the chunk in progress and a stack of chaining values that are merged lazily. The stack is an
  \<open>ArrayVec\<close> with room for \<open>MAX_DEPTH + 1\<close> values, here a list with the top of the stack at its
  end; a push beyond the capacity panics. Any sequence of updates is shown to give the output
  of the tree over the concatenation of the inputs.
\<close>

section \<open>Operations\<close>

record hasher =
  h_key :: cv_words
  h_chunk_state :: chunk_state
  h_cv_stack :: "cv_bytes list"

definition new_internal :: "platform \<Rightarrow> cv_words \<Rightarrow> u8 \<Rightarrow> hasher" where
  "new_internal P key flags =
     \<lparr>h_key = key, h_chunk_state = chunk_state_new key 0 flags P, h_cv_stack = []\<rparr>"

definition hasher_new :: "platform \<Rightarrow> hasher" where
  "hasher_new P = new_internal P IV 0"

definition hasher_new_keyed :: "platform \<Rightarrow> byte list \<Rightarrow> hasher" where
  "hasher_new_keyed P key = new_internal P (words_from_le_bytes_32 key) KEYED_HASH"

definition hasher_new_derive_key :: "platform \<Rightarrow> byte list \<Rightarrow> panic + hasher" where
  "hasher_new_derive_key P context_bytes =
     and_then (and_then (hash_all_at_once P context_bytes IV DERIVE_KEY_CONTEXT) root_hash)
       (\<lambda>context_key.
     Ok (new_internal P (words_from_le_bytes_32 context_key) DERIVE_KEY_MATERIAL))"

definition hasher_reset :: "hasher \<Rightarrow> hasher" where
  "hasher_reset h =
     h\<lparr>h_chunk_state := chunk_state_new (h_key h) 0 (cs_flags (h_chunk_state h))
         (cs_platform (h_chunk_state h)),
       h_cv_stack := []\<rparr>"

definition stack_push :: "cv_bytes list \<Rightarrow> cv_bytes \<Rightarrow> panic + cv_bytes list" where
  "stack_push stack cv = require (length stack < MAX_DEPTH + 1) Panics (Ok (stack @ [cv]))"

definition stack_pop :: "cv_bytes list \<Rightarrow> panic + (cv_bytes \<times> cv_bytes list)" where
  "stack_pop stack = require (stack \<noteq> []) Panics (Ok (last stack, butlast stack))"

text \<open>The loop of \<open>merge_cv_stack\<close>.\<close>

function merge_loop ::
  "platform \<Rightarrow> cv_words \<Rightarrow> u8 \<Rightarrow> nat \<Rightarrow> cv_bytes list \<Rightarrow> panic + cv_bytes list" where
  "merge_loop P key flags post_merge_stack_len stack =
     (if post_merge_stack_len < length stack then
        and_then (stack_pop stack) (\<lambda>(right_child, stack).
        and_then (stack_pop stack) (\<lambda>(left_child, stack).
        and_then (stack_push stack
          (chaining_value (parent_node_output left_child right_child key flags P))) (\<lambda>stack.
        merge_loop P key flags post_merge_stack_len stack)))
      else Ok stack)"
  by pat_completeness auto
termination
proof (relation "measure (\<lambda>(P, key, flags, n, stack). length stack)", goal_cases)
  case (2 P key flags n stack x right s1 y left s2 s3)
  then have "length s3 = length s2 + 1" "length s2 = length s1 - 1" "length s1 = length stack - 1"
    "s1 \<noteq> []" by (auto simp: stack_pop_def stack_push_def res_simps)
  then show ?case using 2(1) by (cases s1) auto
qed simp

declare merge_loop.simps [simp del]

definition merge_cv_stack :: "hasher \<Rightarrow> u64 \<Rightarrow> panic + hasher" where
  "merge_cv_stack h total_len =
     and_then (merge_loop (cs_platform (h_chunk_state h)) (h_key h) (cs_flags (h_chunk_state h))
       (count_ones (unat total_len)) (h_cv_stack h)) (\<lambda>stack. Ok (h\<lparr>h_cv_stack := stack\<rparr>))"

definition push_cv :: "hasher \<Rightarrow> cv_bytes \<Rightarrow> u64 \<Rightarrow> panic + hasher" where
  "push_cv h new_cv chunk_counter =
     and_then (merge_cv_stack h chunk_counter) (\<lambda>h.
     and_then (stack_push (h_cv_stack h) new_cv) (\<lambda>stack. Ok (h\<lparr>h_cv_stack := stack\<rparr>)))"

text \<open>Halve the length of the subtree until it divides the number of bytes so far.\<close>

fun shrink_subtree :: "nat \<Rightarrow> u64 \<Rightarrow> panic + nat" where
  "shrink_subtree subtree_len count_so_far =
     (if subtree_len = 0 then Err Panics
      else if (word_of_nat (subtree_len - 1) AND count_so_far) \<noteq> 0
      then shrink_subtree (subtree_len div 2) count_so_far
      else Ok subtree_len)"

declare shrink_subtree.simps [simp del]

text \<open>One round of the loop of \<open>update_with_join\<close> that hashes whole subtrees.\<close>

definition push_subtree :: "hasher \<Rightarrow> nat \<Rightarrow> byte list \<Rightarrow> panic + hasher" where
  "push_subtree h subtree_len input =
     (let c = h_chunk_state h;
          subtree_chunks = word_of_nat (subtree_len div CHUNK_LEN) in
      require (subtree_len \<le> length input) Panics (
      and_then
        (if subtree_len \<le> CHUNK_LEN then
           require (subtree_len = CHUNK_LEN) Panics (
           and_then (chunk_state_update (chunk_state_new (h_key h) (cs_chunk_counter c) (cs_flags c)
             (cs_platform c)) (take subtree_len input)) (\<lambda>chunk.
           push_cv h (chaining_value (chunk_state_output chunk)) (cs_chunk_counter c)))
         else
           and_then (compress_subtree_to_parent_node (cs_platform c) (h_key h) (cs_flags c)
             (take subtree_len input) (cs_chunk_counter c)) (\<lambda>cv_pair.
           and_then (push_cv h (take 32 cv_pair) (cs_chunk_counter c)) (\<lambda>h.
           push_cv h (take 32 (drop 32 cv_pair)) (cs_chunk_counter c + subtree_chunks div 2)))) (\<lambda>h.
      Ok (h\<lparr>h_chunk_state := (h_chunk_state h)\<lparr>cs_chunk_counter :=
        cs_chunk_counter (h_chunk_state h) + subtree_chunks\<rparr>\<rparr>))))"

lemma shrink_subtree_pos: "shrink_subtree n c = Inr m \<Longrightarrow> 0 < m"
  by (induction n c rule: shrink_subtree.induct) (subst (asm) shrink_subtree.simps, simp split: if_splits)

function update_loop :: "hasher \<Rightarrow> byte list \<Rightarrow> panic + (hasher \<times> byte list)" where
  "update_loop h input =
     (if CHUNK_LEN < length input then
        require (chunk_state_len (h_chunk_state h) = 0) Panics (
        require (count_ones CHUNK_LEN = 1) Panics (
        and_then (shrink_subtree (largest_power_of_two_leq (length input))
          (cs_chunk_counter (h_chunk_state h) * word_of_nat CHUNK_LEN)) (\<lambda>subtree_len.
        and_then (push_subtree h subtree_len input) (\<lambda>h.
        update_loop h (drop subtree_len input)))))
      else Ok (h, input))"
  by pat_completeness auto
termination
  by (relation "measure (\<lambda>(h, input). length input)") (auto dest: shrink_subtree_pos)

declare update_loop.simps [simp del]

text \<open>The part of \<open>update_with_join\<close> after the chunk in progress has been completed.\<close>

definition update_rest :: "hasher \<Rightarrow> byte list \<Rightarrow> panic + hasher" where
  "update_rest h input =
     and_then (update_loop h input) (\<lambda>(h, input).
     require (length input \<le> CHUNK_LEN) Panics (
     if input \<noteq> [] then
       and_then (chunk_state_update (h_chunk_state h) input) (\<lambda>c.
       merge_cv_stack (h\<lparr>h_chunk_state := c\<rparr>) (cs_chunk_counter c))
     else Ok h))"

definition update_with_join :: "hasher \<Rightarrow> byte list \<Rightarrow> panic + hasher" where
  "update_with_join h input =
     (let len = chunk_state_len (h_chunk_state h) in
      if 0 < len then
        require (len \<le> CHUNK_LEN) Panics (
        let want = CHUNK_LEN - len;
            k = min want (length input) in
        and_then (chunk_state_update (h_chunk_state h) (take k input)) (\<lambda>c.
        let h = h\<lparr>h_chunk_state := c\<rparr>; input = drop k input in
        if input \<noteq> [] then
          require (chunk_state_len c = CHUNK_LEN) Panics (
          and_then (push_cv h (chaining_value (chunk_state_output c)) (cs_chunk_counter c)) (\<lambda>h.
          update_rest
            (h\<lparr>h_chunk_state := chunk_state_new (h_key h) (cs_chunk_counter c + 1) (cs_flags c)
               (cs_platform c)\<rparr>) input))
        else Ok h))
      else update_rest h input)"

definition hasher_update :: "hasher \<Rightarrow> byte list \<Rightarrow> panic + hasher" where
  "hasher_update h input = update_with_join h input"

fun final_loop :: "hasher \<Rightarrow> nat \<Rightarrow> b3_output \<Rightarrow> b3_output" where
  "final_loop h 0 out = out"
| "final_loop h (Suc n) out =
     final_loop h n (parent_node_output (h_cv_stack h ! n) (chaining_value out) (h_key h)
       (cs_flags (h_chunk_state h)) (cs_platform (h_chunk_state h)))"

definition final_output :: "hasher \<Rightarrow> panic + b3_output" where
  "final_output h =
     (let stack = h_cv_stack h; c = h_chunk_state h; n = length stack in
      if stack = [] then
        require (cs_chunk_counter c = 0) Panics (Ok (chunk_state_output c))
      else if 0 < chunk_state_len c then
        require (n = count_ones (unat (cs_chunk_counter c))) Panics (
        Ok (final_loop h n (chunk_state_output c)))
      else
        require (2 \<le> n) Panics (
        Ok (final_loop h (n - 2) (parent_node_output (stack ! (n - 2)) (stack ! (n - 1)) (h_key h)
          (cs_flags c) (cs_platform c)))))"

definition finalize :: "hasher \<Rightarrow> panic + cv_bytes" where
  "finalize h = and_then (final_output h) root_hash"

definition hasher_count :: "hasher \<Rightarrow> u64" where
  "hasher_count h =
     cs_chunk_counter (h_chunk_state h) * word_of_nat CHUNK_LEN
       + word_of_nat (chunk_state_len (h_chunk_state h))"

section \<open>Counting bits\<close>

lemma count_ones_double [simp]: "count_ones (2 * n) = count_ones n"
  by (cases "n = 0") (simp_all add: count_ones.simps [of "2 * n"])

lemma count_ones_shift [simp]: "count_ones (2 ^ k * n) = count_ones n"
  by (induction k) (simp_all add: mult.assoc)

lemma count_ones_odd: "count_ones (Suc (2 * n)) = Suc (count_ones n)"
  by (subst count_ones.simps) simp

lemma count_ones_step: "count_ones (2 ^ k + 2 ^ Suc k * n) = Suc (count_ones n)"
proof -
  have "2 ^ k + 2 ^ Suc k * n = 2 ^ k * Suc (2 * n)" by (simp add: algebra_simps)
  then show ?thesis by (simp only: count_ones_shift count_ones_odd)
qed

lemma count_ones_le: "n < 2 ^ m \<Longrightarrow> count_ones n \<le> m"
proof (induction m arbitrary: n)
  case 0
  then show ?case by (simp add: count_ones.simps)
next
  case (Suc m)
  then have "count_ones (n div 2) \<le> m" by (intro Suc.IH) simp
  then show ?case by (subst count_ones.simps) (simp add: Suc_le_eq le_SucI mod2_eq_if)
qed

section \<open>Stacks of subtrees\<close>

text \<open>
  Groups of chaining values, the topmost group first: the size of each group is a power of two
  with an exponent of at least \<open>k\<close>, and the exponents increase towards the bottom.
\<close>

fun ascending :: "nat \<Rightarrow> 'a list list \<Rightarrow> bool" where
  "ascending k [] \<longleftrightarrow> True"
| "ascending k (b # gs) \<longleftrightarrow> (\<exists>e\<ge>k. length b = 2 ^ e \<and> ascending (Suc e) gs)"

abbreviation total :: "'a list list \<Rightarrow> nat" where
  "total gs \<equiv> length (concat (rev gs))"

lemma total_Cons: "total (b # gs) = length b + total gs"
  by (simp add: rev_map)

lemma ascending_mono: "ascending k gs \<Longrightarrow> j \<le> k \<Longrightarrow> ascending j gs"
  by (cases gs) auto

lemma ascending_dvd: "ascending k gs \<Longrightarrow> 2 ^ k dvd total gs"
proof (induction k gs rule: ascending.induct)
  case (2 k b gs)
  then obtain e where e: "k \<le> e" "length b = 2 ^ e" "ascending (Suc e) gs" by auto
  then have "2 ^ Suc e dvd total gs" using 2 by blast
  then have "2 ^ k dvd total gs" using e(1) by (meson le_SucI le_imp_power_dvd dvd_trans)
  moreover have "(2::nat) ^ k dvd 2 ^ e" using e(1) by (rule le_imp_power_dvd)
  ultimately show ?case unfolding total_Cons e(2) by (rule dvd_add [rotated])
qed simp

lemma ascending_count: "ascending k gs \<Longrightarrow> count_ones (total gs) = length gs"
proof (induction k gs rule: ascending.induct)
  case (1 k)
  then show ?case by (simp add: count_ones.simps)
next
  case (2 k b gs)
  then obtain e where e: "length b = 2 ^ e" "ascending (Suc e) gs" by auto
  then obtain q where q: "total gs = 2 ^ Suc e * q" using ascending_dvd by blast
  have "count_ones q = length gs" using 2 e(2) q by (metis count_ones_shift)
  then show ?case unfolding total_Cons e(1) q using count_ones_step [of e q] by simp
qed

text \<open>The exponents of a stack whose total is divisible by \<open>2 ^ k\<close> are at least \<open>k\<close>.\<close>

lemma ascending_from_dvd:
  assumes "ascending j gs" and "2 ^ k dvd total gs"
  shows "ascending k gs"
proof (cases gs)
  case (Cons b gs')
  then obtain e where e: "length b = 2 ^ e" "ascending (Suc e) gs'" using assms(1) by auto
  then obtain q where "total gs' = 2 ^ Suc e * q" using ascending_dvd by blast
  then have t: "total gs = 2 ^ e * Suc (2 * q)" unfolding Cons total_Cons e(1) by (simp add: algebra_simps)
  have "k \<le> e"
  proof (rule ccontr)
    assume "\<not> k \<le> e"
    then have "2 ^ Suc e dvd total gs" using assms(2) by (meson Suc_leI le_imp_power_dvd dvd_trans not_le)
    then have "2 ^ e * 2 dvd 2 ^ e * Suc (2 * q)" by (simp only: t power_Suc2)
    then have "2 dvd Suc (2 * q)" by (subst (asm) nat_mult_dvd_cancel1) simp_all
    then show False by simp
  qed
  with e show ?thesis by (auto simp: Cons)
qed simp

text \<open>A group on top whose size may equal that of the group below it.\<close>

definition lazy_stack :: "'a list list \<Rightarrow> bool" where
  "lazy_stack gs \<longleftrightarrow> (case gs of [] \<Rightarrow> True | b # gs \<Rightarrow> \<exists>k. length b = 2 ^ k \<and> ascending k gs)"

lemma ascending_lazy: "ascending k gs \<Longrightarrow> lazy_stack gs"
  by (cases gs) (auto simp: lazy_stack_def intro: ascending_mono le_SucI)

lemma lazy_cases:
  assumes "length h = 2 ^ k" and "ascending k gs"
  obtains (strict) "ascending 0 (h # gs)"
  | (merge) b gs' where "gs = b # gs'" "length b = 2 ^ k" "ascending (Suc k) gs'"
proof (cases gs)
  case (Cons b gs')
  then obtain e where e: "k \<le> e" "length b = 2 ^ e" "ascending (Suc e) gs'" using assms(2) by auto
  show ?thesis
  proof (cases "e = k")
    case False
    then have "ascending (Suc k) gs" using e Cons by (auto intro!: exI [of _ e])
    then show ?thesis using strict assms(1) by auto
  qed (use e Cons merge in auto)
qed (use strict assms in auto)

lemma lazy_count: "length h = 2 ^ k \<Longrightarrow> ascending k gs \<Longrightarrow> count_ones (total (h # gs)) \<le> Suc (length gs)"
proof (induction gs arbitrary: h k)
  case Nil
  then show ?case using count_ones_step [of k 0] by (simp add: count_ones.simps)
next
  case (Cons b gs)
  from Cons.prems show ?case
  proof (cases rule: lazy_cases)
    case strict
    then show ?thesis using ascending_count by (metis eq_imp_le length_Cons)
  next
    case (merge b' gs')
    then have "count_ones (total ((b @ h) # gs)) \<le> Suc (length gs)"
      using Cons.prems(1) by (intro Cons.IH [of _ "Suc k"]) simp_all
    then show ?thesis by simp
  qed
qed

abbreviation stack_of :: "('a \<Rightarrow> 'a \<Rightarrow> 'a) \<Rightarrow> 'a list list \<Rightarrow> 'a list" where
  "stack_of f bs \<equiv> rev (map (tree_cv f) bs)"

lemma ascending_length: "ascending k bs \<Longrightarrow> total bs < 2 ^ 54 \<Longrightarrow> length bs \<le> 54"
  using count_ones_le [of "total bs" 54] ascending_count by metis

lemma lazy_length:
  assumes "lazy_stack bs" and "total bs \<le> 2 ^ 54"
  shows "length bs \<le> 55"
proof (cases bs)
  case (Cons b bs')
  then obtain k where k: "length b = 2 ^ k" "ascending k bs'"
    using assms(1) by (auto simp: lazy_stack_def)
  have "0 < length b" unfolding k(1) by simp
  then have "total bs' < 2 ^ 54" using assms(2) unfolding Cons total_Cons by linarith
  then show ?thesis using ascending_length [OF k(2)] Cons by simp
qed simp

lemma merge_loop_done: "length stack \<le> n \<Longrightarrow> merge_loop P key flags n stack = Ok stack"
  by (subst merge_loop.simps) simp

lemma merge_loop_step:
  "n < length s + 2 \<Longrightarrow> length s \<le> 54 \<Longrightarrow>
     merge_loop P key flags n (s @ [l, r]) = merge_loop P key flags n (s @ [parent_cv P key flags l r])"
  by (subst merge_loop.simps)
    (simp add: stack_pop_def stack_push_def MAX_DEPTH_def butlast_append parent_cv_def)

lemma merge_loop_lazy:
  assumes "length h = 2 ^ k" and "ascending k bs" and "length bs \<le> 54"
  shows "\<exists>bs'. merge_loop P key flags (count_ones (total (h # bs))) (stack_of (parent_cv P key flags) (h # bs)) =
      Ok (stack_of (parent_cv P key flags) bs') \<and>
    ascending 0 bs' \<and> concat (rev bs') = concat (rev (h # bs))"
  using assms
proof (induction bs arbitrary: h k)
  case Nil
  then have "count_ones (total [h]) = 1" using ascending_count [of 0 "[h]"] by simp
  then show ?case using Nil merge_loop_done [of "stack_of (parent_cv P key flags) [h]" 1]
    by (intro exI [of _ "[h]"]) simp
next
  case (Cons b bs)
  let ?f = "parent_cv P key flags"
  from Cons.prems(1,2) show ?case
  proof (cases rule: lazy_cases)
    case strict
    then show ?thesis
      using ascending_count [OF strict] by (intro exI [of _ "h # b # bs"]) (simp add: merge_loop_done)
  next
    case (merge b' bs')
    then have b: "length b = 2 ^ k" "ascending (Suc k) bs" by simp_all
    have "h \<noteq> []" using Cons.prems(1) by auto
    then have tree: "?f (tree_cv ?f b) (tree_cv ?f h) = tree_cv ?f (b @ h)"
      using tree_cv_append [OF b(1), of h ?f] Cons.prems(1) by simp
    have len: "length (b @ h) = 2 ^ Suc k" using b Cons.prems(1) by simp
    let ?n = "count_ones (total (h # b # bs))"
    have n: "?n = count_ones (total ((b @ h) # bs))" by simp
    have "?n < length (stack_of ?f bs) + 2" using lazy_count [OF len b(2)] unfolding n by simp
    then have "merge_loop P key flags ?n (stack_of ?f (h # b # bs)) =
        merge_loop P key flags ?n (stack_of ?f ((b @ h) # bs))"
      using merge_loop_step [of ?n "stack_of ?f bs" P key flags "tree_cv ?f b" "tree_cv ?f h"]
        Cons.prems(3) tree by simp
    with Cons.IH [OF len b(2)] Cons.prems(3) show ?thesis by (simp only: n) simp
  qed
qed

section \<open>The root of a stack\<close>

lemma chaining_value_root:
  "1 < length ys \<Longrightarrow> chaining_value (root_node P key flags ys) = tree_cv (parent_cv P key flags) ys"
  by (simp add: root_node_def case_prod_beta parent_cv_def tree_cv_subtrees)

lemma root_node_append:
  "length xs = 2 ^ j \<Longrightarrow> ys \<noteq> [] \<Longrightarrow> length ys \<le> 2 ^ j \<Longrightarrow>
     root_node P key flags (xs @ ys) =
     parent_node_output (tree_cv (parent_cv P key flags) xs) (tree_cv (parent_cv P key flags) ys) key flags P"
  by (simp add: root_node_def subtrees_append)

lemma final_loop_root:
  assumes "h_key h = key" and "cs_flags (h_chunk_state h) = flags" and "cs_platform (h_chunk_state h) = P"
    and "h_cv_stack h = stack_of (parent_cv P key flags) bs @ rest"
    and "ascending k bs" and "1 < length ys" and "length ys \<le> 2 ^ k"
  shows "final_loop h (length bs) (root_node P key flags ys) =
    root_node P key flags (concat (rev bs) @ ys)"
  using assms(4-)
proof (induction bs arbitrary: k ys rest)
  case (Cons b bs)
  let ?f = "parent_cv P key flags"
  obtain e where e: "k \<le> e" "length b = 2 ^ e" "ascending (Suc e) bs" using Cons.prems(2) by auto
  have "(2::nat) ^ k \<le> 2 ^ e" using e(1) by simp
  then have le: "length ys \<le> 2 ^ e" using Cons.prems(4) by linarith
  have "ys \<noteq> []" using Cons.prems(3) by auto
  then have root: "root_node P key flags (b @ ys) =
      parent_node_output (tree_cv ?f b) (tree_cv ?f ys) key flags P"
    using le by (intro root_node_append [OF e(2)])
  have "h_cv_stack h ! length bs = tree_cv ?f b"
    using Cons.prems(1) by (simp add: nth_append)
  then have "final_loop h (length (b # bs)) (root_node P key flags ys) =
      final_loop h (length bs) (root_node P key flags (b @ ys))"
    using assms(1-3) Cons.prems(3) by (simp add: chaining_value_root root)
  moreover have "length (b @ ys) \<le> 2 ^ Suc e" "1 < length (b @ ys)" using e(2) le Cons.prems(3) by simp_all
  ultimately show ?case
    using Cons.IH [of "tree_cv ?f b # rest" "Suc e" "b @ ys"] Cons.prems(1) e(3) by simp
qed simp

section \<open>States of a hasher\<close>

text \<open>The hasher with the given stack of subtrees and the given bytes of the next chunk.\<close>

definition hasher_of :: "platform \<Rightarrow> cv_words \<Rightarrow> u8 \<Rightarrow> cv_bytes list list \<Rightarrow> byte list \<Rightarrow> hasher" where
  "hasher_of P key flags bs part =
     \<lparr>h_key = key, h_chunk_state = chunk_state_of P key (word_of_nat (total bs)) flags part,
      h_cv_stack = stack_of (parent_cv P key flags) bs\<rparr>"

lemma chunk_state_of_sel [simp]:
  "cs_flags (chunk_state_of P key counter flags d) = flags"
  "cs_platform (chunk_state_of P key counter flags d) = P"
  "cs_chunk_counter (chunk_state_of P key counter flags d) = counter"
  by (simp_all add: chunk_state_of_def)

lemma chunk_state_of_counter:
  "(chunk_state_of P key counter flags [])\<lparr>cs_chunk_counter := c\<rparr> = chunk_state_of P key c flags []"
  by (simp add: chunk_state_of_def lazy_chunks_short block_state_0 blocks_cv_def)

lemma u64_of_nat: "n < 2 ^ 64 \<Longrightarrow> unat (word_of_nat n :: u64) = n"
  by (simp add: unat_of_nat)

lemma merge_lazy:
  assumes "lazy_stack bs" and "total bs \<le> 2 ^ 54" and "cs_flags c = flags" and "cs_platform c = P"
  obtains bs' where "merge_cv_stack \<lparr>h_key = key, h_chunk_state = c, h_cv_stack = stack_of (parent_cv P key flags) bs\<rparr>
      (word_of_nat (total bs)) =
    Ok \<lparr>h_key = key, h_chunk_state = c, h_cv_stack = stack_of (parent_cv P key flags) bs'\<rparr>"
    "ascending 0 bs'" "concat (rev bs') = concat (rev bs)"
proof (cases bs)
  case Nil
  then show ?thesis
    using that [of "[]"] assms by (simp add: merge_cv_stack_def merge_loop_done)
next
  case (Cons b bs1)
  then obtain k where k: "length b = 2 ^ k" "ascending k bs1"
    using assms(1) by (auto simp: lazy_stack_def)
  have "length bs1 \<le> 54" using lazy_length [OF assms(1,2)] Cons by simp
  from merge_loop_lazy [OF k this, of P key flags]
  obtain bs' where "merge_loop P key flags (count_ones (total bs)) (stack_of (parent_cv P key flags) bs) =
      Ok (stack_of (parent_cv P key flags) bs')" "ascending 0 bs'" "concat (rev bs') = concat (rev bs)"
    using Cons by blast
  moreover have "unat (word_of_nat (total bs) :: u64) = total bs" using assms(2) by (intro u64_of_nat) simp
  ultimately show ?thesis
    using that [of bs'] assms(3,4) by (simp add: merge_cv_stack_def del: rev_map)
qed

lemma push_lazy:
  assumes "lazy_stack bs" and "total bs < 2 ^ 54" and "cs_flags c = flags" and "cs_platform c = P"
    and "length b = 2 ^ k" and "2 ^ k dvd total bs"
  obtains bs' where "push_cv \<lparr>h_key = key, h_chunk_state = c, h_cv_stack = stack_of (parent_cv P key flags) bs\<rparr>
      (tree_cv (parent_cv P key flags) b) (word_of_nat (total bs)) =
    Ok \<lparr>h_key = key, h_chunk_state = c, h_cv_stack = stack_of (parent_cv P key flags) (b # bs')\<rparr>"
    "ascending k bs'" "concat (rev bs') = concat (rev bs)"
proof -
  have le: "total bs \<le> 2 ^ 54" using assms(2) by simp
  obtain bs' where bs': "merge_cv_stack \<lparr>h_key = key, h_chunk_state = c,
      h_cv_stack = stack_of (parent_cv P key flags) bs\<rparr> (word_of_nat (total bs)) =
    Ok \<lparr>h_key = key, h_chunk_state = c, h_cv_stack = stack_of (parent_cv P key flags) bs'\<rparr>"
    "ascending 0 bs'" "concat (rev bs') = concat (rev bs)"
    by (rule merge_lazy [OF assms(1) le assms(3,4)])
  have "length bs' \<le> 54" using ascending_length [OF bs'(2)] bs'(3) assms(2) by simp
  then show ?thesis
    using that [of bs'] bs' ascending_from_dvd [OF bs'(2), of k] assms(6)
    by (simp add: push_cv_def stack_push_def MAX_DEPTH_def)
qed

lemma mask_and_u64:
  assumes "n < 2 ^ 64" and "a < 64"
  shows "(word_of_nat (2 ^ a - 1) AND word_of_nat n :: u64) = 0 \<longleftrightarrow> 2 ^ a dvd n"
proof -
  have "(word_of_nat (2 ^ a - 1) :: u64) = mask a" by (simp add: mask_eq_exp_minus_1 of_nat_diff)
  then have "(word_of_nat (2 ^ a - 1) AND word_of_nat n :: u64) = take_bit a (word_of_nat n)"
    by (simp add: take_bit_eq_mask and.commute)
  also have "\<dots> = word_of_nat (n mod 2 ^ a)"
    by (simp add: take_bit_of_nat flip: take_bit_eq_mod)
  also have "\<dots> = 0 \<longleftrightarrow> n mod 2 ^ a = 0"
  proof -
    have "n mod 2 ^ a < 2 ^ 64" using assms(1) by (meson le_less_trans mod_less_eq_dividend)
    then show ?thesis using u64_of_nat [of "n mod 2 ^ a"] by (metis unat_eq_zero)
  qed
  finally show ?thesis by (simp add: dvd_eq_mod_eq_0)
qed

lemma shrink_subtree_eq:
  assumes "x < 2 ^ 64" and "2 ^ 10 dvd x" and "10 \<le> a" and "a < 64"
  shows "\<exists>b. shrink_subtree (2 ^ a) (word_of_nat x) = Ok (2 ^ b) \<and> 10 \<le> b \<and> b \<le> a \<and> 2 ^ b dvd x"
  using assms(3,4)
proof (induction a)
  case (Suc a)
  note step = shrink_subtree.simps [of "2 ^ Suc a" "word_of_nat x"] mask_and_u64 [OF assms(1) Suc.prems(2)]
  show ?case
  proof (cases "2 ^ Suc a dvd x")
    case True
    then show ?thesis using step Suc.prems by (intro exI [of _ "Suc a"]) (simp del: power_Suc)
  next
    case False
    then have "Suc a \<noteq> 10" using assms(2) by metis
    then obtain b where "shrink_subtree (2 ^ a) (word_of_nat x) = Ok (2 ^ b)" "10 \<le> b" "b \<le> a" "2 ^ b dvd x"
      using Suc by auto
    moreover have "shrink_subtree (2 ^ Suc a) (word_of_nat x) = shrink_subtree (2 ^ a) (word_of_nat x)"
      using step False by simp
    ultimately show ?thesis by (intro exI [of _ b]) simp
  qed
qed simp

text \<open>The chaining values of whole chunks.\<close>

definition full_cvs :: "platform \<Rightarrow> cv_words \<Rightarrow> u8 \<Rightarrow> u64 \<Rightarrow> byte list \<Rightarrow> cv_bytes list" where
  "full_cvs P key flags counter full = chunk_cvs P key flags counter (fst (chunks 1024 full))"

lemma chunks_full:
  assumes "1024 dvd length full"
  shows "snd (chunks 1024 full) = []" and "length (fst (chunks 1024 full)) = length full div 1024"
proof -
  have r: "length (snd (chunks 1024 full)) < 1024"
    "length (fst (chunks 1024 full)) * 1024 + length (snd (chunks 1024 full)) = length full"
    using chunks_props [of 1024 full] length_chunks [of 1024 full] by simp_all
  have "length (snd (chunks 1024 full)) = length full mod 1024"
    using r mod_mult_self3 [of "length (fst (chunks 1024 full))" 1024 "length (snd (chunks 1024 full))"] by simp
  then show *: "snd (chunks 1024 full) = []" using assms by simp
  show "length (fst (chunks 1024 full)) = length full div 1024" using r(2) * by simp
qed

lemma full_cvs_input:
  "full \<noteq> [] \<Longrightarrow> 1024 dvd length full \<Longrightarrow> full_cvs P key flags counter full = input_cvs P key flags counter full"
  using chunks_full [of full] by (simp add: full_cvs_def input_cvs_def b3_chunks_exact)

lemma length_full_cvs: "1024 dvd length full \<Longrightarrow> length (full_cvs P key flags counter full) = length full div 1024"
  using chunks_full by (simp add: full_cvs_def)

lemma full_cvs_append:
  assumes "1024 dvd length full"
  shows "full_cvs P key flags counter (full @ sub) =
    full_cvs P key flags counter full @ full_cvs P key flags (counter + word_of_nat (length full div 1024)) sub"
  using assms chunks_full [OF assms] chunks.eager.split_append [of 1024 full sub]
  by (simp add: full_cvs_def chunk_cvs_append)

lemma input_cvs_single: "length d \<le> 1024 \<Longrightarrow> input_cvs P key flags counter d = [chunk_cv P key flags counter d]"
  by (simp add: input_cvs_def b3_chunks_def lazy_chunks_short)

lemma length_subtree_cv:
  "length (tree_cv (parent_cv P key flags) (input_cvs P key flags counter d)) = 32"
  by (rule tree_cv_32) (simp_all add: input_cvs_nonempty [unfolded input_cvs_def] input_cvs_def chunk_cvs_32)

lemma half_u64:
  assumes "k < 63"
  shows "(word_of_nat (2 ^ Suc k) :: u64) div 2 = word_of_nat (2 ^ k)"
proof -
  have "unat (word_of_nat (2 ^ j) :: u64) = 2 ^ j" if "j < 64" for j
    using that by (intro u64_of_nat power_strict_increasing) simp_all
  then have "unat ((word_of_nat (2 ^ Suc k) :: u64) div 2) = unat (word_of_nat (2 ^ k) :: u64)"
    using assms by (simp add: unat_div del: of_nat_power power_Suc) simp
  then show ?thesis by (simp only: word_unat_eq_iff)
qed

lemma push_subtree_pair:
  assumes "length input = n * 1024" and "1 < n" and "length l = 32" and "length r = 32"
    and "compress_subtree_to_parent_node P key flags input c = Ok (l @ r)"
    and "push_cv \<lparr>h_key = key, h_chunk_state = chunk_state_of P key c flags [], h_cv_stack = s\<rparr> l c =
      Ok \<lparr>h_key = key, h_chunk_state = chunk_state_of P key c flags [], h_cv_stack = s1\<rparr>"
    and "push_cv \<lparr>h_key = key, h_chunk_state = chunk_state_of P key c flags [], h_cv_stack = s1\<rparr> r
        (c + word_of_nat n div 2) =
      Ok \<lparr>h_key = key, h_chunk_state = chunk_state_of P key c flags [], h_cv_stack = s2\<rparr>"
  shows "push_subtree \<lparr>h_key = key, h_chunk_state = chunk_state_of P key c flags [], h_cv_stack = s\<rparr>
      (n * 1024) (input @ rest) =
    Ok \<lparr>h_key = key, h_chunk_state = chunk_state_of P key (c + word_of_nat n) flags [], h_cv_stack = s2\<rparr>"
  using assms by (simp add: push_subtree_def len_defs chunk_state_of_counter Let_def)

context platform_laws
begin

lemma push_chunk:
  assumes "lazy_stack bs" and "total bs < 2 ^ 54" and "length input = 1024"
  obtains bs' where "push_subtree (hasher_of P key flags bs []) 1024 (input @ rest) =
    Ok (hasher_of P key flags bs' [])" "lazy_stack bs'"
    "concat (rev bs') = concat (rev bs) @ input_cvs P key flags (word_of_nat (total bs)) input"
proof -
  let ?c = "word_of_nat (total bs) :: u64" and ?f = "parent_cv P key flags"
  let ?b = "[chunk_cv P key flags ?c input]"
  obtain bs' where bs': "push_cv (hasher_of P key flags bs []) (tree_cv ?f ?b) ?c =
      Ok \<lparr>h_key = key, h_chunk_state = chunk_state_of P key ?c flags [], h_cv_stack = stack_of ?f (?b # bs')\<rparr>"
    "ascending 0 bs'" "concat (rev bs') = concat (rev bs)"
    by (rule push_lazy [OF assms(1,2), of "chunk_state_of P key ?c flags []" flags P ?b 0 key])
      (simp_all add: hasher_of_def)
  have tot: "total bs' = total bs" using bs'(3) by simp
  have "chunk_state_update (chunk_state_new key ?c flags P) input = Ok (chunk_state_of P key ?c flags input)"
    using chunk_update_of [of "[]" input key ?c flags] assms(3) by (simp add: chunk_state_new_eq)
  then have "push_subtree (hasher_of P key flags bs []) 1024 (input @ rest) =
      Ok (hasher_of P key flags (?b # bs') [])"
    using bs'(1) tot assms(3)
    by (simp add: push_subtree_def len_defs hasher_of_def chunk_cv_def chunk_output_def
        chunk_state_of_counter add.commute)
  moreover have "lazy_stack (?b # bs')" using bs'(2) by (auto simp: lazy_stack_def intro: exI [of _ 0])
  ultimately show ?thesis
    using that [of "?b # bs'"] bs'(3) assms(3) by (simp add: input_cvs_single)
qed

lemma push_pair:
  assumes bs: "lazy_stack bs" "2 ^ Suc k dvd total bs" "total bs + 2 ^ Suc k \<le> 2 ^ 54"
    and input: "length input = 2 ^ Suc k * 1024"
  obtains bs' where "push_subtree (hasher_of P key flags bs []) (2 ^ Suc k * 1024) (input @ rest) =
    Ok (hasher_of P key flags bs' [])" "lazy_stack bs'"
    "concat (rev bs') = concat (rev bs) @ input_cvs P key flags (word_of_nat (total bs)) input"
    "2 \<le> length bs'"
proof -
  let ?c = "word_of_nat (total bs) :: u64" and ?f = "parent_cv P key flags"
  let ?cs = "chunk_state_of P key ?c flags []"
  let ?l = "take (2 ^ k * 1024) input" and ?r = "drop (2 ^ k * 1024) input"
  let ?b1 = "input_cvs P key flags ?c ?l" and ?b2 = "input_cvs P key flags (?c + word_of_nat (2 ^ k)) ?r"
  have lr: "length ?l = 2 ^ k * 1024" "length ?r = 2 ^ k * 1024" "?r \<noteq> []" using input by simp_all
  have b: "input_cvs P key flags ?c input = ?b1 @ ?b2" "length ?b1 = 2 ^ k" 
    using input_cvs_append [OF lr(1) _ lr(3)] b3_chunks_append(2) [OF lr(1) _ lr(3)] by simp_all
  have b2: "length ?b2 = 2 ^ k" using b3_chunks_append(2) [OF lr(2) _ lr(3)] by simp
  have sub: "subtrees ?f (?b1 @ ?b2) = (tree_cv ?f ?b1, tree_cv ?f ?b2)"
    using subtrees_append [OF b(2), of ?b2 ?f] b2 by simp
  have one: "1 \<le> (2::nat) ^ k" by simp
  then have "1024 < length input" using input unfolding power_Suc by linarith
  then have pair: "compress_subtree_to_parent_node P key flags input ?c = Ok (tree_cv ?f ?b1 @ tree_cv ?f ?b2)"
    using subtree_to_parent_node [of input key flags ?c] b(1) sub by simp
  have t32: "length (tree_cv ?f ?b1) = 32" "length (tree_cv ?f ?b2) = 32"
    by (rule length_subtree_cv)+
  have k: "2 ^ k dvd total bs" by (rule dvd_trans [OF _ bs(2)]) simp
  have "total bs < 2 ^ 54" using bs(3) one unfolding power_Suc by linarith
  then obtain bs1 where bs1: "push_cv \<lparr>h_key = key, h_chunk_state = ?cs, h_cv_stack = stack_of ?f bs\<rparr>
      (tree_cv ?f ?b1) ?c =
      Ok \<lparr>h_key = key, h_chunk_state = ?cs, h_cv_stack = stack_of ?f (?b1 # bs1)\<rparr>"
    "ascending k bs1" "concat (rev bs1) = concat (rev bs)"
    using push_lazy [OF bs(1) _ _ _ b(2) k, of ?cs flags P key] by auto
  have tot: "total (?b1 # bs1) = total bs + 2 ^ k" using bs1(3) b(2) by simp
  have lazy: "lazy_stack (?b1 # bs1)" using b(2) bs1(2) by (auto simp: lazy_stack_def)
  have "total (?b1 # bs1) < 2 ^ 54" unfolding tot using bs(3) one unfolding power_Suc by linarith
  moreover have "2 ^ k dvd total (?b1 # bs1)" unfolding tot using k by simp
  ultimately obtain bs2 where bs2: "push_cv \<lparr>h_key = key, h_chunk_state = ?cs,
      h_cv_stack = stack_of ?f (?b1 # bs1)\<rparr> (tree_cv ?f ?b2) (word_of_nat (total (?b1 # bs1))) =
      Ok \<lparr>h_key = key, h_chunk_state = ?cs, h_cv_stack = stack_of ?f (?b2 # bs2)\<rparr>"
    "ascending k bs2" "concat (rev bs2) = concat (rev (?b1 # bs1))"
    using push_lazy [OF lazy _ _ _ b2, of ?cs flags P key] by auto
  have "(2::nat) ^ k < 2 ^ 63" using bs(3) by simp
  then have "k < 63" by (rule power_less_imp_less_exp [rotated]) simp
  then have half: "(word_of_nat (2 ^ Suc k) :: u64) div 2 = word_of_nat (2 ^ k)" by (rule half_u64)
  have tot2: "total (?b2 # bs2) = total bs + 2 ^ Suc k" using bs2(3) tot b2 by simp
  have "push_subtree (hasher_of P key flags bs []) (2 ^ Suc k * 1024) (input @ rest) =
      Ok (hasher_of P key flags (?b2 # bs2) [])"
    unfolding hasher_of_def tot2 of_nat_add
  proof (rule push_subtree_pair [OF input _ t32 pair bs1(1)])
    show "1 < (2::nat) ^ Suc k" using one unfolding power_Suc by linarith
    show "push_cv \<lparr>h_key = key, h_chunk_state = ?cs, h_cv_stack = stack_of ?f (?b1 # bs1)\<rparr>
        (tree_cv ?f ?b2) (?c + word_of_nat (2 ^ Suc k) div 2) =
        Ok \<lparr>h_key = key, h_chunk_state = ?cs, h_cv_stack = stack_of ?f (?b2 # bs2)\<rparr>"
      using bs2(1) unfolding half tot of_nat_add .
  qed
  moreover have "lazy_stack (?b2 # bs2)" using b2 bs2(2) by (auto simp: lazy_stack_def)
  moreover have "bs2 \<noteq> []" using bs2(3) by auto
  ultimately show ?thesis
    using that [of "?b2 # bs2"] bs2(3) bs1(3) b(1) by (simp add: Suc_le_eq)
qed

lemma push_subtree_lazy:
  assumes bs: "lazy_stack bs" "2 ^ k dvd total bs" "total bs + 2 ^ k \<le> 2 ^ 54"
    and input: "length input = 2 ^ k * 1024"
  obtains bs' where "push_subtree (hasher_of P key flags bs []) (2 ^ k * 1024) (input @ rest) =
    Ok (hasher_of P key flags bs' [])" "lazy_stack bs'"
    "concat (rev bs') = concat (rev bs) @ input_cvs P key flags (word_of_nat (total bs)) input"
    "k = 0 \<or> 2 \<le> length bs'"
proof (cases k)
  case 0
  then have "total bs < 2 ^ 54" "length input = 1024" using bs(3) input by simp_all
  from push_chunk [OF bs(1) this, of key flags rest] 0 that show ?thesis by auto
next
  case (Suc j)
  from push_pair [OF bs [unfolded Suc] input [unfolded Suc], of key flags rest] Suc that
  show ?thesis by auto
qed

end

text \<open>The stack of subtrees over the bytes of whole chunks.\<close>

definition stack_holds :: "platform \<Rightarrow> cv_words \<Rightarrow> u8 \<Rightarrow> byte list \<Rightarrow> cv_bytes list list \<Rightarrow> bool" where
  "stack_holds P key flags full bs \<longleftrightarrow>
     1024 dvd length full \<and> concat (rev bs) = full_cvs P key flags 0 full \<and> lazy_stack bs"

lemma stack_holds_total: "stack_holds P key flags full bs \<Longrightarrow> total bs * 1024 = length full"
  by (simp only: stack_holds_def length_full_cvs) simp

lemma stack_holds_append:
  assumes "stack_holds P key flags full bs" and "sub \<noteq> []" and "1024 dvd length sub" and "lazy_stack bs'"
    and "concat (rev bs') = concat (rev bs) @ input_cvs P key flags (word_of_nat (total bs)) sub"
  shows "stack_holds P key flags (full @ sub) bs'"
proof -
  have "total bs = length full div 1024"
    using assms(1) by (simp only: stack_holds_def length_full_cvs)
  then show ?thesis
    using assms full_cvs_append [of full P key flags 0 sub] full_cvs_input [of sub]
    by (simp add: stack_holds_def length_full_cvs)
qed

lemma subtree_bound: "c * 1024 = (m::nat) \<Longrightarrow> m + n < 2 ^ 64 \<Longrightarrow> k * 1024 \<le> n \<Longrightarrow> c + k \<le> 2 ^ 54"
  by simp

text \<open>The subtree that the loop hashes next.\<close>

lemma next_subtree:
  assumes "c * 1024 + n < 2 ^ 64" and "1024 < n"
  obtains k where "shrink_subtree (largest_power_of_two_leq n) (word_of_nat c * word_of_nat 1024) =
    Ok (2 ^ k * 1024)" "2 ^ k dvd c" "2 ^ k * 1024 \<le> n"
proof -
  obtain a where a: "2 ^ a \<le> n" "n < 2 ^ Suc a" using pow2_bracket [of n] assms(2) by auto
  have "(2::nat) ^ 10 < 2 ^ Suc a" using a assms(2) by simp
  then have "10 < Suc a" by (rule power_less_imp_less_exp [rotated]) simp
  moreover have "(2::nat) ^ a < 2 ^ 64" using a(1) assms(1) by linarith
  then have "a < 64" by (rule power_less_imp_less_exp [rotated]) simp
  ultimately obtain b where b: "shrink_subtree (2 ^ a) (word_of_nat (c * 1024)) = Ok (2 ^ b)" "10 \<le> b" "b \<le> a"
    "2 ^ b dvd c * 1024"
    using shrink_subtree_eq [of "c * 1024" a] assms(1) by auto
  have pow: "(2::nat) ^ b = 2 ^ (b - 10) * 1024" using b(2) power_add [of "2::nat" "b - 10" 10] by simp
  have "(2::nat) ^ b \<le> 2 ^ a" using b(3) by simp
  then have "2 ^ (b - 10) * 1024 \<le> n" using a(1) pow by linarith
  moreover have "2 ^ (b - 10) dvd c" using b(4) unfolding pow by simp
  ultimately show ?thesis
    using that [of "b - 10"] b(1) pow largest_power_of_two_leq_eq [OF a] by simp
qed

context platform_laws
begin

lemma update_loop_lazy:
  assumes "stack_holds P key flags full bs" and "length full + length input < 2 ^ 64"
    and "input = [] \<Longrightarrow> bs = [] \<or> 2 \<le> length bs"
  shows "\<exists>full' bs' rest. update_loop (hasher_of P key flags bs []) input =
      Ok (hasher_of P key flags bs' [], rest) \<and> full @ input = full' @ rest \<and>
    stack_holds P key flags full' bs' \<and> length rest \<le> 1024 \<and> (rest = [] \<longrightarrow> bs' = [] \<or> 2 \<le> length bs')"
  using assms
proof (induction input arbitrary: full bs rule: length_induct)
  case (1 input)
  show ?case
  proof (cases "1024 < length input")
    case False
    then show ?thesis
      using 1(2-) by (intro exI [of _ full] exI [of _ bs] exI [of _ input])
        (simp add: update_loop.simps len_defs)
  next
    case True
    have c: "total bs * 1024 = length full" using 1(2) by (rule stack_holds_total)
    then have "total bs * 1024 + length input < 2 ^ 64" using 1(3) by simp
    then obtain k where k: "shrink_subtree (largest_power_of_two_leq (length input))
        (word_of_nat (total bs) * word_of_nat 1024) = Ok (2 ^ k * 1024)"
      "2 ^ k dvd total bs" "2 ^ k * 1024 \<le> length input"
      by (rule next_subtree [OF _ True])
    let ?sub = "take (2 ^ k * 1024) input" and ?rest = "drop (2 ^ k * 1024) input"
    have sub: "length ?sub = 2 ^ k * 1024" "?sub \<noteq> []" "1024 dvd length ?sub" using k(3) True by auto
    have lazy: "lazy_stack bs" using 1(2) by (simp add: stack_holds_def)
    obtain bs1 where bs1: "push_subtree (hasher_of P key flags bs []) (2 ^ k * 1024) (?sub @ ?rest) =
        Ok (hasher_of P key flags bs1 [])" "lazy_stack bs1"
      "concat (rev bs1) = concat (rev bs) @ input_cvs P key flags (word_of_nat (total bs)) ?sub"
      "k = 0 \<or> 2 \<le> length bs1"
      by (rule push_subtree_lazy [OF lazy k(2) subtree_bound [OF c 1(3) k(3)] sub(1)])
    have "update_loop (hasher_of P key flags bs []) input = update_loop (hasher_of P key flags bs1 []) ?rest"
      using True k(1) bs1(1)
      by (subst update_loop.simps)
        (simp add: len_defs hasher_of_def chunk_state_len_of count_ones_pow2 [of 10, simplified])
    moreover have "stack_holds P key flags (full @ ?sub) bs1"
      by (rule stack_holds_append [OF 1(2) sub(2,3) bs1(2,3)])
    moreover have "?rest = [] \<Longrightarrow> bs1 = [] \<or> 2 \<le> length bs1" using bs1(4) True by auto
    moreover have "length ?rest < length input" "length (full @ ?sub) + length ?rest < 2 ^ 64"
      using sub(1,2) 1(3) True k(3) by auto
    ultimately show ?thesis using 1(1) [rule_format, of ?rest "full @ ?sub" bs1] by simp
  qed
qed

end

text \<open>
  What a hasher holds: the subtrees over the whole chunks that have been completed, and the
  bytes of the next chunk. Only while that chunk is empty may the two topmost subtrees have
  the same size.
\<close>

definition hasher_holds :: "platform \<Rightarrow> cv_words \<Rightarrow> u8 \<Rightarrow> byte list \<Rightarrow> hasher \<Rightarrow> bool" where
  "hasher_holds P key flags data h \<longleftrightarrow>
     (\<exists>full part bs. data = full @ part \<and> stack_holds P key flags full bs \<and> length part \<le> 1024 \<and>
        h = hasher_of P key flags bs part \<and>
        (if part = [] then bs = [] \<or> 2 \<le> length bs else ascending 0 bs))"

lemma hasher_holdsI:
  "stack_holds P key flags full bs \<Longrightarrow> length part \<le> 1024 \<Longrightarrow>
     (if part = [] then bs = [] \<or> 2 \<le> length bs else ascending 0 bs) \<Longrightarrow>
     hasher_holds P key flags (full @ part) (hasher_of P key flags bs part)"
  unfolding hasher_holds_def by blast

lemma new_internal_holds: "hasher_holds P key flags [] (new_internal P key flags)"
  unfolding hasher_holds_def
  by (intro exI [of _ "[]"])
    (simp add: stack_holds_def full_cvs_def chunks_short lazy_stack_def hasher_of_def new_internal_def
      chunk_state_new_eq)

lemma stack_holds_bound:
  "stack_holds P key flags full bs \<Longrightarrow> length full + n < 2 ^ 64 \<Longrightarrow> total bs < 2 ^ 54"
  using stack_holds_total by fastforce

context platform_laws
begin

lemma update_rest_holds:
  assumes "stack_holds P key flags full bs" and "length full + length input < 2 ^ 64"
    and "input = [] \<Longrightarrow> bs = [] \<or> 2 \<le> length bs"
  shows "\<exists>h. update_rest (hasher_of P key flags bs []) input = Ok h \<and> hasher_holds P key flags (full @ input) h"
proof -
  obtain full' bs' rest where l: "update_loop (hasher_of P key flags bs []) input =
      Ok (hasher_of P key flags bs' [], rest)" "full @ input = full' @ rest"
    "stack_holds P key flags full' bs'" "length rest \<le> 1024" "rest = [] \<Longrightarrow> bs' = [] \<or> 2 \<le> length bs'"
    using update_loop_lazy [OF assms] by blast
  show ?thesis
  proof (cases "rest = []")
    case True
    then show ?thesis
      using l by (auto simp: update_rest_def hasher_holds_def CHUNK_LEN_def)
  next
    case False
    let ?c = "chunk_state_of P key (word_of_nat (total bs')) flags"
    have "length full' + length rest < 2 ^ 64" using arg_cong [OF l(2), of length] assms(2) by simp
    then have tot: "total bs' \<le> 2 ^ 54" using stack_holds_bound [OF l(3)] by (simp add: less_imp_le)
    have lazy: "lazy_stack bs'" using l(3) by (simp add: stack_holds_def)
    obtain bs1 where bs1: "merge_cv_stack \<lparr>h_key = key, h_chunk_state = ?c rest,
        h_cv_stack = stack_of (parent_cv P key flags) bs'\<rparr> (word_of_nat (total bs')) =
      Ok \<lparr>h_key = key, h_chunk_state = ?c rest, h_cv_stack = stack_of (parent_cv P key flags) bs1\<rparr>"
      "ascending 0 bs1" "concat (rev bs1) = concat (rev bs')"
      by (rule merge_lazy [OF lazy tot, of "?c rest" flags P key]) simp_all
    then have "total bs1 = total bs'" by simp
    then have "update_rest (hasher_of P key flags bs []) input = Ok (hasher_of P key flags bs1 rest)"
      using l(1,4) False bs1(1) chunk_update_of [of "[]" rest key "word_of_nat (total bs')" flags]
      by (simp add: update_rest_def hasher_of_def CHUNK_LEN_def)
    moreover have "stack_holds P key flags full' bs1"
      using l(3) bs1(3) ascending_lazy [OF bs1(2)] by (simp add: stack_holds_def)
    ultimately show ?thesis
      using l(2,4) bs1(2) False by (auto simp: hasher_holds_def)
  qed
qed

lemma update_holds:
  assumes "hasher_holds P key flags data h" and "length (data @ input) < 2 ^ 64"
  shows "\<exists>h'. hasher_update h input = Ok h' \<and> hasher_holds P key flags (data @ input) h'"
proof -
  obtain full part bs where s: "data = full @ part" "stack_holds P key flags full bs" "length part \<le> 1024"
    "h = hasher_of P key flags bs part" "if part = [] then bs = [] \<or> 2 \<le> length bs else ascending 0 bs"
    using assms(1) by (auto simp: hasher_holds_def)
  let ?c = "word_of_nat (total bs) :: u64"
  show ?thesis
  proof (cases "part = []")
    case True
    then show ?thesis
      using update_rest_holds [OF s(2), of input] s assms(2)
      by (simp add: hasher_update_def update_with_join_def hasher_of_def chunk_state_len_of)
  next
    case False
    let ?k = "min (1024 - length part) (length input)"
    let ?part = "part @ take ?k input" and ?rest = "drop ?k input"
    have upd: "chunk_state_update (chunk_state_of P key ?c flags part) (take ?k input) =
        Ok (chunk_state_of P key ?c flags ?part)"
      using s(3) by (intro chunk_update_of) simp
    show ?thesis
    proof (cases "?rest = []")
      case True
      then have "take ?k input = input" by simp
      then have "hasher_update h input = Ok (hasher_of P key flags bs (part @ input))"
        using upd True False s(3,4)
        by (simp add: hasher_update_def update_with_join_def hasher_of_def chunk_state_len_of CHUNK_LEN_def
            Let_def)
      moreover have "length (part @ input) \<le> 1024" using True s(3) by simp
      ultimately show ?thesis using s False hasher_holdsI [OF s(2), of "part @ input"] by simp
    next
      case rest: False
      then have part: "length ?part = 1024" using s(3) by auto
      let ?f = "parent_cv P key flags" and ?b = "[chunk_cv P key flags ?c ?part]"
      have lazy: "lazy_stack bs" and tot: "total bs < 2 ^ 54"
        using s(1,2) assms(2) stack_holds_bound [OF s(2), of "length part"]
        by (simp_all add: stack_holds_def)
      obtain bs1 where bs1: "push_cv \<lparr>h_key = key, h_chunk_state = chunk_state_of P key ?c flags ?part,
          h_cv_stack = stack_of ?f bs\<rparr> (tree_cv ?f ?b) ?c =
        Ok \<lparr>h_key = key, h_chunk_state = chunk_state_of P key ?c flags ?part,
          h_cv_stack = stack_of ?f (?b # bs1)\<rparr>"
        "ascending 0 bs1" "concat (rev bs1) = concat (rev bs)"
        by (rule push_lazy [OF lazy tot, of "chunk_state_of P key ?c flags ?part" flags P ?b 0 key]) simp_all
      have "total bs1 = total bs" using bs1(3) by simp
      then have "hasher_update h input = update_rest (hasher_of P key flags (?b # bs1) []) ?rest"
        using upd rest part False s(3,4) bs1(1)
        by (simp add: hasher_update_def update_with_join_def hasher_of_def chunk_state_len_of CHUNK_LEN_def
            Let_def chunk_cv_def chunk_output_def chunk_state_new_eq add.commute)
      moreover have "lazy_stack (?b # bs1)" using bs1(2) by (auto simp: lazy_stack_def intro: exI [of _ 0])
      then have "stack_holds P key flags (full @ ?part) (?b # bs1)"
        using bs1(3) part False by (intro stack_holds_append [OF s(2)]) (simp_all add: input_cvs_single)
      moreover have "length (full @ ?part) + length ?rest < 2 ^ 64" using s(1) assms(2) by simp
      moreover have "data @ input = (full @ ?part) @ ?rest" using s(1) by simp
      ultimately show ?thesis using update_rest_holds [of key flags "full @ ?part" "?b # bs1" ?rest] rest by simp
    qed
  qed
qed

end

section \<open>Finalizing\<close>

lemma input_cvs_full_part:
  assumes "stack_holds P key flags full bs" and "part \<noteq> []" and "length part \<le> 1024"
  shows "input_cvs P key flags 0 (full @ part) =
    concat (rev bs) @ [chunk_cv P key flags (word_of_nat (total bs)) part]"
proof (cases "full = []")
  case True
  then have "total bs = 0" using stack_holds_total [OF assms(1)] by simp
  moreover from this have "concat (rev bs) = []" by (simp only: length_0_conv)
  ultimately show ?thesis using True assms(2,3) by (simp only: append_Nil input_cvs_single) simp
next
  case False
  have len: "length full = total bs * 1024" using stack_holds_total [OF assms(1)] by simp
  then have "0 < total bs" using False by (metis gr0I length_0_conv mult_0)
  moreover have "input_cvs P key flags 0 full = concat (rev bs)"
    using assms(1) False by (simp add: stack_holds_def full_cvs_input)
  ultimately show ?thesis
    using input_cvs_append [OF len _ assms(2), of P key flags 0] assms(3) by (simp add: input_cvs_single)
qed

lemma final_chunk:
  assumes "stack_holds P key flags full bs" and "ascending 0 bs" and "bs \<noteq> []"
    and "part \<noteq> []" and "length part \<le> 1024"
  shows "final_loop (hasher_of P key flags bs part) (length bs)
      (chunk_output P key flags (word_of_nat (total bs)) part) =
    root_node P key flags (input_cvs P key flags 0 (full @ part))"
proof -
  let ?h = "hasher_of P key flags bs part" and ?f = "parent_cv P key flags"
  let ?y = "chunk_cv P key flags (word_of_nat (total bs)) part"
  obtain b bs1 e where b: "bs = b # bs1" "length b = 2 ^ e" "ascending (Suc e) bs1"
    using assms(2,3) by (cases bs) auto
  have root: "root_node P key flags (b @ [?y]) = parent_node_output (tree_cv ?f b) ?y key flags P"
    using root_node_append [OF b(2), of "[?y]"] by simp
  have "final_loop ?h (length bs) (chunk_output P key flags (word_of_nat (total bs)) part) =
      final_loop ?h (length bs1) (root_node P key flags (b @ [?y]))"
    unfolding root by (simp add: hasher_of_def b(1) nth_append chunk_cv_def)
  also have "\<dots> = root_node P key flags (concat (rev bs1) @ b @ [?y])"
  proof (rule final_loop_root [where k = "Suc e" and rest = "[tree_cv ?f b]"])
    show "1 < length (b @ [?y])" "length (b @ [?y]) \<le> 2 ^ Suc e" using b(2) by simp_all
  qed (use b in \<open>simp_all add: hasher_of_def\<close>)
  finally show ?thesis using input_cvs_full_part [OF assms(1,4,5)] b(1) by simp
qed

lemma final_stack:
  assumes "stack_holds P key flags full bs" and "2 \<le> length bs"
  shows "final_loop (hasher_of P key flags bs []) (length bs - 2)
      (parent_node_output (h_cv_stack (hasher_of P key flags bs []) ! (length bs - 2))
        (h_cv_stack (hasher_of P key flags bs []) ! (length bs - 1)) key flags P) =
    root_node P key flags (input_cvs P key flags 0 full)" and "1024 < length full"
proof -
  let ?h = "hasher_of P key flags bs []" and ?f = "parent_cv P key flags"
  obtain t bs1 where t: "bs = t # bs1" using assms(2) by (cases bs) auto
  then obtain k where k: "length t = 2 ^ k" "ascending k bs1"
    using assms(1) by (auto simp: stack_holds_def lazy_stack_def)
  obtain b bs2 where b: "bs1 = b # bs2" using assms(2) t by (cases bs1) auto
  then obtain e where e: "k \<le> e" "length b = 2 ^ e" "ascending (Suc e) bs2" using k(2) by auto
  have le: "length t \<le> 2 ^ e" "0 < length t" "0 < length b"
    using k(1) e(1,2) by (simp_all only: zero_less_power zero_less_numeral power_increasing_iff one_less_numeral_iff semiring_norm)
  then have root: "root_node P key flags (b @ t) = parent_node_output (tree_cv ?f b) (tree_cv ?f t) key flags P"
    by (intro root_node_append [OF e(2)]) simp_all
  have "final_loop ?h (length bs2) (root_node P key flags (b @ t)) =
      root_node P key flags (concat (rev bs2) @ b @ t)"
  proof (rule final_loop_root [where k = "Suc e" and rest = "[tree_cv ?f b, tree_cv ?f t]"])
    show "length (b @ t) \<le> 2 ^ Suc e" using e(2) le by simp
    show "1 < length (b @ t)" using le unfolding length_append by linarith
  qed (use e b t in \<open>simp_all add: hasher_of_def\<close>)
  moreover have "1 < total bs" using le unfolding t b total_Cons by linarith
  then show "1024 < length full" using stack_holds_total [OF assms(1)] by linarith
  then have "full \<noteq> []" by auto
  then have "input_cvs P key flags 0 full = concat (rev bs)"
    using assms(1) full_cvs_input [of full] by (auto simp: stack_holds_def)
  ultimately show "final_loop ?h (length bs - 2) (parent_node_output (h_cv_stack ?h ! (length bs - 2))
      (h_cv_stack ?h ! (length bs - 1)) key flags P) = root_node P key flags (input_cvs P key flags 0 full)"
    using root by (simp add: hasher_of_def t b nth_append)
qed

lemma final_output_holds:
  assumes "hasher_holds P key flags data h" and "length data < 2 ^ 64"
  shows "final_output h = Ok (tree_output P key flags data)"
proof -
  obtain full part bs where s: "data = full @ part" "stack_holds P key flags full bs" "length part \<le> 1024"
    "h = hasher_of P key flags bs part" "if part = [] then bs = [] \<or> 2 \<le> length bs else ascending 0 bs"
    using assms(1) by (auto simp: hasher_holds_def)
  let ?cs = "chunk_state_of P key (word_of_nat (total bs)) flags part"
  have sel: "h_cv_stack h = stack_of (parent_cv P key flags) bs" "h_key h = key" "h_chunk_state h = ?cs"
    "chunk_state_len ?cs = length part"
    using s(3,4) by (simp_all add: hasher_of_def chunk_state_len_of)
  have out: "chunk_state_output ?cs = chunk_output P key flags (word_of_nat (total bs)) part"
    by (simp add: chunk_output_def)
  consider (empty) "bs = []" | (chunk) "bs \<noteq> []" "part \<noteq> []" | (stack) "bs \<noteq> []" "part = []" by blast
  then show ?thesis
  proof cases
    case empty
    then have "full = []" using stack_holds_total [OF s(2)] by simp
    then show ?thesis using s(1,3) sel out empty by (simp add: final_output_def tree_output_def)
  next
    case chunk
    then have asc: "ascending 0 bs" using s(5) by simp
    have "total bs < 2 ^ 54" using stack_holds_bound [OF s(2), of "length part"] s(1) assms(2) by simp
    then have "unat (word_of_nat (total bs) :: u64) = total bs" by (intro u64_of_nat) simp
    then have "count_ones (unat (word_of_nat (total bs) :: u64)) = length bs" using ascending_count [OF asc] by simp
    moreover obtain b bs1 e where b: "bs = b # bs1" "length b = 2 ^ e" using asc chunk(1) by (cases bs) auto
    have "0 < total bs" unfolding b(1) total_Cons b(2) by simp
    then have "\<not> length data \<le> 1024" using stack_holds_total [OF s(2)] s(1) chunk(2)
      by (auto simp flip: length_greater_0_conv)
    ultimately show ?thesis
      using final_chunk [OF s(2) asc chunk s(3)] sel out chunk s(1,4)
      by (simp add: final_output_def tree_output_def)
  next
    case stack
    then have "2 \<le> length bs" using s(5) by simp
    from final_stack [OF s(2) this] show ?thesis
      using sel stack s(1,4) \<open>2 \<le> length bs\<close> by (simp add: final_output_def tree_output_def)
  qed
qed

section \<open>Runs\<close>

text \<open>A sequence of calls of \<open>update\<close>.\<close>

fun hasher_updates :: "hasher \<Rightarrow> byte list list \<Rightarrow> panic + hasher" where
  "hasher_updates h [] = Ok h"
| "hasher_updates h (input # inputs) = and_then (hasher_update h input) (\<lambda>h. hasher_updates h inputs)"

lemma hasher_holds_count:
  assumes "hasher_holds P key flags data h"
  shows "hasher_count h = word_of_nat (length data)"
proof -
  obtain full part bs where s: "data = full @ part" "stack_holds P key flags full bs" "length part \<le> 1024"
    "h = hasher_of P key flags bs part" using assms by (auto simp: hasher_holds_def)
  have "hasher_count h = word_of_nat (total bs * 1024 + length part)"
    using s(3,4) by (simp add: hasher_count_def hasher_of_def chunk_state_len_of CHUNK_LEN_def)
  then show ?thesis unfolding stack_holds_total [OF s(2)] s(1) length_append .
qed

lemma hasher_holds_stack:
  assumes "hasher_holds P key flags data h" and "length data < 2 ^ 64"
  shows "length (h_cv_stack h) \<le> 55"
proof -
  obtain full part bs where s: "data = full @ part" "stack_holds P key flags full bs"
    "h = hasher_of P key flags bs part" using assms by (auto simp: hasher_holds_def)
  have "total bs \<le> 2 ^ 54" using stack_holds_bound [OF s(2), of "length part"] s(1) assms(2) by simp
  moreover have "lazy_stack bs" using s(2) by (simp add: stack_holds_def)
  ultimately have "length bs \<le> 55" by (intro lazy_length)
  then show ?thesis using s(3) by (simp add: hasher_of_def)
qed

lemma hasher_holds_reset: "hasher_holds P key flags data h \<Longrightarrow> hasher_reset h = new_internal P key flags"
  by (auto simp: hasher_holds_def hasher_reset_def hasher_of_def new_internal_def)

context platform_laws
begin

lemma updates_hold:
  assumes "hasher_holds P key flags data h" and "length (data @ concat inputs) < 2 ^ 64"
  shows "\<exists>h'. hasher_updates h inputs = Ok h' \<and> hasher_holds P key flags (data @ concat inputs) h'"
  using assms
proof (induction inputs arbitrary: h data)
  case (Cons input inputs)
  have "length (data @ input) < 2 ^ 64" using Cons.prems(2) by simp
  then obtain h1 where "hasher_update h input = Ok h1" "hasher_holds P key flags (data @ input) h1"
    using update_holds [OF Cons.prems(1)] by blast
  with Cons.IH [of "data @ input" h1] Cons.prems(2) show ?case by simp
qed simp

lemma new_updates_hold:
  assumes "length (concat inputs) < 2 ^ 64"
  shows "\<exists>h. hasher_updates (new_internal P key flags) inputs = Ok h \<and> hasher_holds P key flags (concat inputs) h"
  using updates_hold [OF new_internal_holds, of inputs key flags] assms by simp

lemma new_updates_finalize:
  assumes "length (concat inputs) < 2 ^ 64"
  shows "and_then (hasher_updates (new_internal P key flags) inputs) finalize =
    and_then (hash_all_at_once P (concat inputs) key flags) root_hash"
  using new_updates_hold [OF assms, of key flags] final_output_holds [of P key flags] assms
  by (auto simp: finalize_def hash_all_at_once_tree)

end

section \<open>Properties\<close>

text \<open>
  C27: the incremental hasher. However an input of less than \<open>2 ^ 64\<close> bytes is cut into calls
  of \<open>update\<close> (empty ones included), none of them panics, the stack stays within its capacity
  of 55, \<open>count\<close> is the number of bytes, \<open>reset\<close> gives the initial state back, and the final
  output is that of hashing the whole input all at once.
\<close>

theorem hasher_any_updates:
  assumes "platform_laws P" and "length (concat inputs) < 2 ^ 64"
  shows "\<exists>h. hasher_updates (new_internal P key flags) inputs = Ok h \<and>
    final_output h = hash_all_at_once P (concat inputs) key flags \<and>
    hasher_count h = word_of_nat (length (concat inputs)) \<and>
    length (h_cv_stack h) \<le> MAX_DEPTH + 1 \<and>
    hasher_reset h = new_internal P key flags"
proof -
  obtain h where h: "hasher_updates (new_internal P key flags) inputs = Ok h"
    "hasher_holds P key flags (concat inputs) h"
    using platform_laws.new_updates_hold [OF assms] by blast
  then show ?thesis
    using final_output_holds [OF h(2) assms(2)] hasher_holds_count [OF h(2)] hasher_holds_reset [OF h(2)]
      hasher_holds_stack [OF h(2) assms(2)] platform_laws.hash_all_at_once_tree [OF assms(1)]
    by (simp add: MAX_DEPTH_def)
qed

theorem hasher_any_updates_witness:
  "\<exists>h. hasher_updates (new_internal portable_by_4 IV 0) [replicate 1500 1, [], replicate 4000 2] = Ok h \<and>
    final_output h = hash_all_at_once portable_by_4 (concat [replicate 1500 1, [], replicate 4000 2]) IV 0 \<and>
    hasher_count h = word_of_nat (length (concat [replicate 1500 1, [], replicate 4000 (2 :: byte)])) \<and>
    length (h_cv_stack h) \<le> MAX_DEPTH + 1 \<and>
    hasher_reset h = new_internal portable_by_4 IV 0"
  by (rule hasher_any_updates [OF by_4.platform_laws_axioms]) simp

text \<open>
  The three modes. Incremental hashing, keyed hashing and key derivation give what the
  functions \<open>hash\<close>, \<open>keyed_hash\<close> and \<open>derive_key\<close> give for the concatenated input.
\<close>

theorem hasher_modes:
  assumes "platform_laws P" and "length (concat inputs) < 2 ^ 64"
  shows "and_then (hasher_updates (hasher_new P) inputs) finalize = hash P (concat inputs) \<and>
    and_then (hasher_updates (hasher_new_keyed P key) inputs) finalize = keyed_hash P key (concat inputs) \<and>
    and_then (hasher_new_derive_key P ctx) (\<lambda>h. and_then (hasher_updates h inputs) finalize) =
      derive_key P ctx (concat inputs)"
  using platform_laws.new_updates_finalize [OF assms]
  by (simp add: hasher_new_def hash_def hasher_new_keyed_def keyed_hash_def hasher_new_derive_key_def
      derive_key_def) (simp add: and_then_def split: sum.splits)

theorem hasher_modes_witness:
  "and_then (hasher_updates (hasher_new (portable 16)) [[1, 2], [3]]) finalize = hash (portable 16) (concat [[1, 2], [3]]) \<and>
   and_then (hasher_updates (hasher_new_keyed (portable 16) (replicate 32 9)) [[1, 2], [3]]) finalize =
     keyed_hash (portable 16) (replicate 32 9) (concat [[1, 2], [3]]) \<and>
   and_then (hasher_new_derive_key (portable 16) [65]) (\<lambda>h. and_then (hasher_updates h [[1, 2], [3]]) finalize) =
     derive_key (portable 16) [65] (concat [[1, 2], [3]])"
  by (rule hasher_modes [OF portable_16.platform_laws_axioms]) simp

end
