(* ===== verification/Blake3_Reader.thy ===== *)
theory Blake3_Reader
  imports Blake3_Hasher
begin

unbundle bit_operations_syntax

text \<open>
  Extended output of BLAKE3 (\<^verbatim>\<open>patches/blake3/src/lib.rs\<close>, \<open>OutputReader\<close>), reading into a
  hasher (\<^verbatim>\<open>src/io.rs\<close>) and the module \<^verbatim>\<open>src/guts.rs\<close>. A buffer to fill is given by its
  length, and the bytes written to it are returned. Additions to the counter and the position
  that overflow panic. A reader is shown to hand out a stream of bytes that depends on its
  position only, however the stream is read, up to the documented maximum of \<open>2 ^ 64 - 1\<close> bytes.
\<close>

section \<open>Operations\<close>

record output_reader =
  r_inner :: b3_output
  r_position_within_block :: u8

definition output_reader_new :: "b3_output \<Rightarrow> output_reader" where
  "output_reader_new inner = \<lparr>r_inner = inner, r_position_within_block = 0\<rparr>"

definition fill_one_block :: "output_reader \<Rightarrow> nat \<Rightarrow> panic + (output_reader \<times> byte list \<times> nat)" where
  "fill_one_block r buf_len =
     (let output_block = root_output_block (r_inner r);
          p = unat (r_position_within_block r) in
      require (p \<le> length output_block) Panics (
      let output_bytes = drop p output_block;
          k = min buf_len (length output_bytes) in
      and_then (ok_or (checked_add (r_position_within_block r) (word_of_nat k)) Panics) (\<lambda>q.
      let r = r\<lparr>r_position_within_block := q\<rparr> in
      and_then (if r_position_within_block r = word_of_nat BLOCK_LEN
          then and_then (ok_or (checked_add (o_counter (r_inner r)) 1) Panics) (\<lambda>c.
            Ok (r\<lparr>r_inner := (r_inner r)\<lparr>o_counter := c\<rparr>, r_position_within_block := 0\<rparr>))
          else Ok r) (\<lambda>r.
      Ok (r, take k output_bytes, buf_len - k)))))"

definition fill_blocks :: "output_reader \<Rightarrow> nat \<Rightarrow> panic + (output_reader \<times> byte list \<times> nat)" where
  "fill_blocks r buf_len =
     (let full_blocks = buf_len div BLOCK_LEN;
          full_blocks_len = full_blocks * BLOCK_LEN;
          inner = r_inner r in
      if 0 < full_blocks then
        require (r_position_within_block r = 0) Panics (
        and_then (xof_many (o_platform inner) (o_input_chaining_value inner) (o_block inner)
          (o_block_len inner) (o_counter inner) (o_flags inner OR ROOT) full_blocks_len) (\<lambda>out.
        and_then (ok_or (checked_add (o_counter inner) (word_of_nat full_blocks)) Panics) (\<lambda>c.
        Ok (r\<lparr>r_inner := inner\<lparr>o_counter := c\<rparr>\<rparr>, out, buf_len - full_blocks_len))))
      else Ok (r, [], buf_len))"

definition fill :: "output_reader \<Rightarrow> nat \<Rightarrow> panic + (output_reader \<times> byte list)" where
  "fill r buf_len =
     (if buf_len = 0 then Ok (r, [])
      else
        and_then (if r_position_within_block r \<noteq> 0 then fill_one_block r buf_len
                  else Ok (r, [], buf_len)) (\<lambda>(r, out1, buf_len).
        and_then (fill_blocks r buf_len) (\<lambda>(r, out2, buf_len).
        if buf_len \<noteq> 0 then
          require (buf_len < BLOCK_LEN) Panics (
          and_then (fill_one_block r buf_len) (\<lambda>(r, out3, buf_len).
          require (buf_len = 0) Panics (
          Ok (r, out1 @ out2 @ out3))))
        else Ok (r, out1 @ out2))))"

definition position :: "output_reader \<Rightarrow> panic + u64" where
  "position r =
     and_then (ok_or (checked_mul (o_counter (r_inner r)) (word_of_nat BLOCK_LEN)) Panics) (\<lambda>m.
     ok_or (checked_add m (ucast (r_position_within_block r))) Panics)"

definition set_position :: "output_reader \<Rightarrow> u64 \<Rightarrow> output_reader" where
  "set_position r p =
     r\<lparr>r_position_within_block := ucast (p mod word_of_nat BLOCK_LEN),
       r_inner := (r_inner r)\<lparr>o_counter := p div word_of_nat BLOCK_LEN\<rparr>\<rparr>"

text \<open>\<open>std::io::SeekFrom\<close>; the sum is taken in \<open>i128\<close>, where it does not overflow.\<close>

datatype seek_from = SeekStart u64 | SeekCurrent i64 | SeekEnd i64

datatype seek_error = Seek_from_end_not_supported | Seek_before_start

definition seek :: "output_reader \<Rightarrow> seek_from \<Rightarrow> panic + (seek_error + (output_reader \<times> u64))" where
  "seek r pos =
     (let max_position = uint (- 1 :: u64) in
      and_then
        (case pos of
           SeekStart x \<Rightarrow> Ok (Ok (uint x))
         | SeekCurrent x \<Rightarrow> and_then (position r) (\<lambda>p. Ok (Ok (uint p + sint x)))
         | SeekEnd x \<Rightarrow> Ok (Err Seek_from_end_not_supported)) (\<lambda>target.
      case target of
        Inl e \<Rightarrow> Ok (Err e)
      | Inr target_position \<Rightarrow>
          if target_position < 0 then Ok (Err Seek_before_start)
          else
            let r = set_position r (word_of_int (min target_position max_position)) in
            and_then (position r) (\<lambda>p. Ok (Ok (r, p)))))"

definition finalize_xof :: "hasher \<Rightarrow> panic + output_reader" where
  "finalize_xof h = and_then (final_output h) (\<lambda>out. Ok (output_reader_new out))"

section \<open>The output stream\<close>

text \<open>Byte \<open>i\<close> of the stream lies in block \<open>i div 64\<close>.\<close>

definition output_byte :: "b3_output \<Rightarrow> nat \<Rightarrow> byte" where
  "output_byte out i = root_output_block (out\<lparr>o_counter := word_of_nat (i div 64)\<rparr>) ! (i mod 64)"

definition output_bytes :: "b3_output \<Rightarrow> nat \<Rightarrow> nat \<Rightarrow> byte list" where
  "output_bytes out p n = map (output_byte out) [p..<p + n]"

definition reader_at :: "b3_output \<Rightarrow> nat \<Rightarrow> output_reader" where
  "reader_at out p =
     \<lparr>r_inner = out\<lparr>o_counter := word_of_nat (p div 64)\<rparr>,
      r_position_within_block = word_of_nat (p mod 64)\<rparr>"

lemma output_bytes_append: "output_bytes out p (m + n) = output_bytes out p m @ output_bytes out (p + m) n"
  using upt_add_eq_append [of p "p + m" n] by (simp add: output_bytes_def add.assoc)

lemma length_output_bytes [simp]: "length (output_bytes out p n) = n"
  by (simp add: output_bytes_def)

lemma output_bytes_0 [simp]: "output_bytes out p 0 = []"
  by (simp add: output_bytes_def)

lemma length_compress_xof [simp]: "length (compress_xof cv block block_len counter flags) = 64"
  by (simp add: compress_xof_def le_bytes_from_words_64_def length_concat comp_def sum_list_triv Let_def)

lemma block_pos:
  fixes q r :: nat
  shows "r < 64 \<Longrightarrow> (q * 64 + r) div 64 = q" and "r < 64 \<Longrightarrow> (q * 64 + r) mod 64 = r"
  by simp_all

lemma reader_at_block: "r < 64 \<Longrightarrow> reader_at out (q * 64 + r) =
    \<lparr>r_inner = out\<lparr>o_counter := word_of_nat q\<rparr>, r_position_within_block = word_of_nat r\<rparr>"
  by (simp only: reader_at_def block_pos)

lemma checked_add_nat:
  "m + n < 2 ^ 64 \<Longrightarrow> checked_add (word_of_nat m :: u64) (word_of_nat n) = Some (word_of_nat (m + n))"
  by (simp only: checked_add_eq_Some u64_of_nat add_lessD1 [of m n] add_lessD1 [of n m, simplified add.commute])

context platform_laws
begin

lemma length_root_output_block: "o_platform out = P \<Longrightarrow> length (root_output_block out) = 64"
  by (simp add: root_output_block_def xof)

lemma output_bytes_block:
  assumes "o_platform out = P" and "r + n \<le> 64"
  shows "output_bytes out (q * 64 + r) n =
    take n (drop r (root_output_block (out\<lparr>o_counter := word_of_nat q\<rparr>)))"
proof (rule nth_equalityI)
  have len: "length (root_output_block (out\<lparr>o_counter := word_of_nat q\<rparr>)) = 64"
    using assms(1) by (intro length_root_output_block) simp
  then show "length (output_bytes out (q * 64 + r) n) =
      length (take n (drop r (root_output_block (out\<lparr>o_counter := word_of_nat q\<rparr>))))"
    using assms(2) by simp
  show "output_bytes out (q * 64 + r) n ! i =
      take n (drop r (root_output_block (out\<lparr>o_counter := word_of_nat q\<rparr>))) ! i"
    if "i < length (output_bytes out (q * 64 + r) n)" for i
  proof -
    have "i < n" using that by simp
    then have "r + i < 64" using assms(2) by simp
    from block_pos [OF this, of q] show ?thesis
      using \<open>i < n\<close> len assms(2) by (simp add: output_bytes_def output_byte_def add.assoc)
  qed
qed

lemma fill_one_block_at:
  assumes "o_platform out = P" and "k = min n (64 - p mod 64)" and "p + k < 2 ^ 64"
  shows "fill_one_block (reader_at out p) n = Ok (reader_at out (p + k), output_bytes out p k, n - k)"
proof -
  define q r where "q = p div 64" and "r = p mod 64"
  then have p: "p = q * 64 + r" "r < 64" and k: "k = min n (64 - r)" using assms(2) by simp_all
  let ?out = "out\<lparr>o_counter := word_of_nat q\<rparr>"
  have len: "length (root_output_block ?out) = 64" using assms(1) by (intro length_root_output_block) simp
  have u: "unat (word_of_nat (r + k) :: u8) = r + k" "unat (word_of_nat r :: u8) = r"
    "unat (word_of_nat k :: u8) = k"
    using k p(2) by (simp_all add: unat_byte_of_nat del: of_nat_add)
  then have add: "checked_add (word_of_nat r :: u8) (word_of_nat k) = Some (word_of_nat (r + k))"
    by (simp only: checked_add_eq_Some)
  have sum: "(word_of_nat (r + k) :: u8) = 64 \<longleftrightarrow> r + k = 64"
    using u(1) by (simp add: word_unat_eq_iff)
  have "q + 1 < 2 ^ 64" using assms(3) p(1) by simp
  then have inc: "checked_add (word_of_nat q :: u64) 1 = Some (word_of_nat (Suc q))"
    using checked_add_nat [of q 1] by simp
  have bytes: "output_bytes out p k = take k (drop r (root_output_block ?out))"
    unfolding p(1) using k p(2) assms(1) by (intro output_bytes_block) simp_all
  have "fill_one_block (reader_at out p) n =
      Ok (if r + k = 64 then \<lparr>r_inner = out\<lparr>o_counter := word_of_nat (Suc q)\<rparr>, r_position_within_block = 0\<rparr>
          else \<lparr>r_inner = ?out, r_position_within_block = word_of_nat (r + k)\<rparr>, output_bytes out p k, n - k)"
    using p(2) len k sum bytes add inc u(2) unfolding p(1) reader_at_block [OF p(2)]
    by (simp add: fill_one_block_def Let_def BLOCK_LEN_def min.commute del: of_nat_add of_nat_Suc)
  moreover have "reader_at out (p + k) =
      (if r + k = 64 then \<lparr>r_inner = out\<lparr>o_counter := word_of_nat (Suc q)\<rparr>, r_position_within_block = 0\<rparr>
       else \<lparr>r_inner = ?out, r_position_within_block = word_of_nat (r + k)\<rparr>)"
  proof (cases "r + k = 64")
    case True
    then have "p + k = Suc q * 64 + 0" using p(1) by simp
    then show ?thesis using True reader_at_block [of 0 out "Suc q"] by simp
  next
    case False
    then have "p + k = q * 64 + (r + k)" "r + k < 64" using p k by simp_all
    then show ?thesis using False reader_at_block [of "r + k" out q] by (simp only: if_False)
  qed
  ultimately show ?thesis by simp
qed

lemma xof_many_stream:
  "xof_many_loop P (o_input_chaining_value out) (o_block out) (o_block_len out) (word_of_nat q)
     (o_flags out OR ROOT) m = Ok (output_bytes out (q * 64) (m * 64))"
  if "o_platform out = P" and "q + m < 2 ^ 64"
  using that(2)
proof (induction m arbitrary: q)
  case (Suc m)
  have "output_bytes out (q * 64) (Suc m * 64) =
      output_bytes out (q * 64) 64 @ output_bytes out (Suc q * 64) (m * 64)"
    using output_bytes_append [of out "q * 64" 64 "m * 64"] by (simp add: add.commute)
  moreover have "output_bytes out (q * 64) 64 = root_output_block (out\<lparr>o_counter := word_of_nat q\<rparr>)"
    using output_bytes_block [OF that(1), of 0 64 q] length_root_output_block that(1) by simp
  moreover have "\<dots> = p_compress_xof P (o_input_chaining_value out) (o_block out) (o_block_len out)
      (word_of_nat q) (o_flags out OR ROOT)"
    using that(1) by (simp add: root_output_block_def)
  moreover have "checked_add (word_of_nat q :: u64) 1 = Some (word_of_nat (Suc q))"
    using checked_add_nat [of q 1] Suc(2) by simp
  ultimately show ?case using Suc(1) [of "Suc q"] Suc(2) by (simp del: of_nat_Suc)
qed simp

lemma fill_blocks_at:
  assumes "o_platform out = P" and "q * 64 + n < 2 ^ 64"
  shows "fill_blocks (reader_at out (q * 64)) n =
    Ok (reader_at out (q * 64 + n div 64 * 64), output_bytes out (q * 64) (n div 64 * 64), n mod 64)"
proof -
  have at: "reader_at out (j * 64) = \<lparr>r_inner = out\<lparr>o_counter := word_of_nat j\<rparr>, r_position_within_block = 0\<rparr>"
    for j using reader_at_block [of 0 out j] by simp
  have "reader_at out (q * 64 + n div 64 * 64) =
      \<lparr>r_inner = out\<lparr>o_counter := word_of_nat (q + n div 64)\<rparr>, r_position_within_block = 0\<rparr>"
    using at [of "q + n div 64"] by (simp only: add_mult_distrib)
  moreover have bound: "q + n div 64 < 2 ^ 64" using assms(2) by linarith
  ultimately show ?thesis
    using assms(1) xof_many_stream [OF assms(1) bound] checked_add_nat [OF bound]
    by (simp del: of_nat_add add: fill_blocks_def xof_many_def at BLOCK_LEN_def Let_def minus_div_mult_eq_mod)
qed

lemma fill_rest_at:
  assumes "o_platform out = P" and "q * 64 + n < 2 ^ 64"
  shows "and_then (fill_blocks (reader_at out (q * 64)) n) (\<lambda>(r, out2, buf_len).
      if buf_len \<noteq> 0 then
        require (buf_len < BLOCK_LEN) Panics (
        and_then (fill_one_block r buf_len) (\<lambda>(r, out3, buf_len).
        require (buf_len = 0) Panics (
        Ok (r, out1 @ out2 @ out3))))
      else Ok (r, out1 @ out2)) =
    Ok (reader_at out (q * 64 + n), out1 @ output_bytes out (q * 64) n)"
proof -
  let ?p = "q * 64 + n div 64 * 64"
  have n: "n div 64 * 64 + n mod 64 = n" by simp
  have "?p = (q + n div 64) * 64" by (simp add: algebra_simps)
  then have "?p mod 64 = 0" by simp
  then have "fill_one_block (reader_at out ?p) (n mod 64) =
      Ok (reader_at out (?p + n mod 64), output_bytes out ?p (n mod 64), 0)"
    using fill_one_block_at [OF assms(1), of "n mod 64" "n mod 64" ?p] assms(2) n
    by (simp add: min_def add.assoc)
  moreover have "n mod 64 = 0 \<Longrightarrow> reader_at out ?p = reader_at out (q * 64 + n)"
    using n by (metis add_0_right)
  ultimately show ?thesis
    using output_bytes_append [of out "q * 64" "n div 64 * 64" "n mod 64"] n
    by (simp add: fill_blocks_at [OF assms] BLOCK_LEN_def add.assoc)
qed

lemma fill_blocks_0: "fill_blocks r 0 = Ok (r, [], 0)"
  by (simp add: fill_blocks_def BLOCK_LEN_def)

lemma fill_at:
  assumes "o_platform out = P" and "p + n < 2 ^ 64"
  shows "fill (reader_at out p) n = Ok (reader_at out (p + n), output_bytes out p n)"
proof -
  have pos: "r_position_within_block (reader_at out p) = 0 \<longleftrightarrow> p mod 64 = 0"
    using byte_of_nat_eq_0 [of "p mod 64"] by (simp add: reader_at_def)
  consider (none) "n = 0" | (aligned) "0 < n" "p mod 64 = 0" | (inside) "0 < n" "p mod 64 \<noteq> 0" "n \<le> 64 - p mod 64"
    | (across) "p mod 64 \<noteq> 0" "64 - p mod 64 < n" by linarith
  then show ?thesis
  proof cases
    case aligned
    then have "p div 64 * 64 = p" using div_mult_mod_eq [of p 64] by simp
    then show ?thesis using fill_rest_at [OF assms(1), of "p div 64" n "[]"] assms(2) aligned pos
      by (simp add: fill_def)
  next
    case inside
    then show ?thesis
      using fill_one_block_at [OF assms(1), of n n p] assms(2) pos
      by (simp add: fill_def fill_blocks_0 min_def)
  next
    case across
    let ?k = "64 - p mod 64"
    have q: "(p + ?k) div 64 * 64 = p + ?k"
    proof -
      have "p + ?k = p div 64 * 64 + 64" using div_mult_mod_eq [of p 64] mod_less_divisor [of 64 p] by linarith
      then show ?thesis by simp
    qed
    have "p + ?k < 2 ^ 64" "(p + ?k) div 64 * 64 + (n - ?k) < 2 ^ 64"
      using across assms(2) q by linarith+
    then show ?thesis
      using fill_rest_at [OF assms(1), of "(p + ?k) div 64" "n - ?k" "output_bytes out p ?k"] across pos q
        fill_one_block_at [OF assms(1), of ?k n p] output_bytes_append [of out p ?k "n - ?k"]
      by (simp add: fill_def min_def)
  qed (simp add: fill_def)
qed

end

section \<open>Positions\<close>

lemma position_at:
  assumes "p < 2 ^ 64"
  shows "position (reader_at out p) = Ok (word_of_nat p)"
proof -
  have u: "unat (word_of_nat (p mod 64) :: u8) = p mod 64"
    by (intro unat_byte_of_nat less_trans [of "p mod 64" 64 256]) simp_all
  have "(word_of_nat (unat (word_of_nat (p mod 64) :: u8)) :: u64) = ucast (word_of_nat (p mod 64) :: u8)"
    by (rule of_nat_unat)
  then have c: "(ucast (word_of_nat (p mod 64) :: u8) :: u64) = word_of_nat (p mod 64)" unfolding u ..
  have "unat (word_of_nat (p div 64) :: u64) = p div 64"
    "unat (word_of_nat (p div 64 * 64) :: u64) = p div 64 * 64"
    using assms by (intro u64_of_nat; linarith)+
  then have "checked_mul (word_of_nat (p div 64) :: u64) 64 = Some (word_of_nat (p div 64 * 64))"
    by (simp only: checked_mul_eq_Some) simp
  moreover have "checked_add (word_of_nat (p div 64 * 64) :: u64) (word_of_nat (p mod 64)) = Some (word_of_nat p)"
    using checked_add_nat [of "p div 64 * 64" "p mod 64"] assms by simp
  ultimately show ?thesis
    by (simp add: position_def reader_at_def BLOCK_LEN_def c del: of_nat_mult)
qed

lemma set_position_at: "set_position (reader_at out q) p = reader_at out (unat p)"
proof -
  have "p div 64 = word_of_nat (unat (p div 64))" by simp
  then have "p div 64 = word_of_nat (unat p div 64)" by (simp add: unat_div)
  moreover have "(ucast (p mod 64) :: u8) = word_of_nat (unat (p mod 64))" by simp
  then have "(ucast (p mod 64) :: u8) = word_of_nat (unat p mod 64)" by (simp add: unat_mod)
  ultimately show ?thesis by (simp add: set_position_def reader_at_def BLOCK_LEN_def)
qed

lemma seek_at:
  assumes "p < 2 ^ 64"
  shows "seek (reader_at out p) (SeekStart x) = Ok (Ok (reader_at out (unat x), x))"
    and "seek (reader_at out p) (SeekCurrent d) =
      Ok (if int p + sint d < 0 then Err Seek_before_start
       else Ok (reader_at out (nat (min (int p + sint d) (2 ^ 64 - 1))),
                word_of_int (min (int p + sint d) (2 ^ 64 - 1))))"
    and "seek (reader_at out p) (SeekEnd d) = Ok (Err Seek_from_end_not_supported)"
proof -
  let ?m = "2 ^ 64 - 1 :: int"
  have max: "uint (- 1 :: u64) = ?m" by (simp only: unsigned_minus_1_eq_mask mask_eq_exp_minus_1) simp
  have to: "set_position (reader_at out p) (word_of_int t) = reader_at out (nat t)"
    "position (reader_at out (nat t)) = Ok (word_of_int t)" if "0 \<le> t" "t \<le> ?m" for t
  proof -
    have "uint (word_of_int t :: u64) = t" using that by (simp add: uint_word_of_int)
    then have "unat (word_of_int t :: u64) = nat t" by (simp only: unat_eq_nat_uint)
    then show "set_position (reader_at out p) (word_of_int t) = reader_at out (nat t)"
      by (simp add: set_position_at)
    show "position (reader_at out (nat t)) = Ok (word_of_int t)"
      using that by (simp add: position_at)
  qed
  have "uint x < 2 ^ 64" using unsigned_less [of x] by simp
  then have "uint x \<le> ?m" by simp
  then show "seek (reader_at out p) (SeekStart x) = Ok (Ok (reader_at out (unat x), x))"
    using to [of "uint x"] unfolding seek_def max by (simp add: min_def)
  have at: "position (reader_at out p) = Ok (word_of_nat p)" "uint (word_of_nat p :: u64) = int p"
    using u64_of_nat [OF assms] assms by (simp_all add: position_at uint_nat)
  show "seek (reader_at out p) (SeekCurrent d) =
      Ok (if int p + sint d < 0 then Err Seek_before_start
       else Ok (reader_at out (nat (min (int p + sint d) ?m)), word_of_int (min (int p + sint d) ?m)))"
    using to [of "min (int p + sint d) ?m"] at unfolding seek_def max by (simp add: Let_def)
  show "seek (reader_at out p) (SeekEnd d) = Ok (Err Seek_from_end_not_supported)"
    by (simp add: seek_def)
qed

section \<open>Reading into a hasher\<close>

text \<open>
  What one call of \<open>Read::read\<close> returns: some bytes, none at the end of the input, the error
  \<open>Interrupted\<close>, or another error. A reader is the list of the results of its calls; when the
  list is exhausted the reader is at its end.
\<close>

datatype 'e read_result = Read_bytes "byte list" | Read_interrupted | Read_error 'e

fun copy_wide :: "'e read_result list \<Rightarrow> hasher \<Rightarrow> u64 \<Rightarrow> panic + (hasher \<times> ('e + u64))" where
  "copy_wide [] h n = Ok (h, Ok n)"
| "copy_wide (Read_bytes bytes # reader) h n =
     (if bytes = [] then Ok (h, Ok n)
      else
        require (length bytes \<le> 65536) Panics (
        and_then (hasher_update h bytes) (\<lambda>h.
        copy_wide reader h (n + word_of_nat (length bytes)))))"
| "copy_wide (Read_interrupted # reader) h n = copy_wide reader h n"
| "copy_wide (Read_error e # reader) h n = Ok (h, Err e)"

definition update_reader :: "hasher \<Rightarrow> 'e read_result list \<Rightarrow> panic + (hasher \<times> ('e + unit))" where
  "update_reader h reader =
     and_then (copy_wide reader h 0) (\<lambda>(h, r). Ok (h, and_then r (\<lambda>_. Ok ())))"

text \<open>The bytes that are read before the end or the first error, and that error.\<close>

fun read_content :: "'e read_result list \<Rightarrow> byte list \<times> 'e option" where
  "read_content [] = ([], None)"
| "read_content (Read_bytes bytes # reader) =
     (if bytes = [] then ([], None)
      else let (content, e) = read_content reader in (bytes @ content, e))"
| "read_content (Read_interrupted # reader) = read_content reader"
| "read_content (Read_error e # reader) = ([], Some e)"

context platform_laws
begin

lemma copy_wide_holds:
  assumes "hasher_holds P key flags data h" and "length data + length (fst (read_content reader)) < 2 ^ 64"
    and "\<forall>bytes. Read_bytes bytes \<in> set reader \<longrightarrow> length bytes \<le> 65536"
  shows "\<exists>h'. copy_wide reader h n =
      Ok (h', case snd (read_content reader) of Some e \<Rightarrow> Err e
              | None \<Rightarrow> Ok (n + word_of_nat (length (fst (read_content reader))))) \<and>
    hasher_holds P key flags (data @ fst (read_content reader)) h'"
  using assms
proof (induction reader h n arbitrary: data rule: copy_wide.induct)
  case (2 bytes reader h n)
  show ?case
  proof (cases "bytes = []")
    case True
    then show ?thesis using 2 by simp
  next
    case False
    have "length (data @ bytes) < 2 ^ 64" using 2(3) False by (simp add: case_prod_beta)
    then obtain h1 where h1: "hasher_update h bytes = Ok h1" "hasher_holds P key flags (data @ bytes) h1"
      using update_holds [OF 2(2)] by blast
    have "length bytes \<le> 65536" using 2(4) by simp
    then show ?thesis
      using 2(1) [OF False, of h1 "data @ bytes"] False h1 2(3,4)
      by (auto simp: case_prod_beta add.assoc split: option.splits)
  qed
next
  case (3 reader h n)
  then show ?case unfolding copy_wide.simps read_content.simps by (intro 3(1)) simp_all
qed auto

end

section \<open>Subtrees by hand\<close>

definition guts_chunk_new :: "platform \<Rightarrow> u64 \<Rightarrow> chunk_state" where
  "guts_chunk_new P chunk_counter = chunk_state_new IV chunk_counter 0 P"

definition guts_chunk_finalize :: "chunk_state \<Rightarrow> bool \<Rightarrow> panic + cv_bytes" where
  "guts_chunk_finalize c is_root =
     (let out = chunk_state_output c in if is_root then root_hash out else Ok (chaining_value out))"

definition guts_parent_cv :: "platform \<Rightarrow> cv_bytes \<Rightarrow> cv_bytes \<Rightarrow> bool \<Rightarrow> panic + cv_bytes" where
  "guts_parent_cv P left_child right_child is_root =
     (let out = parent_node_output left_child right_child IV 0 P
      in if is_root then root_hash out else Ok (chaining_value out))"

text \<open>The chaining value of the subtree over some whole or last chunks of the input.\<close>

definition subtree_cv :: "platform \<Rightarrow> u64 \<Rightarrow> byte list \<Rightarrow> cv_bytes" where
  "subtree_cv P counter input = tree_cv (parent_cv P IV 0) (input_cvs P IV 0 counter input)"

context platform_laws
begin

lemma guts_chunk:
  assumes "length d \<le> 1024"
  shows "and_then (chunk_state_update (guts_chunk_new P c) d) (\<lambda>s. guts_chunk_finalize s False) =
      Ok (subtree_cv P c d)"
    and "and_then (chunk_state_update (guts_chunk_new P 0) d) (\<lambda>s. guts_chunk_finalize s True) = hash P d"
  using assms chunk_update_of [of "[]" d IV _ 0]
  by (simp_all add: guts_chunk_new_def chunk_state_new_eq guts_chunk_finalize_def subtree_cv_def
      input_cvs_single chunk_cv_def chunk_output_def hash_def hash_all_at_once_tree tree_output_def)

lemma guts_parent:
  assumes "length l = 2 ^ k * 1024" and "r \<noteq> []" and "length r \<le> 2 ^ k * 1024"
  shows "guts_parent_cv P (subtree_cv P c l) (subtree_cv P (c + word_of_nat (2 ^ k)) r) False =
      Ok (subtree_cv P c (l @ r))"
    and "guts_parent_cv P (subtree_cv P 0 l) (subtree_cv P (word_of_nat (2 ^ k)) r) True = hash P (l @ r)"
proof -
  let ?f = "parent_cv P IV 0"
  have sub: "input_cvs P IV 0 c (l @ r) = input_cvs P IV 0 c l @ input_cvs P IV 0 (c + word_of_nat (2 ^ k)) r" for c
    by (rule input_cvs_append [OF assms(1) _ assms(2)]) simp
  have len: "length (input_cvs P IV 0 c l) = 2 ^ k" "length (input_cvs P IV 0 c' r) \<le> 2 ^ k" for c c'
    using b3_chunks_append(2) [OF assms(1) _ assms(2)] length_b3_chunks [OF assms(2)] assms(3) by simp_all
  show "guts_parent_cv P (subtree_cv P c l) (subtree_cv P (c + word_of_nat (2 ^ k)) r) False =
      Ok (subtree_cv P c (l @ r))"
    unfolding guts_parent_cv_def subtree_cv_def sub
    by (subst tree_cv_append [OF len(1) _ len(2)]) (simp_all add: parent_cv_def)
  have "1 \<le> (2::nat) ^ k" "0 < length r" using assms(2) by simp_all
  then have "\<not> length (l @ r) \<le> 1024" unfolding length_append assms(1) by linarith
  then show "guts_parent_cv P (subtree_cv P 0 l) (subtree_cv P (word_of_nat (2 ^ k)) r) True = hash P (l @ r)"
    unfolding hash_def hash_all_at_once_tree tree_output_def guts_parent_cv_def subtree_cv_def sub
    by (subst root_node_append [OF len(1) _ len(2)]) simp_all
qed

end

section \<open>Output of a hasher\<close>

text \<open>A sequence of calls of \<open>fill\<close> for buffers of the given lengths.\<close>

fun reader_fills :: "output_reader \<Rightarrow> nat list \<Rightarrow> panic + (output_reader \<times> byte list)" where
  "reader_fills r [] = Ok (r, [])"
| "reader_fills r (n # ns) =
     and_then (fill r n) (\<lambda>(r, out).
     and_then (reader_fills r ns) (\<lambda>(r, outs). Ok (r, out @ outs)))"

lemma tree_output_sel [simp]:
  "o_platform (tree_output P key flags input) = P" "o_counter (tree_output P key flags input) = 0"
  by (simp_all add: tree_output_def root_node_def case_prod_beta parent_node_output_def chunk_output_def
      chunk_state_output_def)

lemma output_reader_new_at: "o_counter out = 0 \<Longrightarrow> output_reader_new out = reader_at out 0"
  by (simp add: output_reader_new_def reader_at_def)

lemma compress_xof_prefix:
  "take 32 (compress_xof cv block block_len counter flags) =
     le_bytes_from_words_32 (compress_in_place cv block block_len counter flags)"
  by (simp add: compress_xof_def compress_in_place_def le_bytes_from_words_64_def le_bytes_from_words_32_def
      Let_def upt_rec)

context platform_laws
begin

lemma fills_at:
  "o_platform out = P \<Longrightarrow> p + sum_list ns < 2 ^ 64 \<Longrightarrow>
     reader_fills (reader_at out p) ns = Ok (reader_at out (p + sum_list ns), output_bytes out p (sum_list ns))"
  by (induction ns arbitrary: p) (simp_all add: fill_at output_bytes_append add.assoc)

lemma root_hash_prefix:
  assumes "o_platform out = P" and "o_counter out = 0"
  shows "root_hash out = Ok (output_bytes out 0 32)"
  using output_bytes_block [OF assms(1), of 0 32 0] assms
  by (simp add: root_hash_def root_output_block_def xof compress compress_xof_prefix)

end

section \<open>Properties\<close>

text \<open>
  C28: extended output. After any updates of less than \<open>2 ^ 64\<close> bytes, \<open>finalize_xof\<close> gives a
  reader of one stream that is determined by the input: from every position, fills of any
  lengths that end below \<open>2 ^ 64\<close>, the documented maximum of the output, return the next bytes
  of the stream without panic and move the position on by as many, and the hash itself is the
  first 32 bytes. (Beyond that maximum the counter or the position may overflow and panic.)
\<close>

theorem finalize_xof_stream:
  assumes "platform_laws P" and "length (concat inputs) < 2 ^ 64" and "unat p + sum_list ns < 2 ^ 64"
  shows "\<exists>r r'. and_then (hasher_updates (new_internal P key flags) inputs) finalize_xof = Ok r \<and>
    reader_fills (set_position r p) ns =
      Ok (r', output_bytes (tree_output P key flags (concat inputs)) (unat p) (sum_list ns)) \<and>
    position r' = Ok (p + word_of_nat (sum_list ns)) \<and>
    and_then (hasher_updates (new_internal P key flags) inputs) finalize =
      Ok (output_bytes (tree_output P key flags (concat inputs)) 0 32)"
proof -
  let ?out = "tree_output P key flags (concat inputs)"
  obtain h where h: "hasher_updates (new_internal P key flags) inputs = Ok h"
    "hasher_holds P key flags (concat inputs) h"
    using platform_laws.new_updates_hold [OF assms(1,2)] by blast
  have out: "final_output h = Ok ?out" by (rule final_output_holds [OF h(2) assms(2)])
  have "position (reader_at ?out (unat p + sum_list ns)) = Ok (p + word_of_nat (sum_list ns))"
    using position_at [OF assms(3)] by simp
  then show ?thesis
    using h(1) out platform_laws.root_hash_prefix [OF assms(1), of ?out]
      platform_laws.fills_at [OF assms(1) _ assms(3), of ?out]
    by (simp add: finalize_xof_def finalize_def output_reader_new_at set_position_at)
qed

theorem finalize_xof_stream_witness:
  "\<exists>r r'. and_then (hasher_updates (new_internal portable_by_4 IV 0) [replicate 3000 5]) finalize_xof = Ok r \<and>
    reader_fills (set_position r 1000) [3, 200, 64] =
      Ok (r', output_bytes (tree_output portable_by_4 IV 0 (concat [replicate 3000 5])) (unat (1000 :: u64))
        (sum_list [3, 200, 64])) \<and>
    position r' = Ok (1000 + word_of_nat (sum_list [3, 200, 64])) \<and>
    and_then (hasher_updates (new_internal portable_by_4 IV 0) [replicate 3000 5]) finalize =
      Ok (output_bytes (tree_output portable_by_4 IV 0 (concat [replicate 3000 5])) 0 32)"
  by (rule finalize_xof_stream [OF by_4.platform_laws_axioms]) simp_all

text \<open>
  Seeking. From a position below \<open>2 ^ 64\<close>, seeking to an absolute or relative position moves
  there, stopping at the last position; seeking before the start and relative to the end are
  errors.
\<close>

theorem seek_moves:
  assumes "p < 2 ^ 64"
  shows "seek (reader_at out p) pos =
    Ok (case pos of
       SeekStart x \<Rightarrow> Ok (reader_at out (unat x), x)
     | SeekCurrent d \<Rightarrow>
         if int p + sint d < 0 then Err Seek_before_start
         else Ok (reader_at out (nat (min (int p + sint d) (2 ^ 64 - 1))),
                  word_of_int (min (int p + sint d) (2 ^ 64 - 1)))
     | SeekEnd d \<Rightarrow> Err Seek_from_end_not_supported)"
  using seek_at [OF assms] by (cases pos) simp_all

text \<open>
  Reading into a hasher. Copying from a reader whose calls fill at most the buffer absorbs
  the bytes up to the end or the first error other than an interruption, and reports that error.
\<close>

theorem update_reader_absorbs:
  assumes "platform_laws P" and "length (concat inputs) + length (fst (read_content reader)) < 2 ^ 64"
    and "\<forall>bytes. Read_bytes bytes \<in> set reader \<longrightarrow> length bytes \<le> 65536"
  shows "\<exists>h. and_then (hasher_updates (new_internal P key flags) inputs) (\<lambda>h. update_reader h reader) =
      Ok (h, case snd (read_content reader) of None \<Rightarrow> Ok () | Some e \<Rightarrow> Err e) \<and>
    final_output h = hash_all_at_once P (concat inputs @ fst (read_content reader)) key flags"
proof -
  have "length (concat inputs) < 2 ^ 64" using assms(2) by simp
  then obtain h where h: "hasher_updates (new_internal P key flags) inputs = Ok h"
    "hasher_holds P key flags (concat inputs) h"
    using platform_laws.new_updates_hold [OF assms(1)] by blast
  obtain h' where "copy_wide reader h 0 =
      Ok (h', case snd (read_content reader) of Some e \<Rightarrow> Err e
              | None \<Rightarrow> Ok (0 + word_of_nat (length (fst (read_content reader)))))"
    "hasher_holds P key flags (concat inputs @ fst (read_content reader)) h'"
    using platform_laws.copy_wide_holds [OF assms(1) h(2) assms(2,3), of 0] by blast
  then show ?thesis
    using h(1) assms(2) final_output_holds [of P key flags _ h'] platform_laws.hash_all_at_once_tree [OF assms(1)]
    by (auto simp: update_reader_def split: option.splits)
qed

text \<open>
  Subtrees by hand. The functions of \<open>guts\<close> compute the chaining values of subtrees: of a
  chunk, of the join of a complete subtree with one that is not larger, and the hash where the
  join is the whole input.
\<close>

theorem guts_composes:
  assumes "platform_laws P" and "length l = 2 ^ k * 1024" and "r \<noteq> []" and "length r \<le> 2 ^ k * 1024"
    and "length d \<le> 1024"
  shows "and_then (chunk_state_update (guts_chunk_new P c) d) (\<lambda>s. guts_chunk_finalize s False) =
      Ok (subtree_cv P c d) \<and>
    and_then (chunk_state_update (guts_chunk_new P 0) d) (\<lambda>s. guts_chunk_finalize s True) = hash P d \<and>
    guts_parent_cv P (subtree_cv P c l) (subtree_cv P (c + word_of_nat (2 ^ k)) r) False =
      Ok (subtree_cv P c (l @ r)) \<and>
    guts_parent_cv P (subtree_cv P 0 l) (subtree_cv P (word_of_nat (2 ^ k)) r) True = hash P (l @ r)"
  using platform_laws.guts_chunk [OF assms(1,5)] platform_laws.guts_parent [OF assms(1-4)] by blast

theorem guts_composes_witness:
  "and_then (chunk_state_update (guts_chunk_new portable_by_4 3) [1, 2]) (\<lambda>s. guts_chunk_finalize s False) =
      Ok (subtree_cv portable_by_4 3 [1, 2]) \<and>
    and_then (chunk_state_update (guts_chunk_new portable_by_4 0) [1, 2]) (\<lambda>s. guts_chunk_finalize s True) =
      hash portable_by_4 [1, 2] \<and>
    guts_parent_cv portable_by_4 (subtree_cv portable_by_4 3 (replicate 2048 0))
      (subtree_cv portable_by_4 (3 + word_of_nat (2 ^ 1)) [7]) False =
      Ok (subtree_cv portable_by_4 3 (replicate 2048 0 @ [7])) \<and>
    guts_parent_cv portable_by_4 (subtree_cv portable_by_4 0 (replicate 2048 0))
      (subtree_cv portable_by_4 (word_of_nat (2 ^ 1)) [7]) True = hash portable_by_4 (replicate 2048 0 @ [7])"
  by (rule guts_composes [OF by_4.platform_laws_axioms]) simp_all

end
