(* ===== verification/Constant_Time.thy ===== *)
theory Constant_Time
  imports Vow_Prelude
begin

unbundle bit_operations_syntax

text \<open>
  Comparison in constant time (\<^verbatim>\<open>patches/constant_time_eq\<close>, \<^verbatim>\<open>src/classic.rs\<close> and
  \<^verbatim>\<open>src/generic.rs\<close>): both collect the differences of all bytes before they decide. The type
  \<open>Word\<close> of the generic version is a parameter, \<open>'w word\<close>, as it depends on the target;
  \<open>optimizer_hide\<close> and \<open>with_dit\<close> return what they are given. The result is shown to be equality,
  without panic, for every word type; what the hardware leaks is outside the model.
\<close>

section \<open>Classic\<close>

datatype ct_panic = Ct_panic

definition classic_constant_time_ne :: "byte list \<Rightarrow> byte list \<Rightarrow> ct_panic + u8" where
  "classic_constant_time_ne a b =
     require (length a = length b) Ct_panic (
     Ok (foldl (\<lambda>tmp i. tmp OR (a ! i XOR b ! i)) 0 [0..<length a]))"

definition classic_constant_time_eq :: "byte list \<Rightarrow> byte list \<Rightarrow> ct_panic + bool" where
  "classic_constant_time_eq a b =
     (if length a = length b then
        and_then (classic_constant_time_ne a b) (\<lambda>ne. Ok (ne = 0))
      else Ok False)"

section \<open>Generic\<close>

text \<open>The size in bytes of an integer type.\<close>

definition size_of :: "'t::len itself \<Rightarrow> nat" where
  "size_of T = LENGTH('t) div 8"

definition read_unaligned_from_slice :: "byte list \<Rightarrow> ct_panic + 't::len word" where
  "read_unaligned_from_slice src =
     require (length src = size_of TYPE('t)) Ct_panic (Ok (word_of_nat (le_value src)))"

definition cmp_step ::
  "byte list \<Rightarrow> byte list \<Rightarrow> ct_panic + ('t::len word \<times> byte list \<times> byte list)" where
  "cmp_step a b =
     (let n = size_of TYPE('t) in
      require (n \<le> length a \<and> n \<le> length b) Ct_panic (
      and_then (read_unaligned_from_slice (take n a)) (\<lambda>tmpa.
      and_then (read_unaligned_from_slice (take n b)) (\<lambda>tmpb.
      Ok (tmpa XOR tmpb, drop n a, drop n b)))))"

text \<open>
  One comparison of a piece of type \<open>'t\<close>, and the loop over such pieces (every integer type
  has at least one byte).
\<close>

definition cmp_piece :: "'t::len itself \<Rightarrow> 'w::len word \<Rightarrow> byte list \<Rightarrow> byte list
    \<Rightarrow> ct_panic + ('w word \<times> byte list \<times> byte list)" where
  "cmp_piece T tmp a b =
     and_then (cmp_step a b) (\<lambda>(cmp :: 't word, a, b). Ok (tmp OR ucast cmp, a, b))"

definition cmp_if :: "'t::len itself \<Rightarrow> 'w::len word \<Rightarrow> byte list \<Rightarrow> byte list
    \<Rightarrow> ct_panic + ('w word \<times> byte list \<times> byte list)" where
  "cmp_if T tmp a b = (if size_of T \<le> length a then cmp_piece T tmp a b else Ok (tmp, a, b))"

lemma cmp_piece_drop:
  assumes "cmp_piece (T :: 't::len itself) tmp a b = Inr (tmp', a', b')"
  shows "a' = drop (size_of T) a" and "b' = drop (size_of T) b"
  using assms by (auto simp: cmp_piece_def cmp_step_def size_of_def res_simps Let_def)

function cmp_while :: "'t::len itself \<Rightarrow> 'w::len word \<Rightarrow> byte list \<Rightarrow> byte list
    \<Rightarrow> ct_panic + ('w word \<times> byte list \<times> byte list)" where
  "cmp_while T tmp a b =
     (if size_of T \<le> length a \<and> 0 < size_of T then
        and_then (cmp_piece T tmp a b) (\<lambda>(tmp, a, b). cmp_while T tmp a b)
      else Ok (tmp, a, b))"
  by pat_completeness auto
termination
  by (relation "measure (\<lambda>(T, tmp, a, b). length a)") (auto dest: cmp_piece_drop)

declare cmp_while.simps [simp del]

definition constant_time_eq_impl :: "byte list \<Rightarrow> byte list \<Rightarrow> 'w::len word \<Rightarrow> ct_panic + bool" where
  "constant_time_eq_impl a b tmp =
     (if length a \<noteq> length b then Ok False
      else if a = [] then Ok (tmp = 0)
      else
        and_then (cmp_while TYPE('w) tmp a b) (\<lambda>(tmp, a, b).
        and_then (cmp_while TYPE(128) tmp a b) (\<lambda>(tmp, a, b).
        and_then (cmp_if TYPE(64) tmp a b) (\<lambda>(tmp, a, b).
        and_then (cmp_if TYPE(32) tmp a b) (\<lambda>(tmp, a, b).
        and_then (cmp_if TYPE(16) tmp a b) (\<lambda>(tmp, a, b).
        and_then (cmp_if TYPE(8) tmp a b) (\<lambda>(tmp, a, b).
        Ok (tmp = 0))))))))"

definition constant_time_eq :: "'w::len itself \<Rightarrow> byte list \<Rightarrow> byte list \<Rightarrow> ct_panic + bool" where
  "constant_time_eq W a b = constant_time_eq_impl a b (0 :: 'w word)"

definition constant_time_eq_n :: "'w::len itself \<Rightarrow> byte list \<Rightarrow> byte list \<Rightarrow> ct_panic + bool" where
  "constant_time_eq_n W a b = constant_time_eq_impl a b (0 :: 'w word)"

section \<open>Correctness\<close>

lemma or_eq_0: "x OR y = 0 \<longleftrightarrow> x = 0 \<and> y = 0" for x y :: "'a::len word"
  by (simp add: bit_eq_iff bit_simps) blast

lemma xor_eq_0: "x XOR y = 0 \<longleftrightarrow> x = y" for x y :: "'a::len word"
  by (auto simp: bit_eq_iff bit_simps)

lemma classic_fold:
  "length a = length b \<Longrightarrow>
     foldl (\<lambda>tmp i. tmp OR (a ! i XOR b ! i)) z [0..<n] = 0 \<longleftrightarrow>
     z = (0 :: u8) \<and> (\<forall>i<n. a ! i = b ! i)"
  by (induction n) (auto simp: or_eq_0 xor_eq_0 less_Suc_eq)

lemma word_le_value_inj:
  assumes "length xs = n" and "length ys = n" and "LENGTH('t::len) = 8 * n"
  shows "(word_of_nat (le_value xs) :: 't word) = word_of_nat (le_value ys) \<longleftrightarrow> xs = ys"
proof -
  have "unat (word_of_nat (le_value zs) :: 't word) = le_value zs" if "length zs = n" for zs
  proof -
    have "(256::nat) ^ n = 2 ^ LENGTH('t)" using assms(3) power_mult [of "2::nat" 8 n] by simp
    then show ?thesis using le_value_less [of zs] that by (simp add: unat_of_nat)
  qed
  then show ?thesis using assms le_bytes_le_value by (metis word_unat_eq_iff)
qed

lemma ucast_eq_0:
  fixes x :: "'t::len word"
  assumes "LENGTH('t) \<le> LENGTH('w::len)"
  shows "(ucast x :: 'w word) = 0 \<longleftrightarrow> x = 0"
proof -
  have "unat x < 2 ^ LENGTH('w)"
    using unsigned_less [of x] assms by (meson le_less_trans less_le_trans order_refl power_increasing one_le_numeral)
  then have "unat (ucast x :: 'w word) = unat x"
    by (simp add: unsigned_ucast_eq take_bit_nat_eq_self_iff)
  then show ?thesis by (simp add: unat_eq_zero [symmetric] del: unat_0_iff)
qed

lemma cmp_piece_eq:
  fixes tmp :: "'w::len word"
  assumes t: "LENGTH('t::len) = 8 * n" "LENGTH('t) \<le> LENGTH('w)" and len: "length a = length b" "n \<le> length a"
  obtains tmp' where "cmp_piece TYPE('t) tmp a b = Ok (tmp', drop n a, drop n b)"
    "tmp' = 0 \<longleftrightarrow> tmp = 0 \<and> take n a = take n b"
proof -
  have n: "size_of TYPE('t) = n" using t(1) by (simp add: size_of_def)
  let ?x = "word_of_nat (le_value (take n a)) XOR word_of_nat (le_value (take n b)) :: 't word"
  have "cmp_piece TYPE('t) tmp a b = Ok (tmp OR ucast ?x, drop n a, drop n b)"
    using n len by (simp add: cmp_piece_def cmp_step_def read_unaligned_from_slice_def)
  moreover have "tmp OR ucast ?x = 0 \<longleftrightarrow> tmp = 0 \<and> take n a = take n b"
    using word_le_value_inj [of "take n a" n "take n b", where ?'t = 't] t len
    by (simp add: or_eq_0 ucast_eq_0 xor_eq_0)
  ultimately show ?thesis using that by blast
qed

text \<open>What a step keeps: the difference collected so far together with the bytes to come.\<close>

definition keeps_difference ::
  "'w::len word \<times> byte list \<times> byte list \<Rightarrow> 'w word \<times> byte list \<times> byte list \<Rightarrow> bool" where
  "keeps_difference = (\<lambda>(tmp, a, b) (tmp', a', b').
     length a' = length b' \<and> length a' \<le> length a \<and> (tmp' = 0 \<and> a' = b' \<longleftrightarrow> tmp = 0 \<and> a = b))"

lemma take_drop_eq: "take n a = take n b \<and> drop n a = drop n b \<longleftrightarrow> a = b"
  by (metis append_take_drop_id)

lemma cmp_if_keeps:
  fixes tmp :: "'w::len word"
  assumes "LENGTH('t::len) = 8 * n" and "length a = length b" and "n \<le> length a \<Longrightarrow> LENGTH('t) \<le> LENGTH('w)"
    and "length a < 2 * n"
  shows "\<exists>r. cmp_if TYPE('t) tmp a b = Ok r \<and> keeps_difference (tmp, a, b) r \<and> length (fst (snd r)) < n"
proof (cases "n \<le> length a")
  case True
  obtain tmp' where "cmp_piece TYPE('t) tmp a b = Ok (tmp', drop n a, drop n b)"
    "tmp' = 0 \<longleftrightarrow> tmp = 0 \<and> take n a = take n b"
    using cmp_piece_eq [OF assms(1) assms(3) assms(2)] True by blast
  then show ?thesis
    using True assms(1,2,4) take_drop_eq [of n a b] by (auto simp: cmp_if_def size_of_def keeps_difference_def)
next
  case False
  then show ?thesis using assms(1,2) by (auto simp: cmp_if_def size_of_def keeps_difference_def)
qed

lemma keeps_difference_trans:
  "keeps_difference r s \<Longrightarrow> keeps_difference s t \<Longrightarrow> keeps_difference r t"
  by (auto simp: keeps_difference_def)

lemma cmp_while_keeps:
  fixes tmp :: "'w::len word"
  assumes "LENGTH('t::len) = 8 * n" and "length a = length b" and "n \<le> length a \<Longrightarrow> LENGTH('t) \<le> LENGTH('w)"
  shows "\<exists>r. cmp_while TYPE('t) tmp a b = Ok r \<and> keeps_difference (tmp, a, b) r \<and> length (fst (snd r)) < n"
  using assms(2,3)
proof (induction a arbitrary: tmp b rule: length_induct)
  case (1 a)
  have n: "size_of TYPE('t) = n" "0 < n" using assms(1) len_gt_0 [where ?'a = 't] by (simp_all add: size_of_def)
  show ?case
  proof (cases "n \<le> length a")
    case True
    obtain tmp' where p: "cmp_piece TYPE('t) tmp a b = Ok (tmp', drop n a, drop n b)"
      "tmp' = 0 \<longleftrightarrow> tmp = 0 \<and> take n a = take n b"
      using cmp_piece_eq [OF assms(1) 1(3) 1(2)] True by blast
    then have "keeps_difference (tmp, a, b) (tmp', drop n a, drop n b)"
      using 1(2) take_drop_eq [of n a b] by (auto simp: keeps_difference_def)
    moreover have lt: "length (drop n a) < length a" "length (drop n a) = length (drop n b)"
      using n(2) True 1(2) by simp_all
    obtain r where "cmp_while TYPE('t) tmp' (drop n a) (drop n b) = Ok r"
      "keeps_difference (tmp', drop n a, drop n b) r" "length (fst (snd r)) < n"
      using 1(1) [rule_format, OF lt 1(3) [OF True]] by blast
    ultimately show ?thesis
      using n True p by (subst cmp_while.simps) (auto intro: keeps_difference_trans)
  next
    case False
    then show ?thesis using n 1(2) by (subst cmp_while.simps) (simp add: keeps_difference_def)
  qed
qed

lemma impl_eq:
  fixes tmp :: "'w::len word"
  assumes "LENGTH('w) = 8 * n"
  shows "constant_time_eq_impl a b tmp = Ok (a = b \<and> tmp = 0)"
proof (cases "length a = length b")
  case len: True
  obtain t1 a1 b1 where 1: "cmp_while TYPE('w) tmp a b = Ok (t1, a1, b1)"
    "keeps_difference (tmp, a, b) (t1, a1, b1)" "length a1 < n"
    using cmp_while_keeps [OF assms len, of tmp] by auto
  have w: "length x \<le> length a1 \<Longrightarrow> k \<le> length x \<Longrightarrow> 8 * k \<le> LENGTH('w)" for k and x :: "byte list"
    using 1(3) assms by simp
  have l1: "length a1 = length b1" using 1(2) by (simp add: keeps_difference_def)
  obtain t2 a2 b2 where 2: "cmp_while TYPE(128) t1 a1 b1 = Ok (t2, a2, b2)"
    "keeps_difference (t1, a1, b1) (t2, a2, b2)" "length a2 < 16"
    using cmp_while_keeps [where ?'t = 128, of 16, OF _ l1, of t1] w [of a1 16] by auto
  have l2: "length a2 = length b2" "length a2 \<le> length a1" using 2(2) by (simp_all add: keeps_difference_def)
  obtain t3 a3 b3 where 3: "cmp_if TYPE(64) t2 a2 b2 = Ok (t3, a3, b3)"
    "keeps_difference (t2, a2, b2) (t3, a3, b3)" "length a3 < 8"
    using cmp_if_keeps [where ?'t = 64, of 8, OF _ l2(1), of t2] w [OF l2(2), of 8] 2(3) by auto
  have l3: "length a3 = length b3" "length a3 \<le> length a1"
    using 3(2) l2(2) by (simp_all add: keeps_difference_def)
  obtain t4 a4 b4 where 4: "cmp_if TYPE(32) t3 a3 b3 = Ok (t4, a4, b4)"
    "keeps_difference (t3, a3, b3) (t4, a4, b4)" "length a4 < 4"
    using cmp_if_keeps [where ?'t = 32, of 4, OF _ l3(1), of t3] w [OF l3(2), of 4] 3(3) by auto
  have l4: "length a4 = length b4" "length a4 \<le> length a1"
    using 4(2) l3(2) by (simp_all add: keeps_difference_def)
  obtain t5 a5 b5 where 5: "cmp_if TYPE(16) t4 a4 b4 = Ok (t5, a5, b5)"
    "keeps_difference (t4, a4, b4) (t5, a5, b5)" "length a5 < 2"
    using cmp_if_keeps [where ?'t = 16, of 2, OF _ l4(1), of t4] w [OF l4(2), of 2] 4(3) by auto
  have l5: "length a5 = length b5" "length a5 \<le> length a1"
    using 5(2) l4(2) by (simp_all add: keeps_difference_def)
  obtain t6 a6 b6 where 6: "cmp_if TYPE(8) t5 a5 b5 = Ok (t6, a6, b6)"
    "keeps_difference (t5, a5, b5) (t6, a6, b6)" "length a6 < 1"
    using cmp_if_keeps [where ?'t = 8, of 1, OF _ l5(1), of t5] w [OF l5(2), of 1] 5(3) by auto
  have "keeps_difference (tmp, a, b) (t6, a6, b6)"
    using 1(2) 2(2) 3(2) 4(2) 5(2) 6(2) by (meson keeps_difference_trans)
  then have "t6 = 0 \<longleftrightarrow> a = b \<and> tmp = 0" using 6(3) by (auto simp: keeps_difference_def)
  then show ?thesis
    using len 1(1) 2(1) 3(1) 4(1) 5(1) 6(1) by (auto simp: constant_time_eq_impl_def)
qed (auto simp: constant_time_eq_impl_def)

section \<open>Properties\<close>

text \<open>
  C29: comparison in constant time is equality. The classic and the generic version, the latter
  for every word type of whole bytes, return true for equal byte strings only, without panic,
  whatever their lengths; a difference that the caller has already found is kept.
\<close>

theorem constant_time_eq_is_equality:
  fixes tmp :: "'w::len word"
  assumes "8 dvd LENGTH('w)"
  shows "classic_constant_time_eq a b = Ok (a = b) \<and>
    constant_time_eq TYPE('w) a b = Ok (a = b) \<and>
    constant_time_eq_n TYPE('w) a b = Ok (a = b) \<and>
    constant_time_eq_impl a b tmp = Ok (a = b \<and> tmp = 0)"
proof -
  obtain n where n: "LENGTH('w) = 8 * n" using assms by blast
  have "classic_constant_time_eq a b = Ok (a = b)"
  proof (cases "length a = length b")
    case True
    then have "(\<forall>i<length a. a ! i = b ! i) \<longleftrightarrow> a = b" by (auto intro: nth_equalityI)
    with classic_fold [OF True, of 0 "length a"] True show ?thesis
      by (simp only: classic_constant_time_eq_def classic_constant_time_ne_def require_simps and_then_simps if_True)
        simp
  qed (auto simp: classic_constant_time_eq_def)
  then show ?thesis using impl_eq [OF n] by (simp add: constant_time_eq_def constant_time_eq_n_def)
qed

theorem constant_time_eq_is_equality_witness:
  "classic_constant_time_eq [1, 2, 3] [1, 2, 4] = Ok ([1, 2, 3 :: byte] = [1, 2, 4]) \<and>
    constant_time_eq TYPE(64) [1, 2, 3] [1, 2, 4] = Ok ([1, 2, 3 :: byte] = [1, 2, 4]) \<and>
    constant_time_eq_n TYPE(64) [1, 2, 3] [1, 2, 4] = Ok ([1, 2, 3 :: byte] = [1, 2, 4]) \<and>
    constant_time_eq_impl [1, 2, 3] [1, 2, 4] (5 :: 64 word) = Ok ([1, 2, 3 :: byte] = [1, 2, 4] \<and> (5 :: 64 word) = 0)"
  by (rule constant_time_eq_is_equality) simp

end
