(* ===== verification/Blake3_Hash.thy ===== *)
theory Blake3_Hash
  imports Blake3_Compress Constant_Time
begin

unbundle bit_operations_syntax

text \<open>
  Hash values of BLAKE3 (\<^verbatim>\<open>patches/blake3/src/lib.rs\<close>, \<open>Hash\<close> and \<open>HexError\<close>): conversion from
  slices and to and from hexadecimal, and equality. A hash is its list of 32 bytes, text is the list of its
  bytes.
\<close>

section \<open>Operations\<close>

datatype hex_error = InvalidByte u8 | InvalidLen nat

definition from_slice :: "byte list \<Rightarrow> unit + cv_bytes" where
  "from_slice bytes = require (length bytes = OUT_LEN) () (Ok bytes)"

text \<open>The bytes of \<open>b"0123456789abcdef"\<close>.\<close>

definition hex_table :: "byte list" where
  "hex_table = [48, 49, 50, 51, 52, 53, 54, 55, 56, 57, 97, 98, 99, 100, 101, 102]"

definition to_hex :: "cv_bytes \<Rightarrow> byte list" where
  "to_hex h =
     concat (map (\<lambda>b. [hex_table ! unat (drop_bit 4 b), hex_table ! unat (b AND 0xf)]) h)"

definition hex_val :: "byte \<Rightarrow> hex_error + u8" where
  "hex_val b =
     (if 65 \<le> b \<and> b \<le> 70 then Ok (b - 65 + 10)
      else if 97 \<le> b \<and> b \<le> 102 then Ok (b - 97 + 10)
      else if 48 \<le> b \<and> b \<le> 57 then Ok (b - 48)
      else Err (InvalidByte b))"

fun from_hex_loop :: "byte list \<Rightarrow> hex_error + byte list" where
  "from_hex_loop (x # y # hex_bytes) =
     and_then (hex_val x) (\<lambda>hi.
     and_then (hex_val y) (\<lambda>lo.
     and_then (from_hex_loop hex_bytes) (\<lambda>rest. Ok ((16 * hi + lo) # rest))))"
| "from_hex_loop _ = Ok []"

definition from_hex :: "byte list \<Rightarrow> hex_error + cv_bytes" where
  "from_hex hex_bytes =
     (if length hex_bytes \<noteq> OUT_LEN * 2 then Err (InvalidLen (length hex_bytes))
      else from_hex_loop hex_bytes)"

text \<open>Equality of hashes, and of a hash with a slice, for the word type of the target.\<close>

definition hash_eq :: "'w::len itself \<Rightarrow> cv_bytes \<Rightarrow> cv_bytes \<Rightarrow> ct_panic + bool" where
  "hash_eq W h other = constant_time_eq_n W h other"

definition hash_eq_slice :: "'w::len itself \<Rightarrow> cv_bytes \<Rightarrow> byte list \<Rightarrow> ct_panic + bool" where
  "hash_eq_slice W h other = constant_time_eq W h other"

lemma hash_eq_is_equality:
  assumes "LENGTH('w::len) = 8 * n"
  shows "hash_eq TYPE('w) h other = Ok (h = other)" and "hash_eq_slice TYPE('w) h other = Ok (h = other)"
  using impl_eq [OF assms, of h other 0]
  by (simp_all add: hash_eq_def hash_eq_slice_def constant_time_eq_def constant_time_eq_n_def)

section \<open>Digits\<close>

definition is_hex :: "byte \<Rightarrow> bool" where
  "is_hex b \<longleftrightarrow> 48 \<le> b \<and> b \<le> 57 \<or> 65 \<le> b \<and> b \<le> 70 \<or> 97 \<le> b \<and> b \<le> 102"

text \<open>The lowercase form of a digit.\<close>

definition lower_hex :: "byte \<Rightarrow> byte" where
  "lower_hex b = (if 65 \<le> b \<and> b \<le> 70 then b + 32 else b)"

lemma hex_table_nth: "n < 16 \<Longrightarrow> hex_table ! n = word_of_nat (if n < 10 then 48 + n else 87 + n)"
  by (simp add: hex_table_def less_Suc_eq numeral_eq_Suc) auto

lemma hex_val_nat:
  assumes "m < 256"
  shows "hex_val (word_of_nat m) =
    (if 65 \<le> m \<and> m \<le> 70 then Ok (word_of_nat (m - 55))
     else if 97 \<le> m \<and> m \<le> 102 then Ok (word_of_nat (m - 87))
     else if 48 \<le> m \<and> m \<le> 57 then Ok (word_of_nat (m - 48))
     else Err (InvalidByte (word_of_nat m)))"
proof -
  have "unat (word_of_nat m :: byte) = m" using assms by (simp add: unat_of_nat)
  then show ?thesis
    by (auto simp: hex_val_def word_le_nat_alt of_nat_diff)
qed

lemma hex_val_digit: "n < 16 \<Longrightarrow> hex_val (hex_table ! n) = Ok (word_of_nat n)"
  using hex_val_nat [of "48 + n"] hex_val_nat [of "87 + n"] by (simp add: hex_table_nth)

lemma is_hex_nat:
  assumes "m < 256"
  shows "is_hex (word_of_nat m) \<longleftrightarrow> 48 \<le> m \<and> m \<le> 57 \<or> 65 \<le> m \<and> m \<le> 70 \<or> 97 \<le> m \<and> m \<le> 102"
proof -
  have "unat (word_of_nat m :: byte) = m" using assms by (simp add: unat_of_nat)
  then show ?thesis by (simp add: is_hex_def word_le_nat_alt)
qed

lemma lower_hex_nat:
  assumes "m < 256"
  shows "lower_hex (word_of_nat m) = (if 65 \<le> m \<and> m \<le> 70 then word_of_nat (m + 32) else word_of_nat m)"
proof -
  have "unat (word_of_nat m :: byte) = m" using assms by (simp add: unat_of_nat)
  then show ?thesis by (simp add: lower_hex_def word_le_nat_alt)
qed

lemma hex_val_Ok:
  assumes "is_hex b"
  obtains n where "n < 16" "hex_val b = Ok (word_of_nat n)" "hex_table ! n = lower_hex b"
proof -
  obtain m where m: "m < 256" "b = word_of_nat m"
  proof
    show "unat b < 256" using unsigned_less [of b] by simp
    show "b = word_of_nat (unat b)" by simp
  qed
  from assms consider "48 \<le> m" "m \<le> 57" | "65 \<le> m" "m \<le> 70" | "97 \<le> m" "m \<le> 102"
    using is_hex_nat [OF m(1)] m(2) by auto
  then show ?thesis
  proof cases
    case 1
    then have "48 + (m - 48) = m" "m - 48 < 10" by simp_all
    then show ?thesis
      using that [of "m - 48"] hex_val_nat [OF m(1)] lower_hex_nat [OF m(1)] m(2) 1
      by (simp add: hex_table_nth del: of_nat_add)
  next
    case 2
    then have "87 + (m - 55) = m + 32" "\<not> m - 55 < 10" by simp_all
    then show ?thesis
      using that [of "m - 55"] hex_val_nat [OF m(1)] lower_hex_nat [OF m(1)] m(2) 2
      by (simp add: hex_table_nth add.commute del: of_nat_add)
  next
    case 3
    then have "87 + (m - 87) = m" "\<not> m - 87 < 10" by simp_all
    then show ?thesis
      using that [of "m - 87"] hex_val_nat [OF m(1)] lower_hex_nat [OF m(1)] m(2) 3
      by (simp add: hex_table_nth del: of_nat_add)
  qed
qed

lemma hex_val_Err: "\<not> is_hex b \<Longrightarrow> hex_val b = Err (InvalidByte b)"
  by (auto simp: is_hex_def hex_val_def)

lemma unat_nibbles:
  fixes b :: byte
  shows "unat (drop_bit 4 b) = unat b div 16" and "unat (b AND 0xf) = unat b mod 16"
proof -
  show "unat (drop_bit 4 b) = unat b div 16" by (simp add: drop_bit_eq_div unat_div)
  have "b AND 0xf = take_bit 4 b" by (simp add: take_bit_eq_mask mask_eq_exp_minus_1)
  then show "unat (b AND 0xf) = unat b mod 16" by (simp add: take_bit_eq_mod unat_mod)
qed

lemma nibbles:
  fixes b :: byte
  shows "unat (drop_bit 4 b) < 16" and "unat (b AND 0xf) < 16"
    and "16 * word_of_nat (unat (drop_bit 4 b)) + word_of_nat (unat (b AND 0xf)) = b"
proof -
  have "unat b < 256" using unsigned_less [of b] by simp
  then show "unat (drop_bit 4 b) < 16" by (simp add: unat_nibbles)
  show "unat (b AND 0xf) < 16" by (simp add: unat_nibbles)
  have "16 * word_of_nat (unat b div 16) + word_of_nat (unat b mod 16) =
      (word_of_nat (16 * (unat b div 16) + unat b mod 16) :: byte)"
    by (simp only: of_nat_add of_nat_mult of_nat_numeral)
  then show "16 * word_of_nat (unat (drop_bit 4 b)) + word_of_nat (unat (b AND 0xf)) = b"
    unfolding unat_nibbles by simp
qed

lemma nibbles_of:
  assumes "m < 16" and "n < 16"
  shows "unat (drop_bit 4 (16 * word_of_nat m + word_of_nat n :: byte)) = m"
    and "unat ((16 * word_of_nat m + word_of_nat n :: byte) AND 0xf) = n"
proof -
  have "unat (word_of_nat (16 * m + n) :: byte) = 16 * m + n"
    using assms by (simp add: unat_of_nat del: of_nat_add of_nat_mult)
  then have "unat (16 * word_of_nat m + word_of_nat n :: byte) = 16 * m + n" by simp
  then show "unat (drop_bit 4 (16 * word_of_nat m + word_of_nat n :: byte)) = m"
    "unat ((16 * word_of_nat m + word_of_nat n :: byte) AND 0xf) = n"
    unfolding unat_nibbles using assms by simp_all
qed

section \<open>Hexadecimal\<close>

lemma length_to_hex: "length (to_hex h) = 2 * length h"
  by (induction h) (simp_all add: to_hex_def)

lemma from_hex_loop_to_hex: "from_hex_loop (to_hex h) = Ok h"
proof (induction h)
  case (Cons b h)
  have "to_hex (b # h) = hex_table ! unat (drop_bit 4 b) # hex_table ! unat (b AND 0xf) # to_hex h"
    by (simp add: to_hex_def)
  with Cons nibbles [of b] show ?case by (simp only: from_hex_loop.simps hex_val_digit and_then_simps)
qed (simp add: to_hex_def)

lemma to_hex_from_hex_loop:
  "even (length hex) \<Longrightarrow> \<forall>b\<in>set hex. is_hex b \<Longrightarrow>
     \<exists>h. from_hex_loop hex = Ok h \<and> to_hex h = map lower_hex hex \<and> length h * 2 = length hex"
proof (induction hex rule: from_hex_loop.induct)
  case (1 x y hex)
  obtain m where m: "m < 16" "hex_val x = Ok (word_of_nat m)" "hex_table ! m = lower_hex x"
    using hex_val_Ok [of x] 1 by auto
  obtain n where n: "n < 16" "hex_val y = Ok (word_of_nat n)" "hex_table ! n = lower_hex y"
    using hex_val_Ok [of y] 1 by auto
  obtain h where h: "from_hex_loop hex = Ok h" "to_hex h = map lower_hex hex" "length h * 2 = length hex"
    using 1(1) [OF m(2) n(2)] 1(2,3) by auto
  show ?case
    using h m n nibbles_of [OF m(1) n(1)] by (intro exI [of _ "(16 * word_of_nat m + word_of_nat n) # h"])
      (simp add: to_hex_def)
qed (auto simp: to_hex_def)

lemma from_hex_loop_error:
  "even (length hex) \<Longrightarrow> hex = pre @ b # post \<Longrightarrow> \<forall>x\<in>set pre. is_hex x \<Longrightarrow> \<not> is_hex b \<Longrightarrow>
     from_hex_loop hex = Err (InvalidByte b)"
proof (induction hex arbitrary: pre rule: from_hex_loop.induct)
  case (1 x y hex)
  note hyps = 1
  consider (none) "pre = []" | (one) "pre = [x]" | (two) pre' where "pre = x # y # pre'"
    using 1(3) by (cases pre rule: from_hex_loop.cases) auto
  then show ?case
  proof cases
    case none
    then show ?thesis using hyps(3,5) by (auto simp: hex_val_Err)
  next
    case one
    obtain m where "hex_val x = Ok (word_of_nat m)" using hex_val_Ok [of x] hyps(4) one by auto
    then show ?thesis using one hyps(3,5) by (simp add: hex_val_Err)
  next
    case (two pre')
    have "is_hex x" "is_hex y" using hyps(4) two by simp_all
    then obtain m n where v: "hex_val x = Ok (word_of_nat m)" "hex_val y = Ok (word_of_nat n)"
      by (metis hex_val_Ok)
    have "from_hex_loop hex = Err (InvalidByte b)"
      by (rule hyps(1) [OF v, of pre']) (use hyps(2-5) two in auto)
    then show ?thesis using v by simp
  qed
qed (auto simp: Cons_eq_append_conv)

lemma find_split:
  assumes "find Q xs = Some b"
  obtains pre post where "xs = pre @ b # post" "\<forall>x\<in>set pre. \<not> Q x" "Q b"
proof -
  obtain i where i: "i < length xs" "Q (xs ! i)" "b = xs ! i" "\<forall>j<i. \<not> Q (xs ! j)"
    using assms by (auto simp: find_Some_iff)
  then have "\<forall>x\<in>set (take i xs). \<not> Q x" by (auto simp: in_set_conv_nth)
  then show ?thesis using that [of "take i xs" "drop (Suc i) xs"] i id_take_nth_drop [OF i(1)] by simp
qed

section \<open>Properties\<close>

text \<open>
  Hexadecimal round trip of hashes. Decoding the encoding of a hash gives the hash back.
  Decoding any text succeeds exactly for 64 digits of either case, and encoding the result
  gives the text in lowercase; other texts are rejected, for their length or else with their
  first byte that is not a digit.
\<close>

theorem hash_hex_round_trip:
  "(length h = OUT_LEN \<longrightarrow> from_hex (to_hex h) = Ok h) \<and>
   (case from_hex hex of
      Inr h \<Rightarrow> length hex = OUT_LEN * 2 \<and> list_all is_hex hex \<and> length h = OUT_LEN \<and>
        to_hex h = map lower_hex hex
    | Inl (InvalidLen n) \<Rightarrow> n = length hex \<and> n \<noteq> OUT_LEN * 2
    | Inl (InvalidByte b) \<Rightarrow> length hex = OUT_LEN * 2 \<and> find (\<lambda>b. \<not> is_hex b) hex = Some b)"
proof (rule conjI)
  show "length h = OUT_LEN \<longrightarrow> from_hex (to_hex h) = Ok h"
    by (simp add: from_hex_def length_to_hex from_hex_loop_to_hex OUT_LEN_def)
  show "case from_hex hex of
      Inr h \<Rightarrow> length hex = OUT_LEN * 2 \<and> list_all is_hex hex \<and> length h = OUT_LEN \<and>
        to_hex h = map lower_hex hex
    | Inl (InvalidLen n) \<Rightarrow> n = length hex \<and> n \<noteq> OUT_LEN * 2
    | Inl (InvalidByte b) \<Rightarrow> length hex = OUT_LEN * 2 \<and> find (\<lambda>b. \<not> is_hex b) hex = Some b"
  proof (cases "length hex = OUT_LEN * 2")
    case True
    then have len: "even (length hex)" by simp
    show ?thesis
    proof (cases "find (\<lambda>b. \<not> is_hex b) hex")
      case None
      then have "\<forall>b\<in>set hex. is_hex b" by (auto simp: find_None_iff)
      with to_hex_from_hex_loop [OF len] True show ?thesis
        by (auto simp: from_hex_def OUT_LEN_def list_all_iff)
    next
      case (Some b)
      then obtain pre post where "hex = pre @ b # post" "\<forall>x\<in>set pre. is_hex x" "\<not> is_hex b"
        by (rule find_split) simp
      from from_hex_loop_error [OF len this] show ?thesis using True Some by (simp add: from_hex_def)
    qed
  qed (simp add: from_hex_def)
qed

theorem hash_hex_round_trip_witness:
  "from_hex (to_hex (replicate 32 0xA7)) = Ok (replicate 32 0xA7)"
  using hash_hex_round_trip [of "replicate 32 0xA7"] by (simp add: OUT_LEN_def)

end
