(* ===== verification/Spec2Isabelle.thy ===== *)
theory Spec2Isabelle
  imports Swiss_Claims Vow_History Toml_Datetime Read_Buffer Blake3_Reader Blake3_Hash
begin

text \<open>
  A verification of the Vow protocol program, an on-chain program of stake-backed identities
  (\<^verbatim>\<open>programs/vow\<close>), and of five crates vendored for its build: the hash function BLAKE3
  (\<^verbatim>\<open>patches/blake3\<close>), hash tables (\<^verbatim>\<open>patches/hashbrown\<close>), block buffers
  (\<^verbatim>\<open>patches/block-buffer\<close>), comparison in constant time (\<^verbatim>\<open>patches/constant_time_eq\<close>) and
  TOML date-times (\<^verbatim>\<open>patches/toml_datetime\<close>).

  \<^bold>\<open>The program.\<close> A wallet stakes lamports and mints a soulbound identity (\<open>VowState\<close>) of
  a class that its stake decides. The stake goes to a reserve and is counted in shares of a
  stake pool, whose price a crank reads off the pool account (\<open>ProtocolConfig\<close>). Harvesting
  turns the growth of a position into a yield balance, by the identity's yield mode. The
  owner withdraws yield, or grants session keys (\<open>SessionAccount\<close>) that spend it within
  limits, for listed programs, perhaps with defaults from a profile
  (\<open>AuthorityProfile\<close>). Unstaking parks the position in an escrow (\<open>UnstakeEscrow\<close>) for at
  least an epoch, pays out of the reserve, pro rata when it is short, and leaves the identity
  dormant. A wallet's commitments and fulfilments are recorded once per identity
  (\<open>CommitmentRecord\<close>, \<open>CrGate\<close>). An admin configures the protocol and blocks apps
  (\<open>AppRegistry\<close>).

  \<^bold>\<open>Theories, in the order of import.\<close>

  \<^item> \<^verbatim>\<open>Vow_Prelude\<close>: Rust's integers as words (checked, saturating, casting, signed
    operations), results, little-endian codecs (locale \<open>fixed_codec\<close>, interpreted for each
    width).
  \<^item> \<^verbatim>\<open>Vow_State\<close>: \<^verbatim>\<open>state/*.rs\<close>, \<^verbatim>\<open>errors.rs\<close>, \<^verbatim>\<open>events.rs\<close>,
    \<^verbatim>\<open>constants.rs\<close>: a record per account struct with its bytes and its \<open>LEN\<close>, the class
    tiers and the lock table.
  \<^item> \<^verbatim>\<open>Vow_Runtime\<close>: the chain as the program sees it. A \<open>ledger\<close> maps addresses to
    lamports and to typed accounts; \<open>env\<close> holds what is outside the program (address
    derivation, rent, discriminators, keccak, the stake pool program); \<open>tx\<close> the clock, signers
    and writable accounts. System transfers, \<open>init\<close>, \<open>close\<close> and the account constraints of
    Anchor are functions on them.
  \<^item> \<^verbatim>\<open>Vow_Spec\<close>: the abstract protocol. \<open>acct_step\<close> is the step relation on accounts that
    every instruction refines; the locales \<open>step_invariant\<close> and \<open>step_history\<close> lift what one
    step keeps to runs without the closing of the configuration and are interpreted for the balances, placements, sessions, tiers,
    escrows and identities.
  \<^item> \<^verbatim>\<open>Vow_Demo\<close>: a small concrete chain for the witnesses.
  \<^item> \<^verbatim>\<open>Vow_Shares\<close>, \<^verbatim>\<open>Vow_Harvest\<close>: the exchange of lamports and shares (locale
    \<open>share_exchange\<close>) and \<^verbatim>\<open>instructions/harvest.rs\<close>.
  \<^item> \<^verbatim>\<open>Vow_Identity\<close>: \<^verbatim>\<open>instructions/vow/*.rs\<close>. \<^verbatim>\<open>Vow_Session\<close>:
    \<^verbatim>\<open>instructions/session/*.rs\<close> and \<^verbatim>\<open>instructions/authority_profile/*.rs\<close>.
    \<^verbatim>\<open>Vow_Treasury\<close>: \<^verbatim>\<open>instructions/treasury/*.rs\<close>. \<^verbatim>\<open>Vow_Pool\<close>:
    \<^verbatim>\<open>instructions/pool/*.rs\<close>. \<^verbatim>\<open>Vow_Admin\<close>: \<^verbatim>\<open>instructions/admin/*.rs\<close>.
    \<^verbatim>\<open>Vow_Commitment\<close>: \<^verbatim>\<open>instructions/commitment/*.rs\<close> and \<^verbatim>\<open>compression.rs\<close>. An
    instruction is the checks of its \<open>Accounts\<close> struct (\<open>..._accounts\<close>), its handler
    (\<open>..._handler\<close>) and their composition with the write-back of mutated accounts, named as
    in \<^verbatim>\<open>lib.rs\<close>. Each theory shows what its instructions do and that they are steps of
    the abstract protocol.
  \<^item> \<^verbatim>\<open>Vow_Program\<close>: \<^verbatim>\<open>lib.rs\<close>: the type of instructions, \<open>exec\<close>, and \<open>runs\<close>, which
    interleaves instructions with other programs, who may do anything to accounts that are not
    this program's. \<open>reachable\<close> starts from a ledger with no account of the program. The
    locale \<open>closing_invariant\<close> carries sessions, tiers and escrows over the closing too.
    \<^verbatim>\<open>Vow_History\<close> runs a concrete history for the witnesses.
  \<^item> \<^verbatim>\<open>Toml_Lexer\<close>, \<^verbatim>\<open>Toml_Datetime\<close>: \<^verbatim>\<open>patches/toml_datetime/src/datetime.rs\<close>,
    independent of the program: the lexer, \<open>FromStr\<close> and \<open>Display\<close>.
  \<^item> \<^verbatim>\<open>Block_Buffer\<close>, \<^verbatim>\<open>Read_Buffer\<close>: \<^verbatim>\<open>patches/block-buffer/src/*.rs\<close>, also on
    their own: buffers that cut a byte stream into blocks for a digest, and buffers that hand
    out a stream of blocks byte by byte. The trait of buffer kinds is a record of functions and
    its contract the locale \<open>buffer_kind_laws\<close>, which both kinds satisfy.
  \<^item> \<^verbatim>\<open>Blake3_Compress\<close>: \<^verbatim>\<open>patches/blake3/src/portable.rs\<close> and \<^verbatim>\<open>platform.rs\<close>, the
    compression function and the record \<open>platform\<close> of a back end, whose contract is the locale
    \<open>platform_laws\<close>. \<^verbatim>\<open>Blake3_Chunk\<close>: \<open>Output\<close> and \<open>ChunkState\<close> of \<^verbatim>\<open>lib.rs\<close>.
    \<^verbatim>\<open>Blake3_Tree\<close>: the tree, level by level, on any type of nodes. \<^verbatim>\<open>Blake3_Wide\<close>: hashing
    all at once. \<^verbatim>\<open>Blake3_Hasher\<close>: \<open>Hasher\<close>. \<^verbatim>\<open>Blake3_Reader\<close>: \<open>OutputReader\<close>, \<^verbatim>\<open>io.rs\<close> and
    \<^verbatim>\<open>guts.rs\<close>. \<^verbatim>\<open>Blake3_Hash\<close>: \<open>Hash\<close>. Debug assertions, slices out of range and full arrays
    are the result \<open>Panics\<close>.
  \<^item> \<^verbatim>\<open>Constant_Time\<close>: \<^verbatim>\<open>generic.rs\<close> and \<^verbatim>\<open>classic.rs\<close> of \<^verbatim>\<open>patches/constant_time_eq\<close>.
  \<^item> \<^verbatim>\<open>Swiss_Group\<close>, \<^verbatim>\<open>Swiss_Layout\<close>, \<^verbatim>\<open>Swiss_Probe\<close>: \<^verbatim>\<open>control/\<close> and the arithmetic of \<^verbatim>\<open>raw.rs\<close>
    in \<^verbatim>\<open>patches/hashbrown\<close>: tags, bit masks, groups of control bytes (a record of operations,
    with the locales \<open>group_laws\<close> and \<open>group_masks\<close> for their contract, interpreted on the
    generic, SSE2, NEON and LSX versions), sizes, and the probe sequence. \<^verbatim>\<open>Swiss_Table\<close> and
    \<^verbatim>\<open>Swiss_Resize\<close>: the operations of \<open>RawTable\<close> on the record \<open>raw_table\<close>, whose \<open>ctrl\<close> and
    \<open>slots\<close> are the memory behind the pointers. \<^verbatim>\<open>Swiss_Invariant\<close>, \<^verbatim>\<open>Swiss_Ops\<close> and
    \<^verbatim>\<open>Swiss_Update\<close>: the invariant, the searches, inserting and erasing. \<^verbatim>\<open>Swiss_Grow\<close> and
    \<^verbatim>\<open>Swiss_Move\<close>: allocation (locale \<open>raw_alloc\<close>, interpreted on the global allocator) and moving
    to a new table. \<^verbatim>\<open>Swiss_Rehash\<close>, \<^verbatim>\<open>Swiss_Place\<close> and \<^verbatim>\<open>Swiss_Reserve\<close>: rehashing in place.
    \<^verbatim>\<open>Swiss_Insert\<close>: reserving and inserting. \<^verbatim>\<open>Swiss_Map\<close>: \<open>HashMap\<close> of \<^verbatim>\<open>map.rs\<close> and the
    partial map it represents. \<^verbatim>\<open>Swiss_Entry\<close>: its entries, which stay with the key they
    were looked up for. \<^verbatim>\<open>Swiss_Iter\<close>: iterators, and what is built on them (folding, retaining,
    extracting, draining, equality). \<^verbatim>\<open>Swiss_Clone\<close>: cloning. \<^verbatim>\<open>Swiss_Claims\<close>: what follows
    for every reachable map.

  \<^bold>\<open>What is shown.\<close> In this theory: the totals of the configuration are the sums over
  identities and escrows in every ledger reachable without closing it; lamports are conserved; identities are
  permanent and their standing only grows; in every reachable ledger, the closing of the
  configuration included, classes follow principals, sessions stay within their limits, no
  instruction widens a grant, an open escrow parks its identity, and one that owes a positive
  amount can be completed when the reserve covers it; administration needs the admin; recordings do not repeat. In the component
  theories: the effect, the guards and the errors of the instructions, the fairness of
  harvests, the round trip of staking, the bounds and the fairness of payouts, exact account
  sizes. In the TOML theories: parse and print round trip, and the parser accepts valid values
  only. In the buffer theories: digesting in pieces is digesting at once, padding completes the
  message, reads hand out the stream in order, serialized forms round trip and are canonical,
  and none of it panics or touches uninitialised memory. In the BLAKE3 theories: the optimised
  evaluation, for every SIMD degree, and the incremental hasher, for every way to cut the input,
  compute the tree of the specification (\<open>tree_output\<close>) without panic; extended output is one
  stream from any position, up to its documented maximum of \<open>2 ^ 64 - 1\<close> bytes; hexadecimal round trips. Comparison in constant time is equality.
  In the table theories: the probe sequence covers the table, searches end and miss nothing,
  every operation keeps the invariant, growing keeps the elements and fails cleanly, rehashing in
  place drops exactly the pending elements when the hash function panics, and a hash map refines a
  partial map. One theorem
  shows a defect: blocks larger than asked for can overflow with groups of 16 bytes; another that
  cloning reads behind the block of the original with such blocks. Retaining filters the map, and
  with blocks of the requested size a clone equals its original.

  \<^bold>\<open>Assumptions on the environment\<close>, named where they are used: \<open>cpi_frame\<close> (the stake pool
  program writes no account of this program), \<open>pda_sound\<close> (the address found for seeds is the
  one created from seeds and bump) and \<open>pda_collision_free\<close> (distinct seeds give distinct
  addresses); \<open>demo_env\<close> satisfies all three. \<open>chunking\<close> says that \<open>slice_as_chunks\<close> of the
  crate \<^verbatim>\<open>hybrid-array\<close> cuts a slice into whole blocks and a shorter rest; the function
  \<open>chunks\<close> satisfies it. \<open>platform_laws\<close> says that a back end of BLAKE3 computes the portable
  functions and has a power of two as its SIMD degree; the portable back end satisfies it.
  \<open>raw_alloc\<close> says that an element has a layout as Rust guarantees it, and that an allocator
  returns blocks of the requested size, or with groups of at most 8 bytes larger ones below
  \<open>isize::MAX\<close>; \<open>hasher_ok\<close> that hashing an element panics or gives the same hash every time, and
  keys are compared by equality.
  Arithmetic that the build profile checks (\<open>overflow-checks\<close>) fails
  with \<open>Panicked\<close>. One function has fuel, the inner loop of rehashing in place: every round but
  the last turns a pending bucket into a full one, so the number of buckets and one is enough, and
  running out is shown not to happen. All other functions terminate.

  \<^bold>\<open>Not modelled.\<close> The rent-state check of the runtime after a transaction; the order in which
  Anchor reports several violated constraints of one struct; compute limits; the stake pool
  and token programs beyond the instructions sent to them. \<^verbatim>\<open>admin/initialize_tree.rs\<close> is in
  no module. Constants without use are left out. The TypeScript SDK and the front end only
  build the instructions modelled here. Of the crates under \<^verbatim>\<open>patches/\<close>, which serve the
  build toolchain, five are modelled; left out are the serde impls of date-times, the SIMD back
  ends and feature detection of BLAKE3 and of the constant-time comparison (intrinsics, assembly
  and C code), their timing, threads (\<open>rayon\<close>) and memory-mapped files, zeroizing on drop, and
  the other crates (ordered maps, CPU detection, generated Unicode tables, file-system
  lookups). Of \<^verbatim>\<open>hashbrown\<close>, pointers, dropping and freeing, panics of the closures given to \<open>retain\<close>
  and to entries, the splitting of iterators, sets, raw entries and the low-level \<open>HashTable\<close> are
  left out; \<open>usize\<close> has 64 bits and memory is little-endian. The chunk counters of hashing wrap at
  64 bits in the model where the build checks them; inputs of less than \<open>2 ^ 64\<close> bytes, and slices are
  shorter, do not reach that point. The counter and the position of extended output are checked.
\<close>

section \<open>The books balance\<close>

text \<open>
  C1: in every ledger the program can reach without closing the configuration, whatever
  other programs do in between, \<open>total_shares\<close> of the configuration is the sum of the
  shares of all identities. The restriction is needed: an admin who closes the configuration
  and initialises it anew resets its totals to 0, while the identities keep their shares.
\<close>

theorem total_shares_is_sum:
  assumes "cpi_frame E" and "reachable E keeps_config (\<lambda>_. True) s"
    and "lg_accts s k = Some (ConfigAcct c)"
  shows "unat (pc_total_shares c) = total_over un_vow (\<lambda>v. unat (vs_shares v)) (lg_accts s)"
  using shares.reachable_keeps [OF assms(1,2)] config_total assms(3)
  by (fastforce simp: shares_balanced_def)

theorem total_shares_is_sum_witness:
  "unat (pc_total_shares used_config) =
     total_over un_vow (\<lambda>v. unat (vs_shares v)) (lg_accts demo_used)"
  by (rule total_shares_is_sum [OF demo_cpi_frame demo_used_reachable, of 1])
    (simp add: demo_used_def)

text \<open>
  C2: in every ledger the program can reach without closing the configuration,
  \<open>total_pending_unstake\<close> is the sum of what the open escrows are owed. (Closing the
  configuration and initialising it anew sets the total to 0 and leaves the escrows.)
\<close>

theorem total_pending_is_sum:
  assumes "cpi_frame E" and "reachable E keeps_config (\<lambda>_. True) s"
    and "lg_accts s k = Some (ConfigAcct c)"
  shows "unat (pc_total_pending_unstake c) =
    total_over un_escrow (\<lambda>e. unat (ue_lamports_owed e)) (lg_accts s)"
  using pending.reachable_keeps [OF assms(1,2)] config_total assms(3)
  by (fastforce simp: pending_balanced_def)

theorem total_pending_is_sum_witness:
  "unat (pc_total_pending_unstake unstaking_config) =
     total_over un_escrow (\<lambda>e. unat (ue_lamports_owed e)) (lg_accts demo_unstaking)"
  by (rule total_pending_is_sum [OF demo_cpi_frame demo_unstaking_reachable, of 1])
    (simp add: demo_unstaking_def)

text \<open>
  C3: in every ledger the program can reach without closing the configuration and with the sum
  of all yield balances below the 64-bit maximum all along (additions of yield saturate),
  \<open>total_yield_claims\<close> is that sum.
\<close>

theorem total_yield_claims_is_sum:
  assumes "cpi_frame E" and "reachable E keeps_config yield_bounded s"
    and "lg_accts s k = Some (ConfigAcct c)"
  shows "unat (pc_total_yield_claims c) =
    total_over un_vow (\<lambda>v. unat (vs_yield_balance v)) (lg_accts s)"
  using exact_claims.reachable_keeps [OF assms(1,2)] config_total assms(3)
  by (fastforce simp: claims_exact_def)

theorem total_yield_claims_is_sum_witness:
  "unat (pc_total_yield_claims used_config) =
    total_over un_vow (\<lambda>v. unat (vs_yield_balance v)) (lg_accts demo_used)"
  by (rule total_yield_claims_is_sum [OF demo_cpi_frame demo_used_bounded, of 1])
    (simp add: demo_used_def)

text \<open>
  Even where yield saturates, the configuration never claims more than the identities
  hold, as long as it is not closed.
\<close>

theorem total_yield_claims_le_sum:
  assumes "cpi_frame E" and "reachable E keeps_config (\<lambda>_. True) s"
    and "lg_accts s k = Some (ConfigAcct c)"
  shows "unat (pc_total_yield_claims c) \<le>
    total_over un_vow (\<lambda>v. unat (vs_yield_balance v)) (lg_accts s)"
  using claims.reachable_keeps [OF assms(1,2)] config_total assms(3)
  by (fastforce simp: claims_covered_def)

theorem total_yield_claims_le_sum_witness:
  "unat (pc_total_yield_claims used_config) \<le>
    total_over un_vow (\<lambda>v. unat (vs_yield_balance v)) (lg_accts demo_used)"
  by (rule total_yield_claims_le_sum [OF demo_cpi_frame demo_used_reachable, of 1])
    (simp add: demo_used_def)

text \<open>
  C4: no instruction creates or destroys lamports: outside the two calls into the stake pool
  program, the sum of all balances is the same before and after.
\<close>

theorem lamports_conserved:
  assumes "exec E X ix s = Inr s'" and "\<not> is_pool_call ix"
  shows "sum_lamports s' = sum_lamports s"
  using assms by (rule exec_lamports)

theorem lamports_conserved_witness:
  "\<exists>s'. exec demo_env demo_tx (DevFastUnlock 1 6 4) demo_used = Inr s' \<and>
     sum_lamports s' = sum_lamports demo_used"
proof -
  obtain s' where "exec demo_env demo_tx (DevFastUnlock 1 6 4) demo_used = Inr s'"
    by (simp add: demo_exec demo_open demo_ledgers)
  with lamports_conserved [OF this] show ?thesis by auto
qed

section \<open>Identities are permanent\<close>

text \<open>
  C5: from any reachable ledger on, through any instructions (the closing of the
  configuration included) and any work of other programs, an identity stays at its address
  with its asset id, owner, nonce, birth date and first stake date, and what it has earned
  (commitments, fulfilments, stake days, best class, total harvest, session count) never
  decreases.
\<close>

theorem identity_is_permanent:
  assumes "cpi_frame E" and "pda_sound E" and "pda_collision_free E"
    and "reachable E allowed ok s" and "runs E allowed' ok' s s'"
    and "lg_accts s k = Some (VowAcct v)"
  shows "\<exists>v'. lg_accts s' k = Some (VowAcct v') \<and> identity_kept v v' \<and> standing_grows v v'"
  using runs_identities [OF assms(1-3,5) reachable_placed [OF assms(1,4)]] assms(6)
  by (auto simp: identities_persist_def)

theorem identity_is_permanent_witness:
  "\<exists>v'. lg_accts demo_unstaking 6 = Some (VowAcct v') \<and> identity_kept used_vow v' \<and>
     standing_grows used_vow v'"
  by (rule identity_is_permanent [OF demo_cpi_frame demo_pda_sound demo_pda_collision_free
        demo_used_reachable demo_runs_unstaking]) (simp add: demo_used_def)

text \<open>
  C6: in every reachable ledger, whatever instructions (the closing of the configuration
  included) led there, the class of every identity is the tier of its principal and at most
  its best class ever, which is one of the eight classes; so the lock table is never indexed
  out of range.
\<close>

theorem class_is_tier_of_principal:
  assumes "cpi_frame E" and "reachable E allowed ok s"
    and "lg_accts s k = Some (VowAcct v)"
  shows "class_for_stake (vs_principal_lamports v) = Inr (vs_class v) \<and>
    vs_class v \<le> vs_highest_class_ever v \<and> unat (vs_highest_class_ever v) \<le> 7 \<and>
    (\<exists>d. lock_duration (vs_class v) = Inr d)"
proof -
  have "tier_ok v" using all_tiers.always [OF assms(1,2)] assms(3) by (simp add: tiers_ok_def)
  moreover from this have "lock_duration (vs_class v) = Inr (LOCK_SECONDS ! unat (vs_class v))"
    by (intro lock_duration_Ok) (simp add: tier_ok_def)
  ultimately show ?thesis by (simp add: tier_ok_def word_le_nat_alt)
qed

theorem class_is_tier_of_principal_witness:
  "class_for_stake (vs_principal_lamports used_vow) = Inr (vs_class used_vow) \<and>
    vs_class used_vow \<le> vs_highest_class_ever used_vow \<and>
    unat (vs_highest_class_ever used_vow) \<le> 7 \<and>
    (\<exists>d. lock_duration (vs_class used_vow) = Inr d)"
  by (rule class_is_tier_of_principal [OF demo_cpi_frame demo_used_reachable, of 6])
    (simp add: demo_used_def)

section \<open>Sessions stay within their grant\<close>

text \<open>
  C7: every session of a reachable ledger, whatever instructions (the closing of the
  configuration included) led there, has a well-formed program list and has spent no more than
  its daily and lifetime limits and no more often than its velocity limit, where a limit of 0
  is none.
\<close>

theorem sessions_within_limits:
  assumes "cpi_frame E" and "reachable E allowed ok s"
    and "lg_accts s k = Some (SessionAcct a)"
  shows "session_account_wf a \<and>
    (0 < sa_daily_limit a \<longrightarrow> sa_spent_today a \<le> sa_daily_limit a) \<and>
    (0 < sa_lifetime_limit a \<longrightarrow> sa_spent_total a \<le> sa_lifetime_limit a) \<and>
    (0 < sa_velocity_limit a \<longrightarrow> sa_tx_count_today a \<le> sa_velocity_limit a)"
  using all_sessions.always [OF assms(1,2)] assms(3)
  by (simp add: sessions_ok_def within_limits_def)

theorem sessions_within_limits_witness:
  "session_account_wf used_session \<and>
    sa_spent_today used_session \<le> sa_daily_limit used_session \<and>
    sa_spent_total used_session \<le> sa_lifetime_limit used_session \<and>
    sa_tx_count_today used_session \<le> sa_velocity_limit used_session"
proof -
  have "lg_accts demo_used 8 = Some (SessionAcct used_session)" by (simp add: demo_used_def)
  from sessions_within_limits [OF demo_cpi_frame demo_used_reachable this] show ?thesis
    by (simp add: used_session_def)
qed

text \<open>
  C8: no instruction widens a grant. In a reachable ledger every instruction, the closing of
  the configuration included, either closes the session or leaves its identity, key, programs,
  limits and expiry as they were, does not re-activate it, and does not lower the amount it has
  spent.
\<close>

theorem grant_never_widened:
  assumes "cpi_frame E" and "pda_sound E" and "pda_collision_free E"
    and "reachable E allowed ok s" and "exec E X ix s = Inr s'"
    and "lg_accts s k = Some (SessionAcct a)"
  shows "lg_accts s' k = None \<or>
    (\<exists>a'. lg_accts s' k = Some (SessionAcct a') \<and> grant_kept a a' \<and>
       sa_spent_total a \<le> sa_spent_total a')"
  using assms(1,5)
proof (cases rule: exec_cases)
  case step
  from session_step [OF this assms(6)] show ?thesis by (simp add: word_le_nat_alt)
next
  case (closed ck b x)
  with config_address_free(2) [OF assms(2,3) reachable_placed [OF assms(1,4)] closed(1)] assms(6)
  show ?thesis by (auto simp: grant_kept_def)
qed

theorem grant_never_widened_witness:
  "\<exists>s'. exec demo_env demo_tx (DevFastUnlock 1 6 4) demo_used = Inr s' \<and>
     (lg_accts s' 8 = None \<or>
      (\<exists>a'. lg_accts s' 8 = Some (SessionAcct a') \<and> grant_kept used_session a' \<and>
         sa_spent_total used_session \<le> sa_spent_total a'))"
proof -
  obtain s' where "exec demo_env demo_tx (DevFastUnlock 1 6 4) demo_used = Inr s'"
    by (simp add: demo_exec demo_open demo_ledgers)
  with grant_never_widened [OF demo_cpi_frame demo_pda_sound demo_pda_collision_free
      demo_used_reachable this, of 8 used_session]
  show ?thesis by (simp add: demo_used_def)
qed

section \<open>Unstaking\<close>

text \<open>
  C9: in every reachable ledger, whatever instructions (the closing of the configuration
  included) led there, an open escrow's identity is there, belongs to the escrow's owner, still
  counts as active, and holds no shares: nothing is paid twice.
\<close>

theorem escrow_parks_identity:
  assumes "cpi_frame E" and "pda_sound E" and "pda_collision_free E"
    and "reachable E allowed ok s" and "lg_accts s k = Some (EscrowAcct e)"
  shows "\<exists>v. lg_accts s (ue_vow_state e) = Some (VowAcct v) \<and> vs_active_stake v \<and>
    vs_shares v = 0 \<and> vs_owner v = ue_owner e"
  using all_escrows.always [OF assms(1,4)] assms(2,3,5)
  by (fastforce simp: escrows_ok_def parked_def)

theorem escrow_parks_identity_witness:
  "\<exists>v. lg_accts demo_unstaking (ue_vow_state unstaking_escrow) = Some (VowAcct v) \<and>
    vs_active_stake v \<and> vs_shares v = 0 \<and> vs_owner v = ue_owner unstaking_escrow"
  by (rule escrow_parks_identity [OF demo_cpi_frame demo_pda_sound demo_pda_collision_free
        demo_unstaking_reachable, of 7]) (simp add: demo_unstaking_def)

text \<open>
  C18: an unstake that has begun can be completed. In every reachable ledger, whatever
  instructions led there, an escrow that owes a positive amount is paid in full: once its
  deactivation epoch is over, and while the reserve covers both the amount owed and all that the
  configuration counts as pending, the instruction signed by the owner (all accounts writable,
  the reserve address not an account of any program and other than the owner's, balances within
  64 bits) succeeds and gives the owner the amount owed and the escrow's rent. An escrow that owes
  0 is excluded: \<^verbatim>\<open>complete_unstake.rs\<close> rejects a payout of 0.
\<close>

theorem unstake_can_complete:
  assumes env: "cpi_frame E" "pda_sound E" "pda_collision_free E"
    and reach: "reachable E allowed ok s"
    and ck: "lg_accts s ck = Some (ConfigAcct c)" and ek: "lg_accts s ek = Some (EscrowAcct e)"
    and tx: "ue_deactivation_epoch e < tx_epoch X" "tx_is_signer X (ue_owner e)"
      "tx_is_writable X = (\<lambda>_. True)" "is_program s (en_system_program E) sp"
    and reserve: "pda_with_bump E reserve_seeds (pc_reserve_bump c) rk" "lg_accts s rk = None"
      "rk \<noteq> ue_owner e" "ek \<noteq> ue_owner e"
    and owed: "0 < ue_lamports_owed e" "ue_lamports_owed e \<le> lg_lamports s rk"
      "pc_total_pending_unstake c \<le> lg_lamports s rk"
    and fits: "unat (lg_lamports s (ue_owner e)) + unat (lg_lamports s ek) +
      unat (ue_lamports_owed e) < 2 ^ 64"
  shows "\<exists>s'. exec E X (CompleteUnstake ck (ue_vow_state e) ek rk (ue_owner e) sp
      (en_sysvar_clock E)) s = Inr s' \<and>
    unat (lg_lamports s' (ue_owner e)) =
      unat (lg_lamports s (ue_owner e)) + unat (ue_lamports_owed e) + unat (lg_lamports s ek)"
proof -
  have "escrows_ok (lg_accts s)" using all_escrows.always [OF env(1) reach] env(2,3) by blast
  with ek obtain v where vk: "lg_accts s (ue_vow_state e) = Some (VowAcct v)"
    and own: "vs_owner v = ue_owner e" unfolding escrows_ok_def by metis
  note pl = well_placedD [OF reachable_placed [OF env(1) reach]]
  have acc: "CompleteUnstake_accounts E X ck (ue_vow_state e) ek rk (ue_owner e) sp
      (en_sysvar_clock E) s = Inr (c, v, e)"
    using pl [OF ck] pl [OF ek] pl [OF vk] env(2) ck ek vk own tx reserve(1)
    by (simp add: CompleteUnstake_accounts_def res_simps pda_with_bump_def pda_sound_def load_def)
  from complete_unstake_succeeds [OF acc tx(1) reserve(2-4) owed fits] show ?thesis by simp
qed

theorem unstake_can_complete_witness:
  "\<exists>s'. exec demo_env (demo_tx\<lparr>tx_epoch := 501\<rparr>) (CompleteUnstake 1 6 7 2 4 3 33) demo_unstaking = Inr s' \<and>
     unat (lg_lamports s' 4) = unat (lg_lamports demo_unstaking 4) + 5800000000 + 890880"
proof -
  have "\<exists>s'. exec demo_env (demo_tx\<lparr>tx_epoch := 501\<rparr>) (CompleteUnstake 1
        (ue_vow_state unstaking_escrow) 7 2 (ue_owner unstaking_escrow) 3
        (en_sysvar_clock demo_env)) demo_unstaking = Inr s' \<and>
     unat (lg_lamports s' (ue_owner unstaking_escrow)) =
       unat (lg_lamports demo_unstaking (ue_owner unstaking_escrow)) +
       unat (ue_lamports_owed unstaking_escrow) + unat (lg_lamports demo_unstaking 7)"
    by (rule unstake_can_complete [OF demo_cpi_frame demo_pda_sound demo_pda_collision_free
          demo_unstaking_reachable, of 1 unstaking_config 7])
      (simp_all add: demo_unstaking_def unstaking_escrow_def unstaking_config_def used_config_def
         demo_eval is_program_def pda_with_bump_def)
  then show ?thesis by (simp add: unstaking_escrow_def demo_env_def demo_unstaking_def)
qed

section \<open>Administration and reputation\<close>

text \<open>
  C19: administration is the admin's. A successful administrative instruction, the closing of
  the configuration from its raw bytes included, was signed by the admin the configuration
  names, and the two developer shortcuts work only while no stake pool is configured.
\<close>

theorem admin_only:
  assumes "exec E X ix s = Inr s'" and "admin_of ix = Some (ck, ad)"
    and "lg_accts s ck = Some (ConfigAcct c)" and "length (en_discriminator E ''ProtocolConfig'') = 8"
  shows "ad = pc_admin c \<and> tx_is_signer X ad \<and>
    (is_dev_call ix \<longrightarrow> pc_spl_stake_pool c = default_pubkey)"
proof (cases "is_close_config ix")
  case True
  with assms(2) have "ix = CloseProtocolConfig ck ad" by (cases ix) auto
  with assms(1) have "close_protocol_config E X ck ad s = Inr s'" by simp
  then show ?thesis
    by (rule close_protocol_configE)
      (use config_admin_bytes [OF assms(3,4)] \<open>ix = _\<close> in simp)
next
  case False
  with assms show ?thesis
    by (cases ix) (auto simp: set_admin_def set_mint_counter_def dev_set_share_price_def
        dev_fast_unlock_def verify_app_def block_app_def AdminAppAction_accounts_def
        admin_config_def res_simps)
qed

theorem admin_only_witness:
  "\<exists>s'. exec demo_env demo_tx (SetAdmin 1 4 9) demo_live = Inr s' \<and> pc_admin demo_config = 4"
proof -
  obtain s' where x: "exec demo_env demo_tx (SetAdmin 1 4 9) demo_live = Inr s'"
    by (simp add: demo_exec set_admin_def admin_config_def)
  have "lg_accts demo_live 1 = Some (ConfigAcct demo_config)" by (simp add: demo_live_def)
  with admin_only [OF x, of 1 4 demo_config] x show ?thesis by (simp add: demo_env_def)
qed

text \<open>
  C20: reputation is recorded once. After a commitment or a fulfilment of an identity is
  recorded, the same recording fails ever after: through any instructions (the closing of the
  configuration included) and any work of other programs, whoever sends it and whatever gate
  address and payer are passed.
\<close>

theorem recorded_once:
  assumes "cpi_frame E" and "pda_sound E" and "pda_collision_free E"
    and "exec E X ix s = Inr s'" and "recording ix = Some d"
    and "runs E allowed ok s' s''" and "recording ix' = Some d"
  shows "\<exists>e. exec E X' ix' s'' = Inl e"
proof (cases "exec E X' ix' s''")
  case (Inr t)
  obtain b rk vk where d: "d = (b, rk, vk)" by (cases d)
  let ?seeds = "if b then cr_commit_seeds rk vk else cr_fulfill_seeds rk vk"
  from assms(4,5) obtain gk c
    where gk: "en_find_program_address E ?seeds (en_program_id E) = Some (gk, c)"
      "is_gate (lg_accts s' gk)"
    unfolding d by (rule recording_gate)
  have "is_gate (lg_accts s'' gk)"
    by (rule runs_gate [OF assms(1-3,6) gk(1) _ gk(2)]) auto
  moreover from Inr assms(7) obtain gk' c'
    where "en_find_program_address E ?seeds (en_program_id E) = Some (gk', c')"
      "lg_accts s'' gk' = None"
    unfolding d by (rule recording_gate)
  ultimately show ?thesis using gk(1) by simp
qed simp

lemmas demo_recording =
  record_commitment_def RecordCommitment_accounts_def commitment_record_account_def
  record_commitment_handler_def compute_score_def lock_duration_def LOCK_SECONDS_def
  zero_commitment_record_def

theorem recorded_once_witness:
  "\<exists>s' e. exec demo_env demo_tx (RecordCommitment 10 6 11 4 3) demo_live = Inr s' \<and>
     exec demo_env demo_tx (RecordCommitment 10 6 11 22 3) s' = Inl e"
proof -
  obtain s' where x: "exec demo_env demo_tx (RecordCommitment 10 6 11 4 3) demo_live = Inr s'"
    by (simp add: demo_exec demo_recording)
  from recorded_once [OF demo_cpi_frame demo_pda_sound demo_pda_collision_free x _ runs.start,
      of _ "RecordCommitment 10 6 11 22 3" demo_tx] x
  show ?thesis by auto
qed

end
